(* ===== verification/Kern_Prelude.thy ===== *)
theory Kern_Prelude
  imports Main "HOL-Library.Word" "HOL-Library.Monad_Syntax"
begin

text \<open>
  Shared vocabulary of the development: the kernel's error numbers and limits, the machine
  types, the shape of a kernel function, and the generic lemmas on lists, maps and words that
  the component theories rely on.

  A kernel function is a HOL function from a state to \<open>('a \<times> 'state) option\<close>.
  \<open>None\<close> stands for a call that does not come back to its caller: a failed
  \<^verbatim>\<open>KASSERT\<close>, a call of \<^verbatim>\<open>panic\<close>, an access through a null or stale pointer, or a wait for
  a lock nobody can release. An error number is a value of the result: \<open>Inl e\<close> is
  the C function returning \<open>e\<close>, \<open>Inr v\<close> is the C function returning 0 and
  storing \<open>v\<close> through its out parameters.
\<close>

named_theorems kern_defs \<open>definitions of kernel operations, for unfolding\<close>
named_theorems kern_simps \<open>equations of kernel operations that hold in well-formed states\<close>

section \<open>Error numbers (kern/include/kern/errno.h)\<close>

datatype errno =
    ENOSYS | ENOMEM | EAGAIN | EINTR | EFAULT | ENAMETOOLONG | EINVAL | EPERM | EACCES
  | EMPROC | ENPROC | ENOEXEC | E2BIG | ESRCH | ECHILD | ENOTDIR | EISDIR | ENOENT | ELOOP
  | ENOTEMPTY | EEXIST | EMLINK | EXDEV | ENODEV | ENXIO | EBUSY | EMFILE | ENFILE | EBADF
  | EIOCTL | EIO | ESPIPE | EPIPE | EROFS | ENOSPC | EDQUOT | EFBIG | EFTYPE | EDOM | ERANGE

primrec errno_code :: "errno \<Rightarrow> nat" where
  "errno_code ENOSYS = 1"
| "errno_code ENOMEM = 3"
| "errno_code EAGAIN = 4"
| "errno_code EINTR = 5"
| "errno_code EFAULT = 6"
| "errno_code ENAMETOOLONG = 7"
| "errno_code EINVAL = 8"
| "errno_code EPERM = 9"
| "errno_code EACCES = 10"
| "errno_code EMPROC = 11"
| "errno_code ENPROC = 12"
| "errno_code ENOEXEC = 13"
| "errno_code E2BIG = 14"
| "errno_code ESRCH = 15"
| "errno_code ECHILD = 16"
| "errno_code ENOTDIR = 17"
| "errno_code EISDIR = 18"
| "errno_code ENOENT = 19"
| "errno_code ELOOP = 20"
| "errno_code ENOTEMPTY = 21"
| "errno_code EEXIST = 22"
| "errno_code EMLINK = 23"
| "errno_code EXDEV = 24"
| "errno_code ENODEV = 25"
| "errno_code ENXIO = 26"
| "errno_code EBUSY = 27"
| "errno_code EMFILE = 28"
| "errno_code ENFILE = 29"
| "errno_code EBADF = 30"
| "errno_code EIOCTL = 31"
| "errno_code EIO = 32"
| "errno_code ESPIPE = 33"
| "errno_code EPIPE = 34"
| "errno_code EROFS = 35"
| "errno_code ENOSPC = 36"
| "errno_code EDQUOT = 37"
| "errno_code EFBIG = 38"
| "errno_code EFTYPE = 39"
| "errno_code EDOM = 40"
| "errno_code ERANGE = 41"

section \<open>Machine types and limits\<close>

type_synonym byte = "8 word"
type_synonym u32 = "32 word"
type_synonym u64 = "64 word"
type_synonym vaddr = "32 word"

text \<open>The limits of kern/include/kern/limits.h under the names of kern/include/limits.h.\<close>

definition NAME_MAX :: nat where "NAME_MAX = 255"
definition PATH_MAX :: nat where "PATH_MAX = 1024"
definition KARG_MAX :: nat where "KARG_MAX = 4 * 1024"
definition PID_MIN :: nat where "PID_MIN = 2"
definition PID_MAX :: nat where "PID_MAX = 32767"
definition OPEN_MAX :: nat where "OPEN_MAX = 32"

lemmas limits_defs = NAME_MAX_def PATH_MAX_def KARG_MAX_def PID_MIN_def PID_MAX_def OPEN_MAX_def

text \<open>Taking a step of a kernel function that returned.\<close>

lemma bindE:
  assumes "do { x \<leftarrow> m; f x } = Some y"
  obtains x where "m = Some x" "f x = Some y"
  using assms by (auto simp: bind_eq_Some_conv)

text \<open>\<^verbatim>\<open>KASSERT\<close> of kern/include/lib.h.\<close>

definition kassert :: "bool \<Rightarrow> unit option" where
  "kassert b = (if b then Some () else None)"

lemma kassert_True [simp]: "kassert True = Some ()"
  by (simp add: kassert_def)

lemma kassert_False [simp]: "kassert False = None"
  by (simp add: kassert_def)

lemma kassert_Some_iff [simp]: "kassert b = Some u \<longleftrightarrow> b"
  by (simp add: kassert_def)

section \<open>Scanning a table for its first free slot\<close>

text \<open>
  The loops \<^verbatim>\<open>for (i = 0; i < N; i++) if (p(tab[i])) { found = i; break; }\<close> that recur in
  the kernel: the index of the first entry that satisfies the test.
\<close>

fun first_index :: "('a \<Rightarrow> bool) \<Rightarrow> 'a list \<Rightarrow> nat option" where
  "first_index p [] = None"
| "first_index p (x # xs) = (if p x then Some 0 else map_option Suc (first_index p xs))"

lemma first_index_None_iff: "first_index p xs = None \<longleftrightarrow> (\<forall>x\<in>set xs. \<not> p x)"
  by (induction xs) auto

lemma first_index_SomeD:
  "first_index p xs = Some i \<Longrightarrow> i < length xs \<and> p (xs ! i) \<and> (\<forall>j<i. \<not> p (xs ! j))"
proof (induction xs arbitrary: i)
  case Nil
  then show ?case by simp
next
  case (Cons x xs)
  show ?case
  proof (cases "p x")
    case True
    with Cons.prems show ?thesis by simp
  next
    case False
    with Cons.prems obtain k where k: "first_index p xs = Some k" "i = Suc k"
      by auto
    with Cons.IH [of k] False show ?thesis
      by (auto simp: nth_Cons split: nat.splits)
  qed
qed

lemma first_index_less: "first_index p xs = Some i \<Longrightarrow> i < length xs"
  by (blast dest: first_index_SomeD)

lemma first_index_holds: "first_index p xs = Some i \<Longrightarrow> p (xs ! i)"
  by (blast dest: first_index_SomeD)

lemma first_index_append:
  "\<forall>x\<in>set xs. \<not> p x \<Longrightarrow> ys \<noteq> [] \<Longrightarrow> p (hd ys) \<Longrightarrow> first_index p (xs @ ys) = Some (length xs)"
  by (induction xs) (auto simp: neq_Nil_conv)

section \<open>Counting occurrences\<close>

lemma count_list_nth_pos: "i < length xs \<Longrightarrow> 0 < count_list xs (xs ! i)"
  by (metis count_list_0_iff gr0I nth_mem)

lemma count_list_update:
  "i < length xs \<Longrightarrow>
   count_list (xs[i := y]) z + (if xs ! i = z then 1 else 0)
     = count_list xs z + (if y = z then 1 else 0)"
proof (induction xs arbitrary: i)
  case Nil
  then show ?case by simp
next
  case (Cons x xs)
  show ?case
  proof (cases i)
    case 0
    then show ?thesis by simp
  next
    case (Suc k)
    with Cons.IH [of k] Cons.prems show ?thesis by (auto split: if_splits)
  qed
qed

lemma count_list_replicate [simp]:
  "count_list (replicate n x) y = (if x = y then n else 0)"
  by (induction n) auto

lemma count_list_append [simp]:
  "count_list (xs @ ys) y = count_list xs y + count_list ys y"
  by (induction xs) auto

section \<open>Words\<close>

lemma unat_u32_less: "unat (w :: u32) < 2 ^ 32"
  using unsigned_less [of w, where 'a = nat] by simp

lemma unat_u32_le: "unat (w :: u32) \<le> 2 ^ 32"
  using unat_u32_less [of w] by simp

lemma unat_plus_of_nat_less:
  fixes a :: "'a::len word"
  assumes "unat a + n < 2 ^ LENGTH('a)"
  shows "unat (a + of_nat n) = unat a + n"
proof -
  have "n < 2 ^ LENGTH('a)" using assms by simp
  then have "unat (of_nat n :: 'a word) = n"
    by (simp add: unat_of_nat)
  with assms show ?thesis by (simp add: unat_word_ariths)
qed

lemma of_nat_word_inj:
  fixes m n :: nat
  assumes "m < 2 ^ LENGTH('a::len)" "n < 2 ^ LENGTH('a)" "(of_nat m :: 'a word) = of_nat n"
  shows "m = n"
proof -
  from assms(3) have "unat (of_nat m :: 'a word) = unat (of_nat n :: 'a word)" by simp
  with assms(1,2) show ?thesis by (simp add: unat_of_nat)
qed

end
