(* ===== verification/Kmem.thy ===== *)
theory Kmem
  imports Kern_Prelude
begin

text \<open>
  Memory and the block operations of common/libc/string: \<^verbatim>\<open>memcpy\<close>, \<^verbatim>\<open>memmove\<close>,
  \<^verbatim>\<open>bzero\<close> and \<^verbatim>\<open>memset\<close>.

  A memory maps each 32-bit virtual address to its byte, or to \<open>None\<close> where no page is
  mapped. User space and kernel space are parts of the same memory, as on the MIPS. A block
  operation returns whether it completed, and the memory it left behind: an access to an
  unmapped address stops it with the bytes written so far in place.
\<close>

type_synonym mem = "vaddr \<Rightarrow> byte option"

section \<open>Definitions\<close>

fun read_bytes :: "nat \<Rightarrow> vaddr \<Rightarrow> mem \<Rightarrow> byte list option" where
  "read_bytes 0 a m = Some []"
| "read_bytes (Suc n) a m =
     (case m a of None \<Rightarrow> None | Some b \<Rightarrow> map_option ((#) b) (read_bytes n (a + 1) m))"

fun write_bytes :: "vaddr \<Rightarrow> byte list \<Rightarrow> mem \<Rightarrow> mem option" where
  "write_bytes a [] m = Some m"
| "write_bytes a (b # bs) m =
     (case m a of None \<Rightarrow> None | Some _ \<Rightarrow> write_bytes (a + 1) bs (m(a \<mapsto> b)))"

text \<open>The size of a \<^verbatim>\<open>long\<close>, the unit of the word-at-a-time loops.\<close>

definition sizeof_long :: nat where "sizeof_long = 4"

text \<open>One unit of \<open>k\<close> bytes moved: \<^verbatim>\<open>d[i] = s[i]\<close>.\<close>

definition copy_unit :: "nat \<Rightarrow> vaddr \<Rightarrow> vaddr \<Rightarrow> mem \<Rightarrow> mem option" where
  "copy_unit k d s m = (case read_bytes k s m of None \<Rightarrow> None | Some bs \<Rightarrow> write_bytes d bs m)"

fun copy_fwd :: "nat \<Rightarrow> nat \<Rightarrow> vaddr \<Rightarrow> vaddr \<Rightarrow> mem \<Rightarrow> bool \<times> mem" where
  "copy_fwd k 0 d s m = (True, m)"
| "copy_fwd k (Suc n) d s m =
     (case copy_unit k d s m of
        None \<Rightarrow> (False, m)
      | Some m' \<Rightarrow> copy_fwd k n (d + of_nat k) (s + of_nat k) m')"

fun copy_bwd :: "nat \<Rightarrow> nat \<Rightarrow> vaddr \<Rightarrow> vaddr \<Rightarrow> mem \<Rightarrow> bool \<times> mem" where
  "copy_bwd k 0 d s m = (True, m)"
| "copy_bwd k (Suc n) d s m =
     (case copy_unit k (d + of_nat (k * n)) (s + of_nat (k * n)) m of
        None \<Rightarrow> (False, m)
      | Some m' \<Rightarrow> copy_bwd k n d s m')"

definition word_aligned :: "vaddr \<Rightarrow> bool" where
  "word_aligned a \<longleftrightarrow> unat a mod sizeof_long = 0"

definition memcpy :: "vaddr \<Rightarrow> vaddr \<Rightarrow> nat \<Rightarrow> mem \<Rightarrow> bool \<times> mem" where
  "memcpy dst src len m =
     (if word_aligned dst \<and> word_aligned src \<and> len mod sizeof_long = 0
      then copy_fwd sizeof_long (len div sizeof_long) dst src m
      else copy_fwd 1 len dst src m)"

definition memmove :: "vaddr \<Rightarrow> vaddr \<Rightarrow> nat \<Rightarrow> mem \<Rightarrow> bool \<times> mem" where
  "memmove dst src len m =
     (if unat dst < unat src then memcpy dst src len m
      else if word_aligned dst \<and> word_aligned src \<and> len mod sizeof_long = 0
      then copy_bwd sizeof_long (len div sizeof_long) dst src m
      else copy_bwd 1 len dst src m)"

fun set_units :: "byte list \<Rightarrow> nat \<Rightarrow> vaddr \<Rightarrow> mem \<Rightarrow> bool \<times> mem" where
  "set_units bs 0 d m = (True, m)"
| "set_units bs (Suc n) d m =
     (case write_bytes d bs m of
        None \<Rightarrow> (False, m)
      | Some m' \<Rightarrow> set_units bs n (d + of_nat (length bs)) m')"

definition bzero :: "vaddr \<Rightarrow> nat \<Rightarrow> mem \<Rightarrow> bool \<times> mem" where
  "bzero block len m =
     (if word_aligned block \<and> len mod sizeof_long = 0
      then set_units (replicate sizeof_long 0) (len div sizeof_long) block m
      else set_units [0] len block m)"

definition memset :: "vaddr \<Rightarrow> int \<Rightarrow> nat \<Rightarrow> mem \<Rightarrow> bool \<times> mem" where
  "memset ptr ch len m = set_units [of_int ch] len ptr m"

section \<open>Regions and block reads and writes\<close>

text \<open>The \<open>n\<close> addresses from \<open>a\<close> on, and that all of them are mapped.\<close>

definition region :: "vaddr \<Rightarrow> nat \<Rightarrow> vaddr set" where
  "region a n = (\<lambda>i. a + of_nat i) ` {0..<n}"

definition mapped :: "vaddr \<Rightarrow> nat \<Rightarrow> mem \<Rightarrow> bool" where
  "mapped a n m \<longleftrightarrow> region a n \<subseteq> dom m"

text \<open>\<open>m'\<close> is \<open>m\<close> with the \<open>n\<close> bytes at \<open>s\<close> in \<open>m\<close> copied to \<open>d\<close>.\<close>

definition copied :: "vaddr \<Rightarrow> vaddr \<Rightarrow> nat \<Rightarrow> mem \<Rightarrow> mem \<Rightarrow> bool" where
  "copied d s n m m' \<longleftrightarrow>
     (\<forall>i<n. m' (d + of_nat i) = m (s + of_nat i)) \<and> (\<forall>a. a \<notin> region d n \<longrightarrow> m' a = m a)"

lemma region_mem [intro, simp]: "i < n \<Longrightarrow> a + of_nat i \<in> region a n"
  by (auto simp: region_def)

lemma region_0 [simp]: "region a 0 = {}"
  by (simp add: region_def)

lemma region_add: "region a (n + k) = region a n \<union> region (a + of_nat n) k"
proof -
  have "{0..<n + k} = {0..<n} \<union> (+) n ` {0..<k}"
    by auto
  then have "region a (n + k) = (\<lambda>i. a + of_nat i) ` ({0..<n} \<union> (+) n ` {0..<k})"
    by (simp only: region_def)
  also have "\<dots> = region a n \<union> (\<lambda>i. a + of_nat (n + i)) ` {0..<k}"
    by (simp only: image_Un image_image region_def)
  finally show ?thesis by (simp add: region_def add.assoc)
qed

lemma region_Suc: "region a (Suc n) = insert a (region (a + 1) n)"
  using region_add [of a 1 n] by (simp add: region_def)

lemma region_snoc: "region a (Suc n) = insert (a + of_nat n) (region a n)"
  using region_add [of a n 1] by (simp add: region_def)

lemma mapped_0 [simp]: "mapped a 0 m"
  by (simp add: mapped_def)

lemma mapped_Suc: "mapped a (Suc n) m \<longleftrightarrow> m a \<noteq> None \<and> mapped (a + 1) n m"
  by (auto simp: mapped_def region_Suc)

lemma mapped_add: "mapped a (n + k) m \<longleftrightarrow> mapped a n m \<and> mapped (a + of_nat n) k m"
  by (simp add: mapped_def region_add)

lemma mappedD: "mapped a n m \<Longrightarrow> i < n \<Longrightarrow> m (a + of_nat i) \<noteq> None"
  using region_mem [of i n a] by (auto simp: mapped_def simp del: region_mem)

lemma mapped_mono: "mapped a n m \<Longrightarrow> dom m \<subseteq> dom m' \<Longrightarrow> mapped a n m'"
  by (auto simp: mapped_def)

lemma offset_eq_iff:
  "i < 2 ^ 32 \<Longrightarrow> j < 2 ^ 32 \<Longrightarrow> (a::vaddr) + of_nat i = a + of_nat j \<longleftrightarrow> i = j"
  by (auto dest: of_nat_word_inj [where 'a = 32, rotated 2])

lemma head_notin_region: "Suc n \<le> 2 ^ 32 \<Longrightarrow> a \<notin> region (a + 1) n"
proof
  assume n: "Suc n \<le> 2 ^ 32" and "a \<in> region (a + 1) n"
  then obtain i where i: "i < n" "a = a + of_nat (Suc i)"
    by (auto simp: region_def)
  with n have "(of_nat 0 :: vaddr) = of_nat (Suc i)" by simp
  then have "0 = Suc i" by (rule of_nat_word_inj [rotated 2]) (use n i in simp_all)
  then show False by simp
qed

lemma offset_notin_region:
  assumes "n + k \<le> 2 ^ 32" "i < n"
  shows "a + of_nat i \<notin> region (a + of_nat n) k"
proof
  assume "a + of_nat i \<in> region (a + of_nat n) k"
  then obtain j where j: "j < k" "a + of_nat i = a + of_nat (n + j)"
    by (auto simp: region_def add.assoc)
  with assms have "i = n + j" by (simp only: offset_eq_iff [of i "n + j" a])
  with assms show False by simp
qed

lemma read_bytes_Some_iff:
  "read_bytes n a m = Some bs \<longleftrightarrow> length bs = n \<and> (\<forall>i<n. m (a + of_nat i) = Some (bs ! i))"
proof (induction n arbitrary: a bs)
  case 0
  then show ?case by auto
next
  case (Suc n)
  show ?case
    by (cases bs)
      (auto simp: Suc.IH less_Suc_eq_0_disj nth_Cons' add.assoc [symmetric] split: option.splits)
qed

lemma read_bytes_mapped: "mapped a n m \<Longrightarrow> \<exists>bs. read_bytes n a m = Some bs"
proof (induction n arbitrary: a)
  case (Suc n)
  from Suc.prems obtain b where "m a = Some b" and n: "mapped (a + 1) n m"
    by (auto simp: mapped_Suc)
  moreover from Suc.IH [OF n] obtain bs where "read_bytes n (a + 1) m = Some bs" ..
  ultimately show ?case by simp
qed simp

lemma read_bytes_length: "read_bytes n a m = Some bs \<Longrightarrow> length bs = n"
  by (simp add: read_bytes_Some_iff)

lemma write_bytes_spec:
  "mapped d (length bs) m \<Longrightarrow> length bs \<le> 2 ^ 32 \<Longrightarrow>
   \<exists>m'. write_bytes d bs m = Some m' \<and> (\<forall>i<length bs. m' (d + of_nat i) = Some (bs ! i)) \<and>
     (\<forall>a. a \<notin> region d (length bs) \<longrightarrow> m' a = m a)"
proof (induction bs arbitrary: d m)
  case Nil
  then show ?case by simp
next
  case (Cons b bs)
  from Cons.prems have d: "m d \<noteq> None" and "mapped (d + 1) (length bs) m"
    by (simp_all add: mapped_Suc)
  then have "mapped (d + 1) (length bs) (m(d \<mapsto> b))"
    by (rule_tac mapped_mono) auto
  moreover have "length bs \<le> 2 ^ 32" using Cons.prems by simp
  ultimately obtain m' where m':
    "write_bytes (d + 1) bs (m(d \<mapsto> b)) = Some m'"
    "\<forall>i<length bs. m' (d + 1 + of_nat i) = Some (bs ! i)"
    "\<forall>a. a \<notin> region (d + 1) (length bs) \<longrightarrow> m' a = (m(d \<mapsto> b)) a"
    using Cons.IH by blast
  have "d \<notin> region (d + 1) (length bs)"
    using Cons.prems by (intro head_notin_region) simp
  with m' d show ?case
    by (auto simp: region_Suc less_Suc_eq_0_disj add.assoc)
qed

lemma write_bytes_dom: "write_bytes d bs m = Some m' \<Longrightarrow> dom m' = dom m"
  by (induction bs arbitrary: d m) (force split: option.splits)+

section \<open>The copy loops move a block\<close>

lemma copy_unit_spec:
  assumes "mapped s k m" "mapped d k m" "k \<le> 2 ^ 32"
  shows "\<exists>m'. copy_unit k d s m = Some m' \<and> copied d s k m m' \<and> dom m' = dom m"
proof -
  from assms(1) obtain bs where bs: "read_bytes k s m = Some bs" by (blast dest: read_bytes_mapped)
  then have bs': "length bs = k" "\<forall>i<k. m (s + of_nat i) = Some (bs ! i)"
    by (simp_all add: read_bytes_Some_iff)
  with assms write_bytes_spec [of d bs m] obtain m' where
    "write_bytes d bs m = Some m'" "\<forall>i<k. m' (d + of_nat i) = Some (bs ! i)"
    "\<forall>a. a \<notin> region d k \<longrightarrow> m' a = m a" by auto
  with bs bs' show ?thesis by (auto simp: copy_unit_def copied_def write_bytes_dom)
qed

text \<open>Two copies of neighbouring blocks make one copy of the whole.\<close>

lemma copied_append:
  assumes "copied d s n m m1" "copied (d + of_nat n) (s + of_nat n) k m1 m2" "n + k \<le> 2 ^ 32"
    and clean: "\<And>j. j < k \<Longrightarrow> s + of_nat n + of_nat j \<notin> region d n"
  shows "copied d s (n + k) m m2"
  unfolding copied_def
proof (intro conjI allI impI)
  fix i assume i: "i < n + k"
  show "m2 (d + of_nat i) = m (s + of_nat i)"
  proof (cases "i < n")
    case True
    with assms show ?thesis by (simp add: copied_def offset_notin_region)
  next
    case False
    then obtain j where j: "i = n + j" "j < k" using i by (metis add_less_cancel_left le_Suc_ex not_less)
    with assms(2) have "m2 (d + of_nat i) = m1 (s + of_nat n + of_nat j)"
      by (simp add: copied_def add.assoc)
    also have "\<dots> = m (s + of_nat n + of_nat j)"
      using assms(1) clean [OF j(2)] by (simp add: copied_def)
    finally show ?thesis using j by (simp add: add.assoc)
  qed
qed (use assms in \<open>auto simp: copied_def region_add\<close>)

lemma copied_prepend:
  assumes "copied (d + of_nat n) (s + of_nat n) k m m1" "copied d s n m1 m2" "n + k \<le> 2 ^ 32"
    and clean: "\<And>i. i < n \<Longrightarrow> s + of_nat i \<notin> region (d + of_nat n) k"
    and sep: "\<And>j. j < k \<Longrightarrow> d + of_nat n + of_nat j \<notin> region d n"
  shows "copied d s (n + k) m m2"
  unfolding copied_def
proof (intro conjI allI impI)
  fix i assume i: "i < n + k"
  show "m2 (d + of_nat i) = m (s + of_nat i)"
  proof (cases "i < n")
    case True
    with assms show ?thesis by (simp add: copied_def)
  next
    case False
    then obtain j where j: "i = n + j" "j < k" using i by (metis add_less_cancel_left le_Suc_ex not_less)
    with assms(2) sep [OF j(2)] have "m2 (d + of_nat i) = m1 (d + of_nat n + of_nat j)"
      by (simp add: copied_def add.assoc)
    with assms(1) j show ?thesis by (simp add: copied_def add.assoc)
  qed
qed (use assms in \<open>auto simp: copied_def region_add\<close>)

text \<open>
  A forward copy is right when no unit of the destination lies above the source unit it
  overwrites, a backward copy when none lies below it.
\<close>

definition fwd_safe :: "nat \<Rightarrow> nat \<Rightarrow> vaddr \<Rightarrow> vaddr \<Rightarrow> bool" where
  "fwd_safe k n d s \<longleftrightarrow>
     (\<forall>i<n. \<forall>j<n. d + of_nat i = s + of_nat j \<longrightarrow> j div k \<le> i div k)"

definition bwd_safe :: "nat \<Rightarrow> nat \<Rightarrow> vaddr \<Rightarrow> vaddr \<Rightarrow> bool" where
  "bwd_safe k n d s \<longleftrightarrow>
     (\<forall>i<n. \<forall>j<n. d + of_nat i = s + of_nat j \<longrightarrow> i div k \<le> j div k)"

lemma copy_fwd_spec:
  assumes "0 < k"
  shows "mapped s (k * n) m \<Longrightarrow> mapped d (k * n) m \<Longrightarrow> k * n \<le> 2 ^ 32 \<Longrightarrow>
    fwd_safe k (k * n) d s \<Longrightarrow>
    \<exists>m'. copy_fwd k n d s m = (True, m') \<and> copied d s (k * n) m m' \<and> dom m' = dom m"
proof (induction n arbitrary: d s m)
  case 0
  then show ?case by (simp add: copied_def)
next
  case (Suc n)
  let ?d = "d + of_nat k" and ?s = "s + of_nat k"
  have split: "k * Suc n = k + k * n" by simp
  from Suc.prems have m0: "mapped s k m" "mapped d k m" "mapped ?s (k * n) m" "mapped ?d (k * n) m"
    unfolding split mapped_add by simp_all
  moreover have k: "k \<le> 2 ^ 32" using Suc.prems(3) unfolding split by simp
  ultimately obtain m1 where m1: "copy_unit k d s m = Some m1" "copied d s k m m1" "dom m1 = dom m"
    using copy_unit_spec by blast
  have safe: "\<And>i j. i < k + k * n \<Longrightarrow> j < k + k * n \<Longrightarrow> d + of_nat i = s + of_nat j \<Longrightarrow> j div k \<le> i div k"
    using Suc.prems(4) unfolding split fwd_safe_def by blast
  have "fwd_safe k (k * n) ?d ?s"
    unfolding fwd_safe_def
  proof (intro allI impI)
    fix i j assume ij: "i < k * n" "j < k * n" "?d + of_nat i = ?s + of_nat j"
    then have "(k + j) div k \<le> (k + i) div k" by (intro safe) (simp_all add: add.assoc)
    then show "j div k \<le> i div k" using assms by (simp add: div_add_self1)
  qed
  moreover have "mapped ?s (k * n) m1" "mapped ?d (k * n) m1"
    using m0 m1(3) by (simp_all add: mapped_def)
  ultimately obtain m2 where m2: "copy_fwd k n ?d ?s m1 = (True, m2)"
    "copied ?d ?s (k * n) m1 m2" "dom m2 = dom m1"
    using Suc.IH [of ?s m1 ?d] Suc.prems(3) unfolding split by auto
  have "copied d s (k + k * n) m m2"
  proof (rule copied_append [OF m1(2) m2(2)])
    fix j assume j: "j < k * n"
    show "?s + of_nat j \<notin> region d k"
    proof
      assume "?s + of_nat j \<in> region d k"
      then obtain i where i: "i < k" "d + of_nat i = s + of_nat (k + j)"
        by (auto simp: region_def add.assoc)
      with j have "(k + j) div k \<le> i div k" by (intro safe) simp_all
      with i assms show False by (simp add: div_add_self1)
    qed
  qed (use Suc.prems(3) split in simp)
  with m1 m2 show ?case unfolding split by simp
qed

lemma copy_bwd_spec:
  assumes "0 < k"
  shows "mapped s (k * n) m \<Longrightarrow> mapped d (k * n) m \<Longrightarrow> k * n \<le> 2 ^ 32 \<Longrightarrow>
    bwd_safe k (k * n) d s \<Longrightarrow>
    \<exists>m'. copy_bwd k n d s m = (True, m') \<and> copied d s (k * n) m m' \<and> dom m' = dom m"
proof (induction n arbitrary: m)
  case 0
  then show ?case by (simp add: copied_def)
next
  case (Suc n)
  let ?d = "d + of_nat (k * n)" and ?s = "s + of_nat (k * n)"
  have split: "k * Suc n = k * n + k" by simp
  from Suc.prems have m0: "mapped ?s k m" "mapped ?d k m" "mapped s (k * n) m" "mapped d (k * n) m"
    unfolding split mapped_add by simp_all
  moreover have "k \<le> 2 ^ 32" using Suc.prems(3) unfolding split by simp
  ultimately obtain m1 where m1: "copy_unit k ?d ?s m = Some m1" "copied ?d ?s k m m1" "dom m1 = dom m"
    using copy_unit_spec by blast
  have safe: "\<And>i j. i < k * n + k \<Longrightarrow> j < k * n + k \<Longrightarrow> d + of_nat i = s + of_nat j \<Longrightarrow> i div k \<le> j div k"
    using Suc.prems(4) unfolding split bwd_safe_def by blast
  then have "bwd_safe k (k * n) d s" unfolding bwd_safe_def by simp
  moreover have "mapped s (k * n) m1" "mapped d (k * n) m1"
    using m0 m1(3) by (simp_all add: mapped_def)
  ultimately obtain m2 where m2: "copy_bwd k n d s m1 = (True, m2)"
    "copied d s (k * n) m1 m2" "dom m2 = dom m1"
    using Suc.IH [of m1] Suc.prems(3) unfolding split by auto
  have "copied d s (k * n + k) m m2"
  proof (rule copied_prepend [OF m1(2) m2(2)])
    fix i assume i: "i < k * n"
    show "s + of_nat i \<notin> region ?d k"
    proof
      assume "s + of_nat i \<in> region ?d k"
      then obtain j where j: "j < k" "d + of_nat (k * n + j) = s + of_nat i"
        by (auto simp: region_def add.assoc)
      with i have "(k * n + j) div k \<le> i div k" by (intro safe) simp_all
      moreover have "(k * n + j) div k = n" using j assms by simp
      moreover have "i div k < n" using i by (simp add: less_mult_imp_div_less mult.commute)
      ultimately show False by simp
    qed
  next
    fix j assume j: "j < k"
    show "?d + of_nat j \<notin> region d (k * n)"
    proof
      assume "?d + of_nat j \<in> region d (k * n)"
      then obtain i where i: "i < k * n" "d + of_nat (k * n + j) = d + of_nat i"
        by (auto simp: region_def add.assoc)
      with j Suc.prems(3) have "k * n + j = i"
        unfolding split by (simp only: offset_eq_iff [of "k * n + j" i d])
      with i show False by simp
    qed
  qed (use Suc.prems(3) split in simp)
  with m1 m2 show ?case unfolding split by simp
qed

lemma below_fwd_safe:
  assumes "unat d < unat s" "unat d + n \<le> 2 ^ 32" "unat s + n \<le> 2 ^ 32"
  shows "fwd_safe k n d s"
  unfolding fwd_safe_def
proof (intro allI impI)
  fix i j assume ij: "i < n" "j < n" "d + of_nat i = s + of_nat j"
  have "unat d + i = unat (d + of_nat i)" using assms ij(1) by (simp add: unat_plus_of_nat_less)
  also have "\<dots> = unat s + j" unfolding ij(3) using assms ij(2) by (simp add: unat_plus_of_nat_less)
  finally show "j div k \<le> i div k" using assms(1) by (intro div_le_mono) simp
qed

lemma above_bwd_safe:
  assumes "unat s \<le> unat d" "unat d + n \<le> 2 ^ 32" "unat s + n \<le> 2 ^ 32"
  shows "bwd_safe k n d s"
  unfolding bwd_safe_def
proof (intro allI impI)
  fix i j assume ij: "i < n" "j < n" "d + of_nat i = s + of_nat j"
  have "unat d + i = unat (d + of_nat i)" using assms ij(1) by (simp add: unat_plus_of_nat_less)
  also have "\<dots> = unat s + j" unfolding ij(3) using assms ij(2) by (simp add: unat_plus_of_nat_less)
  finally show "i div k \<le> j div k" using assms(1) by (intro div_le_mono) simp
qed

lemma disjoint_fwd_safe: "region d n \<inter> region s n = {} \<Longrightarrow> fwd_safe k n d s"
  by (force simp: fwd_safe_def region_def)

lemma unit_counts: "len mod sizeof_long = 0 \<Longrightarrow> sizeof_long * (len div sizeof_long) = len"
  using mult_div_mod_eq [of sizeof_long len] by simp

lemma sizeof_long_pos [simp]: "0 < sizeof_long"
  by (simp add: sizeof_long_def)

lemma memcpy_spec:
  assumes "mapped s n m" "mapped d n m" "n \<le> 2 ^ 32" "\<And>k. fwd_safe k n d s"
  shows "\<exists>m'. memcpy d s n m = (True, m') \<and> copied d s n m m' \<and> dom m' = dom m"
proof (cases "word_aligned d \<and> word_aligned s \<and> n mod sizeof_long = 0")
  case True
  then show ?thesis
    using copy_fwd_spec [of sizeof_long s "n div sizeof_long" m d] assms
    by (simp add: memcpy_def unit_counts)
next
  case False
  then show ?thesis
    using copy_fwd_spec [of 1 s n m d] assms by (auto simp: memcpy_def)
qed

lemma memmove_up_spec:
  assumes "mapped s n m" "mapped d n m" "n \<le> 2 ^ 32" "\<not> unat d < unat s" "\<And>k. bwd_safe k n d s"
  shows "\<exists>m'. memmove d s n m = (True, m') \<and> copied d s n m m' \<and> dom m' = dom m"
proof (cases "word_aligned d \<and> word_aligned s \<and> n mod sizeof_long = 0")
  case True
  then show ?thesis
    using copy_bwd_spec [of sizeof_long s "n div sizeof_long" m d] assms
    by (simp add: memmove_def unit_counts)
next
  case False
  then show ?thesis
    using copy_bwd_spec [of 1 s n m d] assms by (auto simp: memmove_def)
qed

section \<open>What a block operation may change\<close>

lemma write_bytes_frame:
  "write_bytes d bs m = Some m' \<Longrightarrow> a \<notin> region d (length bs) \<Longrightarrow> m' a = m a"
proof (induction bs arbitrary: d m)
  case (Cons b bs)
  then have "write_bytes (d + 1) bs (m(d \<mapsto> b)) = Some m'" and a: "a \<noteq> d" "a \<notin> region (d + 1) (length bs)"
    by (auto simp: region_Suc split: option.splits)
  from Cons.IH [OF this(1) a(2)] a(1) show ?case by simp
qed simp

lemma write_bytes_mapped: "write_bytes d bs m = Some m' \<Longrightarrow> mapped d (length bs) m"
proof (induction bs arbitrary: d m)
  case (Cons b bs)
  then have d: "m d \<noteq> None" and w: "write_bytes (d + 1) bs (m(d \<mapsto> b)) = Some m'"
    by (auto split: option.splits)
  have "dom (m(d \<mapsto> b)) \<subseteq> dom m" using d by auto
  with Cons.IH [OF w] have "mapped (d + 1) (length bs) m" by (rule mapped_mono)
  with d show ?case by (simp add: mapped_Suc)
qed simp

lemma copy_unit_frame: "copy_unit k d s m = Some m' \<Longrightarrow> a \<notin> region d k \<Longrightarrow> m' a = m a"
  by (auto simp: copy_unit_def read_bytes_length dest: write_bytes_frame split: option.splits)

lemma copy_fwd_frame: "a \<notin> region d (k * n) \<Longrightarrow> snd (copy_fwd k n d s m) a = m a"
proof (induction n arbitrary: d s m)
  case (Suc n)
  then have "a \<notin> region d k" "a \<notin> region (d + of_nat k) (k * n)"
    using region_add [of d k "k * n"] by simp_all
  with Suc.IH show ?case by (auto dest: copy_unit_frame split: option.splits)
qed simp

lemma memcpy_frame: "a \<notin> region d n \<Longrightarrow> snd (memcpy d s n m) a = m a"
  using copy_fwd_frame [of a d sizeof_long "n div sizeof_long" s m] copy_fwd_frame [of a d 1 n s m]
  by (auto simp: memcpy_def unit_counts)

lemma copy_unit_dom: "copy_unit k d s m = Some m' \<Longrightarrow> dom m' = dom m"
  by (auto simp: copy_unit_def write_bytes_dom split: option.splits)

lemma copy_fwd_dom: "dom (snd (copy_fwd k n d s m)) = dom m"
  by (induction n arbitrary: d s m) (auto simp: copy_unit_dom split: option.splits)

lemma memcpy_dom: "dom (snd (memcpy d s n m)) = dom m"
  by (simp add: memcpy_def copy_fwd_dom)

lemma copy_fwd_ok_mapped:
  "fst (copy_fwd k n d s m) \<Longrightarrow> mapped s (k * n) m \<and> mapped d (k * n) m"
proof (induction n arbitrary: d s m)
  case (Suc n)
  then obtain m' where m': "copy_unit k d s m = Some m'"
    "fst (copy_fwd k n (d + of_nat k) (s + of_nat k) m')"
    by (auto split: option.splits)
  from m'(1) obtain bs where bs: "read_bytes k s m = Some bs" "write_bytes d bs m = Some m'"
    by (auto simp: copy_unit_def split: option.splits)
  have "mapped s k m" using bs(1) by (auto simp: read_bytes_Some_iff mapped_def region_def)
  moreover have "mapped d (length bs) m" using bs(2) by (rule write_bytes_mapped)
  moreover have "mapped (s + of_nat k) (k * n) m" "mapped (d + of_nat k) (k * n) m"
    using Suc.IH [OF m'(2)] copy_unit_dom [OF m'(1)] by (simp_all add: mapped_def)
  ultimately show ?case
    using bs mapped_add [of s k "k * n" m] mapped_add [of d k "k * n" m]
    by (simp add: read_bytes_length)
qed simp

lemma memcpy_ok_mapped: "fst (memcpy d s n m) \<Longrightarrow> mapped s n m \<and> mapped d n m"
  using copy_fwd_ok_mapped [of sizeof_long "n div sizeof_long" d s m] copy_fwd_ok_mapped [of 1 n d s m]
  by (auto simp: memcpy_def unit_counts split: if_splits)

lemma set_units_spec:
  "mapped d (k * n) m \<Longrightarrow> k * n \<le> 2 ^ 32 \<Longrightarrow> 0 < k \<Longrightarrow>
   \<exists>m'. set_units (replicate k b) n d m = (True, m') \<and>
     (\<forall>i<k * n. m' (d + of_nat i) = Some b) \<and> (\<forall>a. a \<notin> region d (k * n) \<longrightarrow> m' a = m a)"
proof (induction n arbitrary: d m)
  case 0
  then show ?case by simp
next
  case (Suc n)
  have split: "k * Suc n = k + k * n" by simp
  from Suc.prems have "mapped d k m" and m: "mapped (d + of_nat k) (k * n) m"
    unfolding split mapped_add by simp_all
  then obtain m1 where m1: "write_bytes d (replicate k b) m = Some m1"
    "\<forall>i<k. m1 (d + of_nat i) = Some b" "\<forall>a. a \<notin> region d k \<longrightarrow> m1 a = m a"
    using write_bytes_spec [of d "replicate k b" m] Suc.prems(2) by auto
  have "mapped (d + of_nat k) (k * n) m1"
    using m write_bytes_dom [OF m1(1)] by (simp add: mapped_def)
  then obtain m2 where m2: "set_units (replicate k b) n (d + of_nat k) m1 = (True, m2)"
    "\<forall>i<k * n. m2 (d + of_nat k + of_nat i) = Some b"
    "\<forall>a. a \<notin> region (d + of_nat k) (k * n) \<longrightarrow> m2 a = m1 a"
    using Suc.IH [of "d + of_nat k" m1] Suc.prems(2,3) by auto
  have "m2 (d + of_nat i) = Some b" if i: "i < k + k * n" for i
  proof (cases "i < k")
    case True
    with m2(3) m1(2) Suc.prems(2) show ?thesis by (simp add: offset_notin_region)
  next
    case False
    then obtain j where "i = k + j" "j < k * n" using i by (metis add_less_cancel_left le_Suc_ex not_less)
    with m2(2) show ?thesis by (simp add: add.assoc)
  qed
  moreover have "m2 a = m a" if "a \<notin> region d (k + k * n)" for a
    using that m1(3) m2(3) by (simp add: region_add)
  ultimately show ?case using m1(1) m2(1) unfolding split by simp
qed

lemma bzero_spec:
  assumes "mapped d n m" "n \<le> 2 ^ 32"
  shows "\<exists>m'. bzero d n m = (True, m') \<and> (\<forall>i<n. m' (d + of_nat i) = Some 0) \<and>
    (\<forall>a. a \<notin> region d n \<longrightarrow> m' a = m a)"
proof (cases "word_aligned d \<and> n mod sizeof_long = 0")
  case True
  then show ?thesis
    using set_units_spec [of d sizeof_long "n div sizeof_long" m 0] assms
    by (simp add: bzero_def unit_counts)
next
  case False
  then show ?thesis
    using set_units_spec [of d 1 n m 0] assms by (auto simp: bzero_def)
qed

section \<open>Correctness of the block operations\<close>

lemma memmove_spec:
  assumes "mapped s n m" "mapped d n m" "unat s + n \<le> 2 ^ 32" "unat d + n \<le> 2 ^ 32"
  shows "\<exists>m'. memmove d s n m = (True, m') \<and> dom m' = dom m \<and>
    (\<forall>i<n. m' (d + of_nat i) = m (s + of_nat i)) \<and> (\<forall>a. a \<notin> region d n \<longrightarrow> m' a = m a)"
proof (cases "unat d < unat s")
  case True
  with assms below_fwd_safe have "\<And>k. fwd_safe k n d s" by blast
  with assms memcpy_spec [of s n m d] True show ?thesis
    by (auto simp: memmove_def copied_def)
next
  case False
  with assms above_bwd_safe [of s d n] have "\<And>k. bwd_safe k n d s" by simp
  with assms False memmove_up_spec [of s n m d] show ?thesis
    by (auto simp: copied_def)
qed

text \<open>
  C17. \<^verbatim>\<open>memmove\<close> moves a block of memory whatever the overlap of its source and destination
  and whatever their alignment: when both blocks are mapped and neither runs past the top of
  the address space, it completes, every destination byte is the byte the source held
  \<^emph>\<open>before\<close> the call, and no address outside the destination changes.
\<close>

theorem memmove_correct:
  assumes "mapped s n m" "mapped d n m" "unat s + n \<le> 2 ^ 32" "unat d + n \<le> 2 ^ 32"
  shows "\<exists>m'. memmove d s n m = (True, m') \<and> dom m' = dom m \<and>
    (\<forall>i<n. m' (d + of_nat i) = m (s + of_nat i)) \<and> (\<forall>a. a \<notin> region d n \<longrightarrow> m' a = m a)"
  using assms by (rule memmove_spec)

theorem memmove_correct_witness:
  "\<exists>m'. memmove 5 4 2 [4 \<mapsto> 7, 5 \<mapsto> 8, 6 \<mapsto> 9] = (True, m') \<and> m' 5 = Some 7 \<and> m' 6 = Some 8"
proof -
  let ?m = "[4 \<mapsto> 7, 5 \<mapsto> 8, 6 \<mapsto> 9] :: mem"
  have "mapped 4 2 ?m" "mapped 5 2 ?m" by (simp_all add: numeral_2_eq_2 mapped_Suc)
  then obtain m' where m': "memmove 5 4 2 ?m = (True, m')"
    "\<forall>i<2. m' (5 + of_nat i) = ?m (4 + of_nat i)"
    using memmove_correct [of 4 2 ?m 5] by auto
  from m'(2) [rule_format, of 0] m'(2) [rule_format, of 1] m'(1) show ?thesis by simp
qed

end
