(* ===== verification/Copyinout.thy ===== *)
theory Copyinout
  imports Kmem
begin

text \<open>
  kern/vm/copyinout.c: moving data between user space and the kernel. User space is the half
  of the address space below \<^verbatim>\<open>USERSPACETOP\<close>. The machine state is the memory and whether the
  current thread has \<^verbatim>\<open>copyfail\<close> installed as its \<^verbatim>\<open>tm_badfaultfunc\<close>: a fault during a copy
  resumes in \<^verbatim>\<open>copyfail\<close>, which makes the copy return \<^verbatim>\<open>EFAULT\<close>.
\<close>

section \<open>Definitions\<close>

record mach =
  mem :: mem
  tm_badfaultfunc :: bool

definition USERSPACETOP :: vaddr where "USERSPACETOP = 0x80000000"

definition copycheck :: "vaddr \<Rightarrow> u32 \<Rightarrow> errno + u32" where
  "copycheck userptr len =
     (let bot = userptr; top = bot + len - 1 in
      if top < bot then Inl EFAULT
      else if bot \<ge> USERSPACETOP then Inl EFAULT
      else if top \<ge> USERSPACETOP then Inr (USERSPACETOP - bot)
      else Inr len)"

text \<open>
  The block copy both \<^verbatim>\<open>copyin\<close> and \<^verbatim>\<open>copyout\<close> make once the user range is checked, with
  the recovery function installed around it.
\<close>

definition guarded_memcpy :: "vaddr \<Rightarrow> vaddr \<Rightarrow> u32 \<Rightarrow> mach \<Rightarrow> (errno + unit) \<times> mach" where
  "guarded_memcpy dst src len s =
     (let s1 = s\<lparr>tm_badfaultfunc := True\<rparr>;
          (ok, m') = memcpy dst src (unat len) (mem s1);
          s2 = s1\<lparr>mem := m', tm_badfaultfunc := False\<rparr>
      in if ok then (Inr (), s2) else (Inl EFAULT, s2))"

definition copyin :: "vaddr \<Rightarrow> vaddr \<Rightarrow> u32 \<Rightarrow> mach \<Rightarrow> (errno + unit) \<times> mach" where
  "copyin usersrc dest len s =
     (case copycheck usersrc len of
        Inl e \<Rightarrow> (Inl e, s)
      | Inr stoplen \<Rightarrow>
          if stoplen \<noteq> len then (Inl EFAULT, s) else guarded_memcpy dest usersrc len s)"

definition copyout :: "vaddr \<Rightarrow> vaddr \<Rightarrow> u32 \<Rightarrow> mach \<Rightarrow> (errno + unit) \<times> mach" where
  "copyout src userdest len s =
     (case copycheck userdest len of
        Inl e \<Rightarrow> (Inl e, s)
      | Inr stoplen \<Rightarrow>
          if stoplen \<noteq> len then (Inl EFAULT, s) else guarded_memcpy userdest src len s)"

text \<open>
  The loop of \<^verbatim>\<open>copystr\<close> with \<open>k\<close> rounds left before it meets \<^verbatim>\<open>maxlen\<close> or \<^verbatim>\<open>stoplen\<close>:
  \<open>Inl ()\<close> is a fault, \<open>Inr (Some n)\<close> a terminator found with \<open>n\<close> bytes copied,
  \<open>Inr None\<close> a loop that ran out.
\<close>

fun copystr_loop :: "nat \<Rightarrow> nat \<Rightarrow> vaddr \<Rightarrow> vaddr \<Rightarrow> mem \<Rightarrow> (unit + nat option) \<times> mem" where
  "copystr_loop 0 i dest src m = (Inr None, m)"
| "copystr_loop (Suc k) i dest src m =
     (case m (src + of_nat i) of
        None \<Rightarrow> (Inl (), m)
      | Some b \<Rightarrow>
          if m (dest + of_nat i) = None then (Inl (), m)
          else let m' = m(dest + of_nat i \<mapsto> b) in
               if m' (src + of_nat i) = Some 0 then (Inr (Some (i + 1)), m')
               else copystr_loop k (i + 1) dest src m')"

definition copystr :: "vaddr \<Rightarrow> vaddr \<Rightarrow> u32 \<Rightarrow> u32 \<Rightarrow> mem \<Rightarrow> (unit + (errno + nat)) \<times> mem" where
  "copystr dest src maxlen stoplen m =
     (case copystr_loop (min (unat maxlen) (unat stoplen)) 0 dest src m of
        (Inl u, m') \<Rightarrow> (Inl u, m')
      | (Inr (Some got), m') \<Rightarrow> (Inr (Inr got), m')
      | (Inr None, m') \<Rightarrow>
          (Inr (Inl (if stoplen < maxlen then EFAULT else ENAMETOOLONG)), m'))"

definition guarded_copystr ::
    "vaddr \<Rightarrow> vaddr \<Rightarrow> u32 \<Rightarrow> u32 \<Rightarrow> mach \<Rightarrow> (errno + nat) \<times> mach" where
  "guarded_copystr dest src len stoplen s =
     (let s1 = s\<lparr>tm_badfaultfunc := True\<rparr>;
          (r, m') = copystr dest src len stoplen (mem s1);
          s2 = s1\<lparr>mem := m', tm_badfaultfunc := False\<rparr>
      in case r of Inl _ \<Rightarrow> (Inl EFAULT, s2) | Inr r' \<Rightarrow> (r', s2))"

definition copyinstr :: "vaddr \<Rightarrow> vaddr \<Rightarrow> u32 \<Rightarrow> mach \<Rightarrow> (errno + nat) \<times> mach" where
  "copyinstr usersrc dest len s =
     (case copycheck usersrc len of
        Inl e \<Rightarrow> (Inl e, s)
      | Inr stoplen \<Rightarrow> guarded_copystr dest usersrc len stoplen s)"

definition copyoutstr :: "vaddr \<Rightarrow> vaddr \<Rightarrow> u32 \<Rightarrow> mach \<Rightarrow> (errno + nat) \<times> mach" where
  "copyoutstr src userdest len s =
     (case copycheck userdest len of
        Inl e \<Rightarrow> (Inl e, s)
      | Inr stoplen \<Rightarrow> guarded_copystr userdest src len stoplen s)"

section \<open>The range check\<close>

lemma unat_top:
  fixes p len :: u32
  shows "unat (p + len - 1) =
    (if unat p + unat len = 0 then 2 ^ 32 - 1
     else if unat p + unat len \<le> 2 ^ 32 then unat p + unat len - 1
     else unat p + unat len - 1 - 2 ^ 32)"
proof -
  have *: "p + len - 1 = p + len + (- 1)" by simp
  have m: "unat (- 1 :: u32) = 2 ^ 32 - 1"
    by (simp add: unsigned_minus_1_eq_mask mask_eq_exp_minus_1)
  have "unat (p + len - 1) = ((unat p + unat len) mod 2 ^ 32 + (2 ^ 32 - 1)) mod 2 ^ 32"
    unfolding * by (simp only: unat_word_ariths(1) m) simp
  moreover have "unat p < 2 ^ 32" "unat len < 2 ^ 32"
    using unsigned_less [of p] unsigned_less [of len] by simp_all
  ultimately show ?thesis by (auto simp: mod_if)
qed

lemma unat_top_sub: "unat p \<le> 2 ^ 31 \<Longrightarrow> unat (0x80000000 - p :: u32) = 2 ^ 31 - unat p"
  by (subst unat_sub) (simp_all add: word_le_nat_alt)

lemmas copycheck_nat =
  copycheck_def [unfolded Let_def USERSPACETOP_def word_less_nat_alt word_le_nat_alt]

lemma copycheck_Inl: "copycheck p len = Inl e \<Longrightarrow> e = EFAULT"
  by (auto simp: copycheck_def Let_def split: if_splits)

lemma copycheck_Inr:
  assumes "copycheck p len = Inr st"
  shows "unat p + unat st \<le> 2 ^ 31 \<and> (st = len \<or> unat p + unat st = 2 ^ 31)"
proof -
  have "unat p < 2 ^ 32" "unat len < 2 ^ 32"
    using unsigned_less [of p] unsigned_less [of len] by simp_all
  with assms unat_top_sub [of p] show ?thesis
    unfolding copycheck_nat unat_top by (auto split: if_splits)
qed

text \<open>The check passes in full exactly for the non-empty blocks that lie in user space.\<close>

lemma copycheck_full_iff:
  "copycheck p len = Inr len \<longleftrightarrow> 0 < unat len \<and> unat p + unat len \<le> 2 ^ 31"
proof
  have u: "unat p < 2 ^ 32" "unat len < 2 ^ 32"
    using unsigned_less [of p] unsigned_less [of len] by simp_all
  assume "copycheck p len = Inr len"
  then have "(unat p + unat len \<noteq> 0 \<and> unat p < 2 ^ 31 \<and> 0 < unat len \<and> unat p + unat len \<le> 2 ^ 31)
    \<or> (len = 0x80000000 - p \<and> unat p < 2 ^ 31 \<and> 2 ^ 31 \<le> unat (p + len - 1))"
    unfolding copycheck_nat using u unat_top [of p len]
    by (simp split: if_splits) linarith
  then show "0 < unat len \<and> unat p + unat len \<le> 2 ^ 31"
    using unat_top_sub [of p] unat_top [of p len] by (auto split: if_splits)
next
  assume "0 < unat len \<and> unat p + unat len \<le> 2 ^ 31"
  then show "copycheck p len = Inr len"
    unfolding copycheck_nat unat_top by simp linarith
qed

text \<open>A block in user space and a block in kernel space never meet.\<close>

lemma region_user_below:
  "unat p + n \<le> 2 ^ 31 \<Longrightarrow> a \<in> region p n \<Longrightarrow> unat a < 2 ^ 31"
  by (auto simp: region_def unat_plus_of_nat_less)

lemma region_kernel_above:
  "2 ^ 31 \<le> unat p \<Longrightarrow> unat p + n \<le> 2 ^ 32 \<Longrightarrow> a \<in> region p n \<Longrightarrow> 2 ^ 31 \<le> unat a"
  by (auto simp: region_def unat_plus_of_nat_less)

lemma user_kernel_disjoint:
  assumes "unat p + n \<le> 2 ^ 31" "2 ^ 31 \<le> unat q" "unat q + k \<le> 2 ^ 32"
  shows "region p n \<inter> region q k = {}"
  using assms by (auto dest: region_user_below region_kernel_above simp del: One_nat_def)
    (meson assms leD region_kernel_above region_user_below)

section \<open>Block copies\<close>

lemma guarded_memcpy_frame:
  "guarded_memcpy d s len st = (r, st') \<Longrightarrow>
   tm_badfaultfunc st' = False \<and> (\<forall>a. a \<notin> region d (unat len) \<longrightarrow> mem st' a = mem st a)"
  using memcpy_frame [of _ d "unat len" s "mem st"]
  by (auto simp: guarded_memcpy_def Let_def split: prod.splits if_splits)

lemma guarded_memcpy_spec:
  assumes "region d (unat len) \<inter> region s (unat len) = {}"
  shows "\<exists>st'. guarded_memcpy d s len st =
    (if mapped s (unat len) (mem st) \<and> mapped d (unat len) (mem st) then Inr () else Inl EFAULT, st') \<and>
    (mapped s (unat len) (mem st) \<and> mapped d (unat len) (mem st)
       \<longrightarrow> copied d s (unat len) (mem st) (mem st'))"
proof (cases "mapped s (unat len) (mem st) \<and> mapped d (unat len) (mem st)")
  case True
  have "unat len \<le> 2 ^ 32" by (rule unat_u32_le)
  with True assms obtain m' where "memcpy d s (unat len) (mem st) = (True, m')"
    "copied d s (unat len) (mem st) m'"
    using memcpy_spec disjoint_fwd_safe by blast
  with True show ?thesis by (simp add: guarded_memcpy_def)
next
  case False
  then have "\<not> fst (memcpy d s (unat len) (mem st))" by (blast dest: memcpy_ok_mapped)
  with False show ?thesis by (auto simp: guarded_memcpy_def Let_def split: prod.splits)
qed

section \<open>String copies\<close>

lemma copystr_loop_frame:
  "a \<notin> region dest (i + k) \<Longrightarrow> snd (copystr_loop k i dest src m) a = m a"
proof (induction k arbitrary: i m)
  case (Suc k)
  have a: "a \<noteq> dest + of_nat i" using Suc.prems by auto
  have "snd (copystr_loop k (Suc i) dest src (m(dest + of_nat i \<mapsto> b))) a =
      (m(dest + of_nat i \<mapsto> b)) a" for b
    by (rule Suc.IH) (use Suc.prems in simp)
  with a show ?case by (auto simp: Let_def split: option.splits)
qed simp

lemma copystr_frame:
  "copystr dest src maxlen stoplen m = (r, m') \<Longrightarrow>
   a \<notin> region dest (min (unat maxlen) (unat stoplen)) \<Longrightarrow> m' a = m a"
  using copystr_loop_frame [of a dest 0 "min (unat maxlen) (unat stoplen)" src m]
  by (auto simp: copystr_def split: prod.splits sum.splits option.splits)

text \<open>
  When source and destination are mapped and disjoint, the loop stops at the first terminator
  after copying everything up to it, or runs out when there is none.
\<close>

lemma copystr_loop_found:
  assumes "region dest (i + k) \<inter> region src (i + k) = {}" "n < i + k" "i \<le> n"
    "\<And>j. i \<le> j \<Longrightarrow> j \<le> n \<Longrightarrow> m (src + of_nat j) \<noteq> None \<and> m (dest + of_nat j) \<noteq> None"
    "m (src + of_nat n) = Some 0" "\<And>j. i \<le> j \<Longrightarrow> j < n \<Longrightarrow> m (src + of_nat j) \<noteq> Some 0"
    "i + k \<le> 2 ^ 32"
  shows "\<exists>m'. copystr_loop k i dest src m = (Inr (Some (n + 1)), m') \<and>
    (\<forall>j. i \<le> j \<and> j \<le> n \<longrightarrow> m' (dest + of_nat j) = m (src + of_nat j)) \<and>
    (\<forall>a. a \<notin> (\<lambda>j. dest + of_nat j) ` {i..n} \<longrightarrow> m' a = m a)"
  using assms
proof (induction k arbitrary: i m)
  case 0
  then show ?case by simp
next
  case (Suc k)
  have sep: "src + of_nat j \<noteq> dest + of_nat i" if "j < i + Suc k" for j
  proof -
    have "src + of_nat j \<in> region src (i + Suc k)" "dest + of_nat i \<in> region dest (i + Suc k)"
      using that by auto
    with Suc.prems(1) show ?thesis by (metis disjoint_iff)
  qed
  obtain b where b: "m (src + of_nat i) = Some b" "m (dest + of_nat i) \<noteq> None"
    using Suc.prems(3,4) by blast
  let ?m = "m(dest + of_nat i \<mapsto> b)"
  have b': "?m (src + of_nat j) = m (src + of_nat j)" if "j < i + Suc k" for j
    using sep [OF that] by simp
  show ?case
  proof (cases "n = i")
    case True
    with Suc.prems(5) b b' [of i] show ?thesis by auto
  next
    case False
    then have less: "Suc i \<le> n" "i < n" using Suc.prems(3) by simp_all
    then have "b \<noteq> 0" using Suc.prems(6) [of i] b by auto
    moreover have "\<exists>m'. copystr_loop k (Suc i) dest src ?m = (Inr (Some (n + 1)), m') \<and>
      (\<forall>j. Suc i \<le> j \<and> j \<le> n \<longrightarrow> m' (dest + of_nat j) = ?m (src + of_nat j)) \<and>
      (\<forall>a. a \<notin> (\<lambda>j. dest + of_nat j) ` {Suc i..n} \<longrightarrow> m' a = ?m a)"
    proof (rule Suc.IH)
      show "?m (src + of_nat n) = Some 0" using Suc.prems(2,5) b' [of n] by simp
    next
      fix j assume "Suc i \<le> j" "j \<le> n"
      then show "?m (src + of_nat j) \<noteq> None \<and> ?m (dest + of_nat j) \<noteq> None"
        using Suc.prems(4) [of j] by auto
    next
      fix j assume "Suc i \<le> j" "j < n"
      then show "?m (src + of_nat j) \<noteq> Some 0"
        using Suc.prems(2) Suc.prems(6) [of j] b' [of j] by simp
    qed (use Suc.prems less in simp_all)
    then obtain m' where m': "copystr_loop k (Suc i) dest src ?m = (Inr (Some (n + 1)), m')"
      "\<forall>j. Suc i \<le> j \<and> j \<le> n \<longrightarrow> m' (dest + of_nat j) = ?m (src + of_nat j)"
      "\<forall>a. a \<notin> (\<lambda>j. dest + of_nat j) ` {Suc i..n} \<longrightarrow> m' a = ?m a" by blast
    have "dest + of_nat i \<notin> (\<lambda>j. dest + of_nat j) ` {Suc i..n}"
      using Suc.prems(2,7) by (auto dest!: of_nat_word_inj [where 'a = 32, rotated 2])
    with m'(3) b(1) have "m' (dest + of_nat i) = m (src + of_nat i)" by simp
    moreover have "m' (dest + of_nat j) = m (src + of_nat j)" if "Suc i \<le> j" "j \<le> n" for j
      using m'(2) that Suc.prems(2) b' [of j] by simp
    ultimately have "\<forall>j. i \<le> j \<and> j \<le> n \<longrightarrow> m' (dest + of_nat j) = m (src + of_nat j)"
      by (metis Suc_leI le_neq_implies_less)
    moreover have "m' a = m a" if "a \<notin> (\<lambda>j. dest + of_nat j) ` {i..n}" for a
    proof -
      have "a \<noteq> dest + of_nat i" "a \<notin> (\<lambda>j. dest + of_nat j) ` {Suc i..n}"
        using that less by auto
      with m'(3) show ?thesis by simp
    qed
    ultimately show ?thesis using m'(1) b b' [of i] \<open>b \<noteq> 0\<close> by simp
  qed
qed

lemma copystr_loop_full:
  assumes "region dest (i + k) \<inter> region src (i + k) = {}"
    "\<And>j. i \<le> j \<Longrightarrow> j < i + k \<Longrightarrow>
       m (src + of_nat j) \<noteq> None \<and> m (src + of_nat j) \<noteq> Some 0 \<and> m (dest + of_nat j) \<noteq> None"
  shows "\<exists>m'. copystr_loop k i dest src m = (Inr None, m')"
  using assms
proof (induction k arbitrary: i m)
  case (Suc k)
  have sep: "src + of_nat j \<noteq> dest + of_nat i" if "j < i + Suc k" for j
  proof -
    have "src + of_nat j \<in> region src (i + Suc k)" "dest + of_nat i \<in> region dest (i + Suc k)"
      using that by auto
    with Suc.prems(1) show ?thesis by (metis disjoint_iff)
  qed
  obtain b where b: "m (src + of_nat i) = Some b" "b \<noteq> 0" "m (dest + of_nat i) \<noteq> None"
    using Suc.prems(2) [of i] by auto
  have "\<exists>m'. copystr_loop k (Suc i) dest src (m(dest + of_nat i \<mapsto> b)) = (Inr None, m')"
    by (rule Suc.IH) (use Suc.prems sep in auto)
  with b sep [of i] show ?case by auto
qed simp

section \<open>Correctness of the copies\<close>

lemma copyout_frame:
  assumes "copyout src userdest len s = (r, s')" "2 ^ 31 \<le> unat a"
  shows "mem s' a = mem s a"
proof (cases "copycheck userdest len = Inr len")
  case True
  then have "unat userdest + unat len \<le> 2 ^ 31" by (simp add: copycheck_full_iff)
  then have "a \<notin> region userdest (unat len)" using assms(2) region_user_below by (metis leD)
  with True assms guarded_memcpy_frame [of userdest src len s r s'] show ?thesis
    by (simp add: copyout_def)
qed (use assms in \<open>auto simp: copyout_def split: sum.splits if_splits\<close>)

lemma copyoutstr_frame:
  assumes "copyoutstr src userdest len s = (r, s')" "2 ^ 31 \<le> unat a"
  shows "mem s' a = mem s a"
proof (cases "copycheck userdest len")
  case (Inr st)
  then have "unat userdest + min (unat len) (unat st) \<le> 2 ^ 31"
    using copycheck_Inr [OF Inr] by linarith
  then have "a \<notin> region userdest (min (unat len) (unat st))"
    using assms(2) region_user_below by (metis leD)
  with Inr assms copystr_frame [of userdest src len st "mem s"] show ?thesis
    by (auto simp: copyoutstr_def guarded_copystr_def Let_def split: prod.splits sum.splits)
qed (use assms in \<open>simp add: copyoutstr_def\<close>)

text \<open>
  C13. No system call can make the kernel overwrite its own memory through a user pointer: whatever
  destination and length a user program passes, and whether or not the copy faults half way,
  \<^verbatim>\<open>copyout\<close> and \<^verbatim>\<open>copyoutstr\<close> leave every byte at or above \<^verbatim>\<open>USERSPACETOP\<close> as it was.
\<close>

theorem copyout_preserves_kernel:
  assumes "USERSPACETOP \<le> a"
  shows "mem (snd (copyout src userdest len s)) a = mem s a \<and>
    mem (snd (copyoutstr src userdest len s)) a = mem s a"
proof -
  from assms have "2 ^ 31 \<le> unat a" by (simp add: USERSPACETOP_def word_le_nat_alt)
  then show ?thesis using copyout_frame copyoutstr_frame by (metis prod.collapse)
qed

theorem copyout_preserves_kernel_witness:
  "mem (snd (copyout 0x80000000 0x7fffffff 2
      \<lparr>mem = [0x80000000 \<mapsto> 1, 0x80000001 \<mapsto> 2, 0x7fffffff \<mapsto> 3], tm_badfaultfunc = False\<rparr>))
    0x80000000 = Some 1"
  using copyout_preserves_kernel [of "0x80000000" "0x80000000" "0x7fffffff" 2
      "\<lparr>mem = [0x80000000 \<mapsto> 1, 0x80000001 \<mapsto> 2, 0x7fffffff \<mapsto> 3], tm_badfaultfunc = False\<rparr>"]
  by (simp add: USERSPACETOP_def)

text \<open>
  C14. \<^verbatim>\<open>copyin\<close> into a mapped kernel buffer succeeds exactly when the user block is not empty,
  lies wholly below \<^verbatim>\<open>USERSPACETOP\<close> without wrapping, and is mapped; it then delivers the
  user's bytes. In every other case it returns \<^verbatim>\<open>EFAULT\<close>. Nothing outside the buffer changes,
  and the fault handler is not left installed when the copy was attempted.
\<close>

theorem copyin_correct:
  assumes "2 ^ 31 \<le> unat dest" "unat dest + unat len \<le> 2 ^ 32" "mapped dest (unat len) (mem s)"
    and ok: "ok = (0 < unat len \<and> unat usersrc + unat len \<le> 2 ^ 31 \<and> mapped usersrc (unat len) (mem s))"
  shows "\<exists>s'. copyin usersrc dest len s = (if ok then Inr () else Inl EFAULT, s') \<and>
    (ok \<longrightarrow> copied dest usersrc (unat len) (mem s) (mem s') \<and> \<not> tm_badfaultfunc s') \<and>
    (\<forall>a. a \<notin> region dest (unat len) \<longrightarrow> mem s' a = mem s a)"
proof (cases "copycheck usersrc len = Inr len")
  case True
  then have u: "0 < unat len" "unat usersrc + unat len \<le> 2 ^ 31" by (simp_all add: copycheck_full_iff)
  then have "region dest (unat len) \<inter> region usersrc (unat len) = {}"
    using user_kernel_disjoint [OF u(2) assms(1,2)] by blast
  with guarded_memcpy_spec [of dest len usersrc s] assms u obtain s' where
    s': "guarded_memcpy dest usersrc len s = (if ok then Inr () else Inl EFAULT, s')"
    "ok \<longrightarrow> copied dest usersrc (unat len) (mem s) (mem s')" by auto
  with True guarded_memcpy_frame [OF s'(1)] show ?thesis by (simp add: copyin_def)
next
  case False
  then have "copyin usersrc dest len s = (Inl EFAULT, s)"
    by (auto simp: copyin_def dest: copycheck_Inl split: sum.splits)
  moreover have "\<not> ok" using False ok copycheck_full_iff [of usersrc len] by blast
  ultimately show ?thesis by simp
qed

theorem copyin_correct_witness:
  "\<exists>s'. copyin 16 0x80000000 1
      \<lparr>mem = [16 \<mapsto> 5, 0x80000000 \<mapsto> 0], tm_badfaultfunc = False\<rparr> = (Inr (), s') \<and>
    mem s' 0x80000000 = Some 5"
proof -
  let ?s = "\<lparr>mem = [16 \<mapsto> 5, 0x80000000 \<mapsto> 0], tm_badfaultfunc = False\<rparr>"
  have m: "mapped 0x80000000 (unat (1::u32)) (mem ?s)" "mapped 16 (unat (1::u32)) (mem ?s)"
    by (simp_all add: mapped_Suc)
  from copyin_correct [of "0x80000000" 1 ?s True 16] m obtain s' where
    "copyin 16 0x80000000 1 ?s = (Inr (), s')" "copied 0x80000000 16 1 (mem ?s) (mem s')"
    by auto
  then show ?thesis by (auto simp: copied_def)
qed

lemma copycheck_ok:
  assumes "0 < unat len" "unat p < 2 ^ 31" "unat p + unat len \<le> 2 ^ 32"
  shows "copycheck p len = Inr (if unat p + unat len \<le> 2 ^ 31 then len else USERSPACETOP - p)"
  using assms unfolding copycheck_nat unat_top USERSPACETOP_def by simp linarith

text \<open>
  The string copy of \<^verbatim>\<open>copyinstr\<close> with the bound \<open>w\<close> it runs to: the buffer or the end of
  user space, whichever comes first.
\<close>

lemma copyinstr_bound:
  assumes "0 < unat len" "unat p < 2 ^ 31" "unat p + unat len \<le> 2 ^ 32"
  obtains st where "copycheck p len = Inr st"
    "min (unat len) (unat st) = min (unat len) (2 ^ 31 - unat p)"
    "st < len \<longleftrightarrow> 2 ^ 31 - unat p < unat len"
proof
  let ?st = "if unat p + unat len \<le> 2 ^ 31 then len else USERSPACETOP - p"
  show "copycheck p len = Inr ?st" using assms by (rule copycheck_ok)
  have st: "unat ?st = (if unat p + unat len \<le> 2 ^ 31 then unat len else 2 ^ 31 - unat p)"
    using assms(2) unat_top_sub [of p] by (simp add: USERSPACETOP_def)
  then show "min (unat len) (unat ?st) = min (unat len) (2 ^ 31 - unat p)"
    unfolding st by (auto simp: min_def)
  from st show "?st < len \<longleftrightarrow> 2 ^ 31 - unat p < unat len"
    unfolding word_less_nat_alt by (auto split: if_splits)
qed

lemma copyinstr_ends:
  assumes "copycheck usersrc len = Inr st"
    "copystr_loop (min (unat len) (unat st)) 0 dest usersrc (mem s) = (Inr r, m')"
  shows "copyinstr usersrc dest len s =
    (case r of Some got \<Rightarrow> Inr got | None \<Rightarrow> Inl (if st < len then EFAULT else ENAMETOOLONG),
     \<lparr>mem = m', tm_badfaultfunc = False\<rparr>)"
  using assms by (simp add: copyinstr_def guarded_copystr_def copystr_def Let_def split: option.splits)

text \<open>
  C15. \<^verbatim>\<open>copyinstr\<close> fetches a user string: if the first terminator of the string at
  \<open>usersrc\<close> is \<open>n\<close> bytes in, the string lies in mapped user memory and fits
  the kernel buffer of \<open>len\<close> bytes, the call returns \<open>n + 1\<close>, the buffer holds the
  string with its terminator, and nothing else changes. If the string does not fit, the call
  returns \<^verbatim>\<open>ENAMETOOLONG\<close>; if it reaches the top of user space first, \<^verbatim>\<open>EFAULT\<close>.
\<close>

theorem copyinstr_correct:
  assumes dest: "2 ^ 31 \<le> unat dest" "unat dest + unat len \<le> 2 ^ 32" "mapped dest (unat len) (mem s)"
    and src: "unat usersrc + k \<le> 2 ^ 31" "mapped usersrc k (mem s)"
    and pre: "\<And>j. j < n \<Longrightarrow> mem s (usersrc + of_nat j) \<noteq> Some 0"
    and room: "0 < unat len" "unat usersrc < 2 ^ 31" "unat usersrc + unat len \<le> 2 ^ 32"
  shows "(n < k \<and> n < unat len \<and> mem s (usersrc + of_nat n) = Some 0 \<longrightarrow>
      (\<exists>s'. copyinstr usersrc dest len s = (Inr (n + 1), s') \<and>
        copied dest usersrc (n + 1) (mem s) (mem s') \<and> \<not> tm_badfaultfunc s')) \<and>
    (unat len \<le> n \<and> n \<le> k \<longrightarrow> fst (copyinstr usersrc dest len s) = Inl ENAMETOOLONG) \<and>
    (n = k \<and> unat usersrc + k = 2 ^ 31 \<and> k < unat len \<longrightarrow>
      fst (copyinstr usersrc dest len s) = Inl EFAULT)"
proof -
  obtain st where st: "copycheck usersrc len = Inr st"
    "min (unat len) (unat st) = min (unat len) (2 ^ 31 - unat usersrc)"
    "st < len \<longleftrightarrow> 2 ^ 31 - unat usersrc < unat len"
    using copyinstr_bound [OF room] .
  let ?w = "min (unat len) (unat st)"
  have w: "?w \<le> unat len" "unat usersrc + ?w \<le> 2 ^ 31" unfolding st(2) using room(2) by simp_all
  then have disj: "region dest ?w \<inter> region usersrc ?w = {}"
    using user_kernel_disjoint [of usersrc ?w dest ?w] dest(1,2) by (simp add: Int_commute)
  have dm: "mem s (dest + of_nat j) \<noteq> None" if "j < unat len" for j
    using mappedD [OF dest(3) that] .
  have sm: "mem s (usersrc + of_nat j) \<noteq> None" if "j < k" for j
    using mappedD [OF src(2) that] .
  show ?thesis
  proof (intro conjI impI, goal_cases)
    case 1
    then have "n < ?w" unfolding st(2) using src(1) by auto
    then have "\<exists>m'. copystr_loop ?w 0 dest usersrc (mem s) = (Inr (Some (n + 1)), m') \<and>
      (\<forall>j. 0 \<le> j \<and> j \<le> n \<longrightarrow> m' (dest + of_nat j) = mem s (usersrc + of_nat j)) \<and>
      (\<forall>a. a \<notin> (\<lambda>j. dest + of_nat j) ` {0..n} \<longrightarrow> m' a = mem s a)"
      by (intro copystr_loop_found)
        (use 1 disj pre sm dm w unat_u32_le [of len] in \<open>simp_all del: min_less_iff_conj\<close>)
    then obtain m' where m': "copystr_loop ?w 0 dest usersrc (mem s) = (Inr (Some (n + 1)), m')"
      "\<forall>j. 0 \<le> j \<and> j \<le> n \<longrightarrow> m' (dest + of_nat j) = mem s (usersrc + of_nat j)"
      "\<forall>a. a \<notin> (\<lambda>j. dest + of_nat j) ` {0..n} \<longrightarrow> m' a = mem s a" by blast
    then have "copied dest usersrc (n + 1) (mem s) m'"
      by (simp add: copied_def region_def atLeastLessThanSuc_atLeastAtMost)
    with copyinstr_ends [OF st(1) m'(1)] show ?case by simp
  next
    case 2
    then have "\<not> st < len" using src(1) st(3) by linarith
    moreover obtain m' where "copystr_loop ?w 0 dest usersrc (mem s) = (Inr None, m')"
      using copystr_loop_full [of dest 0 ?w usersrc "mem s"] disj 2 w pre sm dm by fastforce
    ultimately show ?case using copyinstr_ends [OF st(1)] by simp
  next
    case 3
    then have "st < len" using st(3) by linarith
    moreover have "?w = k" unfolding st(2) using 3 by (auto simp: min_def)
    then obtain m' where "copystr_loop ?w 0 dest usersrc (mem s) = (Inr None, m')"
      using copystr_loop_full [of dest 0 ?w usersrc "mem s"] disj 3 pre sm dm by fastforce
    ultimately show ?case using copyinstr_ends [OF st(1)] by simp
  qed
qed

theorem copyinstr_correct_witness:
  "\<exists>s'. copyinstr 16 0x80000000 4
      \<lparr>mem = [16 \<mapsto> 97, 17 \<mapsto> 0, 0x80000000 \<mapsto> 1, 0x80000001 \<mapsto> 1, 0x80000002 \<mapsto> 1, 0x80000003 \<mapsto> 1],
       tm_badfaultfunc = False\<rparr> = (Inr (Suc 1), s') \<and> mem s' 0x80000000 = Some 97"
proof -
  let ?s = "\<lparr>mem = [16 \<mapsto> 97, 17 \<mapsto> 0, 0x80000000 \<mapsto> 1, 0x80000001 \<mapsto> 1, 0x80000002 \<mapsto> 1, 0x80000003 \<mapsto> 1],
       tm_badfaultfunc = False\<rparr>"
  have u: "unat (4::u32) = Suc (Suc (Suc (Suc 0)))" "2 = Suc (Suc 0)" by simp_all
  have m: "mapped 0x80000000 (unat (4::u32)) (mem ?s)" "mapped 16 2 (mem ?s)"
    unfolding u by (simp_all add: mapped_Suc)
  from copyinstr_correct [of "0x80000000" 4 ?s 16 2 1] m obtain s' where
    "copyinstr 16 0x80000000 4 ?s = (Inr (Suc 1), s')" "copied 0x80000000 16 (Suc 1) (mem ?s) (mem s')"
    by auto
  then show ?thesis by (auto simp: copied_def)
qed

end
