(* ===== verification/Uio.thy ===== *)
theory Uio
  imports Copyinout
begin

text \<open>
  kern/lib/uio.c: the \<^verbatim>\<open>struct uio\<close> that carries a read or write request through the kernel,
  and \<^verbatim>\<open>uiomove\<close>, which moves data between a kernel buffer and the buffers a uio describes.
  The list \<open>uio_iov\<close> holds the \<^verbatim>\<open>uio_iovcnt\<close> iovecs from the pointer \<^verbatim>\<open>uio_iov\<close> on;
  an address space is named by a number, and \<open>cas\<close> is the one \<^verbatim>\<open>proc_getas()\<close> returns.
\<close>

section \<open>Definitions\<close>

datatype uio_rw = UIO_READ | UIO_WRITE

datatype uio_seg = UIO_USERISPACE | UIO_USERSPACE | UIO_SYSSPACE

record iovec =
  iov_base :: vaddr
  iov_len :: u32

record uio =
  uio_iov :: "iovec list"
  uio_offset :: u64
  uio_resid :: u32
  uio_segflg :: uio_seg
  uio_rw :: uio_rw
  uio_space :: "nat option"

text \<open>The \<^verbatim>\<open>switch (uio->uio_segflg)\<close> of \<^verbatim>\<open>uiomove\<close>: move one block of \<open>sz\<close> (\<^verbatim>\<open>size\<close>) bytes.\<close>

definition uio_move_block ::
    "vaddr \<Rightarrow> vaddr \<Rightarrow> u32 \<Rightarrow> uio \<Rightarrow> mach \<Rightarrow> ((errno + unit) \<times> mach) option" where
  "uio_move_block ptr base sz u s =
     (case uio_segflg u of
        UIO_SYSSPACE \<Rightarrow>
          (let (ok, m') = (if uio_rw u = UIO_READ then memmove base ptr (unat sz) (mem s)
                           else memmove ptr base (unat sz) (mem s))
           in if ok then Some (Inr (), s\<lparr>mem := m'\<rparr>) else None)
      | _ \<Rightarrow>
          Some (if uio_rw u = UIO_READ then copyout ptr base sz s else copyin base ptr sz s))"

text \<open>The bookkeeping after a block is moved.\<close>

definition uio_advance :: "u32 \<Rightarrow> uio \<Rightarrow> uio" where
  "uio_advance sz u =
     u\<lparr>uio_iov := (case uio_iov u of [] \<Rightarrow> []
                    | iov # rest \<Rightarrow>
                        iov\<lparr>iov_base := iov_base iov + sz, iov_len := iov_len iov - sz\<rparr> # rest),
       uio_resid := uio_resid u - sz,
       uio_offset := uio_offset u + ucast sz\<rparr>"

function uiomove_loop ::
    "vaddr \<Rightarrow> u32 \<Rightarrow> uio \<Rightarrow> mach \<Rightarrow> ((errno + unit) \<times> uio \<times> mach) option" where
  "uiomove_loop ptr n u s =
     (if 0 < n \<and> 0 < uio_resid u then
        (case uio_iov u of
           [] \<Rightarrow> None
         | iov # rest \<Rightarrow>
             (let sz = (if iov_len iov > n then n else iov_len iov) in
              if sz = 0 then
                (if rest = [] then None else uiomove_loop ptr n (u\<lparr>uio_iov := rest\<rparr>) s)
              else
                (case uio_move_block ptr (iov_base iov) sz u s of
                   None \<Rightarrow> None
                 | Some (Inl e, s') \<Rightarrow> Some (Inl e, u, s')
                 | Some (Inr _, s') \<Rightarrow> uiomove_loop (ptr + sz) (n - sz) (uio_advance sz u) s')))
      else Some (Inr (), u, s))"
  by pat_completeness auto
termination
proof (relation "measure (\<lambda>(ptr, n, u, s). unat n + length (uio_iov u))", goal_cases)
  case 1
  then show ?case by simp
next
  case (2 ptr n u s iov rest sz)
  then show ?case by simp
next
  case (3 ptr n u s iov rest sz p r s')
  then have "0 < sz" "sz \<le> n" by (auto simp: word_gt_0 split: if_splits)
  then have "unat (n - sz) < unat n"
    by (simp add: unat_sub word_le_nat_alt word_less_nat_alt)
  with 3 show ?case by (simp add: uio_advance_def)
qed

declare uiomove_loop.simps [simp del]

definition uiomove ::
    "nat option \<Rightarrow> vaddr \<Rightarrow> u32 \<Rightarrow> uio \<Rightarrow> mach \<Rightarrow> ((errno + unit) \<times> uio \<times> mach) option" where
  "uiomove cas ptr n u s =
     (if uio_segflg u = UIO_SYSSPACE then
        do { kassert (uio_space u = None); uiomove_loop ptr n u s }
      else
        do { kassert (uio_space u = cas); uiomove_loop ptr n u s })"

text \<open>\<^verbatim>\<open>uiomovezeros\<close>: \<open>zeros\<close> is the address of its static array of 16 zero bytes.\<close>

function uiomovezeros_loop ::
    "nat option \<Rightarrow> vaddr \<Rightarrow> u32 \<Rightarrow> uio \<Rightarrow> mach \<Rightarrow> ((errno + unit) \<times> uio \<times> mach) option" where
  "uiomovezeros_loop cas zeros n u s =
     (if 0 < n then
        (let amt = (if (16::u32) > n then n else 16) in
         case uiomove cas zeros amt u s of
           None \<Rightarrow> None
         | Some (Inl e, u', s') \<Rightarrow> Some (Inl e, u', s')
         | Some (Inr _, u', s') \<Rightarrow> uiomovezeros_loop cas zeros (n - amt) u' s')
      else Some (Inr (), u, s))"
  by pat_completeness auto
termination
proof (relation "measure (\<lambda>(cas, zeros, n, u, s). unat n)", goal_cases)
  case 1
  then show ?case by simp
next
  case (2 cas zeros n u s amt)
  then have "0 < amt" "amt \<le> n" by (auto simp: word_gt_0 not_less split: if_splits)
  then show ?case by (simp add: unat_sub word_le_nat_alt word_less_nat_alt)
qed

declare uiomovezeros_loop.simps [simp del]

definition uiomovezeros ::
    "nat option \<Rightarrow> vaddr \<Rightarrow> u32 \<Rightarrow> uio \<Rightarrow> mach \<Rightarrow> ((errno + unit) \<times> uio \<times> mach) option" where
  "uiomovezeros cas zeros n u s =
     do { kassert (uio_rw u = UIO_READ); uiomovezeros_loop cas zeros n u s }"

definition uio_kinit :: "vaddr \<Rightarrow> u32 \<Rightarrow> u64 \<Rightarrow> uio_rw \<Rightarrow> uio" where
  "uio_kinit kbuf len pos rw =
     \<lparr>uio_iov = [\<lparr>iov_base = kbuf, iov_len = len\<rparr>], uio_offset = pos, uio_resid = len,
      uio_segflg = UIO_SYSSPACE, uio_rw = rw, uio_space = None\<rparr>"

definition uio_uinit :: "nat option \<Rightarrow> vaddr \<Rightarrow> u32 \<Rightarrow> u64 \<Rightarrow> uio_rw \<Rightarrow> uio" where
  "uio_uinit cas ubuf len pos rw =
     \<lparr>uio_iov = [\<lparr>iov_base = ubuf, iov_len = len\<rparr>], uio_offset = pos, uio_resid = len,
      uio_segflg = UIO_USERSPACE, uio_rw = rw, uio_space = cas\<rparr>"

section \<open>Well-formed uios\<close>

text \<open>What the comment in uio.h asks of a caller: the residue is the total of the buffers.\<close>

definition uio_wf :: "uio \<Rightarrow> bool" where
  "uio_wf u \<longleftrightarrow> sum_list (map (unat \<circ> iov_len) (uio_iov u)) = unat (uio_resid u)"

lemma uio_wf_uinit [simp]: "uio_wf (uio_uinit cas buf len pos rw)"
  by (simp add: uio_wf_def uio_uinit_def)

lemma uio_wf_kinit [simp]: "uio_wf (uio_kinit buf len pos rw)"
  by (simp add: uio_wf_def uio_kinit_def)

text \<open>
  How much of the request is done: \<open>u'\<close> is \<open>u\<close> with \<open>k\<close> more bytes transferred, as the
  offset and the residue both record.
\<close>

definition uio_moved :: "nat \<Rightarrow> uio \<Rightarrow> uio \<Rightarrow> bool" where
  "uio_moved k u u' \<longleftrightarrow>
     unat (uio_resid u') + k = unat (uio_resid u) \<and>
     uio_offset u' = uio_offset u + of_nat k \<and>
     uio_segflg u' = uio_segflg u \<and> uio_rw u' = uio_rw u \<and> uio_space u' = uio_space u"

lemma uio_moved_refl [simp]: "uio_moved 0 u u"
  by (simp add: uio_moved_def)

lemma uio_moved_trans: "uio_moved k u u' \<Longrightarrow> uio_moved l u' u'' \<Longrightarrow> uio_moved (k + l) u u''"
  by (simp add: uio_moved_def add.assoc)

lemma uio_advance_wf:
  assumes "uio_wf u" "uio_iov u = iov # rest" "sz \<le> iov_len iov"
  shows "uio_wf (uio_advance sz u) \<and> uio_moved (unat sz) u (uio_advance sz u)"
proof -
  have "unat sz \<le> unat (iov_len iov)" using assms(3) by (simp add: word_le_nat_alt)
  moreover have "unat (iov_len iov) \<le> unat (uio_resid u)"
    using assms(1,2) by (simp add: uio_wf_def)
  ultimately have "unat (uio_resid u - sz) = unat (uio_resid u) - unat sz"
    "unat (iov_len iov - sz) = unat (iov_len iov) - unat sz"
    using assms(3) by (simp_all add: unat_sub word_le_nat_alt)
  moreover note \<open>unat sz \<le> unat (iov_len iov)\<close> \<open>unat (iov_len iov) \<le> unat (uio_resid u)\<close>
  ultimately show ?thesis
    using assms(1,2) by (simp add: uio_wf_def uio_moved_def uio_advance_def)
qed

section \<open>Moving blocks\<close>

lemma guarded_memcpy_err: "guarded_memcpy d s len st = (Inl e, st') \<Longrightarrow> e = EFAULT"
  by (auto simp: guarded_memcpy_def Let_def split: prod.splits if_splits)

lemma copyin_err: "copyin p d len s = (Inl e, s') \<Longrightarrow> e = EFAULT"
  by (auto simp: copyin_def dest: copycheck_Inl guarded_memcpy_err split: sum.splits if_splits)

lemma copyout_err: "copyout p d len s = (Inl e, s') \<Longrightarrow> e = EFAULT"
  by (auto simp: copyout_def dest: copycheck_Inl guarded_memcpy_err split: sum.splits if_splits)

lemma uio_move_block_user:
  assumes "uio_segflg u \<noteq> UIO_SYSSPACE"
  obtains s' where "uio_move_block ptr base sz u s = Some (Inr (), s')"
    | s' where "uio_move_block ptr base sz u s = Some (Inl EFAULT, s')"
proof -
  obtain r s' where rs: "uio_move_block ptr base sz u s = Some (r, s')"
    using assms by (cases "if uio_rw u = UIO_READ then copyout ptr base sz s else copyin base ptr sz s";
        cases "uio_segflg u") (auto simp: uio_move_block_def)
  then show thesis
  proof (cases r)
    case (Inl e)
    with rs assms have "e = EFAULT"
      by (cases "uio_segflg u") (auto simp: uio_move_block_def dest: copyin_err copyout_err split: if_splits)
    with rs Inl that(2) show thesis by blast
  qed (use rs that(1) in simp)
qed

text \<open>The loop's progress: each round transfers a block, drops an empty iovec or ends.\<close>

lemma uiomove_loop_user:
  assumes "uio_segflg u \<noteq> UIO_SYSSPACE" "uio_wf u"
  shows "\<exists>r u' s' k. uiomove_loop ptr n u s = Some (r, u', s') \<and> uio_wf u' \<and> uio_moved k u u' \<and>
    (r = Inr () \<and> k = min (unat n) (unat (uio_resid u)) \<or>
     r = Inl EFAULT \<and> k < min (unat n) (unat (uio_resid u)))"
  using assms
proof (induction ptr n u s rule: uiomove_loop.induct)
  case (1 ptr n u s)
  note seg = 1(3) and wf = 1(4)
  show ?case
  proof (cases "0 < n \<and> 0 < uio_resid u")
    case False
    then have "min (unat n) (unat (uio_resid u)) = 0"
      by (metis min_0L min_0R unat_0 word_gt_0)
    with False wf show ?thesis by (intro exI [of _ 0] exI) (auto simp: uiomove_loop.simps [of ptr n u s])
  next
    case True
    then have pos: "0 < unat n" "0 < unat (uio_resid u)" by (simp_all add: word_less_nat_alt)
    with wf obtain iov rest where iov: "uio_iov u = iov # rest"
      by (cases "uio_iov u") (auto simp: uio_wf_def)
    define sz where "sz = (if iov_len iov > n then n else iov_len iov)"
    show ?thesis
    proof (cases "sz = 0")
      case zero: True
      then have len0: "iov_len iov = 0" using True by (auto simp: sz_def split: if_splits)
      then have "rest \<noteq> []" using wf iov pos by (auto simp: uio_wf_def)
      then have step: "uiomove_loop ptr n u s = uiomove_loop ptr n (u\<lparr>uio_iov := rest\<rparr>) s"
        using True iov zero by (simp add: uiomove_loop.simps [of ptr n u s] sz_def)
      have wf': "uio_wf (u\<lparr>uio_iov := rest\<rparr>)" using wf iov len0 by (simp add: uio_wf_def)
      have "\<exists>r u' s' k. uiomove_loop ptr n (u\<lparr>uio_iov := rest\<rparr>) s = Some (r, u', s') \<and> uio_wf u' \<and>
        uio_moved k (u\<lparr>uio_iov := rest\<rparr>) u' \<and>
        (r = Inr () \<and> k = min (unat n) (unat (uio_resid (u\<lparr>uio_iov := rest\<rparr>))) \<or>
         r = Inl EFAULT \<and> k < min (unat n) (unat (uio_resid (u\<lparr>uio_iov := rest\<rparr>))))"
        by (rule 1(1) [OF True iov sz_def zero \<open>rest \<noteq> []\<close>]) (use seg wf' in simp_all)
      then show ?thesis unfolding step by (simp add: uio_moved_def)
    next
      case nz: False
      have le: "sz \<le> iov_len iov" "sz \<le> n" by (auto simp: sz_def)
      have adv: "uio_wf (uio_advance sz u)" "uio_moved (unat sz) u (uio_advance sz u)"
        using uio_advance_wf [OF wf iov le(1)] by simp_all
      have nsz: "unat (n - sz) = unat n - unat sz" "unat sz \<le> unat n" "0 < unat sz"
        using le(2) nz by (simp_all add: unat_sub word_le_nat_alt unat_gt_0)
      show ?thesis
      proof (rule uio_move_block_user [OF seg, of ptr "iov_base iov" sz s])
        fix s' assume blk: "uio_move_block ptr (iov_base iov) sz u s = Some (Inl EFAULT, s')"
        have "uiomove_loop ptr n u s = Some (Inl EFAULT, u, s')"
          using True iov nz blk by (simp add: uiomove_loop.simps [of ptr n u s] sz_def)
        with wf pos show ?thesis by (intro exI [of _ 0] exI) auto
      next
        fix s' assume blk: "uio_move_block ptr (iov_base iov) sz u s = Some (Inr (), s')"
        have step: "uiomove_loop ptr n u s = uiomove_loop (ptr + sz) (n - sz) (uio_advance sz u) s'"
          using True iov nz blk by (simp add: uiomove_loop.simps [of ptr n u s] sz_def Let_def)
        have "\<exists>r u' s'' k. uiomove_loop (ptr + sz) (n - sz) (uio_advance sz u) s' = Some (r, u', s'') \<and>
          uio_wf u' \<and> uio_moved k (uio_advance sz u) u' \<and>
          (r = Inr () \<and> k = min (unat (n - sz)) (unat (uio_resid (uio_advance sz u))) \<or>
           r = Inl EFAULT \<and> k < min (unat (n - sz)) (unat (uio_resid (uio_advance sz u))))"
          by (rule 1(2) [OF True iov sz_def nz blk]) (use seg adv in \<open>simp_all add: uio_moved_def\<close>)
        then obtain r u' s'' k where k: "uiomove_loop ptr n u s = Some (r, u', s'')" "uio_wf u'"
          "uio_moved k (uio_advance sz u) u'"
          "r = Inr () \<and> k = min (unat (n - sz)) (unat (uio_resid (uio_advance sz u))) \<or>
           r = Inl EFAULT \<and> k < min (unat (n - sz)) (unat (uio_resid (uio_advance sz u)))"
          unfolding step by blast
        have "uio_moved (unat sz + k) u u'" using adv(2) k(3) by (rule uio_moved_trans)
        moreover have "min (unat n) (unat (uio_resid u)) =
            unat sz + min (unat (n - sz)) (unat (uio_resid (uio_advance sz u)))"
          using adv(2) nsz unfolding uio_moved_def by linarith
        ultimately show ?thesis using k by (intro exI conjI) auto
      qed
    qed
  qed
qed

text \<open>The one-iovec case, which is every uio the system calls build.\<close>

lemma uiomove_loop_single:
  assumes "uio_iov u = [iov]" "iov_len iov = uio_resid u"
    and "sz = min n (uio_resid u)" "0 < sz"
  shows "uiomove_loop ptr n u s =
    (case uio_move_block ptr (iov_base iov) sz u s of
       None \<Rightarrow> None
     | Some (Inl e, s') \<Rightarrow> Some (Inl e, u, s')
     | Some (Inr _, s') \<Rightarrow> Some (Inr (), uio_advance sz u, s'))"
proof -
  have sz: "sz = (if n < iov_len iov then n else iov_len iov)" "0 < n" "0 < uio_resid u" "sz \<noteq> 0"
    using assms by (auto simp: min_def not_le split: if_splits)
  have stop: "uiomove_loop (ptr + sz) (n - sz) (uio_advance sz u) s' = Some (Inr (), uio_advance sz u, s')" for s'
    using assms(3) by (subst uiomove_loop.simps) (auto simp: uio_advance_def min_def)
  show ?thesis
    by (subst uiomove_loop.simps)
      (simp add: sz(2-4) assms(1) sz(1) [symmetric] Let_def stop split: option.splits prod.splits sum.splits)
qed



end
