(* ===== verification/Array_Lib.thy ===== *)
theory Array_Lib
  imports Kern_Prelude
begin

text \<open>
  kern/lib/array.c and the inline operations of array.h: resizable arrays. The block \<^verbatim>\<open>v\<close>
  is a list of \<^verbatim>\<open>max\<close> slots, \<open>None\<close> for a slot never stored to. \<^verbatim>\<open>num\<close> and \<^verbatim>\<open>max\<close> are unsigned
  32-bit numbers, so the doubling in \<^verbatim>\<open>array_preallocate\<close> wraps around. The operations that may
  allocate take \<open>ok\<close>, whether \<^verbatim>\<open>kmalloc\<close> finds memory.
\<close>

section \<open>Definitions\<close>

record 'a array =
  arr_v :: "'a option list"
  arr_num :: nat
  arr_max :: nat

definition array_init :: "'a array" where
  "array_init = \<lparr>arr_v = [], arr_num = 0, arr_max = 0\<rparr>"

definition array_create :: "bool \<Rightarrow> 'a array option" where
  "array_create ok = (if ok then Some array_init else None)"

definition array_cleanup :: "'a array \<Rightarrow> 'a array option" where
  "array_cleanup a = do { kassert (arr_num a = 0); Some (a\<lparr>arr_v := []\<rparr>) }"

definition array_num :: "'a array \<Rightarrow> nat" where
  "array_num a = arr_num a"

text \<open>The loop that finds the new capacity; it need not end.\<close>

partial_function (option) array_newmax :: "nat \<Rightarrow> nat \<Rightarrow> nat option" where
  "array_newmax num newmax =
     (if num > newmax then array_newmax num (if newmax \<noteq> 0 then newmax * 2 mod 2 ^ 32 else 4)
      else Some newmax)"

definition array_preallocate :: "bool \<Rightarrow> nat \<Rightarrow> 'a array \<Rightarrow> ((errno + unit) \<times> 'a array) option" where
  "array_preallocate ok num a =
     (if num > arr_max a then
        do { newmax \<leftarrow> array_newmax num (arr_max a);
             if \<not> ok then Some (Inl ENOMEM, a)
             else Some (Inr (), a\<lparr>arr_v := take (arr_num a) (arr_v a) @ replicate (newmax - arr_num a) None,
                                  arr_max := newmax\<rparr>) }
      else Some (Inr (), a))"

definition array_setsize :: "bool \<Rightarrow> nat \<Rightarrow> 'a array \<Rightarrow> ((errno + unit) \<times> 'a array) option" where
  "array_setsize ok num a =
     do { (r, a1) \<leftarrow> array_preallocate ok num a;
          case r of Inl e \<Rightarrow> Some (Inl e, a1) | Inr _ \<Rightarrow> Some (Inr (), a1\<lparr>arr_num := num\<rparr>) }"

definition array_get :: "'a array \<Rightarrow> nat \<Rightarrow> 'a option" where
  "array_get a i = do { kassert (i < arr_num a); kassert (i < length (arr_v a)); arr_v a ! i }"

definition array_set :: "nat \<Rightarrow> 'a \<Rightarrow> 'a array \<Rightarrow> 'a array option" where
  "array_set i x a =
     do { kassert (i < arr_num a); kassert (i < length (arr_v a));
          Some (a\<lparr>arr_v := (arr_v a)[i := Some x]\<rparr>) }"

definition array_add :: "bool \<Rightarrow> 'a \<Rightarrow> 'a array \<Rightarrow> ((errno + nat) \<times> 'a array) option" where
  "array_add ok x a =
     (let index = arr_num a in
      do { (r, a1) \<leftarrow> array_setsize ok ((index + 1) mod 2 ^ 32) a;
           case r of
             Inl e \<Rightarrow> Some (Inl e, a1)
           | Inr _ \<Rightarrow> do { kassert (index < length (arr_v a1));
                           Some (Inr index, a1\<lparr>arr_v := (arr_v a1)[index := Some x]\<rparr>) } })"

definition array_remove :: "nat \<Rightarrow> 'a array \<Rightarrow> 'a array option" where
  "array_remove i a =
     do { kassert (arr_num a \<le> arr_max a);
          kassert (i < arr_num a);
          let num_to_move = arr_num a - (i + 1);
          Some (a\<lparr>arr_v := take i (arr_v a) @ take num_to_move (drop (i + 1) (arr_v a))
                              @ drop (i + num_to_move) (arr_v a),
                  arr_num := arr_num a - 1\<rparr>) }"

section \<open>Growing\<close>

text \<open>A capacity: zero or a power of two from 4 up to the largest a word can hold.\<close>

definition arr_cap :: "nat \<Rightarrow> bool" where
  "arr_cap c \<longleftrightarrow> c = 0 \<or> (\<exists>k. c = 2 ^ k \<and> 2 \<le> k \<and> k \<le> 31)"

lemma arr_cap_le: "arr_cap c \<Longrightarrow> c \<le> 2 ^ 31"
  using power_increasing [of _ 31 "2::nat"] by (auto simp: arr_cap_def simp del: power_numeral)

lemma arr_cap_step: "arr_cap c \<Longrightarrow> arr_cap (if c \<noteq> 0 then c * 2 mod 2 ^ 32 else 4)"
proof (cases "c = 0")
  case True
  then show ?thesis by (auto simp: arr_cap_def intro!: exI [of _ 2])
next
  case False
  assume "arr_cap c"
  with False obtain k where k: "c = 2 ^ k" "2 \<le> k" "k \<le> 31" by (auto simp: arr_cap_def)
  show ?thesis
  proof (cases "k = 31")
    case True
    then show ?thesis using k by (simp add: arr_cap_def)
  next
    case False
    then have "(2::nat) ^ Suc k < 2 ^ 32" using k by (intro power_strict_increasing) simp_all
    then have "c * 2 mod 2 ^ 32 = 2 ^ Suc k" using k by (simp add: mult.commute)
    then show ?thesis using k False by (auto simp: arr_cap_def intro!: exI [of _ "Suc k"])
  qed
qed

lemma array_newmax_result:
  assumes "array_newmax num c = Some c'" "arr_cap c"
  shows "num \<le> c' \<and> arr_cap c'"
proof -
  have "arr_cap c \<longrightarrow> num \<le> c' \<and> arr_cap c'"
  proof (rule array_newmax.raw_induct [of "\<lambda>num c c'. arr_cap c \<longrightarrow> num \<le> c' \<and> arr_cap c'", OF _ assms(1)])
    fix f num c y
    assume ih: "\<And>num c y. f num c = Some y \<Longrightarrow> arr_cap c \<longrightarrow> num \<le> y \<and> arr_cap y"
      and f: "(if num > c then f num (if c \<noteq> 0 then c * 2 mod 2 ^ 32 else 4) else Some c) = Some y"
    show "arr_cap c \<longrightarrow> num \<le> y \<and> arr_cap y"
      using ih [of num "if c \<noteq> 0 then c * 2 mod 2 ^ 32 else 4" y] f arr_cap_step [of c]
      by (cases "num > c") auto
  qed
  with assms(2) show ?thesis by blast
qed

lemma array_newmax_power:
  assumes "num \<le> 2 ^ 31" "2 \<le> k" "k \<le> 31"
  shows "\<exists>c'. array_newmax num (2 ^ k) = Some c'"
  using assms(2,3)
proof (induction "31 - k" arbitrary: k)
  case 0
  then have "k = 31" by simp
  then show ?case using assms(1) by (simp add: array_newmax.simps)
next
  case (Suc n)
  then have lt: "(2::nat) ^ Suc k < 2 ^ 32" by (intro power_strict_increasing) simp_all
  have "\<exists>c'. array_newmax num (2 ^ Suc k) = Some c'" using Suc by (intro Suc.hyps(1)) simp_all
  with lt show ?case by (subst array_newmax.simps) (simp add: mult.commute)
qed

lemma array_newmax_returns:
  assumes "arr_cap c" "num \<le> 2 ^ 31"
  shows "\<exists>c'. array_newmax num c = Some c'"
proof (cases "c = 0")
  case True
  have "\<exists>c'. array_newmax num 4 = Some c'" using array_newmax_power [OF assms(2), of 2] by simp
  with True show ?thesis by (subst array_newmax.simps) simp
next
  case False
  with assms array_newmax_power show ?thesis by (auto simp: arr_cap_def)
qed

section \<open>What an array promises\<close>

text \<open>
  The contract clients of arrays rely on, over the list \<open>elems\<close> of the elements: laws for
  each operation, errors included, and what a loop over all indices sees.
\<close>

locale growable_array =
  fixes ainv :: "'t \<Rightarrow> bool" and elems :: "'t \<Rightarrow> 'a list"
    and num :: "'t \<Rightarrow> nat" and get :: "'t \<Rightarrow> nat \<Rightarrow> 'a option"
    and put :: "nat \<Rightarrow> 'a \<Rightarrow> 't \<Rightarrow> 't option"
    and add :: "bool \<Rightarrow> 'a \<Rightarrow> 't \<Rightarrow> ((errno + nat) \<times> 't) option"
    and remove :: "nat \<Rightarrow> 't \<Rightarrow> 't option"
  assumes num_law: "ainv a \<Longrightarrow> num a = length (elems a)"
    and get_law: "ainv a \<Longrightarrow> get a i = (if i < length (elems a) then Some (elems a ! i) else None)"
    and put_law: "ainv a \<Longrightarrow> i < length (elems a) \<Longrightarrow>
      \<exists>a'. put i x a = Some a' \<and> ainv a' \<and> elems a' = (elems a)[i := x]"
    and add_law: "ainv a \<Longrightarrow> length (elems a) < 2 ^ 31 \<Longrightarrow>
      \<exists>r a'. add ok x a = Some (r, a') \<and> ainv a' \<and>
        (r = Inl ENOMEM \<and> \<not> ok \<and> elems a' = elems a \<or>
         r = Inr (length (elems a)) \<and> elems a' = elems a @ [x])"
    and remove_law: "ainv a \<Longrightarrow> i < length (elems a) \<Longrightarrow>
      \<exists>a'. remove i a = Some a' \<and> ainv a' \<and> elems a' = take i (elems a) @ drop (Suc i) (elems a)"
begin

text \<open>A loop \<^verbatim>\<open>for (i=0; i<num; i++)\<close> that gets each entry sees the elements in order.\<close>

lemma scan: "ainv a \<Longrightarrow> map (get a) [0..<num a] = map Some (elems a)"
  by (rule nth_equalityI) (simp_all add: num_law get_law)

lemma get_add:
  "ainv a \<Longrightarrow> length (elems a) < 2 ^ 31 \<Longrightarrow> add ok x a = Some (Inr i, a') \<Longrightarrow>
    get a' j = (if j = i then Some x else get a j)"
  using add_law [of a ok x] by (auto simp: get_law nth_append split: if_splits)

lemma get_remove:
  assumes "ainv a" "i < num a" "remove i a = Some a'"
  shows "get a' j = get a (if j < i then j else Suc j)"
proof -
  have i: "i < length (elems a)" using assms by (simp add: num_law)
  with remove_law [OF assms(1) i] assms(3)
  have a': "ainv a'" "elems a' = take i (elems a) @ drop (Suc i) (elems a)" by auto
  show ?thesis using i by (auto simp: get_law a' assms(1) nth_append min_def)
qed

lemma add_fails_only_without_memory:
  "ainv a \<Longrightarrow> length (elems a) < 2 ^ 31 \<Longrightarrow> \<exists>a'. add True x a = Some (Inr (num a), a')"
  using add_law [of a True x] by (auto simp: num_law)

end

section \<open>The arrays of array.c keep the contract\<close>

definition array_ok :: "'a array \<Rightarrow> bool" where
  "array_ok a \<longleftrightarrow> arr_cap (arr_max a) \<and> length (arr_v a) = arr_max a \<and> arr_num a \<le> arr_max a \<and>
     (\<forall>i<arr_num a. arr_v a ! i \<noteq> None)"

definition array_elems :: "'a array \<Rightarrow> 'a list" where
  "array_elems a = map the (take (arr_num a) (arr_v a))"

text \<open>What a loop over all indices reads.\<close>

definition array_items :: "'a array \<Rightarrow> 'a list option" where
  "array_items a = those (map (array_get a) [0..<array_num a])"

lemma array_init_ok [simp]: "array_ok array_init" "array_elems array_init = []"
  by (simp_all add: array_ok_def array_init_def array_elems_def arr_cap_def)

lemma array_elems_length: "array_ok a \<Longrightarrow> length (array_elems a) = arr_num a"
  by (simp add: array_ok_def array_elems_def)

lemma array_elems_nth: "array_ok a \<Longrightarrow> i < arr_num a \<Longrightarrow> arr_v a ! i = Some (array_elems a ! i)"
  by (auto simp: array_ok_def array_elems_def)

lemma array_preallocate_spec:
  assumes "array_ok a" "n \<le> 2 ^ 31" "arr_num a \<le> n"
  shows "\<exists>r a'. array_preallocate ok n a = Some (r, a') \<and> array_ok a' \<and> array_elems a' = array_elems a \<and>
    arr_num a' = arr_num a \<and>
    (r = Inl ENOMEM \<and> \<not> ok \<and> a' = a \<or> r = Inr () \<and> n \<le> arr_max a')"
proof (cases "n > arr_max a")
  case False
  then show ?thesis using assms(1) by (simp add: array_preallocate_def)
next
  case True
  have cap: "arr_cap (arr_max a)" using assms(1) by (simp add: array_ok_def)
  with array_newmax_returns assms(2) obtain c where c: "array_newmax n (arr_max a) = Some c" by blast
  with array_newmax_result cap have "n \<le> c" "arr_cap c" by blast+
  with True assms c show ?thesis
    by (auto simp: array_preallocate_def array_ok_def array_elems_def nth_append)
qed

lemma array_add_spec:
  assumes "array_ok a" "length (array_elems a) < 2 ^ 31"
  shows "\<exists>r a'. array_add ok x a = Some (r, a') \<and> array_ok a' \<and>
    (r = Inl ENOMEM \<and> \<not> ok \<and> array_elems a' = array_elems a \<or>
     r = Inr (length (array_elems a)) \<and> array_elems a' = array_elems a @ [x])"
proof -
  let ?n = "Suc (arr_num a)"
  have n: "?n \<le> 2 ^ 31" "?n mod 2 ^ 32 = ?n" using assms by (simp_all add: array_elems_length)
  from array_preallocate_spec [OF assms(1) n(1), of ok] obtain r a1 where
    p: "array_preallocate ok ?n a = Some (r, a1)" "array_ok a1" "array_elems a1 = array_elems a"
    "arr_num a1 = arr_num a" "r = Inl ENOMEM \<and> \<not> ok \<and> a1 = a \<or> r = Inr () \<and> ?n \<le> arr_max a1" by auto
  show ?thesis
  proof (cases r)
    case (Inl e)
    with p n show ?thesis by (auto simp: array_add_def array_setsize_def)
  next
    case (Inr u)
    let ?a = "a1\<lparr>arr_num := ?n, arr_v := (arr_v a1)[arr_num a := Some x]\<rparr>"
    have lt: "arr_num a < length (arr_v a1)" using p Inr by (auto simp: array_ok_def)
    have "array_add ok x a = Some (Inr (arr_num a), ?a)"
      using p(1) n Inr lt by (simp add: array_add_def array_setsize_def Let_def)
    moreover have "array_ok ?a"
      using p Inr by (auto simp: array_ok_def nth_list_update less_Suc_eq)
    moreover have "array_elems ?a = array_elems a @ [x]"
      using lt p(3,4) by (simp add: array_elems_def take_Suc_conv_app_nth)
    ultimately show ?thesis using assms(1) by (simp add: array_elems_length)
  qed
qed

lemma array_remove_spec:
  assumes "array_ok a" "i < length (array_elems a)"
  shows "\<exists>a'. array_remove i a = Some a' \<and> array_ok a' \<and>
    array_elems a' = take i (array_elems a) @ drop (Suc i) (array_elems a)"
proof -
  have i: "i < arr_num a" "arr_num a \<le> length (arr_v a)" "arr_num a \<le> arr_max a"
    using assms by (simp_all add: array_elems_length array_ok_def)
  let ?n = "arr_num a" and ?v = "arr_v a"
  let ?v' = "take i ?v @ take (?n - Suc i) (drop (Suc i) ?v) @ drop (i + (?n - Suc i)) ?v"
  let ?a = "a\<lparr>arr_v := ?v', arr_num := ?n - 1\<rparr>"
  have rm: "array_remove i a = Some ?a" using i by (simp add: array_remove_def)
  have tk: "take (?n - 1) ?v' = take i ?v @ take (?n - Suc i) (drop (Suc i) ?v)"
    using i by simp
  have "array_ok ?a"
  proof -
    have "?v' ! j \<noteq> None" if "j < ?n - 1" for j
    proof -
      have "?v' ! j = take (?n - 1) ?v' ! j" using that by (intro nth_take [symmetric])
      also have "\<dots> = ?v ! (if j < i then j else Suc j)"
        unfolding tk using that i by (auto simp: nth_append min_def)
      finally show ?thesis using assms(1) that i by (auto simp: array_ok_def)
    qed
    with assms(1) i show ?thesis by (auto simp: array_ok_def)
  qed
  moreover have "array_elems ?a = map the (take (?n - 1) ?v')"
    by (simp add: array_elems_def del: take_append)
  then have "array_elems ?a = take i (array_elems a) @ drop (Suc i) (array_elems a)"
    unfolding tk using i by (simp add: array_elems_def take_map drop_map drop_take min_def)
  ultimately show ?thesis using rm by blast
qed

interpretation karray: growable_array array_ok array_elems array_num array_get array_set array_add array_remove
proof
  fix a :: "'a array" and i x
  assume ok: "array_ok a"
  show "array_num a = length (array_elems a)" using ok by (simp add: array_num_def array_elems_length)
  show "array_get a i = (if i < length (array_elems a) then Some (array_elems a ! i) else None)"
    using ok array_elems_nth [OF ok, of i] by (auto simp: array_get_def array_elems_length array_ok_def)
  show "\<exists>a'. array_set i x a = Some a' \<and> array_ok a' \<and> array_elems a' = (array_elems a)[i := x]"
    if "i < length (array_elems a)"
    using ok that by (auto simp: array_set_def array_elems_length array_ok_def array_elems_def
        nth_list_update take_update_swap map_update)
qed (simp_all add: array_add_spec array_remove_spec)

lemma array_items_elems: "array_ok a \<Longrightarrow> array_items a = Some (array_elems a)"
proof -
  have "those (map Some xs) = Some xs" for xs :: "'a list" by (induction xs) simp_all
  then show "array_ok a \<Longrightarrow> array_items a = Some (array_elems a)"
    by (simp add: array_items_def karray.scan)
qed

end
