(* ===== verification/Kernel_State.thy ===== *)
theory Kernel_State
  imports Uio Array_Lib
begin

unbundle bit_operations_syntax

text \<open>
  The state the kernel's file-system side works on, as one record: memory, the current thread and
  process, the heap of vnodes, devices and file systems, the VFS layer's globals and the console.
  The operations tables of C (\<^verbatim>\<open>struct vnode_ops\<close>, \<^verbatim>\<open>struct device_ops\<close>, \<^verbatim>\<open>struct fs_ops\<close>) are
  records of functions. Tables that file systems and drivers bring along are looked up in an
  environment \<open>'w kenv\<close>, an argument of every operation that dispatches through them.

  A function that may sleep, fail an assertion or panic returns an option, with \<open>None\<close> when
  the call does not return; an error number it returns is the \<open>Inl\<close> part of a sum.
\<close>

section \<open>Object references and structures\<close>

type_synonym vref = nat
type_synonym devref = nat
type_synonym fsref = nat
type_synonym tid = nat
type_synonym procid = nat

type_synonym ('w, 'a) kfun = "'w \<Rightarrow> ((errno + 'a) \<times> 'w) option"
type_synonym 'w uiofun = "uio \<Rightarrow> 'w \<Rightarrow> ((errno + unit) \<times> uio \<times> 'w) option"

text \<open>The operations table a vnode or a device points to.\<close>

datatype vops_id = Dev_vnode_ops | Fs_vnode_ops nat
datatype dops_id = Null_devops | Console_devops | Drv_devops nat

text \<open>\<open>vn_ops = None\<close> is the null pointer \<^verbatim>\<open>vnode_cleanup\<close> leaves.\<close>

record vnode =
  vn_refcount :: int
  vn_fs :: "fsref option"
  vn_data :: nat
  vn_ops :: "vops_id option"

record device =
  d_ops :: dops_id
  d_blocks :: u32
  d_blocksize :: u32
  d_devnumber :: u32

text \<open>
  \<^verbatim>\<open>kd_fs\<close> is null, the placeholder \<^verbatim>\<open>SWAP_FS\<close> or a file system. \<^verbatim>\<open>kd_device\<close> is null for a
  device that is hardwired to a file system.
\<close>

datatype kd_fs_ptr = Fs_null | SWAP_FS | Fs_at fsref

record knowndev =
  kd_name :: string
  kd_rawname :: "string option"
  kd_device :: "devref option"
  kd_vnode :: vref
  kd_fs :: kd_fs_ptr

record stat =
  st_size :: u64
  st_mode :: u32
  st_nlink :: "16 word"
  st_blocks :: u32
  st_dev :: u32
  st_ino :: u32
  st_rdev :: u32
  st_atime :: u64
  st_ctime :: u64
  st_mtime :: u64
  st_atimensec :: u32
  st_ctimensec :: u32
  st_mtimensec :: u32
  st_uid :: u32
  st_gid :: u32
  st_gen :: u32
  st_blksize :: u32

section \<open>Operations tables\<close>

record 'w vnode_ops =
  vop_eachopen :: "vref \<Rightarrow> u32 \<Rightarrow> ('w, unit) kfun"
  vop_reclaim :: "vref \<Rightarrow> ('w, unit) kfun"
  vop_read :: "vref \<Rightarrow> 'w uiofun"
  vop_readlink :: "vref \<Rightarrow> 'w uiofun"
  vop_getdirentry :: "vref \<Rightarrow> 'w uiofun"
  vop_write :: "vref \<Rightarrow> 'w uiofun"
  vop_ioctl :: "vref \<Rightarrow> int \<Rightarrow> vaddr \<Rightarrow> ('w, unit) kfun"
  vop_stat :: "vref \<Rightarrow> ('w, stat) kfun"
  vop_gettype :: "vref \<Rightarrow> ('w, u32) kfun"
  vop_isseekable :: "vref \<Rightarrow> 'w \<Rightarrow> (bool \<times> 'w) option"
  vop_fsync :: "vref \<Rightarrow> ('w, unit) kfun"
  vop_mmap :: "vref \<Rightarrow> ('w, unit) kfun"
  vop_truncate :: "vref \<Rightarrow> u64 \<Rightarrow> ('w, unit) kfun"
  vop_namefile :: "vref \<Rightarrow> 'w uiofun"
  vop_creat :: "vref \<Rightarrow> string \<Rightarrow> bool \<Rightarrow> u32 \<Rightarrow> ('w, vref) kfun"
  vop_symlink :: "vref \<Rightarrow> string \<Rightarrow> string \<Rightarrow> ('w, unit) kfun"
  vop_mkdir :: "vref \<Rightarrow> string \<Rightarrow> u32 \<Rightarrow> ('w, unit) kfun"
  vop_link :: "vref \<Rightarrow> string \<Rightarrow> vref \<Rightarrow> ('w, unit) kfun"
  vop_remove :: "vref \<Rightarrow> string \<Rightarrow> ('w, unit) kfun"
  vop_rmdir :: "vref \<Rightarrow> string \<Rightarrow> ('w, unit) kfun"
  vop_rename :: "vref \<Rightarrow> string \<Rightarrow> vref \<Rightarrow> string \<Rightarrow> ('w, unit) kfun"
  vop_lookup :: "vref \<Rightarrow> string \<Rightarrow> ('w, vref) kfun"
  vop_lookparent :: "vref \<Rightarrow> string \<Rightarrow> nat \<Rightarrow> ('w, vref \<times> string) kfun"

record 'w device_ops =
  devop_eachopen :: "devref \<Rightarrow> u32 \<Rightarrow> ('w, unit) kfun"
  devop_io :: "devref \<Rightarrow> 'w uiofun"
  devop_ioctl :: "devref \<Rightarrow> int \<Rightarrow> vaddr \<Rightarrow> ('w, unit) kfun"

record 'w fs_ops =
  fsop_sync :: "fsref \<Rightarrow> ('w, unit) kfun"
  fsop_getvolname :: "fsref \<Rightarrow> 'w \<Rightarrow> string option"
  fsop_getroot :: "fsref \<Rightarrow> ('w, vref) kfun"
  fsop_unmount :: "fsref \<Rightarrow> ('w, unit) kfun"

record 'w kenv =
  e_vops :: "nat \<Rightarrow> 'w vnode_ops"
  e_dops :: "nat \<Rightarrow> 'w device_ops"
  e_fsops :: "fsref \<Rightarrow> 'w fs_ops"

section \<open>The state\<close>

text \<open>
  The console: the input ring \<^verbatim>\<open>cs_gotchars\<close>, the counts of its two semaphores, and the bytes
  handed to the hardware so far.
\<close>

record con_softc =
  cs_gotchars :: "byte list"
  cs_gotchars_head :: nat
  cs_gotchars_tail :: nat
  cs_rsem :: nat
  cs_wsem :: nat
  cs_sent :: "byte list"

text \<open>
  \<open>km_ok n\<close> says whether the \<open>n\<close>-th call of \<^verbatim>\<open>kmalloc\<close> finds memory, \<open>km_n\<close> counts the calls
  so far, and \<open>k_fresh\<close> is the next unused object address. A sleep lock is its holder, if any.
  \<open>con_keys\<close> is what will be typed, \<open>con_ch\<close> the address of the character variable of
  \<^verbatim>\<open>con_io\<close>, \<open>k_nosleep\<close> the condition under which \<^verbatim>\<open>putch\<close> must poll, and \<open>k_priv\<close> what file
  systems and drivers keep for themselves.
\<close>

record 'f kern =
  k_mach :: mach
  curthread :: tid
  curproc :: procid
  p_addrspace :: "procid \<Rightarrow> nat option"
  p_cwd :: "procid \<Rightarrow> vref option"
  km_ok :: "nat \<Rightarrow> bool"
  km_n :: nat
  k_fresh :: nat
  k_vn :: "vref \<Rightarrow> vnode option"
  k_dev :: "devref \<Rightarrow> device option"
  knowndevs :: "knowndev array"
  vfs_biglock :: "tid option"
  vfs_biglock_depth :: nat
  bootfs_vnode :: "vref option"
  the_console :: "con_softc option"
  delayed_outbuf :: "byte list"
  con_userlock_read :: "tid option option"
  con_userlock_write :: "tid option option"
  con_keys :: "byte list"
  con_ch :: vaddr
  k_nosleep :: bool
  k_priv :: 'f

text \<open>
  A machine that has just been switched on, with all of its memory mapped: the state the closed
  examples of the development start from.
\<close>

definition kern0 :: "'f \<Rightarrow> 'f kern" where
  "kern0 f = \<lparr>k_mach = \<lparr>mem = (\<lambda>a. Some 0), tm_badfaultfunc = False\<rparr>,
     curthread = 1, curproc = 1, p_addrspace = (\<lambda>p. None), p_cwd = (\<lambda>p. None),
     km_ok = (\<lambda>n. True), km_n = 0, k_fresh = 1, k_vn = (\<lambda>v. None), k_dev = (\<lambda>d. None),
     knowndevs = array_init, vfs_biglock = None, vfs_biglock_depth = 0, bootfs_vnode = None,
     the_console = None, delayed_outbuf = [], con_userlock_read = None, con_userlock_write = None,
     con_keys = [], con_ch = 0x80001000, k_nosleep = False, k_priv = f\<rparr>"

section \<open>Memory allocation, uiomove and sleep locks on the state\<close>

definition kmalloc :: "'f kern \<Rightarrow> bool \<times> 'f kern" where
  "kmalloc s = (km_ok s (km_n s), s\<lparr>km_n := Suc (km_n s)\<rparr>)"

definition proc_getas :: "'f kern \<Rightarrow> nat option" where
  "proc_getas s = p_addrspace s (curproc s)"

definition k_uiomove :: "vaddr \<Rightarrow> u32 \<Rightarrow> ('f kern) uiofun" where
  "k_uiomove ptr n u s =
     do { (r, u', m') \<leftarrow> uiomove (proc_getas s) ptr n u (k_mach s);
          Some (r, u', s\<lparr>k_mach := m'\<rparr>) }"

text \<open>
  \<^verbatim>\<open>lock_acquire\<close>, \<^verbatim>\<open>lock_release\<close> and \<^verbatim>\<open>lock_do_i_hold\<close> by thread \<open>t\<close>, as a call sees them that no
  other thread interrupts: acquiring a lock that is held does not return.
\<close>

definition lock_acquire :: "tid \<Rightarrow> tid option \<Rightarrow> tid option option" where
  "lock_acquire t lk = (if lk = None then Some (Some t) else None)"

definition lock_release :: "tid \<Rightarrow> tid option \<Rightarrow> tid option option" where
  "lock_release t lk = (if lk = Some t then Some None else None)"

definition lock_do_i_hold :: "tid \<Rightarrow> tid option \<Rightarrow> bool" where
  "lock_do_i_hold t lk \<longleftrightarrow> lk = Some t"

lemma lock_acquire_free [simp]: "lock_acquire t None = Some (Some t)"
  by (simp add: lock_acquire_def)

lemma lock_release_mine [simp]: "lock_release t (Some t) = Some None"
  by (simp add: lock_release_def)

lemma lock_acquire_Some_iff: "lock_acquire t lk = Some lk' \<longleftrightarrow> lk = None \<and> lk' = Some t"
  by (auto simp: lock_acquire_def)

lemma lock_release_Some_iff: "lock_release t lk = Some lk' \<longleftrightarrow> lk = Some t \<and> lk' = None"
  by (auto simp: lock_release_def)

section \<open>Open flags and file types (kern/fcntl.h, kern/stattypes.h)\<close>

definition O_RDONLY :: u32 where "O_RDONLY = 0"
definition O_WRONLY :: u32 where "O_WRONLY = 1"
definition O_RDWR :: u32 where "O_RDWR = 2"
definition O_CREAT :: u32 where "O_CREAT = 4"
definition O_EXCL :: u32 where "O_EXCL = 8"
definition O_TRUNC :: u32 where "O_TRUNC = 16"
definition O_APPEND :: u32 where "O_APPEND = 32"
definition O_ACCMODE :: u32 where "O_ACCMODE = 3"
definition S_IFREG :: u32 where "S_IFREG = 0x1000"
definition S_IFDIR :: u32 where "S_IFDIR = 0x2000"
definition S_IFCHR :: u32 where "S_IFCHR = 0x6000"
definition S_IFBLK :: u32 where "S_IFBLK = 0x7000"

lemmas flag_defs =
  O_RDONLY_def O_WRONLY_def O_RDWR_def O_CREAT_def O_EXCL_def O_TRUNC_def O_APPEND_def O_ACCMODE_def

lemmas type_defs = S_IFREG_def S_IFDIR_def S_IFCHR_def S_IFBLK_def

end
