(* ===== verification/Console.thy ===== *)
theory Console
  imports Kernel_State
begin

text \<open>
  kern/dev/generic/console.c: the console, a ring of typed characters filled by the input
  interrupt and emptied by readers, and an output side that sends one character at a time. The
  read and write calls of the device con: (\<^verbatim>\<open>con_io\<close>) are whole: the user locks, the
  translation of line ends and the transfer through the caller's uio. A reader that finds the
  ring empty waits for the next character of \<open>con_keys\<close>; a writer whose previous character is
  still being sent waits for the write-done interrupt.
\<close>

section \<open>Definitions\<close>

definition CONSOLE_INPUT_BUFFER_SIZE :: nat where "CONSOLE_INPUT_BUFFER_SIZE = 32"

definition DELAYBUFSIZE :: nat where "DELAYBUFSIZE = 1024"

definition putch_delayed :: "byte \<Rightarrow> 'f kern \<Rightarrow> 'f kern option" where
  "putch_delayed ch s =
     do { kassert (length (delayed_outbuf s) < DELAYBUFSIZE);
          Some (s\<lparr>delayed_outbuf := delayed_outbuf s @ [ch]\<rparr>) }"

definition putch_polled :: "byte \<Rightarrow> con_softc \<Rightarrow> con_softc" where
  "putch_polled ch cs = cs\<lparr>cs_sent := cs_sent cs @ [ch]\<rparr>"

definition con_start :: "con_softc \<Rightarrow> con_softc" where
  "con_start cs = cs\<lparr>cs_wsem := Suc (cs_wsem cs)\<rparr>"

text \<open>\<^verbatim>\<open>P(cs->cs_wsem)\<close>: when the count is 0 the thread sleeps until \<^verbatim>\<open>con_start\<close> has run.\<close>

definition P_wsem :: "con_softc \<Rightarrow> con_softc" where
  "P_wsem cs = (let cs' = (if 0 < cs_wsem cs then cs else con_start cs)
                in cs'\<lparr>cs_wsem := cs_wsem cs' - 1\<rparr>)"

definition putch_intr :: "byte \<Rightarrow> con_softc \<Rightarrow> con_softc" where
  "putch_intr ch cs = (let cs' = P_wsem cs in cs'\<lparr>cs_sent := cs_sent cs' @ [ch]\<rparr>)"

definition con_input :: "byte \<Rightarrow> con_softc \<Rightarrow> con_softc" where
  "con_input ch cs =
     (let nexthead = (cs_gotchars_head cs + 1) mod CONSOLE_INPUT_BUFFER_SIZE in
      if nexthead = cs_gotchars_tail cs then cs
      else cs\<lparr>cs_gotchars := (cs_gotchars cs)[cs_gotchars_head cs := ch],
              cs_gotchars_head := nexthead,
              cs_rsem := Suc (cs_rsem cs)\<rparr>)"

text \<open>
  \<^verbatim>\<open>P(cs->cs_rsem)\<close>: while the count is 0 the thread sleeps, and the characters typed next arrive
  through the input interrupt.
\<close>

fun P_rsem :: "byte list \<Rightarrow> con_softc \<Rightarrow> (byte list \<times> con_softc) option" where
  "P_rsem [] cs = (if 0 < cs_rsem cs then Some ([], cs\<lparr>cs_rsem := cs_rsem cs - 1\<rparr>) else None)"
| "P_rsem (k # ks) cs =
     (if 0 < cs_rsem cs then Some (k # ks, cs\<lparr>cs_rsem := cs_rsem cs - 1\<rparr>)
      else P_rsem ks (con_input k cs))"

definition getch_intr :: "byte list \<Rightarrow> con_softc \<Rightarrow> (byte \<times> byte list \<times> con_softc) option" where
  "getch_intr keys cs =
     do { (keys', cs') \<leftarrow> P_rsem keys cs;
          kassert (cs_gotchars_tail cs' < length (cs_gotchars cs'));
          Some (cs_gotchars cs' ! cs_gotchars_tail cs', keys',
                cs'\<lparr>cs_gotchars_tail := (cs_gotchars_tail cs' + 1) mod CONSOLE_INPUT_BUFFER_SIZE\<rparr>) }"

definition putch :: "byte \<Rightarrow> 'f kern \<Rightarrow> 'f kern option" where
  "putch ch s =
     (case the_console s of
        None \<Rightarrow> putch_delayed ch s
      | Some cs \<Rightarrow>
          if k_nosleep s then Some (s\<lparr>the_console := Some (putch_polled ch cs)\<rparr>)
          else Some (s\<lparr>the_console := Some (putch_intr ch cs)\<rparr>))"

definition getch :: "'f kern \<Rightarrow> (byte \<times> 'f kern) option" where
  "getch s =
     do { cs \<leftarrow> the_console s;
          kassert (\<not> k_nosleep s);
          (ch, keys, cs') \<leftarrow> getch_intr (con_keys s) cs;
          Some (ch, s\<lparr>the_console := Some cs', con_keys := keys\<rparr>) }"

text \<open>Storing to and loading from the variable \<^verbatim>\<open>ch\<close> of \<^verbatim>\<open>con_io\<close>.\<close>

definition k_store :: "vaddr \<Rightarrow> byte \<Rightarrow> 'f kern \<Rightarrow> 'f kern option" where
  "k_store a b s = do { m' \<leftarrow> write_bytes a [b] (mem (k_mach s)); Some (s\<lparr>k_mach := (k_mach s)\<lparr>mem := m'\<rparr>\<rparr>) }"

definition k_load :: "vaddr \<Rightarrow> 'f kern \<Rightarrow> byte option" where
  "k_load a s = mem (k_mach s) a"

definition con_eachopen :: "devref \<Rightarrow> u32 \<Rightarrow> ('f kern, unit) kfun" where
  "con_eachopen dev openflags s = Some (Inr (), s)"

text \<open>A successful move of one byte takes one byte off the residue, which ends the loop.\<close>

lemma uiomove_loop_one:
  "uiomove_loop ptr n u s = Some (Inr x, u', s') \<Longrightarrow> n = 1 \<Longrightarrow> 0 < uio_resid u \<Longrightarrow>
    uio_resid u' = uio_resid u - 1"
proof (induction ptr n u s rule: uiomove_loop.induct)
  case (1 ptr n u s)
  show ?case
  proof (cases "uio_iov u")
    case Nil
    with 1 show ?thesis by (simp add: uiomove_loop.simps [of ptr 1 u s])
  next
    case (Cons iov rest)
    show ?thesis
    proof (cases "iov_len iov = 0")
      case True
      have nr: "rest \<noteq> []"
        using 1(3-) Cons True by (auto simp: uiomove_loop.simps [of ptr 1 u s])
      have "uiomove_loop ptr n (u\<lparr>uio_iov := rest\<rparr>) s = Some (Inr x, u', s')"
        using 1(3-) Cons True nr by (simp add: uiomove_loop.simps [of ptr 1 u s])
      with 1(1) [of iov rest 0] nr True Cons 1(4,5) show ?thesis by simp
    next
      case False
      then have sz: "(if iov_len iov > n then n else iov_len iov) = 1"
        using 1(4) by (auto simp: not_less word_le_sub1 word_gt_0 intro: antisym)
      have stop: "uiomove_loop (ptr + 1) 0 (uio_advance 1 u) t = Some (Inr (), uio_advance 1 u, t)" for t
        by (simp add: uiomove_loop.simps)
      show ?thesis
        using 1(3-) Cons sz stop
        by (auto simp: uiomove_loop.simps [of ptr 1 u s] uio_advance_def split: option.splits sum.splits)
    qed
  qed
qed

lemma k_uiomove_one:
  "k_uiomove ptr 1 u s = Some (Inr x, u', s') \<Longrightarrow> 0 < uio_resid u \<Longrightarrow> uio_resid u' = uio_resid u - 1"
  by (auto simp: k_uiomove_def uiomove_def dest: uiomove_loop_one split: if_splits Option.bind_splits)

lemma k_uiomove_one_less:
  "k_uiomove ptr 1 u s = Some (Inr x, u', s') \<Longrightarrow> 0 < uio_resid u \<Longrightarrow> unat (uio_resid u') < unat (uio_resid u)"
  by (drule (1) k_uiomove_one) (simp add: unat_sub word_less_nat_alt word_le_nat_alt Suc_le_eq)

function con_io_loop :: "('f kern) uiofun" where
  "con_io_loop u s =
     (if 0 < uio_resid u then
        (if uio_rw u = UIO_READ then
           do { (c, s1) \<leftarrow> getch s;
                let ch = (if c = 13 then 10 else c);
                s2 \<leftarrow> k_store (con_ch s1) ch s1;
                (r, u', s3) \<leftarrow> k_uiomove (con_ch s2) 1 u s2;
                case r of
                  Inl e \<Rightarrow> Some (Inl e, u', s3)
                | Inr _ \<Rightarrow> if ch = 10 then Some (Inr (), u', s3) else con_io_loop u' s3 }
         else
           do { (r, u', s1) \<leftarrow> k_uiomove (con_ch s) 1 u s;
                case r of
                  Inl e \<Rightarrow> Some (Inl e, u', s1)
                | Inr _ \<Rightarrow>
                    do { ch \<leftarrow> k_load (con_ch s1) s1;
                         s2 \<leftarrow> (if ch = 10 then putch 13 s1 else Some s1);
                         s3 \<leftarrow> putch ch s2;
                         con_io_loop u' s3 } })
      else Some (Inr (), u, s))"
  by pat_completeness auto
termination
  by (relation "measure (\<lambda>(u, s). unat (uio_resid u))") (auto intro: k_uiomove_one_less)

declare con_io_loop.simps [simp del]

definition con_lock :: "uio_rw \<Rightarrow> 'f kern \<Rightarrow> tid option option" where
  "con_lock rw s = (if rw = UIO_READ then con_userlock_read s else con_userlock_write s)"

definition con_set_lock :: "uio_rw \<Rightarrow> tid option \<Rightarrow> 'f kern \<Rightarrow> 'f kern" where
  "con_set_lock rw h s =
     (if rw = UIO_READ then s\<lparr>con_userlock_read := Some h\<rparr> else s\<lparr>con_userlock_write := Some h\<rparr>)"

definition con_io :: "devref \<Rightarrow> ('f kern) uiofun" where
  "con_io dev u s =
     do { lk \<leftarrow> con_lock (uio_rw u) s;
          h \<leftarrow> lock_acquire (curthread s) lk;
          (r, u', s1) \<leftarrow> con_io_loop u (con_set_lock (uio_rw u) h s);
          lk1 \<leftarrow> con_lock (uio_rw u) s1;
          h1 \<leftarrow> lock_release (curthread s1) lk1;
          Some (r, u', con_set_lock (uio_rw u) h1 s1) }"

definition con_ioctl :: "devref \<Rightarrow> int \<Rightarrow> vaddr \<Rightarrow> ('f kern, unit) kfun" where
  "con_ioctl dev op data s = Some (Inl EINVAL, s)"

definition console_devops :: "('f kern) device_ops" where
  "console_devops = \<lparr>devop_eachopen = con_eachopen, devop_io = con_io, devop_ioctl = con_ioctl\<rparr>"

fun putch_all :: "byte list \<Rightarrow> 'f kern \<Rightarrow> 'f kern option" where
  "putch_all [] s = Some s"
| "putch_all (c # cs) s = do { s' \<leftarrow> putch c s; putch_all cs s' }"

definition flush_delay_buf :: "'f kern \<Rightarrow> 'f kern option" where
  "flush_delay_buf s =
     do { s' \<leftarrow> putch_all (delayed_outbuf s) s; Some (s'\<lparr>delayed_outbuf := []\<rparr>) }"

section \<open>The input ring is a queue\<close>

text \<open>
  The ring's invariant: the count of the read semaphore is the number of characters between the
  tail and the head. One slot always stays free, so the count is at most 31.
\<close>

definition con_ok :: "con_softc \<Rightarrow> bool" where
  "con_ok cs \<longleftrightarrow>
     length (cs_gotchars cs) = CONSOLE_INPUT_BUFFER_SIZE \<and>
     cs_gotchars_tail cs < CONSOLE_INPUT_BUFFER_SIZE \<and>
     cs_rsem cs < CONSOLE_INPUT_BUFFER_SIZE \<and>
     cs_gotchars_head cs = (cs_gotchars_tail cs + cs_rsem cs) mod CONSOLE_INPUT_BUFFER_SIZE"

text \<open>The characters in the ring, oldest first.\<close>

definition con_queue :: "con_softc \<Rightarrow> byte list" where
  "con_queue cs =
     map (\<lambda>i. cs_gotchars cs ! ((cs_gotchars_tail cs + i) mod CONSOLE_INPUT_BUFFER_SIZE)) [0..<cs_rsem cs]"

lemma ring_slot_neq:
  assumes "i < j" "j < m"
  shows "(t + i) mod m \<noteq> (t + j) mod (m::nat)"
proof
  assume "(t + i) mod m = (t + j) mod m"
  then have "m dvd (t + j) - (t + i)" using assms mod_eq_dvd_iff_nat [of "t + i" "t + j" m] by auto
  with assms show False by (auto dest: dvd_imp_le)
qed

lemma con_input_full_iff:
  assumes "con_ok cs"
  shows "(cs_gotchars_head cs + 1) mod CONSOLE_INPUT_BUFFER_SIZE = cs_gotchars_tail cs \<longleftrightarrow> cs_rsem cs = 31"
proof -
  have "(cs_gotchars_head cs + 1) mod 32 = (cs_gotchars_tail cs + Suc (cs_rsem cs)) mod 32"
    using assms by (simp add: con_ok_def CONSOLE_INPUT_BUFFER_SIZE_def mod_Suc_eq)
  moreover have "(t + Suc r) mod 32 = t \<longleftrightarrow> r = 31" if "t < 32" "r < 32" for t r :: nat
    using that by (auto simp: mod_if [of "Suc (t + r)"] split: if_splits)
  ultimately show ?thesis using assms by (simp add: con_ok_def CONSOLE_INPUT_BUFFER_SIZE_def)
qed

lemma con_input_ok: "con_ok cs \<Longrightarrow> con_ok (con_input ch cs)"
  using con_input_full_iff [of cs]
  by (auto simp: con_input_def con_ok_def Let_def CONSOLE_INPUT_BUFFER_SIZE_def mod_Suc_eq)

lemma con_input_queue:
  assumes "con_ok cs"
  shows "con_queue (con_input ch cs) = (if cs_rsem cs = 31 then con_queue cs else con_queue cs @ [ch])"
proof (cases "cs_rsem cs = 31")
  case True
  then show ?thesis using con_input_full_iff [OF assms] by (simp add: con_input_def)
next
  case False
  let ?t = "cs_gotchars_tail cs"
  have h: "cs_gotchars_head cs = (?t + cs_rsem cs) mod 32" "cs_gotchars_head cs < length (cs_gotchars cs)"
    using assms by (simp_all add: con_ok_def CONSOLE_INPUT_BUFFER_SIZE_def)
  have "(cs_gotchars cs)[cs_gotchars_head cs := ch] ! ((?t + i) mod 32) = cs_gotchars cs ! ((?t + i) mod 32)"
    if "i < cs_rsem cs" for i
    using ring_slot_neq [OF that, of 32 ?t] assms h(1)
    by (intro nth_list_update_neq) (simp add: con_ok_def CONSOLE_INPUT_BUFFER_SIZE_def)
  moreover have "(cs_gotchars cs)[cs_gotchars_head cs := ch] ! ((?t + cs_rsem cs) mod 32) = ch"
    using h by simp
  ultimately show ?thesis using False con_input_full_iff [OF assms]
    by (simp add: con_input_def con_queue_def CONSOLE_INPUT_BUFFER_SIZE_def)
qed

lemma P_rsem_spec:
  assumes "con_ok cs" "con_queue cs @ keys \<noteq> []"
  shows "\<exists>keys' cs1. P_rsem keys cs = Some (keys', cs1\<lparr>cs_rsem := cs_rsem cs1 - 1\<rparr>) \<and> con_ok cs1 \<and>
    0 < cs_rsem cs1 \<and> con_queue cs1 @ keys' = con_queue cs @ keys \<and> cs_sent cs1 = cs_sent cs"
proof (cases "0 < cs_rsem cs")
  case True
  with assms(1) show ?thesis by (cases keys) auto
next
  case False
  then have q: "con_queue cs = []" by (simp add: con_queue_def)
  with assms(2) obtain k ks where keys: "keys = k # ks" by (cases keys) auto
  have "con_ok (con_input k cs)" "con_queue (con_input k cs) = [k]"
    using assms(1) False q by (simp_all add: con_input_ok con_input_queue)
  moreover from this have "0 < cs_rsem (con_input k cs)"
    by (intro gr0I) (simp add: con_queue_def)
  moreover have "cs_sent (con_input k cs) = cs_sent cs" by (simp add: con_input_def Let_def)
  moreover have "P_rsem keys cs = P_rsem ks (con_input k cs)" using False keys by simp
  ultimately show ?thesis using keys q by (cases ks) auto
qed

text \<open>A reader takes the oldest character, waiting for one if there is none.\<close>

lemma getch_intr_spec:
  assumes "con_ok cs" "con_queue cs @ keys = ch # rest"
  shows "\<exists>keys' cs'. getch_intr keys cs = Some (ch, keys', cs') \<and> con_ok cs' \<and>
    con_queue cs' @ keys' = rest \<and> cs_sent cs' = cs_sent cs"
proof -
  from P_rsem_spec [OF assms(1), of keys] assms(2) obtain keys' cs1 where
    P: "P_rsem keys cs = Some (keys', cs1\<lparr>cs_rsem := cs_rsem cs1 - 1\<rparr>)" and ok: "con_ok cs1"
    and pos: "0 < cs_rsem cs1" and q: "con_queue cs1 @ keys' = ch # rest" and o: "cs_sent cs1 = cs_sent cs"
    by auto
  let ?t = "cs_gotchars_tail cs1"
  let ?cs = "cs1\<lparr>cs_rsem := cs_rsem cs1 - 1, cs_gotchars_tail := (?t + 1) mod 32\<rparr>"
  obtain r where r: "cs_rsem cs1 = Suc r" using pos by (cases "cs_rsem cs1") auto
  have t: "?t < 32" "length (cs_gotchars cs1) = 32"
    using ok by (simp_all add: con_ok_def CONSOLE_INPUT_BUFFER_SIZE_def)
  have "con_queue cs1 = cs_gotchars cs1 ! ?t # con_queue ?cs"
    using t(1) unfolding con_queue_def CONSOLE_INPUT_BUFFER_SIZE_def r map_upt_Suc
    by (simp add: mod_add_left_eq)
  with q have "cs_gotchars cs1 ! ?t = ch" "con_queue ?cs @ keys' = rest" by simp_all
  moreover have "con_ok ?cs"
    using ok r by (simp add: con_ok_def CONSOLE_INPUT_BUFFER_SIZE_def mod_add_left_eq)
  ultimately show ?thesis
    using P t o by (simp add: getch_intr_def CONSOLE_INPUT_BUFFER_SIZE_def)
qed

section \<open>One byte to and from a user buffer\<close>

lemma copycheck_byte: "unat base < 2 ^ 31 \<Longrightarrow> copycheck base 1 = Inr 1"
  by (simp add: copycheck_full_iff)

lemma memcpy_byte:
  "m src = Some b \<Longrightarrow> m d \<noteq> None \<Longrightarrow> memcpy d src (Suc 0) m = (True, m(d \<mapsto> b))"
  by (auto simp: memcpy_def sizeof_long_def copy_unit_def)

lemma copyout_byte:
  assumes "unat base < 2 ^ 31" "mem s src = Some b" "mem s base \<noteq> None"
  shows "copyout src base 1 s = (Inr (), s\<lparr>mem := (mem s)(base \<mapsto> b), tm_badfaultfunc := False\<rparr>)"
  using assms by (simp add: copyout_def copycheck_byte guarded_memcpy_def memcpy_byte)

lemma copyin_byte:
  assumes "unat base < 2 ^ 31" "mem s base = Some b" "mem s d \<noteq> None"
  shows "copyin base d 1 s = (Inr (), s\<lparr>mem := (mem s)(d \<mapsto> b), tm_badfaultfunc := False\<rparr>)"
  using assms by (simp add: copyin_def copycheck_byte guarded_memcpy_def memcpy_byte)

text \<open>A uio with one user buffer, as \<^verbatim>\<open>uio_uinit\<close> makes it and \<^verbatim>\<open>uiomove\<close> leaves it.\<close>

definition uio_ubuf :: "nat option \<Rightarrow> vaddr \<Rightarrow> uio \<Rightarrow> bool" where
  "uio_ubuf cas base u \<longleftrightarrow>
     uio_iov u = [\<lparr>iov_base = base, iov_len = uio_resid u\<rparr>] \<and>
     uio_segflg u = UIO_USERSPACE \<and> uio_space u = cas \<and> unat base + unat (uio_resid u) \<le> 2 ^ 31"

lemma uio_ubuf_uinit:
  "unat buf + unat len \<le> 2 ^ 31 \<Longrightarrow> uio_ubuf cas buf (uio_uinit cas buf len pos rw)"
  by (simp add: uio_ubuf_def uio_uinit_def)

lemma uio_ubuf_advance:
  assumes "uio_ubuf cas base u" "0 < uio_resid u"
  shows "uio_ubuf cas (base + 1) (uio_advance 1 u)" "uio_moved 1 u (uio_advance 1 u)"
    "unat (uio_resid (uio_advance 1 u)) = unat (uio_resid u) - 1"
proof -
  have r: "unat (uio_resid u - 1) = unat (uio_resid u) - 1" "0 < unat (uio_resid u)"
    using assms(2) by (simp_all add: unat_sub word_le_nat_alt word_less_nat_alt Suc_le_eq)
  moreover have "unat (base + 1) = unat base + 1"
    using unat_plus_of_nat_less [of base 1] r assms(1) by (simp add: uio_ubuf_def)
  ultimately show "uio_ubuf cas (base + 1) (uio_advance 1 u)" "uio_moved 1 u (uio_advance 1 u)"
    "unat (uio_resid (uio_advance 1 u)) = unat (uio_resid u) - 1"
    using assms(1) by (simp_all add: uio_ubuf_def uio_advance_def uio_moved_def)
qed

lemma k_uiomove_byte:
  assumes "uio_ubuf (proc_getas s) base u" "0 < uio_resid u"
  shows "k_uiomove ptr 1 u s =
    (case (if uio_rw u = UIO_READ then copyout ptr base 1 (k_mach s) else copyin base ptr 1 (k_mach s)) of
       (Inl e, m') \<Rightarrow> Some (Inl e, u, s\<lparr>k_mach := m'\<rparr>)
     | (Inr _, m') \<Rightarrow> Some (Inr (), uio_advance 1 u, s\<lparr>k_mach := m'\<rparr>))"
proof -
  have sz: "1 = min 1 (uio_resid u)" "(0::u32) < 1"
    using assms(2) by (simp_all add: min_def word_le_sub1 word_gt_0 unsigned_eq_0_iff)
  show ?thesis
    unfolding k_uiomove_def uiomove_def
    using assms uiomove_loop_single [OF _ _ sz, where iov = "\<lparr>iov_base = base, iov_len = uio_resid u\<rparr>"]
    by (auto simp: uio_ubuf_def uio_move_block_def split: prod.splits sum.splits)
qed

section \<open>Reading and writing the console\<close>

text \<open>
  What a read of at most \<open>n\<close> bytes delivers of the typed characters: up to and including the
  end of the line, with a carriage return read as a newline. \<open>None\<close> if the line is not
  complete and there is still room, so that the reader waits.
\<close>

fun con_line :: "nat \<Rightarrow> byte list \<Rightarrow> byte list option" where
  "con_line 0 cs = Some []"
| "con_line (Suc n) [] = None"
| "con_line (Suc n) (c # cs) =
     (let ch = (if c = 13 then 10 else c) in
      if ch = 10 then Some [ch] else map_option ((#) ch) (con_line n cs))"

text \<open>The bytes sent to the terminal for a written byte.\<close>

definition con_expand :: "byte \<Rightarrow> byte list" where
  "con_expand b = (if b = 10 then [13, 10] else [b])"

text \<open>The console is set up and a thread that may sleep uses it.\<close>

definition con_ready :: "con_softc \<Rightarrow> 'f kern \<Rightarrow> bool" where
  "con_ready cs s \<longleftrightarrow>
     the_console s = Some cs \<and> con_ok cs \<and> \<not> k_nosleep s \<and>
     2 ^ 31 \<le> unat (con_ch s) \<and> mem (k_mach s) (con_ch s) \<noteq> None"

lemma con_line_length: "con_line n cs = Some l \<Longrightarrow> length l \<le> n \<and> length l \<le> length cs"
  by (induction n cs arbitrary: l rule: con_line.induct) (force simp: Let_def split: if_splits)+

lemma getch_spec:
  assumes "con_ready cs s" "con_queue cs @ con_keys s = c # rest"
  shows "\<exists>cs' keys'. getch s = Some (c, s\<lparr>the_console := Some cs', con_keys := keys'\<rparr>) \<and>
    con_ready cs' (s\<lparr>the_console := Some cs', con_keys := keys'\<rparr>) \<and>
    con_queue cs' @ keys' = rest \<and> cs_sent cs' = cs_sent cs"
proof -
  from getch_intr_spec [of cs "con_keys s" c rest] assms obtain keys' cs' where
    "getch_intr (con_keys s) cs = Some (c, keys', cs')" "con_ok cs'" "con_queue cs' @ keys' = rest"
    "cs_sent cs' = cs_sent cs" by (auto simp: con_ready_def)
  with assms show ?thesis
    by (intro exI [of _ cs'] exI [of _ keys']) (auto simp: con_ready_def getch_def)
qed

text \<open>One round of the read loop.\<close>

lemma con_read_round:
  assumes "con_ready cs s" "con_queue cs @ con_keys s = c # rest"
    and "uio_ubuf (proc_getas s) base u" "uio_rw u = UIO_READ" "0 < uio_resid u"
    and "mem (k_mach s) base \<noteq> None" and ch: "ch = (if c = 13 then 10 else c)"
  shows "\<exists>cs' keys' m'. let s' = s\<lparr>the_console := Some cs', con_keys := keys', k_mach := m'\<rparr> in
    con_io_loop u s = (if ch = 10 then Some (Inr (), uio_advance 1 u, s') else con_io_loop (uio_advance 1 u) s') \<and>
    con_ready cs' s' \<and> con_queue cs' @ keys' = rest \<and> cs_sent cs' = cs_sent cs \<and>
    mem m' = (mem (k_mach s))(con_ch s \<mapsto> ch, base \<mapsto> ch)"
proof -
  from getch_spec [OF assms(1,2)] obtain cs' keys' where
    g: "getch s = Some (c, s\<lparr>the_console := Some cs', con_keys := keys'\<rparr>)"
    "con_ready cs' (s\<lparr>the_console := Some cs', con_keys := keys'\<rparr>)"
    "con_queue cs' @ keys' = rest" "cs_sent cs' = cs_sent cs" by blast
  let ?s1 = "s\<lparr>the_console := Some cs', con_keys := keys'\<rparr>"
  let ?s2 = "?s1\<lparr>k_mach := (k_mach s)\<lparr>mem := (mem (k_mach s))(con_ch s \<mapsto> ch)\<rparr>\<rparr>"
  let ?m = "\<lparr>mem = (mem (k_mach s))(con_ch s \<mapsto> ch, base \<mapsto> ch), tm_badfaultfunc = False\<rparr>"
  have st: "k_store (con_ch ?s1) ch ?s1 = Some ?s2"
    using assms(1) by (auto simp: k_store_def con_ready_def)
  have base: "unat base < 2 ^ 31"
    using assms(3,5) by (simp add: uio_ubuf_def word_less_nat_alt)
  have mv: "k_uiomove (con_ch ?s2) 1 u ?s2 = Some (Inr (), uio_advance 1 u, ?s2\<lparr>k_mach := ?m\<rparr>)"
    using assms(3-6) base
    by (subst k_uiomove_byte [where base = base]) (auto simp: proc_getas_def copyout_byte [where b = ch])
  have "con_io_loop u s =
      (if ch = 10 then Some (Inr (), uio_advance 1 u, ?s2\<lparr>k_mach := ?m\<rparr>)
       else con_io_loop (uio_advance 1 u) (?s2\<lparr>k_mach := ?m\<rparr>))"
    by (subst con_io_loop.simps) (use assms(4,5) g(1) st mv ch in \<open>simp add: Let_def\<close>)
  then show ?thesis
    using g(2-4) assms(1) by (intro exI [of _ cs'] exI [of _ keys'] exI [of _ ?m]) (auto simp: con_ready_def)
qed

text \<open>All that console I/O changes of the kernel's state outside its locks.\<close>

definition con_frame :: "'f kern \<Rightarrow> 'f kern \<Rightarrow> bool" where
  "con_frame s s' \<longleftrightarrow> (\<exists>c k m. s' = s\<lparr>the_console := c, con_keys := k, k_mach := m\<rparr>)"

lemma con_frame_refl [simp]: "con_frame s s"
  unfolding con_frame_def by (intro exI [of _ "the_console s"] exI [of _ "con_keys s"] exI [of _ "k_mach s"]) simp

lemma con_frameI [simp, intro]: "con_frame s (s\<lparr>the_console := c, con_keys := k, k_mach := m\<rparr>)"
  by (auto simp: con_frame_def)

lemma con_frame_trans: "con_frame s t \<Longrightarrow> con_frame t t' \<Longrightarrow> con_frame s t'"
  by (auto simp: con_frame_def [of s t] con_frame_def [of t t'])

lemma con_frame_fields:
  assumes "con_frame s s'"
  shows "proc_getas s' = proc_getas s" "con_ch s' = con_ch s" "curthread s' = curthread s"
    "con_userlock_read s' = con_userlock_read s" "con_userlock_write s' = con_userlock_write s"
  using assms by (auto simp: con_frame_def proc_getas_def)

lemma con_read_loop:
  assumes "con_ready cs s" "uio_ubuf (proc_getas s) base u" "uio_rw u = UIO_READ"
    and "mapped base (unat (uio_resid u)) (mem (k_mach s))"
    and "con_line (unat (uio_resid u)) (con_queue cs @ con_keys s) = Some l"
  shows "\<exists>u' s' cs'. con_io_loop u s = Some (Inr (), u', s') \<and> con_frame s s' \<and> con_ready cs' s' \<and>
    uio_moved (length l) u u' \<and>
    con_queue cs' @ con_keys s' = drop (length l) (con_queue cs @ con_keys s) \<and>
    (\<forall>i<length l. mem (k_mach s') (base + of_nat i) = Some (l ! i)) \<and>
    (\<forall>a. a \<notin> region base (length l) \<and> a \<noteq> con_ch s \<longrightarrow> mem (k_mach s') a = mem (k_mach s) a)"
  using assms
proof (induction "unat (uio_resid u)" arbitrary: u s base cs l)
  case 0
  then have r: "uio_resid u = 0" by (simp add: unsigned_eq_0_iff)
  with 0 have l: "l = []" by simp
  have "con_io_loop u s = Some (Inr (), u, s)" using r by (simp add: con_io_loop.simps)
  with 0(2) l show ?case by (intro exI [of _ u] exI [of _ s] exI [of _ cs]) simp
next
  case (Suc n)
  note hyps = Suc.hyps Suc.prems
  let ?in = "con_queue cs @ con_keys s" and ?m = "mem (k_mach s)"
  obtain c rest where inp: "?in = c # rest"
    using hyps(7) unfolding hyps(2) [symmetric] by (cases ?in) auto
  define ch where "ch = (if c = 13 then 10 else c)"
  have pos: "0 < uio_resid u" using hyps(2) by (simp add: word_less_nat_alt)
  have m: "?m base \<noteq> None" "mapped (base + 1) n ?m"
    using hyps(6) unfolding hyps(2) [symmetric] mapped_Suc by simp_all
  from con_read_round [OF hyps(3) inp hyps(4,5) pos m(1) ch_def] obtain cs1 keys1 m1 where
    rd: "let s1 = s\<lparr>the_console := Some cs1, con_keys := keys1, k_mach := m1\<rparr> in
      con_io_loop u s = (if ch = 10 then Some (Inr (), uio_advance 1 u, s1) else con_io_loop (uio_advance 1 u) s1) \<and>
      con_ready cs1 s1 \<and> con_queue cs1 @ keys1 = rest \<and> cs_sent cs1 = cs_sent cs \<and>
      mem m1 = ?m(con_ch s \<mapsto> ch, base \<mapsto> ch)"
    by blast
  define s1 where "s1 = s\<lparr>the_console := Some cs1, con_keys := keys1, k_mach := m1\<rparr>"
  have s1: "con_frame s s1" "con_ready cs1 s1" "con_queue cs1 @ con_keys s1 = rest"
    "mem (k_mach s1) = ?m(con_ch s \<mapsto> ch, base \<mapsto> ch)"
    using rd by (simp_all add: s1_def Let_def)
  note adv = uio_ubuf_advance [OF hyps(4) pos]
  show ?case
  proof (cases "ch = 10")
    case True
    have "l = [ch]" using hyps(7) unfolding hyps(2) [symmetric] inp using True by (simp add: Let_def ch_def [symmetric])
    moreover have "con_io_loop u s = Some (Inr (), uio_advance 1 u, s1)"
      using rd True by (simp add: s1_def Let_def)
    ultimately show ?thesis
      using s1 adv(2) inp
      by (intro exI [of _ "uio_advance 1 u"] exI [of _ s1] exI [of _ cs1]) (auto simp: region_Suc)
  next
    case False
    obtain l' where l: "l = ch # l'" "con_line n rest = Some l'"
      using hyps(7) unfolding hyps(2) [symmetric] inp using False by (auto simp: Let_def ch_def [symmetric])
    have loop: "con_io_loop u s = con_io_loop (uio_advance 1 u) s1"
      using rd False by (simp add: s1_def Let_def)
    have n: "n = unat (uio_resid (uio_advance 1 u))" using adv(3) hyps(2) by simp
    have dom: "dom ?m \<subseteq> dom (mem (k_mach s1))" using s1(4) by auto
    from hyps(1) [OF n s1(2), of "base + 1" l'] obtain u' s' cs' where ih:
      "con_io_loop (uio_advance 1 u) s1 = Some (Inr (), u', s')" "con_frame s1 s'" "con_ready cs' s'"
      "uio_moved (length l') (uio_advance 1 u) u'"
      "con_queue cs' @ con_keys s' = drop (length l') rest"
      "\<forall>i<length l'. mem (k_mach s') (base + 1 + of_nat i) = Some (l' ! i)"
      "\<forall>a. a \<notin> region (base + 1) (length l') \<and> a \<noteq> con_ch s1 \<longrightarrow> mem (k_mach s') a = mem (k_mach s1) a"
      using adv(1,2) hyps(5) l(2) s1(3) mapped_mono [OF m(2) dom] n
      by (auto simp: con_frame_fields [OF s1(1)] uio_moved_def)
    have "unat base + Suc n \<le> 2 ^ 31" using hyps(2,4) by (simp add: uio_ubuf_def)
    moreover have "length l' \<le> n" using con_line_length [OF l(2)] by simp
    ultimately have sep: "base \<notin> region (base + 1) (length l')" "base \<noteq> con_ch s"
      using hyps(3) by (auto simp: con_ready_def intro!: head_notin_region)
    have "\<forall>i<length l. mem (k_mach s') (base + of_nat i) = Some (l ! i)"
    proof (intro allI impI)
      fix i assume "i < length l"
      with ih(6,7) sep s1(4) con_frame_fields(2) [OF s1(1)] show "mem (k_mach s') (base + of_nat i) = Some (l ! i)"
        unfolding l by (cases i) (simp_all add: add.assoc)
    qed
    moreover have "\<forall>a. a \<notin> region base (length l) \<and> a \<noteq> con_ch s \<longrightarrow> mem (k_mach s') a = ?m a"
      using ih(7) s1(4) con_frame_fields(2) [OF s1(1)] by (simp add: l region_Suc)
    ultimately show ?thesis
      using loop ih(1-5) con_frame_trans [OF s1(1) ih(2)] uio_moved_trans [OF adv(2) ih(4)] inp l
      by (intro exI [of _ u'] exI [of _ s'] exI [of _ cs']) simp
  qed
qed

lemma putch_spec:
  assumes "con_ready cs s"
  shows "\<exists>cs'. putch ch s = Some (s\<lparr>the_console := Some cs'\<rparr>) \<and> con_ready cs' (s\<lparr>the_console := Some cs'\<rparr>) \<and>
    con_queue cs' = con_queue cs \<and> cs_sent cs' = cs_sent cs @ [ch]"
  using assms
  by (auto simp: con_ready_def putch_def putch_intr_def P_wsem_def con_start_def con_ok_def con_queue_def Let_def)

lemma putch_expand:
  assumes "con_ready cs s"
  shows "\<exists>cs'. do { s2 \<leftarrow> (if ch = 10 then putch 13 s else Some s); putch ch s2 }
      = Some (s\<lparr>the_console := Some cs'\<rparr>) \<and> con_ready cs' (s\<lparr>the_console := Some cs'\<rparr>) \<and>
    con_queue cs' = con_queue cs \<and> cs_sent cs' = cs_sent cs @ con_expand ch"
proof (cases "ch = 10")
  case True
  from putch_spec [OF assms, of 13] obtain cs1 where
    1: "putch 13 s = Some (s\<lparr>the_console := Some cs1\<rparr>)" "con_ready cs1 (s\<lparr>the_console := Some cs1\<rparr>)"
    "con_queue cs1 = con_queue cs" "cs_sent cs1 = cs_sent cs @ [13]" by blast
  from putch_spec [OF 1(2), of 10] 1 True show ?thesis by (auto simp: con_expand_def)
next
  case False
  then show ?thesis using putch_spec [OF assms, of ch] by (simp add: con_expand_def)
qed

lemma con_write_round:
  assumes "con_ready cs s" "uio_ubuf (proc_getas s) base u" "uio_rw u = UIO_WRITE" "0 < uio_resid u"
    and "mem (k_mach s) base = Some b"
  shows "\<exists>cs' m'. let s' = s\<lparr>k_mach := m', the_console := Some cs'\<rparr> in
    con_io_loop u s = con_io_loop (uio_advance 1 u) s' \<and> con_ready cs' s' \<and>
    con_queue cs' = con_queue cs \<and> cs_sent cs' = cs_sent cs @ con_expand b \<and>
    mem m' = (mem (k_mach s))(con_ch s \<mapsto> b)"
proof -
  let ?m = "\<lparr>mem = (mem (k_mach s))(con_ch s \<mapsto> b), tm_badfaultfunc = False\<rparr>"
  let ?s1 = "s\<lparr>k_mach := ?m\<rparr>"
  have base: "unat base < 2 ^ 31"
    using assms(2,4) by (simp add: uio_ubuf_def word_less_nat_alt)
  have mv: "k_uiomove (con_ch s) 1 u s = Some (Inr (), uio_advance 1 u, ?s1)"
    using assms base
    by (subst k_uiomove_byte [where base = base]) (auto simp: con_ready_def copyin_byte [where b = b])
  have "con_ready cs ?s1" using assms(1) by (simp add: con_ready_def)
  from putch_expand [OF this, of b] obtain cs' where
    p: "do { s2 \<leftarrow> (if b = 10 then putch 13 ?s1 else Some ?s1); putch b s2 } = Some (?s1\<lparr>the_console := Some cs'\<rparr>)"
    "con_ready cs' (?s1\<lparr>the_console := Some cs'\<rparr>)" "con_queue cs' = con_queue cs"
    "cs_sent cs' = cs_sent cs @ con_expand b" by blast
  have ld: "k_load (con_ch ?s1) ?s1 = Some b" by (simp add: k_load_def)
  have "con_io_loop u s = do { s3 \<leftarrow> do { s2 \<leftarrow> (if b = 10 then putch 13 ?s1 else Some ?s1); putch b s2 };
      con_io_loop (uio_advance 1 u) s3 }"
    by (subst con_io_loop.simps) (use assms(3,4) mv ld in \<open>simp add: Let_def\<close>)
  then have "con_io_loop u s = con_io_loop (uio_advance 1 u) (?s1\<lparr>the_console := Some cs'\<rparr>)"
    unfolding p(1) by simp
  with p(2-4) show ?thesis by (intro exI [of _ cs'] exI [of _ ?m]) (simp add: Let_def)
qed

lemma con_write_loop:
  assumes "con_ready cs s" "uio_ubuf (proc_getas s) base u" "uio_rw u = UIO_WRITE"
    and "read_bytes (unat (uio_resid u)) base (mem (k_mach s)) = Some bs"
  shows "\<exists>u' s' cs'. con_io_loop u s = Some (Inr (), u', s') \<and> con_frame s s' \<and> con_ready cs' s' \<and>
    uio_moved (length bs) u u' \<and> con_queue cs' = con_queue cs \<and>
    con_keys s' = con_keys s \<and> cs_sent cs' = cs_sent cs @ concat (map con_expand bs) \<and>
    (\<forall>a. a \<noteq> con_ch s \<longrightarrow> mem (k_mach s') a = mem (k_mach s) a)"
  using assms
proof (induction "unat (uio_resid u)" arbitrary: u s base cs bs)
  case 0
  then have r: "uio_resid u = 0" by (simp add: unsigned_eq_0_iff)
  with 0 have l: "bs = []" by simp
  have "con_io_loop u s = Some (Inr (), u, s)" using r by (simp add: con_io_loop.simps)
  with 0(2) l show ?case by (intro exI [of _ u] exI [of _ s] exI [of _ cs]) simp
next
  case (Suc n)
  note hyps = Suc.hyps Suc.prems
  let ?m = "mem (k_mach s)"
  obtain b bs' where b: "?m base = Some b" "read_bytes n (base + 1) ?m = Some bs'" "bs = b # bs'"
    using hyps(6) unfolding hyps(2) [symmetric] by (auto split: option.splits)
  have pos: "0 < uio_resid u" using hyps(2) by (simp add: word_less_nat_alt)
  note adv = uio_ubuf_advance [OF hyps(4) pos]
  from con_write_round [OF hyps(3-5) pos b(1)] obtain cs1 m1 where
    rd: "con_io_loop u s = con_io_loop (uio_advance 1 u) (s\<lparr>k_mach := m1, the_console := Some cs1\<rparr>)"
    "con_ready cs1 (s\<lparr>k_mach := m1, the_console := Some cs1\<rparr>)" "con_queue cs1 = con_queue cs"
    "cs_sent cs1 = cs_sent cs @ con_expand b" "mem m1 = ?m(con_ch s \<mapsto> b)"
    by (auto simp: Let_def)
  define s1 where "s1 = s\<lparr>k_mach := m1, the_console := Some cs1\<rparr>"
  have "s1 = s\<lparr>the_console := Some cs1, con_keys := con_keys s, k_mach := m1\<rparr>" by (simp add: s1_def)
  then have fr: "con_frame s s1" by (simp only: con_frameI)
  have n: "n = unat (uio_resid (uio_advance 1 u))" using adv(3) hyps(2) by simp
  have "unat base + Suc n \<le> 2 ^ 31" using hyps(2,4) by (simp add: uio_ubuf_def)
  then have below: "unat (base + 1 + of_nat i) < 2 ^ 31" if "i < n" for i
    using unat_plus_of_nat_less [of base "Suc i"] that by (simp add: add.assoc)
  have "base + 1 + of_nat i \<noteq> con_ch s" if "i < n" for i
    using below [OF that] hyps(3) by (auto simp: con_ready_def)
  then have "read_bytes n (base + 1) (mem (k_mach s1)) = Some bs'"
    using b(2) rd(5) by (simp add: read_bytes_Some_iff s1_def)
  with hyps(1) [OF n rd(2) [folded s1_def], of "base + 1" bs'] adv(1,2) hyps(5) n
  obtain u' s' cs' where ih: "con_io_loop (uio_advance 1 u) s1 = Some (Inr (), u', s')" "con_frame s1 s'"
    "con_ready cs' s'" "uio_moved (length bs') (uio_advance 1 u) u'" "con_queue cs' = con_queue cs"
    "con_keys s' = con_keys s1" "cs_sent cs' = cs_sent cs1 @ concat (map con_expand bs')"
    "\<forall>a. a \<noteq> con_ch s1 \<longrightarrow> mem (k_mach s') a = mem (k_mach s1) a"
    by (auto simp: con_frame_fields [OF fr] uio_moved_def rd(3))
  then show ?case
    using rd b(3) con_frame_trans [OF fr ih(2)] uio_moved_trans [OF adv(2) ih(4)]
    by (intro exI [of _ u'] exI [of _ s'] exI [of _ cs']) (simp add: s1_def)
qed

lemma con_io_via_loop:
  assumes "con_lock (uio_rw u) s = Some None"
    and "con_io_loop u (con_set_lock (uio_rw u) (Some (curthread s)) s) = Some (r, u', s1)"
    and "con_frame (con_set_lock (uio_rw u) (Some (curthread s)) s) s1"
  shows "con_io dev u s = Some (r, u', con_set_lock (uio_rw u) None s1)"
  using assms con_frame_fields [OF assms(3)]
  by (cases "uio_rw u") (simp_all add: con_io_def con_lock_def con_set_lock_def)

lemma con_set_lock_fields [simp]:
  "con_ready cs (con_set_lock rw h s) = con_ready cs s"
  "proc_getas (con_set_lock rw h s) = proc_getas s"
  "k_mach (con_set_lock rw h s) = k_mach s" "con_keys (con_set_lock rw h s) = con_keys s"
  "con_ch (con_set_lock rw h s) = con_ch s"
  "con_lock rw (con_set_lock rw h s) = Some h"
  by (simp_all add: con_set_lock_def con_ready_def proc_getas_def con_lock_def)

text \<open>A read of the device con: gives the user a line.\<close>

lemma con_io_read_line:
  assumes "con_ready cs s" "con_lock UIO_READ s = Some None"
    and "unat buf + unat len \<le> 2 ^ 31" "mapped buf (unat len) (mem (k_mach s))"
    and "con_line (unat len) (con_queue cs @ con_keys s) = Some l"
  shows "\<exists>u' s' cs'. con_io dev (uio_uinit (proc_getas s) buf len pos UIO_READ) s = Some (Inr (), u', s') \<and>
    con_ready cs' s' \<and> con_lock UIO_READ s' = Some None \<and>
    uio_offset u' = pos + of_nat (length l) \<and>
    con_queue cs' @ con_keys s' = drop (length l) (con_queue cs @ con_keys s) \<and>
    (\<forall>i<length l. mem (k_mach s') (buf + of_nat i) = Some (l ! i)) \<and>
    (\<forall>a. a \<notin> region buf (length l) \<and> a \<noteq> con_ch s \<longrightarrow> mem (k_mach s') a = mem (k_mach s) a)"
proof -
  let ?u = "uio_uinit (proc_getas s) buf len pos UIO_READ"
  let ?s = "con_set_lock UIO_READ (Some (curthread s)) s"
  have u: "uio_rw ?u = UIO_READ" "uio_resid ?u = len" "uio_offset ?u = pos" by (simp_all add: uio_uinit_def)
  from con_read_loop [of cs ?s buf ?u l] assms uio_ubuf_uinit [OF assms(3)] u
  obtain u' s1 cs' where L: "con_io_loop ?u ?s = Some (Inr (), u', s1)" "con_frame ?s s1" "con_ready cs' s1"
    "uio_moved (length l) ?u u'"
    "con_queue cs' @ con_keys s1 = drop (length l) (con_queue cs @ con_keys s)"
    "\<forall>i<length l. mem (k_mach s1) (buf + of_nat i) = Some (l ! i)"
    "\<forall>a. a \<notin> region buf (length l) \<and> a \<noteq> con_ch s \<longrightarrow> mem (k_mach s1) a = mem (k_mach s) a"
    by (auto simp del: drop_append)
  have "con_io dev ?u s = Some (Inr (), u', con_set_lock UIO_READ None s1)"
    using con_io_via_loop [of ?u s] L(1,2) assms(2) u(1) by simp
  with L(3-7) u show ?thesis
    by (intro exI [of _ u'] exI [of _ "con_set_lock UIO_READ None s1"] exI [of _ cs'])
      (simp add: uio_moved_def)
qed

text \<open>A write sends all of the buffer.\<close>

lemma con_io_write_all:
  assumes "con_ready cs s" "con_lock UIO_WRITE s = Some None"
    and "unat buf + unat len \<le> 2 ^ 31" "read_bytes (unat len) buf (mem (k_mach s)) = Some bs"
  shows "\<exists>u' s' cs'. con_io dev (uio_uinit (proc_getas s) buf len pos UIO_WRITE) s = Some (Inr (), u', s') \<and>
    con_ready cs' s' \<and> con_lock UIO_WRITE s' = Some None \<and>
    uio_offset u' = pos + of_nat (unat len) \<and> uio_resid u' = 0 \<and>
    con_queue cs' @ con_keys s' = con_queue cs @ con_keys s \<and>
    cs_sent cs' = cs_sent cs @ concat (map con_expand bs) \<and>
    (\<forall>a. a \<noteq> con_ch s \<longrightarrow> mem (k_mach s') a = mem (k_mach s) a)"
proof -
  let ?u = "uio_uinit (proc_getas s) buf len pos UIO_WRITE"
  let ?s = "con_set_lock UIO_WRITE (Some (curthread s)) s"
  have u: "uio_rw ?u = UIO_WRITE" "uio_resid ?u = len" "uio_offset ?u = pos" by (simp_all add: uio_uinit_def)
  have len: "length bs = unat len" using assms(4) by (rule read_bytes_length)
  from con_write_loop [of cs ?s buf ?u bs] assms uio_ubuf_uinit [OF assms(3)] u
  obtain u' s1 cs' where L: "con_io_loop ?u ?s = Some (Inr (), u', s1)" "con_frame ?s s1" "con_ready cs' s1"
    "uio_moved (length bs) ?u u'" "con_queue cs' = con_queue cs" "con_keys s1 = con_keys s"
    "cs_sent cs' = cs_sent cs @ concat (map con_expand bs)"
    "\<forall>a. a \<noteq> con_ch s \<longrightarrow> mem (k_mach s1) a = mem (k_mach s) a"
    by auto
  have "con_io dev ?u s = Some (Inr (), u', con_set_lock UIO_WRITE None s1)"
    using con_io_via_loop [of ?u s] L(1,2) assms(2) u(1) by simp
  with L(3-8) u len show ?thesis
    by (intro exI [of _ u'] exI [of _ "con_set_lock UIO_WRITE None s1"] exI [of _ cs'])
      (simp add: uio_moved_def unsigned_eq_0_iff)
qed

end
