(* ===== verification/Device.thy ===== *)
theory Device
  imports Console "HOL-Library.Signed_Division"
begin

text \<open>
  kern/vfs/vnode.c, vfsfail.c, device.c and devnull.c: reference counts of vnodes, the vnode
  operations of a device, the null device, and the dispatch of the \<^verbatim>\<open>VOP_\<close> and \<^verbatim>\<open>DEVOP_\<close> macros
  through the operations tables. Sections under a spinlock are single steps of the model.
\<close>

section \<open>Abstract vnodes (vnode.c)\<close>

definition vnode_init :: "vref \<Rightarrow> vops_id \<Rightarrow> fsref option \<Rightarrow> nat \<Rightarrow> 'f kern \<Rightarrow> 'f kern" where
  "vnode_init v ops fs fsdata s =
     s\<lparr>k_vn := (k_vn s)(v \<mapsto> \<lparr>vn_refcount = 1, vn_fs = fs, vn_data = fsdata, vn_ops = Some ops\<rparr>)\<rparr>"

definition vnode_cleanup :: "vref \<Rightarrow> 'f kern \<Rightarrow> 'f kern option" where
  "vnode_cleanup v s =
     do { vn \<leftarrow> k_vn s v;
          kassert (vn_refcount vn = 1);
          Some (s\<lparr>k_vn := (k_vn s)(v \<mapsto> \<lparr>vn_refcount = 0, vn_fs = None, vn_data = 0, vn_ops = None\<rparr>)\<rparr>) }"

definition vnode_incref :: "vref \<Rightarrow> 'f kern \<Rightarrow> 'f kern option" where
  "vnode_incref v s =
     do { vn \<leftarrow> k_vn s v;
          Some (s\<lparr>k_vn := (k_vn s)(v \<mapsto> vn\<lparr>vn_refcount := vn_refcount vn + 1\<rparr>)\<rparr>) }"

text \<open>
  \<^verbatim>\<open>vnode_check\<close> panics on a vnode that is not there, has no operations or has no references.
  It hands back the operations table, which the \<^verbatim>\<open>__VOP\<close> macro uses next.
\<close>

definition vnode_check :: "vref \<Rightarrow> 'f kern \<Rightarrow> vops_id option" where
  "vnode_check v s =
     do { vn \<leftarrow> k_vn s v;
          ops \<leftarrow> vn_ops vn;
          kassert (0 < vn_refcount vn);
          Some ops }"

section \<open>Operations that fail (vfsfail.c)\<close>

definition vopfail_uio_notdir :: "vref \<Rightarrow> 'w uiofun" where
  "vopfail_uio_notdir v u s = Some (Inl ENOTDIR, u, s)"
definition vopfail_uio_isdir :: "vref \<Rightarrow> 'w uiofun" where
  "vopfail_uio_isdir v u s = Some (Inl EISDIR, u, s)"
definition vopfail_uio_inval :: "vref \<Rightarrow> 'w uiofun" where
  "vopfail_uio_inval v u s = Some (Inl EINVAL, u, s)"
definition vopfail_uio_nosys :: "vref \<Rightarrow> 'w uiofun" where
  "vopfail_uio_nosys v u s = Some (Inl ENOSYS, u, s)"
definition vopfail_mmap_isdir :: "vref \<Rightarrow> ('w, unit) kfun" where
  "vopfail_mmap_isdir v s = Some (Inl EISDIR, s)"
definition vopfail_mmap_perm :: "vref \<Rightarrow> ('w, unit) kfun" where
  "vopfail_mmap_perm v s = Some (Inl EPERM, s)"
definition vopfail_mmap_nosys :: "vref \<Rightarrow> ('w, unit) kfun" where
  "vopfail_mmap_nosys v s = Some (Inl ENOSYS, s)"
definition vopfail_truncate_isdir :: "vref \<Rightarrow> u64 \<Rightarrow> ('w, unit) kfun" where
  "vopfail_truncate_isdir v pos s = Some (Inl EISDIR, s)"
definition vopfail_creat_notdir :: "vref \<Rightarrow> string \<Rightarrow> bool \<Rightarrow> u32 \<Rightarrow> ('w, vref) kfun" where
  "vopfail_creat_notdir v name excl mode s = Some (Inl ENOTDIR, s)"
definition vopfail_symlink_notdir :: "vref \<Rightarrow> string \<Rightarrow> string \<Rightarrow> ('w, unit) kfun" where
  "vopfail_symlink_notdir v contents name s = Some (Inl ENOTDIR, s)"
definition vopfail_symlink_nosys :: "vref \<Rightarrow> string \<Rightarrow> string \<Rightarrow> ('w, unit) kfun" where
  "vopfail_symlink_nosys v contents name s = Some (Inl ENOSYS, s)"
definition vopfail_mkdir_notdir :: "vref \<Rightarrow> string \<Rightarrow> u32 \<Rightarrow> ('w, unit) kfun" where
  "vopfail_mkdir_notdir v name mode s = Some (Inl ENOTDIR, s)"
definition vopfail_mkdir_nosys :: "vref \<Rightarrow> string \<Rightarrow> u32 \<Rightarrow> ('w, unit) kfun" where
  "vopfail_mkdir_nosys v name mode s = Some (Inl ENOSYS, s)"
definition vopfail_link_notdir :: "vref \<Rightarrow> string \<Rightarrow> vref \<Rightarrow> ('w, unit) kfun" where
  "vopfail_link_notdir v name file s = Some (Inl ENOTDIR, s)"
definition vopfail_link_nosys :: "vref \<Rightarrow> string \<Rightarrow> vref \<Rightarrow> ('w, unit) kfun" where
  "vopfail_link_nosys v name file s = Some (Inl ENOSYS, s)"
definition vopfail_string_notdir :: "vref \<Rightarrow> string \<Rightarrow> ('w, unit) kfun" where
  "vopfail_string_notdir v name s = Some (Inl ENOTDIR, s)"
definition vopfail_string_nosys :: "vref \<Rightarrow> string \<Rightarrow> ('w, unit) kfun" where
  "vopfail_string_nosys v name s = Some (Inl ENOSYS, s)"
definition vopfail_rename_notdir :: "vref \<Rightarrow> string \<Rightarrow> vref \<Rightarrow> string \<Rightarrow> ('w, unit) kfun" where
  "vopfail_rename_notdir v1 name1 v2 name2 s = Some (Inl ENOTDIR, s)"
definition vopfail_rename_nosys :: "vref \<Rightarrow> string \<Rightarrow> vref \<Rightarrow> string \<Rightarrow> ('w, unit) kfun" where
  "vopfail_rename_nosys v1 name1 v2 name2 s = Some (Inl ENOSYS, s)"
definition vopfail_lookup_notdir :: "vref \<Rightarrow> string \<Rightarrow> ('w, vref) kfun" where
  "vopfail_lookup_notdir v path s = Some (Inl ENOTDIR, s)"
definition vopfail_lookparent_notdir :: "vref \<Rightarrow> string \<Rightarrow> nat \<Rightarrow> ('w, vref \<times> string) kfun" where
  "vopfail_lookparent_notdir v path len s = Some (Inl ENOTDIR, s)"

lemmas vopfail_defs =
  vopfail_uio_notdir_def vopfail_uio_inval_def vopfail_creat_notdir_def vopfail_symlink_notdir_def
  vopfail_mkdir_notdir_def vopfail_link_notdir_def vopfail_string_notdir_def
  vopfail_rename_notdir_def vopfail_lookparent_notdir_def

section \<open>The null device (devnull.c)\<close>

definition nullopen :: "devref \<Rightarrow> u32 \<Rightarrow> ('w, unit) kfun" where
  "nullopen dev openflags s = Some (Inr (), s)"

definition nullio :: "devref \<Rightarrow> 'w uiofun" where
  "nullio dev u s = Some (Inr (), if uio_rw u = UIO_WRITE then u\<lparr>uio_resid := 0\<rparr> else u, s)"

definition nullioctl :: "devref \<Rightarrow> int \<Rightarrow> vaddr \<Rightarrow> ('w, unit) kfun" where
  "nullioctl dev op data s = Some (Inl EINVAL, s)"

definition null_devops :: "'w device_ops" where
  "null_devops = \<lparr>devop_eachopen = nullopen, devop_io = nullio, devop_ioctl = nullioctl\<rparr>"

section \<open>Device dispatch (device.h)\<close>

definition dops :: "('f kern) kenv \<Rightarrow> dops_id \<Rightarrow> ('f kern) device_ops" where
  "dops E d = (case d of Null_devops \<Rightarrow> null_devops | Console_devops \<Rightarrow> console_devops
                       | Drv_devops i \<Rightarrow> e_dops E i)"

definition DEVOP_EACHOPEN :: "('f kern) kenv \<Rightarrow> devref \<Rightarrow> u32 \<Rightarrow> ('f kern, unit) kfun" where
  "DEVOP_EACHOPEN E d flags s = do { dev \<leftarrow> k_dev s d; devop_eachopen (dops E (d_ops dev)) d flags s }"

definition DEVOP_IO :: "('f kern) kenv \<Rightarrow> devref \<Rightarrow> ('f kern) uiofun" where
  "DEVOP_IO E d u s = do { dev \<leftarrow> k_dev s d; devop_io (dops E (d_ops dev)) d u s }"

definition DEVOP_IOCTL :: "('f kern) kenv \<Rightarrow> devref \<Rightarrow> int \<Rightarrow> vaddr \<Rightarrow> ('f kern, unit) kfun" where
  "DEVOP_IOCTL E d op data s = do { dev \<leftarrow> k_dev s d; devop_ioctl (dops E (d_ops dev)) d op data s }"

section \<open>Vnodes of devices (device.c)\<close>

definition vdev :: "vref \<Rightarrow> 'f kern \<Rightarrow> devref option" where
  "vdev v s = map_option vn_data (k_vn s v)"

definition dev_eachopen :: "('f kern) kenv \<Rightarrow> vref \<Rightarrow> u32 \<Rightarrow> ('f kern, unit) kfun" where
  "dev_eachopen E v flags s =
     do { d \<leftarrow> vdev v s;
          if flags AND (O_CREAT OR O_TRUNC OR O_EXCL OR O_APPEND) \<noteq> 0 then Some (Inl EINVAL, s)
          else DEVOP_EACHOPEN E d flags s }"

definition dev_reclaim :: "vref \<Rightarrow> ('f kern, unit) kfun" where
  "dev_reclaim v s = Some (Inr (), s)"

text \<open>
  The position is signed and the block size and count are unsigned 32-bit numbers, so C divides
  them as signed 64-bit numbers, rounding towards zero. A zero block size would trap.
\<close>

definition dev_tryseek :: "device \<Rightarrow> u64 \<Rightarrow> (errno + unit) option" where
  "dev_tryseek d pos =
     (if d_blocks d > 0 then
        do { kassert (d_blocksize d \<noteq> 0);
             if sint pos smod uint (d_blocksize d) \<noteq> 0 then Some (Inl EINVAL)
             else if sint pos sdiv uint (d_blocksize d) \<ge> uint (d_blocks d) then Some (Inl EINVAL)
             else Some (Inr ()) }
      else Some (Inr ()))"

definition dev_read :: "('f kern) kenv \<Rightarrow> vref \<Rightarrow> ('f kern) uiofun" where
  "dev_read E v u s =
     do { d \<leftarrow> vdev v s;
          dev \<leftarrow> k_dev s d;
          r \<leftarrow> dev_tryseek dev (uio_offset u);
          case r of
            Inl e \<Rightarrow> Some (Inl e, u, s)
          | Inr _ \<Rightarrow> do { kassert (uio_rw u = UIO_READ); DEVOP_IO E d u s } }"

definition dev_write :: "('f kern) kenv \<Rightarrow> vref \<Rightarrow> ('f kern) uiofun" where
  "dev_write E v u s =
     do { d \<leftarrow> vdev v s;
          dev \<leftarrow> k_dev s d;
          r \<leftarrow> dev_tryseek dev (uio_offset u);
          case r of
            Inl e \<Rightarrow> Some (Inl e, u, s)
          | Inr _ \<Rightarrow> do { kassert (uio_rw u = UIO_WRITE); DEVOP_IO E d u s } }"

definition dev_ioctl :: "('f kern) kenv \<Rightarrow> vref \<Rightarrow> int \<Rightarrow> vaddr \<Rightarrow> ('f kern, unit) kfun" where
  "dev_ioctl E v op data s = do { d \<leftarrow> vdev v s; DEVOP_IOCTL E d op data s }"

definition dev_gettype :: "vref \<Rightarrow> ('f kern, u32) kfun" where
  "dev_gettype v s =
     do { d \<leftarrow> vdev v s;
          dev \<leftarrow> k_dev s d;
          Some (Inr (if d_blocks dev > 0 then S_IFBLK else S_IFCHR), s) }"

text \<open>\<^verbatim>\<open>VOP_GETTYPE\<close> and \<^verbatim>\<open>VOP_RECLAIM\<close> come before the table, which refers to them.\<close>

definition VOP_GETTYPE :: "('f kern) kenv \<Rightarrow> vref \<Rightarrow> ('f kern, u32) kfun" where
  "VOP_GETTYPE E v s =
     do { ops \<leftarrow> vnode_check v s;
          case ops of Dev_vnode_ops \<Rightarrow> dev_gettype v s | Fs_vnode_ops i \<Rightarrow> vop_gettype (e_vops E i) v s }"

definition VOP_RECLAIM :: "('f kern) kenv \<Rightarrow> vref \<Rightarrow> ('f kern, unit) kfun" where
  "VOP_RECLAIM E v s =
     do { ops \<leftarrow> vnode_check v s;
          case ops of Dev_vnode_ops \<Rightarrow> dev_reclaim v s | Fs_vnode_ops i \<Rightarrow> vop_reclaim (e_vops E i) v s }"

definition vnode_decref :: "('f kern) kenv \<Rightarrow> vref \<Rightarrow> 'f kern \<Rightarrow> 'f kern option" where
  "vnode_decref E v s =
     do { vn \<leftarrow> k_vn s v;
          kassert (vn_refcount vn > 0);
          if vn_refcount vn > 1
          then Some (s\<lparr>k_vn := (k_vn s)(v \<mapsto> vn\<lparr>vn_refcount := vn_refcount vn - 1\<rparr>)\<rparr>)
          else do { (r, s') \<leftarrow> VOP_RECLAIM E v s; Some s' } }"

text \<open>The statbuf \<^verbatim>\<open>bzero\<close> leaves.\<close>

definition stat_zero :: stat where
  "stat_zero = \<lparr>st_size = 0, st_mode = 0, st_nlink = 0, st_blocks = 0, st_dev = 0, st_ino = 0,
     st_rdev = 0, st_atime = 0, st_ctime = 0, st_mtime = 0, st_atimensec = 0, st_ctimensec = 0,
     st_mtimensec = 0, st_uid = 0, st_gid = 0, st_gen = 0, st_blksize = 0\<rparr>"

text \<open>The size is a product of 32-bit numbers, widened afterwards.\<close>

definition dev_stat :: "('f kern) kenv \<Rightarrow> vref \<Rightarrow> ('f kern, stat) kfun" where
  "dev_stat E v s =
     do { d \<leftarrow> vdev v s;
          dev \<leftarrow> k_dev s d;
          let st = (if d_blocks dev > 0
                    then stat_zero\<lparr>st_size := ucast (d_blocks dev * d_blocksize dev), st_blksize := d_blocksize dev\<rparr>
                    else stat_zero\<lparr>st_size := 0\<rparr>);
          (r, s') \<leftarrow> VOP_GETTYPE E v s;
          case r of
            Inl e \<Rightarrow> Some (Inl e, s')
          | Inr ty \<Rightarrow>
              Some (Inr (st\<lparr>st_mode := ty OR 0x180, st_nlink := 1, st_blocks := d_blocks dev,
                           st_dev := 0, st_rdev := d_devnumber dev\<rparr>), s') }"

definition dev_isseekable :: "vref \<Rightarrow> 'f kern \<Rightarrow> (bool \<times> 'f kern) option" where
  "dev_isseekable v s =
     do { d \<leftarrow> vdev v s; dev \<leftarrow> k_dev s d; Some (if d_blocks dev = 0 then False else True, s) }"

definition null_fsync :: "vref \<Rightarrow> ('f kern, unit) kfun" where
  "null_fsync v s = Some (Inr (), s)"

definition dev_mmap :: "vref \<Rightarrow> ('f kern, unit) kfun" where
  "dev_mmap v s = Some (Inl ENOSYS, s)"

definition dev_truncate :: "vref \<Rightarrow> u64 \<Rightarrow> ('f kern, unit) kfun" where
  "dev_truncate v len s =
     do { d \<leftarrow> vdev v s;
          dev \<leftarrow> k_dev s d;
          Some (if d_blocks dev > 0 \<and> ucast (d_blocks dev * d_blocksize dev) = len then Inr () else Inl EINVAL, s) }"

definition dev_namefile :: "vref \<Rightarrow> ('f kern) uiofun" where
  "dev_namefile v u s = Some (Inr (), u, s)"

definition dev_lookup :: "vref \<Rightarrow> string \<Rightarrow> ('f kern, vref) kfun" where
  "dev_lookup dir pathname s =
     (if length pathname > 0 then Some (Inl ENOENT, s)
      else do { s' \<leftarrow> vnode_incref dir s; Some (Inr dir, s') })"

definition dev_vnode_ops :: "('f kern) kenv \<Rightarrow> ('f kern) vnode_ops" where
  "dev_vnode_ops E =
     \<lparr>vop_eachopen = dev_eachopen E,
      vop_reclaim = dev_reclaim,
      vop_read = dev_read E,
      vop_readlink = vopfail_uio_inval,
      vop_getdirentry = vopfail_uio_notdir,
      vop_write = dev_write E,
      vop_ioctl = dev_ioctl E,
      vop_stat = dev_stat E,
      vop_gettype = dev_gettype,
      vop_isseekable = dev_isseekable,
      vop_fsync = null_fsync,
      vop_mmap = dev_mmap,
      vop_truncate = dev_truncate,
      vop_namefile = dev_namefile,
      vop_creat = vopfail_creat_notdir,
      vop_symlink = vopfail_symlink_notdir,
      vop_mkdir = vopfail_mkdir_notdir,
      vop_link = vopfail_link_notdir,
      vop_remove = vopfail_string_notdir,
      vop_rmdir = vopfail_string_notdir,
      vop_rename = vopfail_rename_notdir,
      vop_lookup = dev_lookup,
      vop_lookparent = vopfail_lookparent_notdir\<rparr>"

definition dev_create_vnode :: "devref \<Rightarrow> 'f kern \<Rightarrow> vref option \<times> 'f kern" where
  "dev_create_vnode dev s =
     (case kmalloc s of
        (False, s1) \<Rightarrow> (None, s1)
      | (True, s1) \<Rightarrow>
          let v = k_fresh s1 in
          (Some v, vnode_init v Dev_vnode_ops None dev (s1\<lparr>k_fresh := Suc v\<rparr>)))"

definition dev_uncreate_vnode :: "vref \<Rightarrow> 'f kern \<Rightarrow> 'f kern option" where
  "dev_uncreate_vnode v s =
     do { vn \<leftarrow> k_vn s v;
          kassert (vn_ops vn = Some Dev_vnode_ops);
          s1 \<leftarrow> vnode_cleanup v s;
          Some (s1\<lparr>k_vn := (k_vn s1)(v := None)\<rparr>) }"

section \<open>Vnode dispatch (vnode.h)\<close>

definition vops :: "('f kern) kenv \<Rightarrow> vops_id \<Rightarrow> ('f kern) vnode_ops" where
  "vops E ops = (case ops of Dev_vnode_ops \<Rightarrow> dev_vnode_ops E | Fs_vnode_ops i \<Rightarrow> e_vops E i)"

definition VOP_EACHOPEN :: "('f kern) kenv \<Rightarrow> vref \<Rightarrow> u32 \<Rightarrow> ('f kern, unit) kfun" where
  "VOP_EACHOPEN E v flags s = do { ops \<leftarrow> vnode_check v s; vop_eachopen (vops E ops) v flags s }"
definition VOP_READ :: "('f kern) kenv \<Rightarrow> vref \<Rightarrow> ('f kern) uiofun" where
  "VOP_READ E v u s = do { ops \<leftarrow> vnode_check v s; vop_read (vops E ops) v u s }"
definition VOP_READLINK :: "('f kern) kenv \<Rightarrow> vref \<Rightarrow> ('f kern) uiofun" where
  "VOP_READLINK E v u s = do { ops \<leftarrow> vnode_check v s; vop_readlink (vops E ops) v u s }"
definition VOP_WRITE :: "('f kern) kenv \<Rightarrow> vref \<Rightarrow> ('f kern) uiofun" where
  "VOP_WRITE E v u s = do { ops \<leftarrow> vnode_check v s; vop_write (vops E ops) v u s }"
definition VOP_STAT :: "('f kern) kenv \<Rightarrow> vref \<Rightarrow> ('f kern, stat) kfun" where
  "VOP_STAT E v s = do { ops \<leftarrow> vnode_check v s; vop_stat (vops E ops) v s }"
definition VOP_ISSEEKABLE :: "('f kern) kenv \<Rightarrow> vref \<Rightarrow> 'f kern \<Rightarrow> (bool \<times> 'f kern) option" where
  "VOP_ISSEEKABLE E v s = do { ops \<leftarrow> vnode_check v s; vop_isseekable (vops E ops) v s }"
definition VOP_TRUNCATE :: "('f kern) kenv \<Rightarrow> vref \<Rightarrow> u64 \<Rightarrow> ('f kern, unit) kfun" where
  "VOP_TRUNCATE E v len s = do { ops \<leftarrow> vnode_check v s; vop_truncate (vops E ops) v len s }"
definition VOP_NAMEFILE :: "('f kern) kenv \<Rightarrow> vref \<Rightarrow> ('f kern) uiofun" where
  "VOP_NAMEFILE E v u s = do { ops \<leftarrow> vnode_check v s; vop_namefile (vops E ops) v u s }"
definition VOP_CREAT :: "('f kern) kenv \<Rightarrow> vref \<Rightarrow> string \<Rightarrow> bool \<Rightarrow> u32 \<Rightarrow> ('f kern, vref) kfun" where
  "VOP_CREAT E v name excl mode s = do { ops \<leftarrow> vnode_check v s; vop_creat (vops E ops) v name excl mode s }"
definition VOP_SYMLINK :: "('f kern) kenv \<Rightarrow> vref \<Rightarrow> string \<Rightarrow> string \<Rightarrow> ('f kern, unit) kfun" where
  "VOP_SYMLINK E v name content s = do { ops \<leftarrow> vnode_check v s; vop_symlink (vops E ops) v name content s }"
definition VOP_MKDIR :: "('f kern) kenv \<Rightarrow> vref \<Rightarrow> string \<Rightarrow> u32 \<Rightarrow> ('f kern, unit) kfun" where
  "VOP_MKDIR E v name mode s = do { ops \<leftarrow> vnode_check v s; vop_mkdir (vops E ops) v name mode s }"
definition VOP_LINK :: "('f kern) kenv \<Rightarrow> vref \<Rightarrow> string \<Rightarrow> vref \<Rightarrow> ('f kern, unit) kfun" where
  "VOP_LINK E v name file s = do { ops \<leftarrow> vnode_check v s; vop_link (vops E ops) v name file s }"
definition VOP_REMOVE :: "('f kern) kenv \<Rightarrow> vref \<Rightarrow> string \<Rightarrow> ('f kern, unit) kfun" where
  "VOP_REMOVE E v name s = do { ops \<leftarrow> vnode_check v s; vop_remove (vops E ops) v name s }"
definition VOP_RMDIR :: "('f kern) kenv \<Rightarrow> vref \<Rightarrow> string \<Rightarrow> ('f kern, unit) kfun" where
  "VOP_RMDIR E v name s = do { ops \<leftarrow> vnode_check v s; vop_rmdir (vops E ops) v name s }"
definition VOP_RENAME :: "('f kern) kenv \<Rightarrow> vref \<Rightarrow> string \<Rightarrow> vref \<Rightarrow> string \<Rightarrow> ('f kern, unit) kfun" where
  "VOP_RENAME E v n v2 n2 s = do { ops \<leftarrow> vnode_check v s; vop_rename (vops E ops) v n v2 n2 s }"
definition VOP_LOOKUP :: "('f kern) kenv \<Rightarrow> vref \<Rightarrow> string \<Rightarrow> ('f kern, vref) kfun" where
  "VOP_LOOKUP E v path s = do { ops \<leftarrow> vnode_check v s; vop_lookup (vops E ops) v path s }"
definition VOP_LOOKPARENT :: "('f kern) kenv \<Rightarrow> vref \<Rightarrow> string \<Rightarrow> nat \<Rightarrow> ('f kern, vref \<times> string) kfun" where
  "VOP_LOOKPARENT E v path len s = do { ops \<leftarrow> vnode_check v s; vop_lookparent (vops E ops) v path len s }"

lemma VOP_GETTYPE_table:
  "VOP_GETTYPE E v s = do { ops \<leftarrow> vnode_check v s; vop_gettype (vops E ops) v s }"
  by (auto simp: VOP_GETTYPE_def vops_def dev_vnode_ops_def split: vops_id.splits Option.bind_splits)

lemma VOP_RECLAIM_table:
  "VOP_RECLAIM E v s = do { ops \<leftarrow> vnode_check v s; vop_reclaim (vops E ops) v s }"
  by (auto simp: VOP_RECLAIM_def vops_def dev_vnode_ops_def split: vops_id.splits Option.bind_splits)

end
