(* ===== verification/Vfslist.thy ===== *)
theory Vfslist
  imports Device
begin

text \<open>
  kern/vfs/vfslist.c: the table of named devices, the recursive big lock of the VFS layer, and
  mounting, unmounting and swap. The table is a kernel array; an entry's \<^verbatim>\<open>kd_fs\<close> is changed in
  place. A loop over the table reads its entries in order.
\<close>

section \<open>File system dispatch (fs.h)\<close>

definition FSOP_SYNC :: "('f kern) kenv \<Rightarrow> fsref \<Rightarrow> ('f kern, unit) kfun" where
  "FSOP_SYNC E fs s = fsop_sync (e_fsops E fs) fs s"
definition FSOP_GETVOLNAME :: "('f kern) kenv \<Rightarrow> fsref \<Rightarrow> 'f kern \<Rightarrow> string option" where
  "FSOP_GETVOLNAME E fs s = fsop_getvolname (e_fsops E fs) fs s"
definition FSOP_GETROOT :: "('f kern) kenv \<Rightarrow> fsref \<Rightarrow> ('f kern, vref) kfun" where
  "FSOP_GETROOT E fs s = fsop_getroot (e_fsops E fs) fs s"
definition FSOP_UNMOUNT :: "('f kern) kenv \<Rightarrow> fsref \<Rightarrow> ('f kern, unit) kfun" where
  "FSOP_UNMOUNT E fs s = fsop_unmount (e_fsops E fs) fs s"

section \<open>The big lock\<close>

definition vfs_biglock_acquire :: "'f kern \<Rightarrow> 'f kern option" where
  "vfs_biglock_acquire s =
     do { lk \<leftarrow> (if \<not> lock_do_i_hold (curthread s) (vfs_biglock s) then lock_acquire (curthread s) (vfs_biglock s)
                 else if vfs_biglock_depth s = 0 then lock_acquire (curthread s) (vfs_biglock s)
                 else Some (vfs_biglock s));
          Some (s\<lparr>vfs_biglock := lk, vfs_biglock_depth := vfs_biglock_depth s + 1\<rparr>) }"

definition vfs_biglock_release :: "'f kern \<Rightarrow> 'f kern option" where
  "vfs_biglock_release s =
     do { kassert (lock_do_i_hold (curthread s) (vfs_biglock s));
          kassert (vfs_biglock_depth s > 0);
          let s1 = s\<lparr>vfs_biglock_depth := vfs_biglock_depth s - 1\<rparr>;
          if vfs_biglock_depth s1 = 0
          then do { lk \<leftarrow> lock_release (curthread s1) (vfs_biglock s1); Some (s1\<lparr>vfs_biglock := lk\<rparr>) }
          else Some s1 }"

definition vfs_biglock_do_i_hold :: "'f kern \<Rightarrow> bool" where
  "vfs_biglock_do_i_hold s = lock_do_i_hold (curthread s) (vfs_biglock s)"

section \<open>Looking devices up\<close>

fun sync_loop :: "('f kern) kenv \<Rightarrow> knowndev list \<Rightarrow> 'f kern \<Rightarrow> 'f kern option" where
  "sync_loop E [] s = Some s"
| "sync_loop E (dev # devs) s =
     (case kd_fs dev of
        Fs_at fs \<Rightarrow> do { (r, s') \<leftarrow> FSOP_SYNC E fs s; sync_loop E devs s' }
      | _ \<Rightarrow> sync_loop E devs s)"

definition vfs_sync :: "('f kern) kenv \<Rightarrow> ('f kern, unit) kfun" where
  "vfs_sync E s =
     do { s1 \<leftarrow> vfs_biglock_acquire s;
          kds \<leftarrow> array_items (knowndevs s1);
          s2 \<leftarrow> sync_loop E kds s1;
          s3 \<leftarrow> vfs_biglock_release s2;
          Some (Inr (), s3) }"

text \<open>The end of the loop body of \<^verbatim>\<open>vfs_getroot\<close>: the device itself, by either of its names.\<close>

definition getroot_device ::
    "string \<Rightarrow> knowndev \<Rightarrow> ('f kern, vref) kfun \<Rightarrow> ('f kern, vref) kfun" where
  "getroot_device devname kd next s =
     (if kd_name kd = devname then
        do { kassert (kd_fs kd = Fs_null);
             kassert (kd_rawname kd = None);
             kassert (kd_device kd \<noteq> None);
             s' \<leftarrow> vnode_incref (kd_vnode kd) s;
             Some (Inr (kd_vnode kd), s') }
      else if kd_rawname kd = Some devname then
        do { kassert (kd_device kd \<noteq> None);
             s' \<leftarrow> vnode_incref (kd_vnode kd) s;
             Some (Inr (kd_vnode kd), s') }
      else next s)"

fun getroot_loop :: "('f kern) kenv \<Rightarrow> string \<Rightarrow> knowndev list \<Rightarrow> ('f kern, vref) kfun" where
  "getroot_loop E devname [] s = Some (Inl ENODEV, s)"
| "getroot_loop E devname (kd # kds) s =
     (case kd_fs kd of
        Fs_at fs \<Rightarrow>
          if kd_name kd = devname \<or> FSOP_GETVOLNAME E fs s = Some devname
          then FSOP_GETROOT E fs s
          else getroot_device devname kd (getroot_loop E devname kds) s
      | _ \<Rightarrow>
          if kd_rawname kd \<noteq> None \<and> kd_name kd = devname then Some (Inl ENXIO, s)
          else getroot_device devname kd (getroot_loop E devname kds) s)"

definition vfs_getroot :: "('f kern) kenv \<Rightarrow> string \<Rightarrow> ('f kern, vref) kfun" where
  "vfs_getroot E devname s =
     do { kassert (vfs_biglock_do_i_hold s);
          kds \<leftarrow> array_items (knowndevs s);
          getroot_loop E devname kds s }"

fun getdevname_loop :: "fsref \<Rightarrow> knowndev list \<Rightarrow> string option" where
  "getdevname_loop fs [] = None"
| "getdevname_loop fs (kd # kds) =
     (if kd_fs kd = Fs_at fs then Some (kd_name kd) else getdevname_loop fs kds)"

definition vfs_getdevname :: "fsref \<Rightarrow> 'f kern \<Rightarrow> string option option" where
  "vfs_getdevname fs s =
     do { kassert (vfs_biglock_do_i_hold s);
          kds \<leftarrow> array_items (knowndevs s);
          Some (getdevname_loop fs kds) }"

section \<open>Adding devices\<close>

text \<open>The string functions that allocate: null when there is no memory.\<close>

definition kstrdup :: "string \<Rightarrow> 'f kern \<Rightarrow> string option \<times> 'f kern" where
  "kstrdup name s = (case kmalloc s of (ok, s') \<Rightarrow> (if ok then Some name else None, s'))"

definition mkrawname :: "string \<Rightarrow> 'f kern \<Rightarrow> string option \<times> 'f kern" where
  "mkrawname name s = (case kmalloc s of (ok, s') \<Rightarrow> (if ok then Some (name @ ''raw'') else None, s'))"

definition samestring :: "string option \<Rightarrow> string option \<Rightarrow> bool" where
  "samestring a b = (case (a, b) of (Some x, Some y) \<Rightarrow> x = y | _ \<Rightarrow> False)"

definition samestring3 :: "string option \<Rightarrow> string option \<Rightarrow> string option \<Rightarrow> string option \<Rightarrow> bool" where
  "samestring3 a b c d \<longleftrightarrow> samestring a b \<or> samestring a c \<or> samestring a d"

fun badnames_loop ::
    "('f kern) kenv \<Rightarrow> string option \<Rightarrow> string option \<Rightarrow> string option \<Rightarrow> knowndev list \<Rightarrow> 'f kern \<Rightarrow> bool" where
  "badnames_loop E n1 n2 n3 [] s = False"
| "badnames_loop E n1 n2 n3 (kd # kds) s =
     (if (case kd_fs kd of Fs_at fs \<Rightarrow> samestring3 (FSOP_GETVOLNAME E fs s) n1 n2 n3 | _ \<Rightarrow> False) then True
      else if samestring3 (kd_rawname kd) n1 n2 n3 \<or> samestring3 (Some (kd_name kd)) n1 n2 n3 then True
      else badnames_loop E n1 n2 n3 kds s)"

definition badnames ::
    "('f kern) kenv \<Rightarrow> string option \<Rightarrow> string option \<Rightarrow> string option \<Rightarrow> 'f kern \<Rightarrow> bool option" where
  "badnames E n1 n2 n3 s =
     do { kassert (vfs_biglock_do_i_hold s);
          kds \<leftarrow> array_items (knowndevs s);
          Some (badnames_loop E n1 n2 n3 kds s) }"

text \<open>The label \<^verbatim>\<open>fail\<close> of \<^verbatim>\<open>vfs_doadd\<close>.\<close>

definition doadd_fail :: "vref option \<Rightarrow> errno \<Rightarrow> ('f kern, unit) kfun" where
  "doadd_fail vnode result s =
     do { s1 \<leftarrow> (case vnode of None \<Rightarrow> Some s | Some v \<Rightarrow> dev_uncreate_vnode v s);
          s2 \<leftarrow> vfs_biglock_release s1;
          Some (Inl result, s2) }"

definition vfs_doadd ::
    "('f kern) kenv \<Rightarrow> string \<Rightarrow> bool \<Rightarrow> devref option \<Rightarrow> fsref option \<Rightarrow> ('f kern, unit) kfun" where
  "vfs_doadd E dname mountable dev fs s =
     do { s0 \<leftarrow> vfs_biglock_acquire s;
          case kstrdup dname s0 of
            (None, s1) \<Rightarrow> doadd_fail None ENOMEM s1
          | (Some name, s1) \<Rightarrow>
          (case (if mountable then mkrawname name s1 else (None, s1)) of (rawname, s2) \<Rightarrow>
           if mountable \<and> rawname = None then doadd_fail None ENOMEM s2
           else
          (case dev_create_vnode (case dev of None \<Rightarrow> 0 | Some d \<Rightarrow> d) s2 of
            (None, s3) \<Rightarrow> doadd_fail None ENOMEM s3
          | (Some vnode, s3) \<Rightarrow>
          (case kmalloc s3 of
            (False, s4) \<Rightarrow> doadd_fail (Some vnode) ENOMEM s4
          | (True, s4) \<Rightarrow>
              let kd = \<lparr>kd_name = name, kd_rawname = rawname, kd_device = dev, kd_vnode = vnode,
                        kd_fs = (case fs of None \<Rightarrow> Fs_null | Some f \<Rightarrow> Fs_at f)\<rparr>;
                  volname = (case fs of None \<Rightarrow> None | Some f \<Rightarrow> FSOP_GETVOLNAME E f s4) in
              do { bad \<leftarrow> badnames E (Some name) rawname volname s4;
                   if bad then doadd_fail (Some vnode) EEXIST s4
                   else do { let (ok, s5) = kmalloc s4;
                             (r, arr) \<leftarrow> array_add ok kd (knowndevs s5);
                             case r of
                               Inl e \<Rightarrow> doadd_fail (Some vnode) e (s5\<lparr>knowndevs := arr\<rparr>)
                             | Inr index \<Rightarrow>
                                 let s6 = s5\<lparr>knowndevs := arr\<rparr>;
                                     s7 = (case dev of
                                             None \<Rightarrow> s6
                                           | Some d \<Rightarrow> s6\<lparr>k_dev := (k_dev s6)(d := map_option
                                               (\<lambda>x. x\<lparr>d_devnumber := of_nat (index + 1)\<rparr>) (k_dev s6 d))\<rparr>) in
                                 do { s8 \<leftarrow> vfs_biglock_release s7; Some (Inr (), s8) } } }))) }"

definition vfs_adddev :: "('f kern) kenv \<Rightarrow> string \<Rightarrow> devref \<Rightarrow> bool \<Rightarrow> ('f kern, unit) kfun" where
  "vfs_adddev E devname dev mountable s = vfs_doadd E devname mountable (Some dev) None s"

definition vfs_addfs :: "('f kern) kenv \<Rightarrow> string \<Rightarrow> fsref \<Rightarrow> ('f kern, unit) kfun" where
  "vfs_addfs E devname fs s = vfs_doadd E devname False None (Some fs) s"

section \<open>Mounting\<close>

text \<open>\<^verbatim>\<open>findmount\<close> hands back the entry's place in the table.\<close>

fun findmount_loop :: "string \<Rightarrow> knowndev list \<Rightarrow> nat \<Rightarrow> errno + nat" where
  "findmount_loop devname [] i = Inl ENODEV"
| "findmount_loop devname (dev # devs) i =
     (if kd_rawname dev = None then findmount_loop devname devs (Suc i)
      else if devname = kd_name dev then Inr i
      else findmount_loop devname devs (Suc i))"

definition findmount :: "string \<Rightarrow> 'f kern \<Rightarrow> (errno + nat) option" where
  "findmount devname s =
     do { kassert (vfs_biglock_do_i_hold s);
          kds \<leftarrow> array_items (knowndevs s);
          Some (findmount_loop devname kds 0) }"

definition kd_set_fs :: "nat \<Rightarrow> kd_fs_ptr \<Rightarrow> 'f kern \<Rightarrow> 'f kern option" where
  "kd_set_fs i fs s =
     do { kd \<leftarrow> array_get (knowndevs s) i;
          arr \<leftarrow> array_set i (kd\<lparr>kd_fs := fs\<rparr>) (knowndevs s);
          Some (s\<lparr>knowndevs := arr\<rparr>) }"

text \<open>\<^verbatim>\<open>vfs_biglock_release(); return result;\<close>\<close>

definition biglock_return :: "errno + 'a \<Rightarrow> ('f kern, 'a) kfun" where
  "biglock_return r s = do { s' \<leftarrow> vfs_biglock_release s; Some (r, s') }"

definition vfs_mount ::
    "('f kern) kenv \<Rightarrow> string \<Rightarrow> (devref \<Rightarrow> ('f kern, fsref) kfun) \<Rightarrow> ('f kern, unit) kfun" where
  "vfs_mount E devname mountfunc s =
     do { s1 \<leftarrow> vfs_biglock_acquire s;
          r \<leftarrow> findmount devname s1;
          case r of
            Inl e \<Rightarrow> biglock_return (Inl e) s1
          | Inr i \<Rightarrow>
              do { kd \<leftarrow> array_get (knowndevs s1) i;
                   if kd_fs kd \<noteq> Fs_null then biglock_return (Inl EBUSY) s1
                   else do { kassert (kd_rawname kd \<noteq> None);
                             dev \<leftarrow> kd_device kd;
                             (r2, s2) \<leftarrow> mountfunc dev s1;
                             case r2 of
                               Inl e \<Rightarrow> biglock_return (Inl e) s2
                             | Inr fs \<Rightarrow>
                                 do { s3 \<leftarrow> kd_set_fs i (Fs_at fs) s2;
                                      biglock_return (Inr ()) s3 } } } }"

definition vfs_swapon :: "string \<Rightarrow> ('f kern, vref) kfun" where
  "vfs_swapon devname0 s0 =
     (let colon = (length devname0 > 0 \<and> last devname0 = CHR '':'') in
      case (if colon then kstrdup devname0 s0 else (Some devname0, s0)) of
        (None, s) \<Rightarrow> Some (Inl ENOMEM, s)
      | (Some myname, s) \<Rightarrow>
          let devname = (if colon then butlast myname else myname) in
          do { s1 \<leftarrow> vfs_biglock_acquire s;
               r \<leftarrow> findmount devname s1;
               case r of
                 Inl e \<Rightarrow> biglock_return (Inl e) s1
               | Inr i \<Rightarrow>
                   do { kd \<leftarrow> array_get (knowndevs s1) i;
                        if kd_fs kd \<noteq> Fs_null then biglock_return (Inl EBUSY) s1
                        else do { kassert (kd_rawname kd \<noteq> None);
                                  kassert (kd_device kd \<noteq> None);
                                  s2 \<leftarrow> kd_set_fs i SWAP_FS s1;
                                  s3 \<leftarrow> vnode_incref (kd_vnode kd) s2;
                                  biglock_return (Inr (kd_vnode kd)) s3 } } })"

definition vfs_unmount :: "('f kern) kenv \<Rightarrow> string \<Rightarrow> ('f kern, unit) kfun" where
  "vfs_unmount E devname s =
     do { s1 \<leftarrow> vfs_biglock_acquire s;
          r \<leftarrow> findmount devname s1;
          case r of
            Inl e \<Rightarrow> biglock_return (Inl e) s1
          | Inr i \<Rightarrow>
              do { kd \<leftarrow> array_get (knowndevs s1) i;
                   case kd_fs kd of
                     Fs_at fs \<Rightarrow>
                       do { kassert (kd_rawname kd \<noteq> None);
                            kassert (kd_device kd \<noteq> None);
                            (r2, s2) \<leftarrow> FSOP_SYNC E fs s1;
                            case r2 of
                              Inl e \<Rightarrow> biglock_return (Inl e) s2
                            | Inr _ \<Rightarrow>
                                do { (r3, s3) \<leftarrow> FSOP_UNMOUNT E fs s2;
                                     case r3 of
                                       Inl e \<Rightarrow> biglock_return (Inl e) s3
                                     | Inr _ \<Rightarrow>
                                         do { s4 \<leftarrow> kd_set_fs i Fs_null s3;
                                              biglock_return (Inr ()) s4 } } }
                   | _ \<Rightarrow> biglock_return (Inl EINVAL) s1 } }"

definition vfs_swapoff :: "string \<Rightarrow> ('f kern, unit) kfun" where
  "vfs_swapoff devname s =
     do { s1 \<leftarrow> vfs_biglock_acquire s;
          r \<leftarrow> findmount devname s1;
          case r of
            Inl e \<Rightarrow> biglock_return (Inl e) s1
          | Inr i \<Rightarrow>
              do { kd \<leftarrow> array_get (knowndevs s1) i;
                   if kd_fs kd \<noteq> SWAP_FS then biglock_return (Inl EINVAL) s1
                   else do { s2 \<leftarrow> kd_set_fs i Fs_null s1; biglock_return (Inr ()) s2 } } }"

text \<open>The tail of the loop body of \<^verbatim>\<open>vfs_unmountall\<close>, once the file system has been synced.\<close>

definition unmountall_drop :: "('f kern) kenv \<Rightarrow> nat \<Rightarrow> fsref \<Rightarrow> 'f kern \<Rightarrow> 'f kern option" where
  "unmountall_drop E i fs s =
     do { (r, s1) \<leftarrow> FSOP_UNMOUNT E fs s;
          case r of Inl e \<Rightarrow> Some s1 | Inr _ \<Rightarrow> kd_set_fs i Fs_null s1 }"

fun unmountall_loop :: "('f kern) kenv \<Rightarrow> nat list \<Rightarrow> 'f kern \<Rightarrow> 'f kern option" where
  "unmountall_loop E [] s = Some s"
| "unmountall_loop E (i # is) s =
     do { dev \<leftarrow> array_get (knowndevs s) i;
          if kd_rawname dev = None then unmountall_loop E is s
          else case kd_fs dev of
            Fs_null \<Rightarrow> unmountall_loop E is s
          | SWAP_FS \<Rightarrow> do { s1 \<leftarrow> kd_set_fs i Fs_null s; unmountall_loop E is s1 }
          | Fs_at fs \<Rightarrow>
              do { (r, s1) \<leftarrow> FSOP_SYNC E fs s;
                   case r of
                     Inr _ \<Rightarrow> do { s2 \<leftarrow> unmountall_drop E i fs s1; unmountall_loop E is s2 }
                   | Inl _ \<Rightarrow>
                       do { (r2, s2) \<leftarrow> FSOP_SYNC E fs s1;
                            case r2 of
                              Inl _ \<Rightarrow> unmountall_loop E is s2
                            | Inr _ \<Rightarrow> do { s3 \<leftarrow> unmountall_drop E i fs s2; unmountall_loop E is s3 } } } }"

definition vfs_unmountall :: "('f kern) kenv \<Rightarrow> ('f kern, unit) kfun" where
  "vfs_unmountall E s =
     do { s1 \<leftarrow> vfs_biglock_acquire s;
          s2 \<leftarrow> unmountall_loop E [0..<array_num (knowndevs s1)] s1;
          s3 \<leftarrow> vfs_biglock_release s2;
          Some (Inr (), s3) }"

end
