(* ===== verification/Vfs.thy ===== *)
theory Vfs
  imports Vfslist
begin

text \<open>
  kern/vfs/vfscwd.c, vfslookup.c and vfspath.c: the current directory, the translation of names
  to vnodes, and the operations on path names. A path is a string value; the C code may cut the
  caller's buffer at the device name's colon, which vfs.h allows it to and no caller looks at.
\<close>

section \<open>The current directory (vfscwd.c)\<close>

definition vfs_getcurdir :: "('f kern, vref) kfun" where
  "vfs_getcurdir s =
     (case p_cwd s (curproc s) of
        None \<Rightarrow> Some (Inl ENOENT, s)
      | Some v \<Rightarrow> do { s' \<leftarrow> vnode_incref v s; Some (Inr v, s') })"

text \<open>\<^verbatim>\<open>if (old!=NULL) VOP_DECREF(old);\<close>\<close>

definition decref_old :: "('f kern) kenv \<Rightarrow> vref option \<Rightarrow> 'f kern \<Rightarrow> 'f kern option" where
  "decref_old E old s = (case old of None \<Rightarrow> Some s | Some v \<Rightarrow> vnode_decref E v s)"

definition vfs_setcurdir :: "('f kern) kenv \<Rightarrow> vref \<Rightarrow> ('f kern, unit) kfun" where
  "vfs_setcurdir E dir s =
     do { (r, s1) \<leftarrow> VOP_GETTYPE E dir s;
          case r of
            Inl e \<Rightarrow> Some (Inl e, s1)
          | Inr vtype \<Rightarrow>
              if vtype \<noteq> S_IFDIR then Some (Inl ENOTDIR, s1)
              else do { s2 \<leftarrow> vnode_incref dir s1;
                        let old = p_cwd s2 (curproc s2);
                        let s3 = s2\<lparr>p_cwd := (p_cwd s2)(curproc s2 \<mapsto> dir)\<rparr>;
                        s4 \<leftarrow> decref_old E old s3;
                        Some (Inr (), s4) } }"

definition vfs_clearcurdir :: "('f kern) kenv \<Rightarrow> ('f kern, unit) kfun" where
  "vfs_clearcurdir E s =
     do { let old = p_cwd s (curproc s);
          s1 \<leftarrow> decref_old E old (s\<lparr>p_cwd := (p_cwd s)(curproc s := None)\<rparr>);
          Some (Inr (), s1) }"

section \<open>Names to vnodes (vfslookup.c)\<close>

definition change_bootfs :: "('f kern) kenv \<Rightarrow> vref option \<Rightarrow> 'f kern \<Rightarrow> 'f kern option" where
  "change_bootfs E newvn s = decref_old E (bootfs_vnode s) (s\<lparr>bootfs_vnode := newvn\<rparr>)"

definition vfs_clearbootfs :: "('f kern) kenv \<Rightarrow> 'f kern \<Rightarrow> 'f kern option" where
  "vfs_clearbootfs E s =
     do { s1 \<leftarrow> vfs_biglock_acquire s; s2 \<leftarrow> change_bootfs E None s1; vfs_biglock_release s2 }"

text \<open>
  The first colon or slash of a path, and the variables \<^verbatim>\<open>colon\<close> and \<^verbatim>\<open>slash\<close> after the loop that
  looks for it.
\<close>

definition path_sep :: "string \<Rightarrow> nat option" where
  "path_sep path = first_index (\<lambda>c. c = CHR '':'' \<or> c = CHR ''/'') path"

definition path_colon :: "string \<Rightarrow> int" where
  "path_colon path = (case path_sep path of Some i \<Rightarrow> if path ! i = CHR '':'' then int i else -1 | None \<Rightarrow> -1)"

definition path_slash :: "string \<Rightarrow> int" where
  "path_slash path = (case path_sep path of Some i \<Rightarrow> if path ! i = CHR ''/'' then int i else -1 | None \<Rightarrow> -1)"

definition skip_slashes :: "string \<Rightarrow> string" where
  "skip_slashes = dropWhile (\<lambda>c. c = CHR ''/'')"

text \<open>The start vnode of \<^verbatim>\<open>/path\<close> and \<^verbatim>\<open>:path\<close>.\<close>

definition getdevice_root :: "('f kern) kenv \<Rightarrow> string \<Rightarrow> ('f kern, vref) kfun" where
  "getdevice_root E path s =
     (if hd path = CHR ''/'' then
        (case bootfs_vnode s of
           None \<Rightarrow> Some (Inl ENOENT, s)
         | Some v \<Rightarrow> do { s1 \<leftarrow> vnode_incref v s; Some (Inr v, s1) })
      else
        do { (r, s1) \<leftarrow> vfs_getcurdir s;
             case r of
               Inl e \<Rightarrow> Some (Inl e, s1)
             | Inr vn \<Rightarrow>
                 do { x \<leftarrow> k_vn s1 vn;
                      fs \<leftarrow> vn_fs x;
                      (r2, s2) \<leftarrow> FSOP_GETROOT E fs s1;
                      s3 \<leftarrow> vnode_decref E vn s2;
                      Some (r2, s3) } })"

definition getdevice :: "('f kern) kenv \<Rightarrow> string \<Rightarrow> ('f kern, string \<times> vref) kfun" where
  "getdevice E path s =
     do { kassert (vfs_biglock_do_i_hold s);
          if path = [] then Some (Inl EINVAL, s)
          else
            let colon = path_colon path;
                slash = path_slash path in
            if colon < 0 \<and> slash \<noteq> 0 then
              do { (r, s1) \<leftarrow> vfs_getcurdir s; Some (map_sum id (\<lambda>v. (path, v)) r, s1) }
            else if colon > 0 then
              do { (r, s1) \<leftarrow> vfs_getroot E (take (nat colon) path) s;
                   Some (map_sum id (\<lambda>v. (skip_slashes (drop (nat colon + 1) path), v)) r, s1) }
            else
              do { kassert (colon = 0 \<or> slash = 0);
                   (r, s1) \<leftarrow> getdevice_root E path s;
                   Some (map_sum id (\<lambda>v. (skip_slashes (tl path), v)) r, s1) } }"

definition vfs_lookparent :: "('f kern) kenv \<Rightarrow> string \<Rightarrow> nat \<Rightarrow> ('f kern, vref \<times> string) kfun" where
  "vfs_lookparent E path0 buflen s =
     do { s1 \<leftarrow> vfs_biglock_acquire s;
          (r, s2) \<leftarrow> getdevice E path0 s1;
          case r of
            Inl e \<Rightarrow> biglock_return (Inl e) s2
          | Inr (path, startvn) \<Rightarrow>
              do { (r2, s3) \<leftarrow> (if length path = 0 then Some (Inl EINVAL, s2)
                               else VOP_LOOKPARENT E startvn path buflen s2);
                   s4 \<leftarrow> vnode_decref E startvn s3;
                   biglock_return r2 s4 } }"

definition vfs_lookup :: "('f kern) kenv \<Rightarrow> string \<Rightarrow> ('f kern, vref) kfun" where
  "vfs_lookup E path0 s =
     do { s1 \<leftarrow> vfs_biglock_acquire s;
          (r, s2) \<leftarrow> getdevice E path0 s1;
          case r of
            Inl e \<Rightarrow> biglock_return (Inl e) s2
          | Inr (path, startvn) \<Rightarrow>
              if length path = 0 then biglock_return (Inr startvn) s2
              else do { (r2, s3) \<leftarrow> VOP_LOOKUP E startvn path s2;
                        s4 \<leftarrow> vnode_decref E startvn s3;
                        biglock_return r2 s4 } }"

definition vfs_chdir :: "('f kern) kenv \<Rightarrow> string \<Rightarrow> ('f kern, unit) kfun" where
  "vfs_chdir E path s =
     do { (r, s1) \<leftarrow> vfs_lookup E path s;
          case r of
            Inl e \<Rightarrow> Some (Inl e, s1)
          | Inr vn \<Rightarrow> do { (r2, s2) \<leftarrow> vfs_setcurdir E vn s1;
                           s3 \<leftarrow> vnode_decref E vn s2;
                           Some (r2, s3) } }"

text \<open>
  \<^verbatim>\<open>vfs_setbootfs\<close> copies at most 254 characters of the name. A pointer to a colon points to a
  string that is not empty, so a name with a colon anywhere is refused.
\<close>

definition vfs_setbootfs :: "('f kern) kenv \<Rightarrow> string \<Rightarrow> ('f kern, unit) kfun" where
  "vfs_setbootfs E fsname s =
     do { s1 \<leftarrow> vfs_biglock_acquire s;
          let tmp = take (NAME_MAX - 1) fsname;
          let colon = dropWhile (\<lambda>c. c \<noteq> CHR '':'') tmp;
          if colon \<noteq> [] \<and> length colon > 0 then biglock_return (Inl EINVAL) s1
          else do { (r, s2) \<leftarrow> vfs_chdir E (tmp @ '':'') s1;
                    case r of
                      Inl e \<Rightarrow> biglock_return (Inl e) s2
                    | Inr _ \<Rightarrow>
                        do { (r2, s3) \<leftarrow> vfs_getcurdir s2;
                             case r2 of
                               Inl e \<Rightarrow> biglock_return (Inl e) s3
                             | Inr newguy \<Rightarrow> do { s4 \<leftarrow> change_bootfs E (Some newguy) s3;
                                                  biglock_return (Inr ()) s4 } } } }"

text \<open>
  \<^verbatim>\<open>vfs_getcwd\<close>: \<open>addr\<close> gives the address of a name's characters in kernel memory and \<open>ca\<close> that
  of the variable \<^verbatim>\<open>colon\<close>.
\<close>

definition vfs_getcwd :: "('f kern) kenv \<Rightarrow> (string \<Rightarrow> vaddr) \<Rightarrow> vaddr \<Rightarrow> ('f kern) uiofun" where
  "vfs_getcwd E addr ca u s =
     do { s0 \<leftarrow> k_store ca 58 s;
          kassert (uio_rw u = UIO_READ);
          (r, s1) \<leftarrow> vfs_getcurdir s0;
          case r of
            Inl e \<Rightarrow> Some (Inl e, u, s1)
          | Inr cwd \<Rightarrow>
              do { x \<leftarrow> k_vn s1 cwd;
                   fs \<leftarrow> vn_fs x;
                   (nm, s2) \<leftarrow> (case FSOP_GETVOLNAME E fs s1 of
                       Some n \<Rightarrow> Some (Some n, s1)
                     | None \<Rightarrow> do { t1 \<leftarrow> vfs_biglock_acquire s1;
                                    n \<leftarrow> vfs_getdevname fs t1;
                                    t2 \<leftarrow> vfs_biglock_release t1;
                                    Some (n, t2) });
                   name \<leftarrow> nm;
                   (r1, u1, s3) \<leftarrow> k_uiomove (addr name) (of_nat (length name)) u s2;
                   (r2, u2, s4) \<leftarrow> (case r1 of
                       Inl e \<Rightarrow> Some (Inl e, u1, s3)
                     | Inr _ \<Rightarrow>
                         do { (r3, u3, s5) \<leftarrow> k_uiomove ca 1 u1 s3;
                              case r3 of
                                Inl e \<Rightarrow> Some (Inl e, u3, s5)
                              | Inr _ \<Rightarrow> VOP_NAMEFILE E cwd u3 s5 });
                   s6 \<leftarrow> vnode_decref E cwd s4;
                   Some (r2, u2, s6) } }"

section \<open>Operations on path names (vfspath.c)\<close>

text \<open>The second half of \<^verbatim>\<open>vfs_open\<close>, once the vnode is found.\<close>

definition open_found :: "('f kern) kenv \<Rightarrow> u32 \<Rightarrow> bool \<Rightarrow> vref \<Rightarrow> ('f kern, vref) kfun" where
  "open_found E openflags canwrite vn s =
     do { (r, s1) \<leftarrow> VOP_EACHOPEN E vn openflags s;
          case r of
            Inl e \<Rightarrow> do { s2 \<leftarrow> vnode_decref E vn s1; Some (Inl e, s2) }
          | Inr _ \<Rightarrow>
              if openflags AND O_TRUNC \<noteq> 0 then
                do { (r2, s2) \<leftarrow> (if \<not> canwrite then Some (Inl EINVAL, s1) else VOP_TRUNCATE E vn 0 s1);
                     case r2 of
                       Inl e \<Rightarrow> do { s3 \<leftarrow> vnode_decref E vn s2; Some (Inl e, s3) }
                     | Inr _ \<Rightarrow> Some (Inr vn, s2) }
              else Some (Inr vn, s1) }"

definition vfs_open :: "('f kern) kenv \<Rightarrow> string \<Rightarrow> u32 \<Rightarrow> u32 \<Rightarrow> ('f kern, vref) kfun" where
  "vfs_open E path openflags mode s =
     (let how = openflags AND O_ACCMODE in
      if how \<noteq> O_RDONLY \<and> how \<noteq> O_WRONLY \<and> how \<noteq> O_RDWR then Some (Inl EINVAL, s)
      else
        let canwrite = (how \<noteq> O_RDONLY) in
        do { (r, s1) \<leftarrow>
               (if openflags AND O_CREAT \<noteq> 0 then
                  let excl = (openflags AND O_EXCL \<noteq> 0) in
                  do { (rp, t1) \<leftarrow> vfs_lookparent E path (NAME_MAX + 1) s;
                       case rp of
                         Inl e \<Rightarrow> Some (Inl e, t1)
                       | Inr (dir, name) \<Rightarrow>
                           do { (rc, t2) \<leftarrow> VOP_CREAT E dir name excl mode t1;
                                t3 \<leftarrow> vnode_decref E dir t2;
                                Some (rc, t3) } }
                else vfs_lookup E path s);
             case r of
               Inl e \<Rightarrow> Some (Inl e, s1)
             | Inr vn \<Rightarrow> open_found E openflags canwrite vn s1 })"

definition vfs_close :: "('f kern) kenv \<Rightarrow> vref \<Rightarrow> 'f kern \<Rightarrow> 'f kern option" where
  "vfs_close E vn s = vnode_decref E vn s"

text \<open>Look the parent up, apply an operation to it, and let it go again.\<close>

definition with_parent ::
    "('f kern) kenv \<Rightarrow> string \<Rightarrow> (vref \<Rightarrow> string \<Rightarrow> ('f kern, unit) kfun) \<Rightarrow> ('f kern, unit) kfun" where
  "with_parent E path vop s =
     do { (r, s1) \<leftarrow> vfs_lookparent E path (NAME_MAX + 1) s;
          case r of
            Inl e \<Rightarrow> Some (Inl e, s1)
          | Inr (dir, name) \<Rightarrow>
              do { (r2, s2) \<leftarrow> vop dir name s1;
                   s3 \<leftarrow> vnode_decref E dir s2;
                   Some (r2, s3) } }"

definition vfs_remove :: "('f kern) kenv \<Rightarrow> string \<Rightarrow> ('f kern, unit) kfun" where
  "vfs_remove E path = with_parent E path (VOP_REMOVE E)"

definition vfs_symlink :: "('f kern) kenv \<Rightarrow> string \<Rightarrow> string \<Rightarrow> ('f kern, unit) kfun" where
  "vfs_symlink E contents path = with_parent E path (\<lambda>newdir newname. VOP_SYMLINK E newdir newname contents)"

definition vfs_mkdir :: "('f kern) kenv \<Rightarrow> string \<Rightarrow> u32 \<Rightarrow> ('f kern, unit) kfun" where
  "vfs_mkdir E path mode = with_parent E path (\<lambda>parent name. VOP_MKDIR E parent name mode)"

definition vfs_rmdir :: "('f kern) kenv \<Rightarrow> string \<Rightarrow> ('f kern, unit) kfun" where
  "vfs_rmdir E path = with_parent E path (VOP_RMDIR E)"

definition same_fs :: "vref \<Rightarrow> vref \<Rightarrow> 'f kern \<Rightarrow> bool option" where
  "same_fs v1 v2 s =
     do { x1 \<leftarrow> k_vn s v1; x2 \<leftarrow> k_vn s v2;
          Some (\<not> (vn_fs x1 = None \<or> vn_fs x2 = None \<or> vn_fs x1 \<noteq> vn_fs x2)) }"

definition vfs_rename :: "('f kern) kenv \<Rightarrow> string \<Rightarrow> string \<Rightarrow> ('f kern, unit) kfun" where
  "vfs_rename E oldpath newpath s =
     do { (r, s1) \<leftarrow> vfs_lookparent E oldpath (NAME_MAX + 1) s;
          case r of
            Inl e \<Rightarrow> Some (Inl e, s1)
          | Inr (olddir, oldname) \<Rightarrow>
              do { (r2, s2) \<leftarrow> vfs_lookparent E newpath (NAME_MAX + 1) s1;
                   case r2 of
                     Inl e \<Rightarrow> do { s3 \<leftarrow> vnode_decref E olddir s2; Some (Inl e, s3) }
                   | Inr (newdir, newname) \<Rightarrow>
                       do { same \<leftarrow> same_fs olddir newdir s2;
                            (r3, s3) \<leftarrow> (if \<not> same then Some (Inl EXDEV, s2)
                                        else VOP_RENAME E olddir oldname newdir newname s2);
                            s4 \<leftarrow> vnode_decref E newdir s3;
                            s5 \<leftarrow> vnode_decref E olddir s4;
                            Some (r3, s5) } } }"

definition vfs_link :: "('f kern) kenv \<Rightarrow> string \<Rightarrow> string \<Rightarrow> ('f kern, unit) kfun" where
  "vfs_link E oldpath newpath s =
     do { (r, s1) \<leftarrow> vfs_lookup E oldpath s;
          case r of
            Inl e \<Rightarrow> Some (Inl e, s1)
          | Inr oldfile \<Rightarrow>
              do { (r2, s2) \<leftarrow> vfs_lookparent E newpath (NAME_MAX + 1) s1;
                   case r2 of
                     Inl e \<Rightarrow> do { s3 \<leftarrow> vnode_decref E oldfile s2; Some (Inl e, s3) }
                   | Inr (newdir, newname) \<Rightarrow>
                       do { same \<leftarrow> same_fs oldfile newdir s2;
                            (r3, s3) \<leftarrow> (if \<not> same then Some (Inl EXDEV, s2)
                                        else VOP_LINK E newdir newname oldfile s2);
                            s4 \<leftarrow> vnode_decref E newdir s3;
                            s5 \<leftarrow> vnode_decref E oldfile s4;
                            Some (r3, s5) } } }"

definition vfs_readlink :: "('f kern) kenv \<Rightarrow> string \<Rightarrow> ('f kern) uiofun" where
  "vfs_readlink E path u s =
     do { (r, s1) \<leftarrow> vfs_lookup E path s;
          case r of
            Inl e \<Rightarrow> Some (Inl e, u, s1)
          | Inr vn \<Rightarrow>
              do { (r2, u2, s2) \<leftarrow> VOP_READLINK E vn u s1;
                   s3 \<leftarrow> vnode_decref E vn s2;
                   Some (r2, u2, s3) } }"

end
