(* ===== verification/Vfs_Refs.thy ===== *)
theory Vfs_Refs
  imports Vfs "HOL-Library.Multiset"
begin

text \<open>
  Reference counting across the VFS layer. The references the rest of the kernel holds are a
  multiset of vnodes, and \<open>holds R s\<close> says that the counts in the state cover them. The locale
  \<open>vnode_layer\<close> is what the VFS layer asks of the vnode operations behind the \<^verbatim>\<open>VOP_\<close> macros, as
  the comments of vnode.h and fs.h describe them: an operation that hands back a vnode hands back
  a reference, no other reference is touched, and reclaiming consumes the last one. In the locale
  every path operation is shown to give and take exactly the references it should. The devices
  of the kernel keep the contract, which is the interpretation at the end.
\<close>

section \<open>References\<close>

definition holds :: "vref multiset \<Rightarrow> 'f kern \<Rightarrow> bool" where
  "holds R s \<longleftrightarrow> (\<forall>v\<in>#R. \<exists>vn ops. k_vn s v = Some vn \<and> vn_ops vn = Some ops \<and> int (count R v) \<le> vn_refcount vn)"

text \<open>The references the VFS layer itself holds: devices, current directories, boot directory.\<close>

definition vfs_refs :: "'f kern \<Rightarrow> vref multiset" where
  "vfs_refs s = mset (map kd_vnode (array_elems (knowndevs s))) +
     image_mset (\<lambda>p. the (p_cwd s p)) (mset_set (dom (p_cwd s))) +
     (case bootfs_vnode s of None \<Rightarrow> {#} | Some v \<Rightarrow> {#v#})"

text \<open>The parts of the state that no vnode operation changes.\<close>

definition vfs_same :: "'f kern \<Rightarrow> 'f kern \<Rightarrow> bool" where
  "vfs_same s s' \<longleftrightarrow>
     curthread s' = curthread s \<and> curproc s' = curproc s \<and> p_addrspace s' = p_addrspace s \<and>
     p_cwd s' = p_cwd s \<and> knowndevs s' = knowndevs s \<and> vfs_biglock s' = vfs_biglock s \<and>
     vfs_biglock_depth s' = vfs_biglock_depth s \<and> bootfs_vnode s' = bootfs_vnode s"

text \<open>The references after an operation that may hand one back.\<close>

definition gains :: "errno + vref \<Rightarrow> vref multiset \<Rightarrow> vref multiset" where
  "gains r R = (case r of Inl _ \<Rightarrow> R | Inr v \<Rightarrow> add_mset v R)"

definition fs_live :: "vref multiset \<Rightarrow> 'f kern \<Rightarrow> fsref \<Rightarrow> bool" where
  "fs_live R s fs \<longleftrightarrow>
     (\<exists>kd\<in>set (array_elems (knowndevs s)). kd_fs kd = Fs_at fs) \<or>
     (\<exists>v\<in>#R. \<exists>vn. k_vn s v = Some vn \<and> vn_fs vn = Some fs)"

lemma gains_simps [simp]: "gains (Inl e) R = R" "gains (Inr v) R = add_mset v R"
  by (simp_all add: gains_def)

lemma vfs_same_refl [simp]: "vfs_same s s"
  by (simp add: vfs_same_def)

lemma vfs_same_trans [trans]: "vfs_same s t \<Longrightarrow> vfs_same t u \<Longrightarrow> vfs_same s u"
  by (simp add: vfs_same_def)

lemma vfs_same_k_vn [simp]: "vfs_same s (s\<lparr>k_vn := f\<rparr>)"
  by (simp add: vfs_same_def)

lemma vfs_same_refs: "vfs_same s s' \<Longrightarrow> vfs_refs s' = vfs_refs s"
  by (simp add: vfs_same_def vfs_refs_def)

lemma holdsD:
  assumes "holds R s" "v \<in># R"
  obtains vn ops where "k_vn s v = Some vn" "vn_ops vn = Some ops" "int (count R v) \<le> vn_refcount vn"
    "0 < vn_refcount vn"
proof -
  from assms obtain vn ops where
    *: "k_vn s v = Some vn" "vn_ops vn = Some ops" "int (count R v) \<le> vn_refcount vn"
    unfolding holds_def by blast
  moreover have "0 < int (count R v)" using assms(2) by simp
  ultimately show thesis using that by (meson less_le_trans)
qed

lemma holds_mono: "holds R s \<Longrightarrow> Q \<subseteq># R \<Longrightarrow> holds Q s"
  unfolding holds_def
  by (meson le_trans mset_subset_eqD mset_subset_eq_count of_nat_le_iff order_trans)

lemma vnode_check_holds: "holds R s \<Longrightarrow> v \<in># R \<Longrightarrow> \<exists>ops. vnode_check v s = Some ops"
  by (erule (1) holdsD) (simp add: vnode_check_def)

lemma holds_cong: "k_vn s' = k_vn s \<Longrightarrow> holds R s' = holds R s"
  by (simp add: holds_def)

lemma holds_upd_other [simp]:
  "holds R (s\<lparr>vfs_biglock := a\<rparr>) = holds R s" "holds R (s\<lparr>vfs_biglock_depth := d\<rparr>) = holds R s"
  "holds R (s\<lparr>p_cwd := c\<rparr>) = holds R s" "holds R (s\<lparr>bootfs_vnode := b\<rparr>) = holds R s"
  by (simp_all add: holds_def)

section \<open>The contract\<close>

text \<open>What an operation must leave true: the invariant, the references and the VFS state.\<close>

definition keeps :: "('f kern \<Rightarrow> bool) \<Rightarrow> vref multiset \<Rightarrow> 'f kern \<Rightarrow> 'f kern \<Rightarrow> bool" where
  "keeps winv R s s' \<longleftrightarrow> winv s' \<and> holds R s' \<and> vfs_same s s'"

locale vnode_layer =
  fixes E :: "('f kern) kenv" and winv :: "'f kern \<Rightarrow> bool"
  assumes winv_vfs:
      "winv (s\<lparr>vfs_biglock := a\<rparr>) = winv s" "winv (s\<lparr>vfs_biglock_depth := d\<rparr>) = winv s"
      "winv (s\<lparr>p_cwd := c\<rparr>) = winv s" "winv (s\<lparr>bootfs_vnode := b\<rparr>) = winv s"
    and winv_kmalloc: "winv (s\<lparr>km_n := kn\<rparr>) = winv s" and winv_mach: "winv (s\<lparr>k_mach := km\<rparr>) = winv s"
    and winv_cur: "winv (s\<lparr>curproc := cp, curthread := ct\<rparr>) = winv s"
    and winv_as: "winv (s\<lparr>p_addrspace := pa\<rparr>) = winv s"
    and winv_array: "winv s \<Longrightarrow> array_ok (knowndevs s)"
    and winv_count: "winv s \<Longrightarrow> k_vn s v = Some vn \<Longrightarrow> 0 < n \<Longrightarrow> 0 < vn_refcount vn \<Longrightarrow>
      winv (s\<lparr>k_vn := (k_vn s)(v \<mapsto> vn\<lparr>vn_refcount := n\<rparr>)\<rparr>)"
    and reclaim_law: "winv s \<Longrightarrow> holds (add_mset v R) s \<Longrightarrow> v \<notin># R \<Longrightarrow>
      \<exists>r s'. VOP_RECLAIM E v s = Some (r, s') \<and> keeps winv R s s'"
    and eachopen_law: "VOP_EACHOPEN E v fl s = Some (r, s') \<Longrightarrow> winv s \<Longrightarrow> holds R s \<Longrightarrow> v \<in># R \<Longrightarrow> keeps winv R s s'"
    and gettype_law: "VOP_GETTYPE E v s = Some (rt, s') \<Longrightarrow> winv s \<Longrightarrow> holds R s \<Longrightarrow> v \<in># R \<Longrightarrow> keeps winv R s s'"
    and stat_law: "VOP_STAT E v s = Some (rs, s') \<Longrightarrow> winv s \<Longrightarrow> holds R s \<Longrightarrow> v \<in># R \<Longrightarrow> keeps winv R s s'"
    and truncate_law: "VOP_TRUNCATE E v len s = Some (r, s') \<Longrightarrow> winv s \<Longrightarrow> holds R s \<Longrightarrow> v \<in># R \<Longrightarrow> keeps winv R s s'"
    and isseekable_law: "VOP_ISSEEKABLE E v s = Some (b', s') \<Longrightarrow> winv s \<Longrightarrow> holds R s \<Longrightarrow> v \<in># R \<Longrightarrow> keeps winv R s s'"
    and read_law: "VOP_READ E v u s = Some (r, u', s') \<Longrightarrow> winv s \<Longrightarrow> holds R s \<Longrightarrow> v \<in># R \<Longrightarrow> keeps winv R s s'"
    and write_law: "VOP_WRITE E v u s = Some (r, u', s') \<Longrightarrow> winv s \<Longrightarrow> holds R s \<Longrightarrow> v \<in># R \<Longrightarrow> keeps winv R s s'"
    and lookup_law: "VOP_LOOKUP E v path s = Some (rv, s') \<Longrightarrow> winv s \<Longrightarrow> holds R s \<Longrightarrow> v \<in># R \<Longrightarrow>
      keeps winv (gains rv R) s s'"
    and lookparent_law: "VOP_LOOKPARENT E v path n' s = Some (rp, s') \<Longrightarrow> winv s \<Longrightarrow> holds R s \<Longrightarrow> v \<in># R \<Longrightarrow>
      keeps winv (gains (map_sum id fst rp) R) s s'"
    and creat_law: "VOP_CREAT E v name excl mode s = Some (rv, s') \<Longrightarrow> winv s \<Longrightarrow> holds R s \<Longrightarrow> v \<in># R \<Longrightarrow>
      keeps winv (gains rv R) s s'"
    and getroot_law: "FSOP_GETROOT E fs s = Some (rv, s') \<Longrightarrow> winv s \<Longrightarrow> holds R s \<Longrightarrow> fs_live R s fs \<Longrightarrow>
      keeps winv (gains rv R) s s'"
begin

lemma incref_ok:
  assumes "winv s" "holds R s" "v \<in># R"
  shows "\<exists>s'. vnode_incref v s = Some s' \<and> keeps winv (add_mset v R) s s'"
proof -
  from holdsD [OF assms(2,3)] obtain vn ops where
    vn: "k_vn s v = Some vn" "vn_ops vn = Some ops" "int (count R v) \<le> vn_refcount vn" "0 < vn_refcount vn" .
  let ?s = "s\<lparr>k_vn := (k_vn s)(v \<mapsto> vn\<lparr>vn_refcount := vn_refcount vn + 1\<rparr>)\<rparr>"
  have "winv ?s" using vn assms(1) by (intro winv_count) simp_all
  moreover have "holds (add_mset v R) ?s"
    using assms(2) vn by (auto simp: holds_def)
  ultimately show ?thesis using vn by (simp add: vnode_incref_def keeps_def)
qed

lemma decref_ok:
  assumes "winv s" "holds (add_mset v R) s"
  shows "\<exists>s'. vnode_decref E v s = Some s' \<and> keeps winv R s s'"
proof -
  have "v \<in># add_mset v R" by simp
  from holdsD [OF assms(2) this] obtain vn ops where
    vn: "k_vn s v = Some vn" "vn_ops vn = Some ops" "int (count (add_mset v R) v) \<le> vn_refcount vn"
    "0 < vn_refcount vn" .
  show ?thesis
  proof (cases "vn_refcount vn > 1")
    case True
    let ?s = "s\<lparr>k_vn := (k_vn s)(v \<mapsto> vn\<lparr>vn_refcount := vn_refcount vn - 1\<rparr>)\<rparr>"
    have "winv ?s" using vn True assms(1) by (intro winv_count) simp_all
    moreover have "holds R ?s"
      unfolding holds_def
    proof
      fix w assume w: "w \<in># R"
      then have "w \<in># add_mset v R" by simp
      with assms(2) show "\<exists>vn ops. k_vn ?s w = Some vn \<and> vn_ops vn = Some ops \<and> int (count R w) \<le> vn_refcount vn"
        using vn unfolding holds_def by (cases "w = v") (fastforce)+
    qed
    ultimately show ?thesis using vn True by (simp add: vnode_decref_def keeps_def)
  next
    case False
    with vn have "v \<notin># R" by (auto simp: not_in_iff)
    with reclaim_law assms obtain r s' where "VOP_RECLAIM E v s = Some (r, s')" "keeps winv R s s'" by blast
    with False vn show ?thesis by (simp add: vnode_decref_def)
  qed
qed

lemma decref_result:
  "vnode_decref E v s = Some s' \<Longrightarrow> winv s \<Longrightarrow> holds (add_mset v R) s \<Longrightarrow> keeps winv R s s'"
  using decref_ok [of s v R] by auto

lemma incref_result:
  "vnode_incref v s = Some s' \<Longrightarrow> winv s \<Longrightarrow> holds R s \<Longrightarrow> v \<in># R \<Longrightarrow> keeps winv (add_mset v R) s s'"
  using incref_ok [of s R v] by auto

lemma keepsD: "keeps winv R s s' \<Longrightarrow> winv s' \<and> holds R s' \<and> vfs_same s s'"
  by (simp add: keeps_def)

end

lemma keeps_trans: "keeps winv R s t \<Longrightarrow> keeps winv Q t u \<Longrightarrow> keeps winv Q s u"
  by (auto simp: keeps_def intro: vfs_same_trans)

lemma keeps_refl: "winv s \<Longrightarrow> holds R s \<Longrightarrow> keeps winv R s s"
  by (simp add: keeps_def)

section \<open>The big lock around an operation\<close>

definition big_ok :: "'f kern \<Rightarrow> bool" where
  "big_ok s \<longleftrightarrow> (vfs_biglock s = None \<longleftrightarrow> vfs_biglock_depth s = 0)"

text \<open>
  The state a VFS operation starts from: the references \<open>R\<close> are covered and include the
  VFS layer's own, the big lock's depth agrees with its holder, and finitely many processes have
  a current directory.
\<close>

definition vok :: "('f kern \<Rightarrow> bool) \<Rightarrow> vref multiset \<Rightarrow> 'f kern \<Rightarrow> bool" where
  "vok winv R s \<longleftrightarrow> winv s \<and> holds R s \<and> vfs_refs s \<subseteq># R \<and> big_ok s \<and> finite (dom (p_cwd s))"

lemma vokD: "vok winv R s \<Longrightarrow> winv s" "vok winv R s \<Longrightarrow> holds R s"
  "vok winv R s \<Longrightarrow> vfs_refs s \<subseteq># R" "vok winv R s \<Longrightarrow> big_ok s" "vok winv R s \<Longrightarrow> finite (dom (p_cwd s))"
  by (simp_all add: vok_def)

lemma vok_keeps: "vok winv R s \<Longrightarrow> keeps winv Q s s' \<Longrightarrow> R \<subseteq># Q \<Longrightarrow> vok winv Q s'"
  by (auto simp: vok_def keeps_def vfs_same_refs big_ok_def)
    (auto simp: vfs_same_def intro: subset_mset.order_trans)

lemma vok_keeps_same: "vok winv R s \<Longrightarrow> keeps winv R s s' \<Longrightarrow> vok winv R s'"
  by (rule vok_keeps) auto

lemma vok_gains: "vok winv R s \<Longrightarrow> keeps winv (gains r R) s s' \<Longrightarrow> vok winv (gains r R) s'"
  by (rule vok_keeps) (auto simp: gains_def split: sum.splits)

lemma biglock_acquire_eq:
  assumes "vfs_biglock_acquire s = Some s1"
  shows "s1 = s\<lparr>vfs_biglock := Some (curthread s), vfs_biglock_depth := Suc (vfs_biglock_depth s)\<rparr> \<and>
    (vfs_biglock s = None \<or> vfs_biglock s = Some (curthread s) \<and> 0 < vfs_biglock_depth s)"
  using assms
  by (auto simp: vfs_biglock_acquire_def lock_do_i_hold_def lock_acquire_Some_iff bind_eq_Some_conv
      split: if_splits)

lemma biglock_release_eq:
  assumes "vfs_biglock_release s2 = Some s3"
  shows "vfs_biglock s2 = Some (curthread s2) \<and> 0 < vfs_biglock_depth s2 \<and>
    s3 = (if vfs_biglock_depth s2 = 1 then s2\<lparr>vfs_biglock_depth := 0, vfs_biglock := None\<rparr>
          else s2\<lparr>vfs_biglock_depth := vfs_biglock_depth s2 - 1\<rparr>)"
  using assms
  by (auto simp: vfs_biglock_release_def lock_do_i_hold_def lock_release_Some_iff bind_eq_Some_conv kassert_def
      Let_def split: if_splits)

lemma biglock_do_i_hold_iff: "vfs_biglock_do_i_hold s \<longleftrightarrow> vfs_biglock s = Some (curthread s)"
  by (simp add: vfs_biglock_do_i_hold_def lock_do_i_hold_def)

lemma getdevice_cases:
  assumes "getdevice E path s = Some (r, s')"
  shows "(\<exists>e. r = Inl e \<and> s' = s) \<or>
    (\<exists>p r1. r = map_sum id (Pair p) r1 \<and>
      (vfs_getcurdir s = Some (r1, s') \<or> getdevice_root E path s = Some (r1, s') \<or>
       (\<exists>d. vfs_getroot E d s = Some (r1, s'))))"
  using assms by (auto simp: getdevice_def Let_def bind_eq_Some_conv kassert_def split: if_splits)

context vnode_layer
begin

lemma biglock_acquire_vok:
  assumes "vfs_biglock_acquire s = Some s1" "vok winv R s"
  shows "vok winv R s1"
  using biglock_acquire_eq [OF assms(1)] assms(2)
  by (auto simp: vok_def winv_vfs vfs_refs_def big_ok_def)

lemma biglock_release_ok:
  assumes "vfs_biglock_release s2 = Some s3" "winv s2" "holds Q s2"
  shows "winv s3 \<and> holds Q s3"
  using biglock_release_eq [OF assms(1)] assms(2,3) by (simp add: winv_vfs)

text \<open>A call made between taking and giving back the big lock leaves the lock as it was.\<close>

lemma biglock_bracket:
  assumes "vfs_biglock_acquire s = Some s1" "keeps winv Q s1 s2" "vfs_biglock_release s2 = Some s3" "big_ok s"
  shows "keeps winv Q s s3"
proof -
  have "vfs_same s s3"
    using biglock_acquire_eq [OF assms(1)] biglock_release_eq [OF assms(3)] assms(2,4)
    by (auto simp: keeps_def vfs_same_def big_ok_def)
  with biglock_release_ok [OF assms(3), of Q] assms(2) show ?thesis by (simp add: keeps_def)
qed

lemma biglock_return_bracket:
  assumes "vfs_biglock_acquire s = Some s1" "keeps winv Q s1 s2" "biglock_return r s2 = Some (r', s3)" "big_ok s"
  shows "r' = r \<and> keeps winv Q s s3"
  using assms biglock_bracket [OF assms(1,2) _ assms(4)] by (auto simp: biglock_return_def bind_eq_Some_conv)

section \<open>Finding the start of a path\<close>

lemma cwd_ref: "vok winv R s \<Longrightarrow> p_cwd s p = Some v \<Longrightarrow> v \<in># R"
  by (rule mset_subset_eqD [of "vfs_refs s"]) (auto simp: vok_def vfs_refs_def image_iff intro!: bexI [of _ p])

lemma boot_ref: "vok winv R s \<Longrightarrow> bootfs_vnode s = Some v \<Longrightarrow> v \<in># R"
  by (rule mset_subset_eqD [of "vfs_refs s"]) (auto simp: vok_def vfs_refs_def)

lemma dev_ref: "vok winv R s \<Longrightarrow> kd \<in> set (array_elems (knowndevs s)) \<Longrightarrow> kd_vnode kd \<in># R"
  by (rule mset_subset_eqD [of "vfs_refs s"]) (auto simp: vok_def vfs_refs_def)

lemma items_elems: "vok winv R s \<Longrightarrow> array_items (knowndevs s) = Some (array_elems (knowndevs s))"
  by (simp add: vok_def winv_array array_items_elems)

lemma getcurdir_ok:
  assumes "vfs_getcurdir s = Some (r, s')" "vok winv R s"
  shows "keeps winv (gains r R) s s'"
  using assms cwd_ref [OF assms(2)]
  by (auto simp: vfs_getcurdir_def bind_eq_Some_conv vokD keeps_refl split: option.splits
      dest!: incref_result [where R = R])

lemma getroot_device_ok:
  assumes "getroot_device dn kd next s = Some (r, s')" "vok winv R s" "kd_vnode kd \<in># R"
    and "next s = Some (r, s') \<Longrightarrow> keeps winv (gains r R) s s'"
  shows "keeps winv (gains r R) s s'"
  using assms
  by (auto simp: getroot_device_def bind_eq_Some_conv kassert_def vokD split: if_splits
      dest!: incref_result [where R = R])

lemma getroot_loop_ok:
  assumes "getroot_loop E dn kds s = Some (r, s')" "vok winv R s" "set kds \<subseteq> set (array_elems (knowndevs s))"
  shows "keeps winv (gains r R) s s'"
  using assms(1,3)
proof (induction kds)
  case Nil
  then show ?case using assms(2) by (auto simp: vokD keeps_refl)
next
  case (Cons kd kds)
  have kd: "kd \<in> set (array_elems (knowndevs s))" using Cons.prems by simp
  have rest: "getroot_loop E dn kds s = Some (r, s') \<Longrightarrow> ?case"
    using Cons.prems(2) by (intro Cons.IH) simp_all
  have dev: "getroot_device dn kd (getroot_loop E dn kds) s = Some (r, s') \<Longrightarrow> ?case"
    by (rule getroot_device_ok [OF _ assms(2) dev_ref [OF assms(2) kd] rest])
  show ?case
  proof (cases "kd_fs kd")
    case (Fs_at fs)
    then have "fs_live R s fs" using kd by (auto simp: fs_live_def)
    then have root: "FSOP_GETROOT E fs s = Some (r, s') \<Longrightarrow> ?thesis"
      using assms(2) by (auto intro: getroot_law vokD)
    show ?thesis
      by (cases "kd_name kd = dn \<or> FSOP_GETVOLNAME E fs s = Some dn"; rule root dev)
        (use Cons.prems(1) Fs_at in auto)
  next
    case Fs_null
    show ?thesis
      by (cases "kd_rawname kd \<noteq> None \<and> kd_name kd = dn")
        (use Cons.prems(1) Fs_null assms(2) in \<open>auto simp: vokD keeps_refl intro!: dev\<close>)
  next
    case SWAP_FS
    show ?thesis
      by (cases "kd_rawname kd \<noteq> None \<and> kd_name kd = dn")
        (use Cons.prems(1) SWAP_FS assms(2) in \<open>auto simp: vokD keeps_refl intro!: dev\<close>)
  qed
qed

lemma vfs_getroot_ok:
  assumes "vfs_getroot E dn s = Some (r, s')" "vok winv R s"
  shows "keeps winv (gains r R) s s'"
  using assms getroot_loop_ok [OF _ assms(2)] items_elems [OF assms(2)]
  by (auto simp: vfs_getroot_def kassert_def split: if_splits)

lemma getdevice_root_ok:
  assumes "getdevice_root E path s = Some (r, s')" "vok winv R s"
  shows "keeps winv (gains r R) s s'"
proof (cases "hd path = CHR ''/''")
  case True
  then show ?thesis using assms boot_ref [OF assms(2)]
    by (auto simp: getdevice_root_def bind_eq_Some_conv vokD keeps_refl split: option.splits
        dest!: incref_result [where R = R])
next
  case False
  then obtain r1 s1 where g: "vfs_getcurdir s = Some (r1, s1)"
    using assms(1) by (auto simp: getdevice_root_def bind_eq_Some_conv)
  note k1 = getcurdir_ok [OF g assms(2)]
  show ?thesis
  proof (cases r1)
    case (Inl e)
    with False g k1 assms(1) show ?thesis by (auto simp: getdevice_root_def)
  next
    case (Inr vn)
    then obtain x fs s2 where x: "k_vn s1 vn = Some x" "vn_fs x = Some fs" "FSOP_GETROOT E fs s1 = Some (r, s2)"
      "vnode_decref E vn s2 = Some s'"
      using False g assms(1) by (auto simp: getdevice_root_def bind_eq_Some_conv)
    have "fs_live (add_mset vn R) s1 fs" using x by (auto simp: fs_live_def)
    then have k2: "keeps winv (gains r (add_mset vn R)) s1 s2"
      using x(3) k1 Inr by (intro getroot_law) (auto simp: keeps_def)
    have "gains r (add_mset vn R) = add_mset vn (gains r R)" by (cases r) auto
    with k2 x(4) have "keeps winv (gains r R) s2 s'" by (auto simp: keeps_def dest!: decref_result)
    with k1 k2 show ?thesis by (blast intro: keeps_trans)
  qed
qed

lemma getdevice_ok:
  assumes "getdevice E path s = Some (r, s')" "vok winv R s"
  shows "keeps winv (gains (map_sum id snd r) R) s s'"
  using getdevice_cases [OF assms(1)]
proof (elim disjE exE conjE)
  fix e assume "r = Inl e" "s' = s"
  then show ?thesis using assms(2) by (simp add: vokD keeps_refl)
next
  fix p r1 assume r: "r = map_sum id (Pair p) r1"
  have ms: "map_sum id snd (map_sum id (Pair p) r1) = r1"
    by (cases r1) simp_all
  { assume "vfs_getcurdir s = Some (r1, s')"
    then show ?thesis unfolding r ms by (rule getcurdir_ok [OF _ assms(2)]) }
  { assume "getdevice_root E path s = Some (r1, s')"
    then show ?thesis unfolding r ms by (rule getdevice_root_ok [OF _ assms(2)]) }
  { fix d assume "vfs_getroot E d s = Some (r1, s')"
    then show ?thesis unfolding r ms by (rule vfs_getroot_ok [OF _ assms(2)]) }
qed

section \<open>Path operations give and take the references they should\<close>

lemma lookparent_ok:
  assumes "vfs_lookparent E path n s = Some (r, s')" "vok winv R s"
  shows "keeps winv (gains (map_sum id fst r) R) s s'"
proof -
  from assms(1) obtain s1 r1 s2 where
    a: "vfs_biglock_acquire s = Some s1" and g: "getdevice E path s1 = Some (r1, s2)"
    by (auto simp: vfs_lookparent_def bind_eq_Some_conv)
  note v1 = biglock_acquire_vok [OF a assms(2)] and big = vokD(4) [OF assms(2)]
  note k1 = getdevice_ok [OF g v1]
  show ?thesis
  proof (cases r1)
    case (Inl e)
    then have "biglock_return (Inl e) s2 = Some (r, s')" using assms(1) a g by (simp add: vfs_lookparent_def)
    from biglock_return_bracket [OF a k1 this big] Inl show ?thesis by auto
  next
    case (Inr pv)
    obtain sub v where pv: "pv = (sub, v)" by (cases pv)
    from assms(1) a g Inr pv obtain r2 s3 s4 where
      l: "(if length sub = 0 then Some (Inl EINVAL, s2) else VOP_LOOKPARENT E v sub n s2) = Some (r2, s3)"
      and d: "vnode_decref E v s3 = Some s4" and b: "biglock_return r2 s4 = Some (r, s')"
      by (auto simp: vfs_lookparent_def bind_eq_Some_conv)
    have k2: "keeps winv (gains (map_sum id fst r2) (add_mset v R)) s2 s3"
      using k1 Inr pv l by (auto simp: keeps_def [of _ _ s1 s2] keeps_refl lookparent_law split: if_splits)
    have "gains (map_sum id fst r2) (add_mset v R) = add_mset v (gains (map_sum id fst r2) R)"
      by (cases r2) auto
    with k2 d have "keeps winv (gains (map_sum id fst r2) R) s3 s4"
      by (auto simp: keeps_def [of _ _ s2 s3] dest!: decref_result)
    with k1 k2 have "keeps winv (gains (map_sum id fst r2) R) s1 s4" by (blast intro: keeps_trans)
    from biglock_return_bracket [OF a this b big] show ?thesis by simp
  qed
qed

lemma lookup_ok:
  assumes "vfs_lookup E path s = Some (r, s')" "vok winv R s"
  shows "keeps winv (gains r R) s s'"
proof -
  from assms(1) obtain s1 r1 s2 where
    a: "vfs_biglock_acquire s = Some s1" and g: "getdevice E path s1 = Some (r1, s2)"
    by (auto simp: vfs_lookup_def bind_eq_Some_conv)
  note v1 = biglock_acquire_vok [OF a assms(2)] and big = vokD(4) [OF assms(2)]
  note k1 = getdevice_ok [OF g v1]
  show ?thesis
  proof (cases r1)
    case (Inl e)
    then have "biglock_return (Inl e) s2 = Some (r, s')" using assms(1) a g by (simp add: vfs_lookup_def)
    from biglock_return_bracket [OF a k1 this big] Inl show ?thesis by auto
  next
    case (Inr pv)
    obtain sub v where pv: "pv = (sub, v)" by (cases pv)
    show ?thesis
    proof (cases "length sub = 0")
      case True
      then have "biglock_return (Inr v) s2 = Some (r, s')" using assms(1) a g Inr pv by (simp add: vfs_lookup_def)
      from biglock_return_bracket [OF a k1 this big] Inr pv show ?thesis by auto
    next
      case False
      with assms(1) a g Inr pv obtain r2 s3 s4 where
        l: "VOP_LOOKUP E v sub s2 = Some (r2, s3)"
        and d: "vnode_decref E v s3 = Some s4" and b: "biglock_return r2 s4 = Some (r, s')"
        by (auto simp: vfs_lookup_def bind_eq_Some_conv)
      have k2: "keeps winv (gains r2 (add_mset v R)) s2 s3"
        using k1 Inr pv l by (auto simp: keeps_def [of _ _ s1 s2] lookup_law)
      have "gains r2 (add_mset v R) = add_mset v (gains r2 R)" by (cases r2) auto
      with k2 d have "keeps winv (gains r2 R) s3 s4"
        by (auto simp: keeps_def [of _ _ s2 s3] dest!: decref_result)
      with k1 k2 have "keeps winv (gains r2 R) s1 s4" by (blast intro: keeps_trans)
      from biglock_return_bracket [OF a this b big] show ?thesis by simp
    qed
  qed
qed

lemma open_found_ok:
  assumes "open_found E fl cw vn s = Some (r, s')" "winv s" "holds (add_mset vn R) s"
  shows "keeps winv (gains r R) s s' \<and> (\<forall>v. r = Inr v \<longrightarrow> v = vn)"
proof -
  from assms(1) obtain r1 s1 where o: "VOP_EACHOPEN E vn fl s = Some (r1, s1)"
    by (auto simp: open_found_def bind_eq_Some_conv)
  then have k1: "keeps winv (add_mset vn R) s s1" using assms(2,3) by (rule eachopen_law) simp
  show ?thesis
  proof (cases r1)
    case (Inl e)
    with assms(1) o have "vnode_decref E vn s1 = Some s'" "r = Inl e"
      by (auto simp: open_found_def bind_eq_Some_conv)
    with k1 show ?thesis by (auto simp: keeps_def [of _ _ s s1] dest!: decref_result intro: keeps_trans [OF k1])
  next
    case (Inr u)
    show ?thesis
    proof (cases "fl AND O_TRUNC = 0")
      case True
      with assms(1) o Inr k1 show ?thesis by (auto simp: open_found_def)
    next
      case False
      with assms(1) o Inr obtain r2 s2 where
        t: "(if \<not> cw then Some (Inl EINVAL, s1) else VOP_TRUNCATE E vn 0 s1) = Some (r2, s2)"
        and e: "(case r2 of Inl e \<Rightarrow> do { s3 \<leftarrow> vnode_decref E vn s2; Some (Inl e, s3) } | Inr _ \<Rightarrow> Some (Inr vn, s2)) = Some (r, s')"
        by (auto simp: open_found_def bind_eq_Some_conv)
      have k2: "keeps winv (add_mset vn R) s1 s2"
        using t k1 by (auto simp: keeps_def [of _ _ s s1] keeps_refl truncate_law split: if_splits)
      note k12 = keeps_trans [OF k1 k2]
      show ?thesis
      proof (cases r2)
        case (Inl e)
        with e have "vnode_decref E vn s2 = Some s'" "r = Inl e" by (auto simp: bind_eq_Some_conv)
        with k12 show ?thesis by (auto simp: keeps_def [of _ _ s s2] dest!: decref_result intro: keeps_trans [OF k12])
      qed (use e k12 in auto)
    qed
  qed
qed

lemma open_ok:
  assumes "vfs_open E path fl mode s = Some (r, s')" "vok winv R s"
  shows "keeps winv (gains r R) s s'"
proof (cases "fl AND O_ACCMODE \<noteq> O_RDONLY \<and> fl AND O_ACCMODE \<noteq> O_WRONLY \<and> fl AND O_ACCMODE \<noteq> O_RDWR")
  case True
  with assms show ?thesis by (auto simp: vfs_open_def keeps_refl vokD)
next
  case False
  with assms(1) obtain r1 s1 where
    f: "(if fl AND O_CREAT \<noteq> 0 then
           do { (rp, t1) \<leftarrow> vfs_lookparent E path (NAME_MAX + 1) s;
                case rp of
                  Inl e \<Rightarrow> Some (Inl e, t1)
                | Inr (dir, name) \<Rightarrow>
                    do { (rc, t2) \<leftarrow> VOP_CREAT E dir name (fl AND O_EXCL \<noteq> 0) mode t1;
                         t3 \<leftarrow> vnode_decref E dir t2;
                         Some (rc, t3) } }
         else vfs_lookup E path s) = Some (r1, s1)"
    and rest: "(case r1 of Inl e \<Rightarrow> Some (Inl e, s1)
      | Inr vn \<Rightarrow> open_found E fl (fl AND O_ACCMODE \<noteq> O_RDONLY) vn s1) = Some (r, s')"
    unfolding vfs_open_def Let_def by (simp only: if_False bind_eq_Some_conv) force
  have k1: "keeps winv (gains r1 R) s s1"
  proof (cases "fl AND O_CREAT = 0")
    case True
    with f show ?thesis using lookup_ok [OF _ assms(2)] by simp
  next
    case False
    with f obtain rp t1 where l: "vfs_lookparent E path (NAME_MAX + 1) s = Some (rp, t1)"
      by (auto simp: bind_eq_Some_conv)
    note k = lookparent_ok [OF l assms(2)]
    show ?thesis
    proof (cases rp)
      case (Inl e)
      with False f l k show ?thesis by auto
    next
      case (Inr dn)
      obtain dir name where dn: "dn = (dir, name)" by (cases dn)
      with False f l Inr obtain t2 where c: "VOP_CREAT E dir name (fl AND O_EXCL \<noteq> 0) mode t1 = Some (r1, t2)"
        and d: "vnode_decref E dir t2 = Some s1" by (auto simp: bind_eq_Some_conv)
      have k2: "keeps winv (gains r1 (add_mset dir R)) t1 t2"
        using k Inr dn c by (auto simp: keeps_def [of _ _ s t1] creat_law)
      have "gains r1 (add_mset dir R) = add_mset dir (gains r1 R)" by (cases r1) auto
      with k2 d have "keeps winv (gains r1 R) t2 s1"
        by (auto simp: keeps_def [of _ _ t1 t2] dest!: decref_result)
      with k k2 show ?thesis by (blast intro: keeps_trans)
    qed
  qed
  show ?thesis
  proof (cases r1)
    case (Inl e)
    with rest k1 show ?thesis by auto
  next
    case (Inr vn)
    with k1 rest open_found_ok [of fl _ vn s1 r s' R] show ?thesis
      by (auto simp: keeps_def [of _ _ s s1] intro: keeps_trans [OF k1])
  qed
qed

lemma close_ok:
  "winv s \<Longrightarrow> holds (add_mset v R) s \<Longrightarrow> \<exists>s'. vfs_close E v s = Some s' \<and> keeps winv R s s'"
  by (simp add: vfs_close_def decref_ok)

end

section \<open>The kernel's devices keep the contract\<close>

text \<open>A system whose vnodes are all device vnodes, of null: and con:, with nothing mounted.\<close>

definition dev_inv :: "'f kern \<Rightarrow> bool" where
  "dev_inv s \<longleftrightarrow> array_ok (knowndevs s) \<and>
     (\<forall>v vn. k_vn s v = Some vn \<longrightarrow> vn_fs vn = None \<and> (vn_ops vn = None \<or> vn_ops vn = Some Dev_vnode_ops)) \<and>
     (\<forall>d dev. k_dev s d = Some dev \<longrightarrow> d_ops dev = Null_devops \<or> d_ops dev = Console_devops) \<and>
     (\<forall>kd\<in>set (array_elems (knowndevs s)). \<forall>fs. kd_fs kd \<noteq> Fs_at fs)"

definition dev_frame :: "'f kern \<Rightarrow> 'f kern \<Rightarrow> bool" where
  "dev_frame s s' \<longleftrightarrow> k_vn s' = k_vn s \<and> k_dev s' = k_dev s \<and> vfs_same s s'"

lemma dev_frame_refl [simp]: "dev_frame s s"
  by (simp add: dev_frame_def)

lemma dev_frame_trans: "dev_frame s t \<Longrightarrow> dev_frame t u \<Longrightarrow> dev_frame s u"
  by (auto simp: dev_frame_def intro: vfs_same_trans)

lemma dev_frame_keeps: "dev_frame s s' \<Longrightarrow> dev_inv s \<Longrightarrow> holds R s \<Longrightarrow> keeps dev_inv R s s'"
  by (auto simp: dev_frame_def keeps_def dev_inv_def holds_def vfs_same_def)

lemma dev_frame_upd [simp]:
  "dev_frame s (s\<lparr>k_mach := m\<rparr>)" "dev_frame s (s\<lparr>the_console := c\<rparr>)" "dev_frame s (s\<lparr>delayed_outbuf := b\<rparr>)"
  "dev_frame s (s\<lparr>the_console := c, con_keys := k\<rparr>)"
  "dev_frame s (s\<lparr>con_userlock_read := l\<rparr>)" "dev_frame s (s\<lparr>con_userlock_write := l\<rparr>)"
  by (simp_all add: dev_frame_def vfs_same_def)

lemma putch_frame: "putch ch s = Some s' \<Longrightarrow> dev_frame s s'"
  by (auto simp: putch_def putch_delayed_def kassert_def split: option.splits if_splits)

lemma getch_frame: "getch s = Some (ch, s') \<Longrightarrow> dev_frame s s'"
  by (auto simp: getch_def bind_eq_Some_conv kassert_def split: if_splits)

lemma k_store_frame: "k_store a b s = Some s' \<Longrightarrow> dev_frame s s'"
  by (auto simp: k_store_def bind_eq_Some_conv)

lemma k_uiomove_frame: "k_uiomove ptr n u s = Some (r, u', s') \<Longrightarrow> dev_frame s s'"
  by (auto simp: k_uiomove_def bind_eq_Some_conv)

lemmas con_frames = putch_frame getch_frame k_store_frame k_uiomove_frame

lemma con_io_loop_frame: "con_io_loop u s = Some (r, u', s') \<Longrightarrow> dev_frame s s'"
proof (induction u s rule: con_io_loop.induct)
  case (1 u s)
  show ?case
  proof (cases "0 < uio_resid u")
    case False
    with 1(3) show ?thesis by (simp add: con_io_loop.simps [of u s])
  next
    case res: True
    show ?thesis
    proof (cases "uio_rw u = UIO_READ")
      case True
      with res 1(3) obtain c s1 s2 r3 u3 s3 where
        g: "getch s = Some (c, s1)" "k_store (con_ch s1) (if c = 13 then 10 else c) s1 = Some s2"
        "k_uiomove (con_ch s2) 1 u s2 = Some (r3, u3, s3)"
        and e: "(case r3 of Inl e \<Rightarrow> Some (Inl e, u3, s3)
          | Inr _ \<Rightarrow> if (if c = 13 then 10 else c) = 10 then Some (Inr (), u3, s3) else con_io_loop u3 s3) = Some (r, u', s')"
        by (subst (asm) con_io_loop.simps) (auto simp: bind_eq_Some_conv Let_def)
      from g have f: "dev_frame s s3" by (blast intro: dev_frame_trans dest: con_frames)
      have "con_io_loop u3 s3 = Some (r, u', s') \<Longrightarrow> r3 = Inr () \<Longrightarrow> (if c = 13 then 10 else c) \<noteq> 10 \<Longrightarrow> dev_frame s3 s'"
        by (rule 1(1) [OF res True g(1) refl refl g(2) g(3) refl refl]) auto
      with e f show ?thesis by (auto split: sum.splits if_splits intro: dev_frame_trans)
    next
      case False
      with res 1(3) obtain r3 u3 s1 where
        g: "k_uiomove (con_ch s) 1 u s = Some (r3, u3, s1)"
        and e: "(case r3 of Inl e \<Rightarrow> Some (Inl e, u3, s1)
          | Inr _ \<Rightarrow> do { ch \<leftarrow> k_load (con_ch s1) s1; s2 \<leftarrow> (if ch = 10 then putch 13 s1 else Some s1);
                         s3 \<leftarrow> putch ch s2; con_io_loop u3 s3 }) = Some (r, u', s')"
        by (subst (asm) con_io_loop.simps) (auto simp: bind_eq_Some_conv)
      show ?thesis
      proof (cases r3)
        case (Inl x)
        with e g show ?thesis by (auto dest: con_frames)
      next
        case (Inr x)
        with e obtain ch s2 s3 where p: "k_load (con_ch s1) s1 = Some ch"
          "(if ch = 10 then putch 13 s1 else Some s1) = Some s2" "putch ch s2 = Some s3"
          "con_io_loop u3 s3 = Some (r, u', s')" by (auto simp: bind_eq_Some_conv)
        have "dev_frame s1 s2" using p(2) by (auto dest: con_frames split: if_splits)
        moreover have "dev_frame s3 s'"
          by (rule 1(2) [OF res False g refl refl Inr p(1) p(2) p(3) p(4)])
        ultimately show ?thesis using g p(3) by (blast intro: dev_frame_trans dest: con_frames)
      qed
    qed
  qed
qed

lemma con_set_lock_frame [simp]: "dev_frame s (con_set_lock rw h s)"
  by (simp add: con_set_lock_def)

lemma con_io_frame: "con_io d u s = Some (r, u', s') \<Longrightarrow> dev_frame s s'"
  by (auto simp: con_io_def bind_eq_Some_conv
      intro: dev_frame_trans [OF con_set_lock_frame dev_frame_trans [OF _ con_set_lock_frame]]
      dest: con_io_loop_frame)

text \<open>In such a system every checked vnode has the device operations.\<close>

lemma dev_inv_vn:
  "dev_inv s \<Longrightarrow> k_vn s v = Some vn \<Longrightarrow> vn_fs vn = None \<and> (vn_ops vn = None \<or> vn_ops vn = Some Dev_vnode_ops)"
  unfolding dev_inv_def by blast

lemma dev_inv_ops: "dev_inv s \<Longrightarrow> vnode_check v s = Some ops \<Longrightarrow> ops = Dev_vnode_ops"
  by (auto simp: vnode_check_def bind_eq_Some_conv kassert_def dest: dev_inv_vn split: if_splits)

lemma dev_vop:
  assumes "dev_inv s" "do { ops \<leftarrow> vnode_check v s; f (vops E ops) } = Some x"
  shows "f (dev_vnode_ops E) = Some x"
  using assms by (auto simp: bind_eq_Some_conv vops_def dest: dev_inv_ops)

lemma dev_gettype_same: "VOP_GETTYPE E v s = Some (r, s') \<Longrightarrow> dev_inv s \<Longrightarrow> s' = s"
  using dev_vop [of s v "\<lambda>t. vop_gettype t v s" E]
  by (auto simp: VOP_GETTYPE_table dev_gettype_def bind_eq_Some_conv dev_vnode_ops_def)

lemma dev_inv_devops:
  "dev_inv s \<Longrightarrow> k_dev s d = Some dev \<Longrightarrow> dops E (d_ops dev) = null_devops \<or> dops E (d_ops dev) = console_devops"
proof -
  assume "dev_inv s" "k_dev s d = Some dev"
  then have "d_ops dev = Null_devops \<or> d_ops dev = Console_devops" unfolding dev_inv_def by blast
  then show ?thesis by (auto simp: dops_def)
qed

lemma DEVOP_IO_frame: "DEVOP_IO E d u s = Some (r, u', s') \<Longrightarrow> dev_inv s \<Longrightarrow> dev_frame s s'"
  by (auto simp: DEVOP_IO_def bind_eq_Some_conv null_devops_def console_devops_def nullio_def
      dest!: dev_inv_devops [where E = E] dest: con_io_frame)

lemma DEVOP_EACHOPEN_frame: "DEVOP_EACHOPEN E d fl s = Some (r, s') \<Longrightarrow> dev_inv s \<Longrightarrow> dev_frame s s'"
  by (auto simp: DEVOP_EACHOPEN_def bind_eq_Some_conv null_devops_def console_devops_def nullopen_def con_eachopen_def
      dest!: dev_inv_devops [where E = E])

lemma dev_read_frame: "dev_read E v u s = Some (r, u', s') \<Longrightarrow> dev_inv s \<Longrightarrow> dev_frame s s'"
  by (auto simp: dev_read_def elim!: bindE dest: DEVOP_IO_frame split: sum.split_asm)

lemma dev_write_frame: "dev_write E v u s = Some (r, u', s') \<Longrightarrow> dev_inv s \<Longrightarrow> dev_frame s s'"
  by (auto simp: dev_write_def elim!: bindE dest: DEVOP_IO_frame split: sum.split_asm)

lemma dev_incref_keeps:
  assumes "vnode_incref v s = Some s'" "dev_inv s" "holds R s" "v \<in># R"
  shows "keeps dev_inv (add_mset v R) s s'"
proof -
  from holdsD [OF assms(3,4)] obtain vn ops where
    vn: "k_vn s v = Some vn" "vn_ops vn = Some ops" "int (count R v) \<le> vn_refcount vn" "0 < vn_refcount vn" .
  then have s': "s' = s\<lparr>k_vn := (k_vn s)(v \<mapsto> vn\<lparr>vn_refcount := vn_refcount vn + 1\<rparr>)\<rparr>"
    using assms(1) by (simp add: vnode_incref_def)
  have "holds (add_mset v R) s'" unfolding s' using assms(3) vn by (auto simp: holds_def)
  moreover have "dev_inv s'" unfolding s' using assms(2) dev_inv_vn [OF assms(2) vn(1)] by (auto simp: dev_inv_def)
  ultimately show ?thesis by (simp add: keeps_def s')
qed

interpretation devs: vnode_layer E dev_inv for E
proof
  fix s :: "'a kern" and a d c b
  show "dev_inv (s\<lparr>vfs_biglock := a\<rparr>) = dev_inv s" "dev_inv (s\<lparr>vfs_biglock_depth := d\<rparr>) = dev_inv s"
    "dev_inv (s\<lparr>p_cwd := c\<rparr>) = dev_inv s" "dev_inv (s\<lparr>bootfs_vnode := b\<rparr>) = dev_inv s"
    by (simp_all add: dev_inv_def)
next
  fix s :: "'a kern" and kn
  show "dev_inv (s\<lparr>km_n := kn\<rparr>) = dev_inv s" by (simp add: dev_inv_def)
next
  fix s :: "'a kern" and km
  show "dev_inv (s\<lparr>k_mach := km\<rparr>) = dev_inv s" by (simp add: dev_inv_def)
next
  fix s :: "'a kern" and cp ct
  show "dev_inv (s\<lparr>curproc := cp, curthread := ct\<rparr>) = dev_inv s" by (simp add: dev_inv_def)
next
  fix s :: "'a kern" and pa
  show "dev_inv (s\<lparr>p_addrspace := pa\<rparr>) = dev_inv s" by (simp add: dev_inv_def)
next
  fix s :: "'a kern" assume "dev_inv s"
  then show "array_ok (knowndevs s)" by (simp add: dev_inv_def)
next
  fix s :: "'a kern" and v vn n
  assume "dev_inv s" "k_vn s v = Some vn"
  then show "dev_inv (s\<lparr>k_vn := (k_vn s)(v \<mapsto> vn\<lparr>vn_refcount := n\<rparr>)\<rparr>)"
    using dev_inv_vn [of s v vn] by (auto simp: dev_inv_def)
next
  fix s :: "'a kern" and v R
  assume inv: "dev_inv s" and h: "holds (add_mset v R) s"
  from vnode_check_holds [OF h, of v] obtain ops where c: "vnode_check v s = Some ops" by auto
  with dev_inv_ops [OF inv c] have "VOP_RECLAIM E v s = Some (Inr (), s)"
    by (simp add: VOP_RECLAIM_def dev_reclaim_def)
  moreover have "holds R s" using h by (rule holds_mono) simp
  ultimately show "\<exists>r s'. VOP_RECLAIM E v s = Some (r, s') \<and> keeps dev_inv R s s'"
    using inv keeps_refl by blast
next
  fix v fl and s s' :: "'a kern" and r R
  assume a: "VOP_EACHOPEN E v fl s = Some (r, s')" "dev_inv s" "holds R s"
  have "dev_eachopen E v fl s = Some (r, s')"
    using dev_vop [OF a(2), of v "\<lambda>t. vop_eachopen t v fl s"] a(1) by (simp add: VOP_EACHOPEN_def dev_vnode_ops_def)
  then have "dev_frame s s'" using a(2)
    by (auto simp: dev_eachopen_def bind_eq_Some_conv split: if_splits dest: DEVOP_EACHOPEN_frame)
  then show "keeps dev_inv R s s'" using a(2,3) by (rule dev_frame_keeps)
next
  fix v and s s' :: "'a kern" and rt R
  assume "VOP_GETTYPE E v s = Some (rt, s')" "dev_inv s" "holds R s"
  then show "keeps dev_inv R s s'" using dev_gettype_same keeps_refl by blast
next
  fix v and s s' :: "'a kern" and rs R
  assume a: "VOP_STAT E v s = Some (rs, s')" "dev_inv s" "holds R s"
  have "dev_stat E v s = Some (rs, s')"
    using dev_vop [OF a(2), of v "\<lambda>t. vop_stat t v s"] a(1) by (simp add: VOP_STAT_def dev_vnode_ops_def)
  then have "s' = s" using a(2)
    by (auto simp: dev_stat_def Let_def elim!: bindE dest: dev_gettype_same split: sum.split_asm)
  then show "keeps dev_inv R s s'" using a(2,3) by (simp add: keeps_refl)
next
  fix v len and s s' :: "'a kern" and r R
  assume a: "VOP_TRUNCATE E v len s = Some (r, s')" "dev_inv s" "holds R s"
  have "dev_truncate v len s = Some (r, s')"
    using dev_vop [OF a(2), of v "\<lambda>t. vop_truncate t v len s"] a(1) by (simp add: VOP_TRUNCATE_def dev_vnode_ops_def)
  then show "keeps dev_inv R s s'" using a(2,3) by (auto simp: dev_truncate_def bind_eq_Some_conv keeps_refl)
next
  fix v and s s' :: "'a kern" and b' R
  assume a: "VOP_ISSEEKABLE E v s = Some (b', s')" "dev_inv s" "holds R s"
  have "dev_isseekable v s = Some (b', s')"
    using dev_vop [OF a(2), of v "\<lambda>t. vop_isseekable t v s"] a(1) by (simp add: VOP_ISSEEKABLE_def dev_vnode_ops_def)
  then show "keeps dev_inv R s s'" using a(2,3) by (auto simp: dev_isseekable_def bind_eq_Some_conv keeps_refl)
next
  fix v u and s s' :: "'a kern" and r u' R
  assume a: "VOP_READ E v u s = Some (r, u', s')" "dev_inv s" "holds R s"
  have "dev_read E v u s = Some (r, u', s')"
    using dev_vop [OF a(2), of v "\<lambda>t. vop_read t v u s"] a(1) by (simp add: VOP_READ_def dev_vnode_ops_def)
  then have "dev_frame s s'" using a(2) by (rule dev_read_frame)
  then show "keeps dev_inv R s s'" using a(2,3) by (rule dev_frame_keeps)
next
  fix v u and s s' :: "'a kern" and r u' R
  assume a: "VOP_WRITE E v u s = Some (r, u', s')" "dev_inv s" "holds R s"
  have "dev_write E v u s = Some (r, u', s')"
    using dev_vop [OF a(2), of v "\<lambda>t. vop_write t v u s"] a(1) by (simp add: VOP_WRITE_def dev_vnode_ops_def)
  then have "dev_frame s s'" using a(2) by (rule dev_write_frame)
  then show "keeps dev_inv R s s'" using a(2,3) by (rule dev_frame_keeps)
next
  fix v path and s s' :: "'a kern" and rv R
  assume a: "VOP_LOOKUP E v path s = Some (rv, s')" "dev_inv s" "holds R s" "v \<in># R"
  have "dev_lookup v path s = Some (rv, s')"
    using dev_vop [OF a(2), of v "\<lambda>t. vop_lookup t v path s"] a(1) by (simp add: VOP_LOOKUP_def dev_vnode_ops_def)
  then show "keeps dev_inv (gains rv R) s s'" using a(2-4)
    by (auto simp: dev_lookup_def bind_eq_Some_conv keeps_refl split: if_splits intro: dev_incref_keeps)
next
  fix v path n' and s s' :: "'a kern" and rp R
  assume a: "VOP_LOOKPARENT E v path n' s = Some (rp, s')" "dev_inv s" "holds R s"
  have "Some (Inl ENOTDIR, s) = Some (rp, s')"
    using dev_vop [OF a(2), of v "\<lambda>t. vop_lookparent t v path n' s"] a(1)
    by (simp add: VOP_LOOKPARENT_def dev_vnode_ops_def vopfail_defs)
  then show "keeps dev_inv (gains (map_sum id fst rp) R) s s'" using a(2,3) by (auto simp: keeps_refl)
next
  fix v name excl mode and s s' :: "'a kern" and rv R
  assume a: "VOP_CREAT E v name excl mode s = Some (rv, s')" "dev_inv s" "holds R s"
  have "Some (Inl ENOTDIR, s) = Some (rv, s')"
    using dev_vop [OF a(2), of v "\<lambda>t. vop_creat t v name excl mode s"] a(1)
    by (simp add: VOP_CREAT_def dev_vnode_ops_def vopfail_defs)
  then show "keeps dev_inv (gains rv R) s s'" using a(2,3) by (auto simp: keeps_refl)
next
  fix fs and s s' :: "'a kern" and rv R
  assume "dev_inv s" "fs_live R s fs"
  then have False by (auto simp: dev_inv_def fs_live_def)
  then show "keeps dev_inv (gains rv R) s s'" ..
qed

end
