(* ===== verification/File.thy ===== *)
theory File
  imports Vfs_Refs
begin

text \<open>
  kern/syscall/file.c and file_syscalls.c: the system-wide open file table, the descriptor table
  of each process, and the file system calls open, read, write, close, dup2 and lseek. The state
  is the VFS side of the kernel together with the two kinds of table. Descriptor and table
  indices are C ints, an offset is a signed 64-bit word, and the count a read or write reports is
  the low 32 bits of a difference of offsets.
\<close>

section \<open>State\<close>

record open_file =
  of_vn :: vref
  of_am :: u32
  of_rc :: int
  of_os :: u64

text \<open>
  \<open>oft_l\<close> is the table's lock, a pointer that is not set if its creation failed; \<open>openfiles\<close>
  has the \<^verbatim>\<open>OPEN_MAX\<close> pointers to open files. An array whose memory is not initialised, or that
  has been freed, is the empty list: no access to it is good.
\<close>

record file_table =
  oft_l :: "tid option option"
  openfiles :: "open_file option list"

record 'f fstate =
  fs_w :: "'f kern"
  of_t :: "file_table option"
  fd_t :: "procid \<Rightarrow> int list option"

section \<open>Access to the tables\<close>

abbreviation cur :: "'f fstate \<Rightarrow> procid" where "cur s \<equiv> curproc (fs_w s)"
abbreviation thr :: "'f fstate \<Rightarrow> tid" where "thr s \<equiv> curthread (fs_w s)"

definition FILE_CLOSED :: int where "FILE_CLOSED = -1"

definition oft_acquire :: "'f fstate \<Rightarrow> 'f fstate option" where
  "oft_acquire s = do { t \<leftarrow> of_t s; lk \<leftarrow> oft_l t; h \<leftarrow> lock_acquire (thr s) lk;
                        Some (s\<lparr>of_t := Some (t\<lparr>oft_l := Some h\<rparr>)\<rparr>) }"

definition oft_release :: "'f fstate \<Rightarrow> 'f fstate option" where
  "oft_release s = do { t \<leftarrow> of_t s; lk \<leftarrow> oft_l t; h \<leftarrow> lock_release (thr s) lk;
                        Some (s\<lparr>of_t := Some (t\<lparr>oft_l := Some h\<rparr>)\<rparr>) }"

definition oft_held :: "'f fstate \<Rightarrow> bool option" where
  "oft_held s = do { t \<leftarrow> of_t s; lk \<leftarrow> oft_l t; Some (lock_do_i_hold (thr s) lk) }"

definition fd_entry :: "int \<Rightarrow> 'f fstate \<Rightarrow> int option" where
  "fd_entry fd s = do { tab \<leftarrow> fd_t s (cur s); kassert (0 \<le> fd \<and> nat fd < length tab); Some (tab ! nat fd) }"

definition set_fd_entry :: "int \<Rightarrow> int \<Rightarrow> 'f fstate \<Rightarrow> 'f fstate option" where
  "set_fd_entry fd x s =
     do { tab \<leftarrow> fd_t s (cur s); kassert (0 \<le> fd \<and> nat fd < length tab);
          Some (s\<lparr>fd_t := (fd_t s)(cur s \<mapsto> tab[nat fd := x])\<rparr>) }"

definition openfile :: "int \<Rightarrow> 'f fstate \<Rightarrow> open_file option option" where
  "openfile i s = do { t \<leftarrow> of_t s; kassert (0 \<le> i \<and> nat i < length (openfiles t)); Some (openfiles t ! nat i) }"

definition set_openfile :: "int \<Rightarrow> open_file option \<Rightarrow> 'f fstate \<Rightarrow> 'f fstate option" where
  "set_openfile i x s =
     do { t \<leftarrow> of_t s; kassert (0 \<le> i \<and> nat i < length (openfiles t));
          Some (s\<lparr>of_t := Some (t\<lparr>openfiles := (openfiles t)[nat i := x]\<rparr>)\<rparr>) }"

text \<open>Calls into the VFS side of the state.\<close>

definition on_w :: "('f kern \<Rightarrow> ('a \<times> 'f kern) option) \<Rightarrow> 'f fstate \<Rightarrow> ('a \<times> 'f fstate) option" where
  "on_w f s = do { (r, w) \<leftarrow> f (fs_w s); Some (r, s\<lparr>fs_w := w\<rparr>) }"

definition on_w_close :: "('f kern) kenv \<Rightarrow> vref \<Rightarrow> 'f fstate \<Rightarrow> 'f fstate option" where
  "on_w_close E vn s = do { w \<leftarrow> vfs_close E vn (fs_w s); Some (s\<lparr>fs_w := w\<rparr>) }"

definition f_kmalloc :: "'f fstate \<Rightarrow> bool \<times> 'f fstate" where
  "f_kmalloc s = (case kmalloc (fs_w s) of (ok, w) \<Rightarrow> (ok, s\<lparr>fs_w := w\<rparr>))"

text \<open>\<^verbatim>\<open>lock_release(of_t->oft_l); return r;\<close>\<close>

definition oft_return :: "errno + 'a \<Rightarrow> ('f fstate, 'a) kfun" where
  "oft_return r s = do { s' \<leftarrow> oft_release s; Some (r, s') }"

section \<open>Open files (file.c)\<close>

definition file_open :: "('f kern) kenv \<Rightarrow> string \<Rightarrow> u32 \<Rightarrow> u32 \<Rightarrow> ('f fstate, int) kfun" where
  "file_open E filename flags mode s =
     do { (r, s1) \<leftarrow> on_w (vfs_open E filename flags mode) s;
          case r of
            Inl e \<Rightarrow> Some (Inl e, s1)
          | Inr vn \<Rightarrow>
              do { s2 \<leftarrow> oft_acquire s1;
                   tab \<leftarrow> fd_t s2 (cur s2);
                   t \<leftarrow> of_t s2;
                   kassert (length tab = OPEN_MAX \<and> length (openfiles t) = OPEN_MAX);
                   case (first_index (\<lambda>x. x = FILE_CLOSED) tab, first_index (\<lambda>x. x = None) (openfiles t)) of
                     (Some fd, Some oi) \<Rightarrow>
                       (case f_kmalloc s2 of
                          (False, s3) \<Rightarrow> do { s4 \<leftarrow> on_w_close E vn s3; oft_return (Inl ENOMEM) s4 }
                        | (True, s3) \<Rightarrow>
                            do { s4 \<leftarrow> set_fd_entry (int fd) (int oi) s3;
                                 s5 \<leftarrow> set_openfile (int oi)
                                        (Some \<lparr>of_vn = vn, of_am = flags, of_rc = 1, of_os = 0\<rparr>) s4;
                                 oft_return (Inr (int fd)) s5 })
                   | _ \<Rightarrow> do { s3 \<leftarrow> on_w_close E vn s2; oft_return (Inl EMFILE) s3 } } }"

text \<open>
  \<^verbatim>\<open>file_read\<close> and \<^verbatim>\<open>file_write\<close> are the same but for the direction and the access mode that is
  refused.
\<close>

definition file_rw ::
    "('f kern) kenv \<Rightarrow> uio_rw \<Rightarrow> int \<Rightarrow> vaddr \<Rightarrow> u32 \<Rightarrow> ('f fstate, u32) kfun" where
  "file_rw E rw fd buf n s =
     do { of_entry \<leftarrow> fd_entry fd s;
          if of_entry < 0 \<or> of_entry \<ge> int OPEN_MAX then Some (Inl EBADF, s)
          else
            do { s1 \<leftarrow> oft_acquire s;
                 ofp \<leftarrow> openfile of_entry s1;
                 case ofp of
                   None \<Rightarrow> oft_return (Inl EBADF) s1
                 | Some f \<Rightarrow>
                     if of_am f AND O_ACCMODE = (if rw = UIO_READ then O_WRONLY else O_RDONLY)
                     then oft_return (Inl EBADF) s1
                     else
                       do { let u = uio_uinit (proc_getas (fs_w s1)) buf n (of_os f) rw;
                            (r, u', w) \<leftarrow> (if rw = UIO_READ then VOP_READ E (of_vn f) u (fs_w s1)
                                          else VOP_WRITE E (of_vn f) u (fs_w s1));
                            let s2 = s1\<lparr>fs_w := w\<rparr>;
                            case r of
                              Inl e \<Rightarrow> oft_return (Inl e) s2
                            | Inr _ \<Rightarrow>
                                do { s3 \<leftarrow> set_openfile of_entry (Some (f\<lparr>of_os := uio_offset u'\<rparr>)) s2;
                                     oft_return (Inr (ucast (uio_offset u' - of_os f))) s3 } } } }"

definition file_read :: "('f kern) kenv \<Rightarrow> int \<Rightarrow> vaddr \<Rightarrow> u32 \<Rightarrow> ('f fstate, u32) kfun" where
  "file_read E fd buf buflen s = file_rw E UIO_READ fd buf buflen s"

definition file_write :: "('f kern) kenv \<Rightarrow> int \<Rightarrow> vaddr \<Rightarrow> u32 \<Rightarrow> ('f fstate, u32) kfun" where
  "file_write E fd buf nbytes s = file_rw E UIO_WRITE fd buf nbytes s"

text \<open>
  \<^verbatim>\<open>file_close\<close> takes the lock unless the caller has it, and gives back what it took; on the path
  where the slot is empty it gives the lock back in any case.
\<close>

definition file_close :: "('f kern) kenv \<Rightarrow> int \<Rightarrow> ('f fstate, unit) kfun" where
  "file_close E fd s =
     (if fd < 0 \<or> fd \<ge> int OPEN_MAX then Some (Inl EBADF, s)
      else
        do { of_entry \<leftarrow> fd_entry fd s;
             if of_entry < 0 \<or> of_entry \<ge> int OPEN_MAX then Some (Inl EBADF, s)
             else
               do { sysCalled \<leftarrow> oft_held s;
                    s1 \<leftarrow> (if sysCalled then Some s else oft_acquire s);
                    ofp \<leftarrow> openfile of_entry s1;
                    case ofp of
                      None \<Rightarrow> oft_return (Inl EBADF) s1
                    | Some f \<Rightarrow>
                        do { s2 \<leftarrow> set_fd_entry fd FILE_CLOSED s1;
                             s3 \<leftarrow> (if of_rc f = 1
                                   then do { s' \<leftarrow> on_w_close E (of_vn f) s2; set_openfile of_entry None s' }
                                   else set_openfile of_entry (Some (f\<lparr>of_rc := of_rc f - 1\<rparr>)) s2);
                             if sysCalled then Some (Inr (), s3) else oft_return (Inr ()) s3 } } })"

text \<open>
  The loop of \<^verbatim>\<open>file_table_destroy\<close> runs to \<^verbatim>\<open>PID_MAX\<close>, past the end of the descriptor table;
  \<open>oob\<close> is what lies there in memory.
\<close>

fun table_destroy_loop :: "('f kern) kenv \<Rightarrow> (nat \<Rightarrow> int) \<Rightarrow> nat list \<Rightarrow> 'f fstate \<Rightarrow> 'f fstate option" where
  "table_destroy_loop E oob [] s = Some s"
| "table_destroy_loop E oob (i # is) s =
     do { tab \<leftarrow> fd_t s (cur s);
          if (if i < length tab then tab ! i else oob i) \<noteq> FILE_CLOSED
          then do { (r, s') \<leftarrow> file_close E (int i) s; table_destroy_loop E oob is s' }
          else table_destroy_loop E oob is s }"

definition file_table_destroy :: "('f kern) kenv \<Rightarrow> (nat \<Rightarrow> int) \<Rightarrow> 'f fstate \<Rightarrow> 'f fstate option" where
  "file_table_destroy E oob s = table_destroy_loop E oob [0..<PID_MAX] s"

definition open_file_table_destroy :: "'f fstate \<Rightarrow> 'f fstate" where
  "open_file_table_destroy s =
     (case of_t s of None \<Rightarrow> s | Some t \<Rightarrow> s\<lparr>of_t := Some \<lparr>oft_l = None, openfiles = []\<rparr>\<rparr>)"

text \<open>\<^verbatim>\<open>lock_create\<close> allocates the lock, its name and its wait channel.\<close>

definition lock_create :: "'f fstate \<Rightarrow> tid option option \<times> 'f fstate" where
  "lock_create s =
     (case f_kmalloc s of
        (False, s1) \<Rightarrow> (None, s1)
      | (True, s1) \<Rightarrow>
          (case f_kmalloc s1 of
             (False, s2) \<Rightarrow> (None, s2)
           | (True, s2) \<Rightarrow> (case f_kmalloc s2 of (ok, s3) \<Rightarrow> (if ok then Some None else None, s3))))"

text \<open>The first part of \<^verbatim>\<open>file_table_init\<close>: the open file table, unless it exists.\<close>

definition oft_create :: "('f fstate, unit) kfun" where
  "oft_create s =
     (if of_t s \<noteq> None then Some (Inr (), s)
      else
        case f_kmalloc s of
          (False, s1) \<Rightarrow> Some (Inl ENOMEM, s1)
        | (True, s1) \<Rightarrow>
            (case lock_create (s1\<lparr>of_t := Some \<lparr>oft_l = None, openfiles = []\<rparr>\<rparr>) of
               (None, s2) \<Rightarrow> Some (Inl ENOMEM, s2)
             | (Some lk, s2) \<Rightarrow>
                 Some (Inr (), s2\<lparr>of_t := Some \<lparr>oft_l = Some lk, openfiles = replicate OPEN_MAX None\<rparr>\<rparr>)))"

text \<open>The three standard descriptors; the table is freed if one cannot be opened.\<close>

fun open_std :: "('f kern) kenv \<Rightarrow> (string \<times> u32) list \<Rightarrow> ('f fstate, unit) kfun" where
  "open_std E [] s = Some (Inr (), s)"
| "open_std E ((path, flags) # rest) s =
     do { (r, s1) \<leftarrow> file_open E path flags 0 s;
          case r of
            Inl e \<Rightarrow> Some (Inl e, s1\<lparr>fd_t := (fd_t s1)(cur s1 \<mapsto> [])\<rparr>)
          | Inr fd \<Rightarrow> open_std E rest s1 }"

definition file_table_init ::
    "('f kern) kenv \<Rightarrow> string \<Rightarrow> string \<Rightarrow> string \<Rightarrow> ('f fstate, unit) kfun" where
  "file_table_init E stdin_path stdout_path stderr_path s =
     do { (r, s1) \<leftarrow> oft_create s;
          case r of
            Inl e \<Rightarrow> Some (Inl e, s1)
          | Inr _ \<Rightarrow>
              (case f_kmalloc s1 of
                 (False, s2) \<Rightarrow> Some (Inl ENOMEM, s2\<lparr>fd_t := (fd_t s2)(cur s2 := None)\<rparr>)
               | (True, s2) \<Rightarrow>
                   open_std E [(stdin_path, O_RDONLY), (stdout_path, O_WRONLY), (stderr_path, O_WRONLY)]
                     (s2\<lparr>fd_t := (fd_t s2)(cur s2 \<mapsto> replicate OPEN_MAX FILE_CLOSED)\<rparr>)) }"

section \<open>File system calls (file_syscalls.c)\<close>

text \<open>A NUL-terminated string of at most \<open>n\<close> bytes in memory.\<close>

fun mem_string :: "nat \<Rightarrow> vaddr \<Rightarrow> mem \<Rightarrow> string option" where
  "mem_string 0 a m = None"
| "mem_string (Suc n) a m =
     (case m a of
        None \<Rightarrow> None
      | Some b \<Rightarrow> if b = 0 then Some [] else map_option ((#) (char_of (unat b))) (mem_string n (a + 1) m))"

text \<open>\<^verbatim>\<open>sys_open\<close>; \<open>fn\<close> is the address of its buffer for the file name.\<close>

definition sys_open :: "('f kern) kenv \<Rightarrow> vaddr \<Rightarrow> vaddr \<Rightarrow> u32 \<Rightarrow> u32 \<Rightarrow> ('f fstate, int) kfun" where
  "sys_open E fn filename flags mode s =
     (case copyinstr filename fn (of_nat PATH_MAX) (k_mach (fs_w s)) of
        (Inl e, m) \<Rightarrow> Some (Inl e, s\<lparr>fs_w := (fs_w s)\<lparr>k_mach := m\<rparr>\<rparr>)
      | (Inr got, m) \<Rightarrow>
          do { path \<leftarrow> mem_string PATH_MAX fn (mem m);
               file_open E path flags mode (s\<lparr>fs_w := (fs_w s)\<lparr>k_mach := m\<rparr>\<rparr>) })"

definition sys_write :: "('f kern) kenv \<Rightarrow> int \<Rightarrow> vaddr \<Rightarrow> u32 \<Rightarrow> ('f fstate, u32) kfun" where
  "sys_write E fd buf nbytes s =
     (if fd < 0 \<or> fd \<ge> int OPEN_MAX then Some (Inl EBADF, s) else file_write E fd buf nbytes s)"

definition sys_read :: "('f kern) kenv \<Rightarrow> int \<Rightarrow> vaddr \<Rightarrow> u32 \<Rightarrow> ('f fstate, u32) kfun" where
  "sys_read E fd buf buflen s =
     (if fd < 0 \<or> fd \<ge> int OPEN_MAX then Some (Inl EBADF, s) else file_read E fd buf buflen s)"

definition sys_dup2 :: "('f kern) kenv \<Rightarrow> int \<Rightarrow> int \<Rightarrow> ('f fstate, int) kfun" where
  "sys_dup2 E oldfd newfd s =
     (if oldfd < 0 \<or> oldfd \<ge> int OPEN_MAX \<or> newfd < 0 \<or> newfd \<ge> int OPEN_MAX then Some (Inl EBADF, s)
      else if oldfd = newfd then Some (Inr newfd, s)
      else
        do { s1 \<leftarrow> oft_acquire s;
             old_of \<leftarrow> fd_entry oldfd s1;
             new_of \<leftarrow> fd_entry newfd s1;
             if old_of = FILE_CLOSED then oft_return (Inl EBADF) s1
             else
               do { ofp \<leftarrow> openfile old_of s1;
                    f \<leftarrow> ofp;
                    s2 \<leftarrow> set_openfile old_of (Some (f\<lparr>of_rc := of_rc f + 1\<rparr>)) s1;
                    s3 \<leftarrow> (if new_of \<noteq> FILE_CLOSED then do { (r, s') \<leftarrow> file_close E newfd s2; Some s' }
                          else Some s2);
                    s4 \<leftarrow> oft_release s3;
                    old_of' \<leftarrow> fd_entry oldfd s4;
                    s5 \<leftarrow> set_fd_entry newfd old_of' s4;
                    Some (Inr newfd, s5) } })"

definition sys_close :: "('f kern) kenv \<Rightarrow> int \<Rightarrow> ('f fstate, unit) kfun" where
  "sys_close E fd s = file_close E fd s"

definition SEEK_SET :: int where "SEEK_SET = 0"
definition SEEK_CUR :: int where "SEEK_CUR = 1"
definition SEEK_END :: int where "SEEK_END = 2"

text \<open>The new offset, or the error of \<^verbatim>\<open>VOP_STAT\<close>; offsets add up modulo 2 to the 64.\<close>

definition lseek_offset ::
    "('f kern) kenv \<Rightarrow> open_file \<Rightarrow> u64 \<Rightarrow> int \<Rightarrow> 'f fstate \<Rightarrow> ((errno + u64) \<times> 'f fstate) option" where
  "lseek_offset E f pos whence s =
     (if whence = SEEK_SET then Some (Inr pos, s)
      else if whence = SEEK_CUR then Some (Inr (of_os f + pos), s)
      else do { (r, s1) \<leftarrow> on_w (VOP_STAT E (of_vn f)) s;
                Some (map_sum id (\<lambda>st. pos + st_size st) r, s1) })"

definition sys_lseek :: "('f kern) kenv \<Rightarrow> int \<Rightarrow> u64 \<Rightarrow> int \<Rightarrow> ('f fstate, u64) kfun" where
  "sys_lseek E fd pos whence s =
     (if fd < 0 \<or> fd \<ge> int OPEN_MAX then Some (Inl EBADF, s)
      else if whence \<noteq> SEEK_SET \<and> whence \<noteq> SEEK_CUR \<and> whence \<noteq> SEEK_END then Some (Inl EINVAL, s)
      else
        do { of_index \<leftarrow> fd_entry fd s;
             if of_index = FILE_CLOSED then Some (Inl EBADF, s)
             else
               do { s1 \<leftarrow> oft_acquire s;
                    ofp \<leftarrow> openfile of_index s1;
                    f \<leftarrow> ofp;
                    (seekable, s2) \<leftarrow> on_w (VOP_ISSEEKABLE E (of_vn f)) s1;
                    if \<not> seekable then oft_return (Inl ESPIPE) s2
                    else
                      do { (r, s3) \<leftarrow> lseek_offset E f pos whence s2;
                           case r of
                             Inl e \<Rightarrow> oft_return (Inl e) s3
                           | Inr os' \<Rightarrow>
                               if sint os' < 0 then oft_return (Inl EINVAL) s3
                               else do { s4 \<leftarrow> set_openfile of_index (Some (f\<lparr>of_os := os'\<rparr>)) s3;
                                         oft_return (Inr os') s4 } } } })"

end
