(* ===== verification/File_Inv.thy ===== *)
theory File_Inv
  imports File
begin

text \<open>
  The invariant of the file tables and that every file system call keeps it. An open file's
  reference count is exactly the number of descriptors, over all processes, that name its slot;
  a slot is empty exactly when no descriptor names it; and the vnodes the table points to are
  covered by their reference counts. So no call leaves a descriptor dangling, leaks an open file,
  or closes a vnode that is still in use.
\<close>

section \<open>References from descriptors and from the table\<close>

definition fd_refs :: "(procid \<Rightarrow> int list option) \<Rightarrow> nat \<Rightarrow> nat" where
  "fd_refs D j = (\<Sum>p\<in>dom D. count_list (the (D p)) (int j))"

primrec vn_of :: "open_file option \<Rightarrow> vref multiset" where
  "vn_of None = {#}"
| "vn_of (Some f) = {#of_vn f#}"

primrec file_refs :: "open_file option list \<Rightarrow> vref multiset" where
  "file_refs [] = {#}"
| "file_refs (x # xs) = vn_of x + file_refs xs"

fun slot_ok :: "nat \<Rightarrow> open_file option \<Rightarrow> bool" where
  "slot_ok n None \<longleftrightarrow> n = 0"
| "slot_ok n (Some f) \<longleftrightarrow> 0 < n \<and> of_rc f = int n"

lemma file_refs_update:
  "j < length xs \<Longrightarrow> file_refs (xs[j := y]) + vn_of (xs ! j) = file_refs xs + vn_of y"
proof (induction xs arbitrary: j)
  case (Cons x xs)
  then show ?case by (cases j) (simp_all add: ac_simps)
qed simp

lemma file_refs_replicate [simp]: "file_refs (replicate n None) = {#}"
  by (induction n) simp_all

lemma file_refs_set_Some:
  "j < length xs \<Longrightarrow> xs ! j = None \<Longrightarrow> file_refs (xs[j := Some f]) = add_mset (of_vn f) (file_refs xs)"
  using file_refs_update [of j xs "Some f"] by simp

lemma file_refs_set_same:
  "j < length xs \<Longrightarrow> xs ! j = Some g \<Longrightarrow> of_vn f = of_vn g \<Longrightarrow> file_refs (xs[j := Some f]) = file_refs xs"
  using file_refs_update [of j xs "Some f"] by simp

lemma file_refs_set_None:
  "j < length xs \<Longrightarrow> xs ! j = Some g \<Longrightarrow> file_refs xs = add_mset (of_vn g) (file_refs (xs[j := None]))"
  using file_refs_update [of j xs None] by simp

lemma file_refs_mem: "j < length xs \<Longrightarrow> xs ! j = Some g \<Longrightarrow> of_vn g \<in># file_refs xs"
  by (simp add: file_refs_set_None)

lemma fd_refs_update:
  assumes "finite (dom D)" "D p = Some tab" "i < length tab"
  shows "fd_refs (D(p \<mapsto> tab[i := y])) j + (if tab ! i = int j then 1 else 0) =
    fd_refs D j + (if y = int j then 1 else 0)"
proof -
  have p: "p \<in> dom D" using assms(2) by blast
  have dom: "dom (D(p \<mapsto> tab[i := y])) = dom D" using p by auto
  have "fd_refs (D(p \<mapsto> tab[i := y])) j =
      count_list (tab[i := y]) (int j) + (\<Sum>q\<in>dom D - {p}. count_list (the (D q)) (int j))"
    unfolding fd_refs_def dom using assms(1) p by (subst sum.remove [of _ p]) (auto intro: sum.cong)
  moreover have "fd_refs D j = count_list tab (int j) + (\<Sum>q\<in>dom D - {p}. count_list (the (D q)) (int j))"
    unfolding fd_refs_def using assms(1,2) p by (subst sum.remove [of _ p]) auto
  moreover have "count_list (tab[i := y]) (int j) + (if tab ! i = int j then 1 else 0) =
      count_list tab (int j) + (if y = int j then 1 else 0)"
    using assms(3) by (rule count_list_update)
  ultimately show ?thesis by simp
qed

lemma fd_refs_pos:
  assumes "finite (dom D)" "D p = Some tab" "i < length tab" "tab ! i = int j"
  shows "0 < fd_refs D j"
proof -
  have "0 < count_list tab (int j)" using assms(3,4) count_list_nth_pos by metis
  then have "0 < count_list (the (D p)) (int j)" using assms(2) by simp
  moreover have "p \<in> dom D" using assms(2) by blast
  ultimately show ?thesis unfolding fd_refs_def using assms(1) by (meson sum_pos2 zero_le)
qed

lemma fd_refs_new:
  assumes "finite (dom D)" "D p = None"
  shows "fd_refs (D(p \<mapsto> tab)) j = fd_refs D j + count_list tab (int j)"
proof -
  have p: "p \<notin> dom D" using assms(2) by blast
  then have "(\<Sum>q\<in>dom D. count_list (the ((D(p \<mapsto> tab)) q)) (int j)) = (\<Sum>q\<in>dom D. count_list (the (D q)) (int j))"
    by (intro sum.cong) auto
  with assms p show ?thesis by (simp add: fd_refs_def)
qed

section \<open>The invariant\<close>

definition tab_ok :: "int list \<Rightarrow> bool" where
  "tab_ok tab \<longleftrightarrow> length tab = OPEN_MAX \<and> (\<forall>x\<in>set tab. x = FILE_CLOSED \<or> 0 \<le> x \<and> nat x < OPEN_MAX)"

text \<open>
  \<open>h\<close> is the holder of the table lock and \<open>x j\<close> counts the references to slot \<open>j\<close> that are in
  flight: counted already but not yet in a descriptor table. Between calls there are none and
  the lock is free.
\<close>

definition file_inv ::
    "('f kern \<Rightarrow> bool) \<Rightarrow> tid option \<Rightarrow> (nat \<Rightarrow> nat) \<Rightarrow> 'f fstate \<Rightarrow> bool" where
  "file_inv winv h x s \<longleftrightarrow>
     (\<exists>t. of_t s = Some t \<and> oft_l t = Some h \<and> length (openfiles t) = OPEN_MAX \<and>
        (\<forall>j<OPEN_MAX. slot_ok (fd_refs (fd_t s) j + x j) (openfiles t ! j)) \<and>
        vok winv (vfs_refs (fs_w s) + file_refs (openfiles t)) (fs_w s)) \<and>
     finite (dom (fd_t s)) \<and> (\<forall>p tab. fd_t s p = Some tab \<longrightarrow> tab_ok tab)"

abbreviation file_idle :: "('f kern \<Rightarrow> bool) \<Rightarrow> 'f fstate \<Rightarrow> bool" where
  "file_idle winv s \<equiv> file_inv winv None (\<lambda>j. 0) s"

lemma file_invE:
  assumes "file_inv winv h x s"
  obtains t where "of_t s = Some t" "oft_l t = Some h" "length (openfiles t) = OPEN_MAX"
    "\<And>j. j < OPEN_MAX \<Longrightarrow> slot_ok (fd_refs (fd_t s) j + x j) (openfiles t ! j)"
    "vok winv (vfs_refs (fs_w s) + file_refs (openfiles t)) (fs_w s)"
    "finite (dom (fd_t s))" "\<And>p tab. fd_t s p = Some tab \<Longrightarrow> tab_ok tab"
  using assms unfolding file_inv_def by blast

lemma file_invD:
  assumes "file_inv winv h x s" "of_t s = Some t"
  shows "oft_l t = Some h" "length (openfiles t) = OPEN_MAX"
    "\<And>j. j < OPEN_MAX \<Longrightarrow> slot_ok (fd_refs (fd_t s) j + x j) (openfiles t ! j)"
    "vok winv (vfs_refs (fs_w s) + file_refs (openfiles t)) (fs_w s)"
    "finite (dom (fd_t s))" "\<And>p tab. fd_t s p = Some tab \<Longrightarrow> tab_ok tab"
  using assms by (auto simp: file_inv_def)

lemma tab_okD:
  assumes "tab_ok tab" "i < OPEN_MAX"
  shows "length tab = OPEN_MAX" "tab ! i = FILE_CLOSED \<or> 0 \<le> tab ! i \<and> nat (tab ! i) < OPEN_MAX"
  using assms by (auto simp: tab_ok_def)

lemma tab_ok_update:
  "tab_ok tab \<Longrightarrow> y = FILE_CLOSED \<or> 0 \<le> y \<and> nat y < OPEN_MAX \<Longrightarrow> tab_ok (tab[i := y])"
  by (auto simp: tab_ok_def dest!: set_update_subset_insert [THEN subsetD])

text \<open>A descriptor that is in range and open.\<close>

definition fd_open :: "int list \<Rightarrow> int \<Rightarrow> bool" where
  "fd_open tab fd \<longleftrightarrow> 0 \<le> fd \<and> fd < int OPEN_MAX \<and> tab ! nat fd \<noteq> FILE_CLOSED"

lemma none_in_flight [simp]: "(\<lambda>k. 0::nat)(j := 0) = (\<lambda>k. 0)"
  by auto

section \<open>Locking\<close>

lemma oft_acquire_inv:
  assumes "file_inv winv None x s"
  shows "\<exists>t. of_t s = Some t \<and> oft_acquire s = Some (s\<lparr>of_t := Some (t\<lparr>oft_l := Some (Some (thr s))\<rparr>)\<rparr>) \<and>
    file_inv winv (Some (thr s)) x (s\<lparr>of_t := Some (t\<lparr>oft_l := Some (Some (thr s))\<rparr>)\<rparr>)"
  using assms by (auto simp: file_inv_def oft_acquire_def)

lemma oft_release_inv:
  assumes "file_inv winv (Some (thr s)) x s"
  shows "\<exists>t. of_t s = Some t \<and> oft_release s = Some (s\<lparr>of_t := Some (t\<lparr>oft_l := Some None\<rparr>)\<rparr>) \<and>
    file_inv winv None x (s\<lparr>of_t := Some (t\<lparr>oft_l := Some None\<rparr>)\<rparr>)"
  using assms by (auto simp: file_inv_def oft_release_def)

lemma oft_return_inv:
  assumes "file_inv winv (Some (thr s)) x s"
  shows "\<exists>t. of_t s = Some t \<and> oft_return r s = Some (r, s\<lparr>of_t := Some (t\<lparr>oft_l := Some None\<rparr>)\<rparr>) \<and>
    file_inv winv None x (s\<lparr>of_t := Some (t\<lparr>oft_l := Some None\<rparr>)\<rparr>)"
  using oft_release_inv [OF assms] by (auto simp: oft_return_def)

lemma unlock_id:
  "of_t s = Some t \<Longrightarrow> oft_l t = Some None \<Longrightarrow> s\<lparr>of_t := Some (t\<lparr>oft_l := Some None\<rparr>)\<rparr> = s"
  by simp

lemma unlock_w:
  "of_t s = Some t \<Longrightarrow> oft_l t = Some None \<Longrightarrow> s\<lparr>fs_w := w, of_t := Some (t\<lparr>oft_l := Some None\<rparr>)\<rparr> = s\<lparr>fs_w := w\<rparr>"
  "of_t s = Some t \<Longrightarrow> oft_l t = Some None \<Longrightarrow>
   s\<lparr>fs_w := w, of_t := Some (t\<lparr>oft_l := Some None, openfiles := y\<rparr>)\<rparr> = s\<lparr>fs_w := w, of_t := Some (t\<lparr>openfiles := y\<rparr>)\<rparr>"
  by simp_all

lemma oft_held_inv: "file_inv winv h x s \<Longrightarrow> oft_held s = Some (h = Some (thr s))"
  by (auto simp: file_inv_def oft_held_def lock_do_i_hold_def)

text \<open>A change of the VFS side that keeps the references keeps the invariant.\<close>

lemma file_inv_w:
  assumes "file_inv winv h x s" "of_t s = Some t"
    and "keeps winv (vfs_refs (fs_w s) + file_refs (openfiles t)) (fs_w s) w"
  shows "file_inv winv h x (s\<lparr>fs_w := w\<rparr>)"
proof -
  have "vok winv (vfs_refs (fs_w s) + file_refs (openfiles t)) w"
    using assms by (auto simp: file_inv_def intro: vok_keeps_same)
  moreover have "vfs_refs w = vfs_refs (fs_w s)"
    using assms(3) by (auto simp: keeps_def vfs_same_refs)
  ultimately show ?thesis using assms(1,2) by (simp add: file_inv_def)
qed

section \<open>Table access\<close>

lemma fd_entry_inv:
  assumes "file_inv winv h x s" "fd_t s (cur s) = Some tab" "0 \<le> fd" "fd < int OPEN_MAX"
  shows "fd_entry fd s = Some (tab ! nat fd)" "nat fd < length tab"
    "tab ! nat fd = FILE_CLOSED \<or> 0 \<le> tab ! nat fd \<and> nat (tab ! nat fd) < OPEN_MAX"
proof -
  have ok: "tab_ok tab" using assms(1,2) by (blast elim: file_invE)
  have lt: "nat fd < OPEN_MAX" using assms(3,4) by linarith
  show "nat fd < length tab" using ok lt by (simp add: tab_ok_def)
  then show "fd_entry fd s = Some (tab ! nat fd)" using assms(2,3) by (simp add: fd_entry_def)
  show "tab ! nat fd = FILE_CLOSED \<or> 0 \<le> tab ! nat fd \<and> nat (tab ! nat fd) < OPEN_MAX"
    using tab_okD(2) [OF ok lt] .
qed

text \<open>The slot an open descriptor names is occupied, and its vnode has a reference to use.\<close>

lemma openfile_inv:
  assumes "file_inv winv h x s" "fd_t s (cur s) = Some tab" "0 \<le> fd" "fd < int OPEN_MAX"
    and "tab ! nat fd \<noteq> FILE_CLOSED"
  shows "\<exists>t f. of_t s = Some t \<and> openfiles t ! nat (tab ! nat fd) = Some f \<and>
    openfile (tab ! nat fd) s = Some (Some f) \<and> nat (tab ! nat fd) < length (openfiles t) \<and>
    of_vn f \<in># vfs_refs (fs_w s) + file_refs (openfiles t) \<and> 0 < of_rc f"
proof -
  note e = fd_entry_inv [OF assms(1-4)]
  let ?j = "nat (tab ! nat fd)"
  have j: "0 \<le> tab ! nat fd" "?j < OPEN_MAX" using e(3) assms(5) by auto
  from file_invE [OF assms(1)] obtain t where t: "of_t s = Some t" "length (openfiles t) = OPEN_MAX"
    "slot_ok (fd_refs (fd_t s) ?j + x ?j) (openfiles t ! ?j)" "finite (dom (fd_t s))"
    using j(2) by metis
  have "0 < fd_refs (fd_t s) ?j"
    using t(4) assms(2) e(2) j(1) by (intro fd_refs_pos [of _ "cur s" tab "nat fd"]) simp_all
  with t(3) obtain f where f: "openfiles t ! ?j = Some f" "0 < of_rc f"
    by (cases "openfiles t ! ?j") auto
  then show ?thesis using t j by (auto simp: openfile_def file_refs_mem)
qed

lemma vok_less:
  "vok winv R w \<Longrightarrow> keeps winv Q w w' \<Longrightarrow> vfs_refs w \<subseteq># Q \<Longrightarrow> vok winv Q w'"
  by (auto simp: vok_def keeps_def vfs_same_refs big_ok_def) (auto simp: vfs_same_def)

text \<open>
  Dropping one descriptor: the entry is closed and its slot either loses one of several
  references or, with the last one, its vnode.
\<close>

lemma file_inv_drop:
  assumes inv: "file_inv winv h x s" and tab: "fd_t s (cur s) = Some tab" "i < OPEN_MAX"
    and j: "tab ! i = int j" "j < OPEN_MAX" and t: "of_t s = Some t" and f: "openfiles t ! j = Some f"
    and y: "y = (if of_rc f = 1 then None else Some (f\<lparr>of_rc := of_rc f - 1\<rparr>))"
    and w: "keeps winv (vfs_refs (fs_w s) + file_refs ((openfiles t)[j := y])) (fs_w s) w"
  shows "file_inv winv h x
    (s\<lparr>fd_t := (fd_t s)(cur s \<mapsto> tab[i := FILE_CLOSED]), fs_w := w,
       of_t := Some (t\<lparr>openfiles := (openfiles t)[j := y]\<rparr>)\<rparr>)"
proof -
  note t' = file_invD [OF inv t]
  let ?D = "(fd_t s)(cur s \<mapsto> tab[i := FILE_CLOSED])"
  have i: "i < length tab" using t'(6) [OF tab(1)] tab(2) by (simp add: tab_ok_def)
  have refs: "fd_refs ?D k + (if k = j then 1 else 0) = fd_refs (fd_t s) k" for k
    using fd_refs_update [OF t'(5) tab(1) i, of FILE_CLOSED k] j(1) by (auto simp: FILE_CLOSED_def)
  have "slot_ok (fd_refs ?D k + x k) ((openfiles t)[j := y] ! k)" if "k < OPEN_MAX" for k
    using t'(3) [OF that] t'(3) [OF j(2)] refs [of k] f that t'(2) j(2)
    by (cases "k = j") (auto simp: y nth_list_update)
  moreover have "vok winv (vfs_refs w + file_refs ((openfiles t)[j := y])) w"
    using vok_less [OF t'(4) w] w by (auto simp: keeps_def dest: vfs_same_refs)
  moreover have "tab_ok (tab[i := FILE_CLOSED])" using t'(6) [OF tab(1)] by (intro tab_ok_update) auto
  ultimately show ?thesis using t'(1,2,5,6) by (simp add: file_inv_def)
qed

context vnode_layer
begin

lemma close_slot:
  assumes inv: "file_inv winv h x s" and t: "of_t s = Some t" and f: "openfiles t ! j = Some f" "j < OPEN_MAX"
  shows "\<exists>w. vfs_close E (of_vn f) (fs_w s) = Some w \<and>
    keeps winv (vfs_refs (fs_w s) + file_refs ((openfiles t)[j := None])) (fs_w s) w"
proof -
  note t' = file_invD(2,4) [OF inv t]
  have "vfs_refs (fs_w s) + file_refs (openfiles t) =
      add_mset (of_vn f) (vfs_refs (fs_w s) + file_refs ((openfiles t)[j := None]))"
    using file_refs_set_None [of j "openfiles t" f] f t'(1) by simp
  with t'(2) show ?thesis by (intro close_ok) (auto simp: vok_def)
qed

text \<open>\<^verbatim>\<open>file_close\<close> always returns, and closes exactly the descriptor it is asked to close.\<close>

lemma file_close_inv:
  assumes inv: "file_inv winv h x s" and tab: "fd_t s (cur s) = Some tab" and h: "h = None \<or> h = Some (thr s)"
  shows "\<exists>s'. file_close E fd s = Some (if fd_open tab fd then Inr () else Inl EBADF, s') \<and> file_inv winv h x s' \<and>
    fd_t s' = (if fd_open tab fd then (fd_t s)(cur s \<mapsto> tab[nat fd := FILE_CLOSED]) else fd_t s) \<and>
    vfs_same (fs_w s) (fs_w s')"
proof (cases "0 \<le> fd \<and> fd < int OPEN_MAX")
  case False
  then have "\<not> fd_open tab fd" by (auto simp: fd_open_def)
  with False inv show ?thesis by (auto simp: file_close_def)
next
  case range: True
  then have fd: "0 \<le> fd" "fd < int OPEN_MAX" by auto
  note e = fd_entry_inv [OF inv tab fd]
  show ?thesis
  proof (cases "tab ! nat fd = FILE_CLOSED")
    case True
    then have "\<not> fd_open tab fd" by (simp add: fd_open_def)
    with True fd e(1) inv show ?thesis by (auto simp: file_close_def FILE_CLOSED_def)
  next
    case False
    then have op: "fd_open tab fd" using fd by (simp add: fd_open_def)
    define j where "j = nat (tab ! nat fd)"
    have j: "tab ! nat fd = int j" "j < OPEN_MAX" using e(3) False by (auto simp: j_def)
    from inv obtain t where t: "of_t s = Some t" by (blast elim: file_invE)
    let ?t1 = "t\<lparr>oft_l := Some (Some (thr s))\<rparr>"
    let ?s1 = "s\<lparr>of_t := Some ?t1\<rparr>"
    have lk: "(if h = Some (thr s) then Some s else oft_acquire s) = Some ?s1 \<and> file_inv winv (Some (thr s)) x ?s1"
    proof (cases "h = None")
      case True
      with oft_acquire_inv [of winv x s] inv t show ?thesis by auto
    next
      case False
      with h have h': "h = Some (thr s)" by simp
      with inv t have "oft_l t = Some (Some (thr s))" by (auto simp: file_inv_def)
      then have "?s1 = s" using t by simp
      with h' inv show ?thesis by simp
    qed
    from openfile_inv [OF lk [THEN conjunct2], of tab fd] tab fd False j obtain f where
      f: "openfiles t ! j = Some f" "openfile (int j) ?s1 = Some (Some f)" "0 < of_rc f" by auto
    let ?y = "if of_rc f = 1 then None else Some (f\<lparr>of_rc := of_rc f - 1\<rparr>)"
    let ?D = "(fd_t s)(cur s \<mapsto> tab[nat fd := FILE_CLOSED])"
    have len: "length (openfiles t) = OPEN_MAX" using inv t by (auto simp: file_inv_def)
    obtain w where w: "keeps winv (vfs_refs (fs_w s) + file_refs ((openfiles t)[j := ?y])) (fs_w s) w"
      "of_rc f = 1 \<Longrightarrow> vfs_close E (of_vn f) (fs_w s) = Some w" "of_rc f \<noteq> 1 \<Longrightarrow> w = fs_w s"
    proof (cases "of_rc f = 1")
      case True
      then show ?thesis using close_slot [OF inv t f(1) j(2)] that by auto
    next
      case False
      have "file_refs ((openfiles t)[j := Some (f\<lparr>of_rc := of_rc f - 1\<rparr>)]) = file_refs (openfiles t)"
        using f(1) j(2) len by (intro file_refs_set_same) auto
      then show ?thesis using False inv t that [of "fs_w s"]
        by (auto simp: file_inv_def vok_def keeps_refl)
    qed
    let ?s3 = "s\<lparr>fd_t := ?D, fs_w := w, of_t := Some (?t1\<lparr>openfiles := (openfiles t)[j := ?y]\<rparr>)\<rparr>"
    have inv3: "file_inv winv (Some (thr s)) x ?s3"
      using file_inv_drop [OF lk [THEN conjunct2], of tab "nat fd" j ?t1 f ?y w] tab fd j f(1) w(1) by simp
    have same: "vfs_same (fs_w s) w" using w(1) by (simp add: keeps_def)
    then have cur: "thr ?s3 = thr s" by (simp add: vfs_same_def)
    have body: "file_close E fd s = (if h = Some (thr s) then Some (Inr (), ?s3) else oft_return (Inr ()) ?s3)"
    proof -
      have st: "set_fd_entry fd FILE_CLOSED ?s1 = Some (?s1\<lparr>fd_t := ?D\<rparr>)"
        using tab fd e(2) by (simp add: set_fd_entry_def)
      show ?thesis
        unfolding file_close_def
        using fd e(1) j f(2) oft_held_inv [OF inv] lk [THEN conjunct1] st w(2,3) len
        by (cases "of_rc f = 1") (auto simp: on_w_close_def set_openfile_def)
    qed
    show ?thesis
    proof (cases "h = Some (thr s)")
      case True
      with body inv3 same op show ?thesis by auto
    next
      case False
      with h have "h = None" by simp
      from oft_return_inv [of winv ?s3 x "Inr ()"] inv3 cur obtain t' where
        "oft_return (Inr ()) ?s3 = Some (Inr (), ?s3\<lparr>of_t := Some (t'\<lparr>oft_l := Some None\<rparr>)\<rparr>)"
        "file_inv winv None x (?s3\<lparr>of_t := Some (t'\<lparr>oft_l := Some None\<rparr>)\<rparr>)" by auto
      with body False \<open>h = None\<close> same op show ?thesis by auto
    qed
  qed
qed

end

section \<open>Filling slots and descriptors\<close>

text \<open>A new open file: the slot was empty, and the vnode's reference moves into the table.\<close>

lemma file_inv_add:
  assumes inv: "file_inv winv h x s" and tab: "fd_t s (cur s) = Some tab" "i < OPEN_MAX" "tab ! i = FILE_CLOSED"
    and t: "of_t s = Some t" and j: "openfiles t ! j = None" "j < OPEN_MAX" and rc: "of_rc f = 1"
    and w: "keeps winv (add_mset (of_vn f) (vfs_refs (fs_w s) + file_refs (openfiles t))) (fs_w s) w"
  shows "file_inv winv h x
    (s\<lparr>fs_w := w, fd_t := (fd_t s)(cur s \<mapsto> tab[i := int j]),
       of_t := Some (t\<lparr>openfiles := (openfiles t)[j := Some f]\<rparr>)\<rparr>)"
proof -
  note t' = file_invD [OF inv t]
  let ?D = "(fd_t s)(cur s \<mapsto> tab[i := int j])"
  have i: "i < length tab" using t'(6) [OF tab(1)] tab(2) by (simp add: tab_ok_def)
  have refs: "fd_refs ?D k = fd_refs (fd_t s) k + (if k = j then 1 else 0)" for k
    using fd_refs_update [OF t'(5) tab(1) i, of "int j" k] tab(3) by (auto simp: FILE_CLOSED_def)
  have "slot_ok (fd_refs ?D k + x k) ((openfiles t)[j := Some f] ! k)" if "k < OPEN_MAX" for k
    using t'(3) [OF that] t'(3) [OF j(2)] refs [of k] j that t'(2) rc
    by (cases "k = j") (auto simp: nth_list_update)
  moreover have "vok winv (vfs_refs w + file_refs ((openfiles t)[j := Some f])) w"
    using vok_less [OF t'(4) w] w file_refs_set_Some [of j "openfiles t" f] j t'(2)
    by (auto simp: keeps_def dest: vfs_same_refs)
  moreover have "tab_ok (tab[i := int j])" using t'(6) [OF tab(1)] j by (intro tab_ok_update) auto
  ultimately show ?thesis using t'(1,2,5,6) by (simp add: file_inv_def)
qed

text \<open>Changing a file's count, and storing a reference in a descriptor, against those in flight.\<close>

lemma file_inv_slot:
  assumes inv: "file_inv winv h x s" and t: "of_t s = Some t" and f: "openfiles t ! j = Some f" "j < OPEN_MAX"
    and g: "of_vn g = of_vn f" "of_rc g = of_rc f + int n"
  shows "file_inv winv h (x(j := x j + n)) (s\<lparr>of_t := Some (t\<lparr>openfiles := (openfiles t)[j := Some g]\<rparr>)\<rparr>)"
proof -
  note t' = file_invD [OF inv t]
  have "slot_ok (fd_refs (fd_t s) k + (x(j := x j + n)) k) ((openfiles t)[j := Some g] ! k)" if "k < OPEN_MAX" for k
    using t'(3) [OF that] f g t'(2) by (cases "k = j") auto
  moreover have "file_refs ((openfiles t)[j := Some g]) = file_refs (openfiles t)"
    using f g(1) t'(2) by (intro file_refs_set_same) auto
  ultimately show ?thesis using t' by (simp add: file_inv_def)
qed

lemma file_inv_store:
  assumes inv: "file_inv winv h x s" and tab: "fd_t s p = Some tab" "i < OPEN_MAX" "tab ! i = FILE_CLOSED"
    and j: "j < OPEN_MAX" "0 < x j"
  shows "file_inv winv h (x(j := x j - 1)) (s\<lparr>fd_t := (fd_t s)(p \<mapsto> tab[i := int j])\<rparr>)"
proof -
  from inv obtain t where t0: "of_t s = Some t" by (blast elim: file_invE)
  note t = t0 file_invD [OF inv t0]
  let ?D = "(fd_t s)(p \<mapsto> tab[i := int j])"
  have i: "i < length tab" using t(7) [OF tab(1)] tab(2) by (simp add: tab_ok_def)
  have "fd_refs ?D k + (x(j := x j - 1)) k = fd_refs (fd_t s) k + x k" for k
    using fd_refs_update [OF t(6) tab(1) i, of "int j" k] tab(3) j(2) by (auto simp: FILE_CLOSED_def)
  moreover have "tab_ok (tab[i := int j])" using t(7) [OF tab(1)] j by (intro tab_ok_update) auto
  ultimately show ?thesis using t by (auto simp: file_inv_def)
qed

section \<open>The file system calls\<close>

text \<open>The position a seek counts from.\<close>

definition seek_base ::
    "('f kern) kenv \<Rightarrow> open_file \<Rightarrow> int \<Rightarrow> 'f kern \<Rightarrow> ((errno + u64) \<times> 'f kern) option" where
  "seek_base E f whence w =
     (if whence = SEEK_END then do { (r, w') \<leftarrow> VOP_STAT E (of_vn f) w; Some (map_sum id st_size r, w') }
      else Some (Inr (if whence = SEEK_SET then 0 else of_os f), w))"

context vnode_layer
begin

text \<open>\<^verbatim>\<open>dup2\<close> always returns.\<close>

lemma sys_dup2_inv:
  assumes inv: "file_idle winv s" and tab: "fd_t s (cur s) = Some tab"
  defines "bad \<equiv> (\<lambda>oldfd newfd. oldfd < 0 \<or> oldfd \<ge> int OPEN_MAX \<or> newfd < 0 \<or> newfd \<ge> int OPEN_MAX)"
  shows "\<exists>r s'. sys_dup2 E oldfd newfd s = Some (r, s') \<and> file_idle winv s' \<and>
    vfs_same (fs_w s) (fs_w s') \<and>
    (if bad oldfd newfd \<or> oldfd \<noteq> newfd \<and> \<not> fd_open tab oldfd then r = Inl EBADF \<and> fd_t s' = fd_t s
     else r = Inr newfd \<and>
       fd_t s' = (if oldfd = newfd then fd_t s else (fd_t s)(cur s \<mapsto> tab[nat newfd := tab ! nat oldfd])))"
proof (cases "bad oldfd newfd \<or> oldfd = newfd")
  case True
  then show ?thesis using inv by (auto simp: sys_dup2_def bad_def)
next
  case False
  then have fd: "0 \<le> oldfd" "oldfd < int OPEN_MAX" "0 \<le> newfd" "newfd < int OPEN_MAX" "oldfd \<noteq> newfd"
    and nb: "\<not> bad oldfd newfd" by (auto simp: bad_def)
  from oft_acquire_inv [OF inv] obtain t where t: "of_t s = Some t"
    and acq: "oft_acquire s = Some (s\<lparr>of_t := Some (t\<lparr>oft_l := Some (Some (thr s))\<rparr>)\<rparr>)"
    and inv1: "file_inv winv (Some (thr s)) (\<lambda>j. 0) (s\<lparr>of_t := Some (t\<lparr>oft_l := Some (Some (thr s))\<rparr>)\<rparr>)" by blast
  let ?t1 = "t\<lparr>oft_l := Some (Some (thr s))\<rparr>"
  let ?s1 = "s\<lparr>of_t := Some ?t1\<rparr>"
  have tab1: "fd_t ?s1 (cur ?s1) = Some tab" using tab by simp
  note eo = fd_entry_inv [OF inv1 tab1 fd(1,2)] and en = fd_entry_inv [OF inv1 tab1 fd(3,4)]
  show ?thesis
  proof (cases "tab ! nat oldfd = FILE_CLOSED")
    case True
    then have "\<not> fd_open tab oldfd" by (simp add: fd_open_def)
    moreover have "sys_dup2 E oldfd newfd s = oft_return (Inl EBADF) ?s1"
      using fd acq eo(1) en(1) True by (simp add: sys_dup2_def)
    ultimately show ?thesis using oft_return_inv [of winv ?s1 _ "Inl EBADF"] inv1 fd(5) by fastforce
  next
    case False
    then have op: "fd_open tab oldfd" using fd by (simp add: fd_open_def)
    define j where "j = nat (tab ! nat oldfd)"
    have j: "tab ! nat oldfd = int j" "j < OPEN_MAX" using eo(3) False by (auto simp: j_def)
    from openfile_inv [OF inv1 tab1 fd(1,2) False] j obtain f where
      f: "openfiles t ! j = Some f" "openfile (int j) ?s1 = Some (Some f)" by auto
    let ?g = "f\<lparr>of_rc := of_rc f + 1\<rparr>"
    let ?s2 = "s\<lparr>of_t := Some (?t1\<lparr>openfiles := (openfiles t)[j := Some ?g]\<rparr>)\<rparr>"
    let ?x = "(\<lambda>k. 0)(j := 1::nat)"
    have inv2: "file_inv winv (Some (thr s)) ?x ?s2"
      using file_inv_slot [OF inv1, of ?t1 j f ?g 1] f j by simp
    have tab2: "fd_t ?s2 (cur ?s2) = Some tab" using tab by simp
    have s2: "set_openfile (int j) (Some ?g) ?s1 = Some ?s2"
      using j inv t by (auto simp: set_openfile_def file_inv_def)
    from file_close_inv [OF inv2 tab2, of newfd] obtain s3' where
      c: "file_close E newfd ?s2 = Some (if fd_open tab newfd then Inr () else Inl EBADF, s3')"
      "file_inv winv (Some (thr s)) ?x s3'" "vfs_same (fs_w s) (fs_w s3')"
      "fd_t s3' = (if fd_open tab newfd then (fd_t s)(cur s \<mapsto> tab[nat newfd := FILE_CLOSED]) else fd_t s)"
      by auto
    obtain s3 where s3: "(if tab ! nat newfd \<noteq> FILE_CLOSED then do { (r, s') \<leftarrow> file_close E newfd ?s2; Some s' }
        else Some ?s2) = Some s3" "file_inv winv (Some (thr s)) ?x s3" "vfs_same (fs_w s) (fs_w s3)"
      "fd_t s3 = (fd_t s)(cur s \<mapsto> tab[nat newfd := FILE_CLOSED])"
    proof (cases "tab ! nat newfd = FILE_CLOSED")
      case True
      then have "tab[nat newfd := FILE_CLOSED] = tab" by (metis list_update_id)
      with True inv2 tab that [of ?s2] show ?thesis by (auto simp: map_upd_triv)
    next
      case False
      then have "fd_open tab newfd" using fd by (simp add: fd_open_def)
      with False c that [of s3'] show ?thesis by simp
    qed
    have cur3: "cur s3 = cur s" "thr s3 = thr s" using s3(3) by (simp_all add: vfs_same_def)
    from oft_release_inv [of winv s3 ?x] s3(2) cur3 obtain t3 where t3: "of_t s3 = Some t3"
      "oft_release s3 = Some (s3\<lparr>of_t := Some (t3\<lparr>oft_l := Some None\<rparr>)\<rparr>)"
      "file_inv winv None ?x (s3\<lparr>of_t := Some (t3\<lparr>oft_l := Some None\<rparr>)\<rparr>)" by auto
    let ?s4 = "s3\<lparr>of_t := Some (t3\<lparr>oft_l := Some None\<rparr>)\<rparr>"
    have lens: "nat oldfd < length tab" "nat newfd < length tab" "nat newfd < OPEN_MAX" "nat oldfd \<noteq> nat newfd"
      using eo(2) en(2) fd by auto
    have tab4: "fd_t ?s4 (cur ?s4) = Some (tab[nat newfd := FILE_CLOSED])" using s3(4) cur3 by simp
    have eo4: "fd_entry oldfd ?s4 = Some (int j)"
      using tab4 fd lens j(1) by (simp add: fd_entry_def)
    let ?s5 = "?s4\<lparr>fd_t := (fd_t ?s4)(cur ?s4 \<mapsto> tab[nat newfd := int j])\<rparr>"
    have s5: "set_fd_entry newfd (int j) ?s4 = Some ?s5"
      using tab4 fd lens by (simp add: set_fd_entry_def)
    have "file_inv winv None (?x(j := ?x j - 1)) ?s5"
      using file_inv_store [OF t3(3), of "cur s" "tab[nat newfd := FILE_CLOSED]" "nat newfd" j] tab4 lens j cur3 by simp
    moreover have "?x(j := ?x j - 1) = (\<lambda>k. 0)" by auto
    ultimately have inv5: "file_idle winv ?s5" by simp
    have "sys_dup2 E oldfd newfd s = Some (Inr newfd, ?s5)"
    proof -
      have "sys_dup2 E oldfd newfd s =
        do { s3 \<leftarrow> (if tab ! nat newfd \<noteq> FILE_CLOSED then do { (r, s') \<leftarrow> file_close E newfd ?s2; Some s' } else Some ?s2);
             s4 \<leftarrow> oft_release s3; old_of' \<leftarrow> fd_entry oldfd s4; s5 \<leftarrow> set_fd_entry newfd old_of' s4;
             Some (Inr newfd, s5) }"
        using fd acq eo(1) en(1) False j f(2) s2 by (simp add: sys_dup2_def)
      with s3(1) t3(2) eo4 s5 show ?thesis by simp
    qed
    with inv5 s3(3,4) op nb fd(5) j(1) cur3 show ?thesis by simp
  qed
qed

text \<open>
  \<^verbatim>\<open>file_open\<close> returns whenever \<^verbatim>\<open>vfs_open\<close> does. It either fails and leaves the tables as they
  were, or uses the lowest closed descriptor and the first empty slot for a new open file.
\<close>

lemma file_open_inv:
  assumes inv: "file_idle winv s" and tab: "fd_t s (cur s) = Some tab" and t: "of_t s = Some t"
    and v: "vfs_open E path fl mode (fs_w s) = Some (rv, w)"
  shows "\<exists>r s'. file_open E path fl mode s = Some (r, s') \<and> file_idle winv s' \<and>
    vfs_same (fs_w s) (fs_w s') \<and>
    (case rv of
       Inl e \<Rightarrow> r = Inl e \<and> fd_t s' = fd_t s \<and> of_t s' = of_t s
     | Inr vn \<Rightarrow>
         (case (first_index (\<lambda>x. x = FILE_CLOSED) tab, first_index (\<lambda>x. x = None) (openfiles t)) of
            (Some fd, Some j) \<Rightarrow>
              if km_ok w (km_n w)
              then r = Inr (int fd) \<and> fd_t s' = (fd_t s)(cur s \<mapsto> tab[fd := int j]) \<and>
                of_t s' = Some (t\<lparr>openfiles := (openfiles t)[j :=
                  Some \<lparr>of_vn = vn, of_am = fl, of_rc = 1, of_os = 0\<rparr>]\<rparr>)
              else r = Inl ENOMEM \<and> fd_t s' = fd_t s \<and> of_t s' = of_t s
          | _ \<Rightarrow> r = Inl EMFILE \<and> fd_t s' = fd_t s \<and> of_t s' = of_t s))"
proof -
  note t' = file_invD [OF inv t]
  let ?R = "vfs_refs (fs_w s) + file_refs (openfiles t)"
  have k: "keeps winv (gains rv ?R) (fs_w s) w" using open_ok [OF v t'(4)] .
  then have same: "vfs_same (fs_w s) w" by (simp add: keeps_def)
  have vv: "on_w (vfs_open E path fl mode) s = Some (rv, s\<lparr>fs_w := w\<rparr>)" using v by (simp add: on_w_def)
  show ?thesis
  proof (cases rv)
    case (Inl e)
    then have "file_inv winv None (\<lambda>j. 0) (s\<lparr>fs_w := w\<rparr>)" using k inv t by (intro file_inv_w) auto
    with Inl vv same show ?thesis by (simp add: file_open_def)
  next
    case (Inr vn)
    then have kv: "winv w" "holds (add_mset vn ?R) w" using k by (simp_all add: keeps_def)
    let ?lk = "oft_l t" and ?t1 = "t\<lparr>oft_l := Some (Some (curthread w))\<rparr>"
    let ?s2 = "s\<lparr>fs_w := w, of_t := Some ?t1\<rparr>"
    have t0: "t\<lparr>oft_l := Some None\<rparr> = t" using t'(1) by simp
    have acq: "oft_acquire (s\<lparr>fs_w := w\<rparr>) = Some ?s2" using t t'(1) by (simp add: oft_acquire_def)
    have cw: "curproc w = cur s" using same by (simp add: vfs_same_def)
    have tab2: "length tab = OPEN_MAX" using t'(6) [OF tab] by (simp add: tab_ok_def)
    let ?i = "first_index (\<lambda>x. x = FILE_CLOSED) tab" and ?j = "first_index (\<lambda>x. x = None) (openfiles t)"
    have fail: "\<exists>s'. (do { s3 \<leftarrow> on_w_close E vn (s\<lparr>fs_w := w', of_t := Some ?t1\<rparr>); oft_return (Inl e :: errno + int) s3 }) = Some (Inl e, s') \<and>
        file_idle winv s' \<and> vfs_same (fs_w s) (fs_w s') \<and> fd_t s' = fd_t s \<and> of_t s' = of_t s"
      if w': "winv w'" "holds (add_mset vn ?R) w'" "vfs_same w w'" for w' and e :: errno
    proof -
      from close_ok [OF w'(1,2)] obtain w'' where c: "vfs_close E vn w' = Some w''" "keeps winv ?R w' w''" by blast
      have s1: "vfs_same (fs_w s) w''" using same w'(3) c(2) by (meson keeps_def vfs_same_trans)
      then have k'': "keeps winv ?R (fs_w s) w''" using c(2) by (simp add: keeps_def)
      have "curthread w'' = curthread w" using w'(3) c(2) by (simp add: keeps_def vfs_same_def)
      then have "(do { s3 \<leftarrow> on_w_close E vn (s\<lparr>fs_w := w', of_t := Some ?t1\<rparr>); oft_return (Inl e :: errno + int) s3 })
          = Some (Inl e, s\<lparr>fs_w := w'', of_t := Some t\<rparr>)"
        using c(1) t0 by (simp add: on_w_close_def oft_return_def oft_release_def)
      moreover have "s\<lparr>fs_w := w'', of_t := Some t\<rparr> = s\<lparr>fs_w := w''\<rparr>" using t by simp
      ultimately show ?thesis using file_inv_w [OF inv t k''] s1 by simp
    qed
    let ?w' = "w\<lparr>km_n := Suc (km_n w)\<rparr>"
    have km: "f_kmalloc ?s2 = (km_ok w (km_n w), s\<lparr>fs_w := ?w', of_t := Some ?t1\<rparr>)"
      by (simp add: f_kmalloc_def kmalloc_def)
    have w': "winv ?w'" "holds (add_mset vn ?R) ?w'" "vfs_same w ?w'"
      using kv by (simp_all add: winv_kmalloc holds_def vfs_same_def)
    show ?thesis
    proof (cases "?i = None \<or> ?j = None")
      case True
      then have "file_open E path fl mode s = do { s3 \<leftarrow> on_w_close E vn ?s2; oft_return (Inl EMFILE) s3 }"
        using vv Inr acq tab cw tab2 t'(2) by (auto simp: file_open_def split: option.splits)
      with fail [of w EMFILE] kv obtain s' where "file_open E path fl mode s = Some (Inl EMFILE, s')"
        "file_idle winv s'" "vfs_same (fs_w s) (fs_w s')" "fd_t s' = fd_t s" "of_t s' = of_t s" by auto
      with True show ?thesis by (intro exI [of _ "Inl EMFILE"] exI [of _ s']) (auto simp: Inr split: option.splits)
    next
      case False
      then obtain i j where ij: "?i = Some i" "?j = Some j" by auto
      have i: "i < OPEN_MAX" "tab ! i = FILE_CLOSED"
        using ij(1) first_index_less first_index_holds tab2 by fastforce+
      have j: "j < OPEN_MAX" "openfiles t ! j = None"
        using ij(2) first_index_less first_index_holds t'(2) by fastforce+
      show ?thesis
      proof (cases "km_ok w (km_n w)")
        case False
        then have "file_open E path fl mode s = do { s3 \<leftarrow> on_w_close E vn (s\<lparr>fs_w := ?w', of_t := Some ?t1\<rparr>); oft_return (Inl ENOMEM) s3 }"
          using vv Inr acq tab cw tab2 t'(2) ij km by (simp add: file_open_def)
        with fail [OF w', of ENOMEM] False ij show ?thesis by (auto simp: Inr)
      next
        case True
        let ?f = "\<lparr>of_vn = vn, of_am = fl, of_rc = 1, of_os = 0\<rparr>"
        let ?s' = "s\<lparr>fs_w := ?w', fd_t := (fd_t s)(cur s \<mapsto> tab[i := int j]),
          of_t := Some (t\<lparr>openfiles := (openfiles t)[j := Some ?f]\<rparr>)\<rparr>"
        have "file_open E path fl mode s = Some (Inr (int i), ?s')"
          using vv Inr acq tab cw tab2 t'(1,2) ij km True i(1) j(1)
          by (simp add: file_open_def set_fd_entry_def set_openfile_def oft_return_def oft_release_def)
        moreover have "keeps winv (add_mset (of_vn ?f) ?R) (fs_w s) ?w'"
          using w' same by (auto simp: keeps_def intro: vfs_same_trans)
        then have "file_idle winv ?s'"
          using file_inv_add [OF inv tab i t j(2,1), of ?f ?w'] by simp
        moreover have "vfs_same (fs_w s) (fs_w ?s')" using same by (simp add: vfs_same_def)
        ultimately show ?thesis using True ij Inr by auto
      qed
    qed
  qed
qed

text \<open>The operation a read or write makes on the vnode of an open file.\<close>

lemma rw_law:
  assumes "(if rw = UIO_READ then VOP_READ E v u w else VOP_WRITE E v u w) = Some (r, u', w')"
    and "winv w" "holds R w" "v \<in># R"
  shows "keeps winv R w w'"
  using assms read_law write_law by (cases rw) auto

lemma file_rw_closed:
  assumes "file_idle winv s" "fd_t s (cur s) = Some tab" "0 \<le> fd" "fd < int OPEN_MAX" "\<not> fd_open tab fd"
  shows "file_rw E rw fd buf n s = Some (Inl EBADF, s)"
  using fd_entry_inv [OF assms(1-4)] assms(3-5) by (simp add: file_rw_def fd_open_def FILE_CLOSED_def)

lemma file_rw_open:
  assumes inv: "file_idle winv s" and tab: "fd_t s (cur s) = Some tab" and fd: "fd_open tab fd"
    and t: "of_t s = Some t" and j: "j = nat (tab ! nat fd)" and f: "openfiles t ! j = Some f"
  shows "file_rw E rw fd buf n s =
    (if of_am f AND O_ACCMODE = (if rw = UIO_READ then O_WRONLY else O_RDONLY) then Some (Inl EBADF, s)
     else
       let u = uio_uinit (proc_getas (fs_w s)) buf n (of_os f) rw in
       case (if rw = UIO_READ then VOP_READ E (of_vn f) u (fs_w s) else VOP_WRITE E (of_vn f) u (fs_w s)) of
         None \<Rightarrow> None
       | Some (Inl e, u', w) \<Rightarrow> Some (Inl e, s\<lparr>fs_w := w\<rparr>)
       | Some (Inr _, u', w) \<Rightarrow>
           Some (Inr (ucast (uio_offset u' - of_os f)),
             s\<lparr>fs_w := w, of_t := Some (t\<lparr>openfiles := (openfiles t)[j := Some (f\<lparr>of_os := uio_offset u'\<rparr>)]\<rparr>)\<rparr>))"
proof -
  have r: "0 \<le> fd" "fd < int OPEN_MAX" "tab ! nat fd \<noteq> FILE_CLOSED" using fd by (simp_all add: fd_open_def)
  note e = fd_entry_inv [OF inv tab r(1,2)] and t' = file_invD [OF inv t]
  from openfile_inv [OF inv tab r] t j f have o: "openfile (tab ! nat fd) s = Some (Some f)" "j < OPEN_MAX"
    "of_vn f \<in># vfs_refs (fs_w s) + file_refs (openfiles t)" "tab ! nat fd = int j" "\<not> int j < 0"
    using t' e(3) r(3) by auto
  let ?t1 = "t\<lparr>oft_l := Some (Some (thr s))\<rparr>"
  let ?s1 = "s\<lparr>of_t := Some ?t1\<rparr>"
  have acq: "oft_acquire s = Some ?s1" using t t'(1) by (simp add: oft_acquire_def)
  have o1: "openfile (int j) ?s1 = Some (Some f)" using o t t'(2) f by (simp add: openfile_def)
  have same: "curthread w = thr s"
    if "(if rw = UIO_READ then VOP_READ E (of_vn f) u (fs_w s) else VOP_WRITE E (of_vn f) u (fs_w s)) = Some (r, u', w)"
    for r u u' w
    using rw_law [OF that _ _ o(3)] t'(4) by (auto simp: vok_def keeps_def vfs_same_def)
  note unlock = unlock_id [OF t t'(1)] unlock_w [OF t t'(1)]
  let ?bad = "of_am f AND O_ACCMODE = (if rw = UIO_READ then O_WRONLY else O_RDONLY)"
  let ?u = "uio_uinit (proc_getas (fs_w s)) buf n (of_os f) rw"
  let ?vop = "if rw = UIO_READ then VOP_READ E (of_vn f) ?u (fs_w s) else VOP_WRITE E (of_vn f) ?u (fs_w s)"
  have body: "file_rw E rw fd buf n s =
    (if ?bad then oft_return (Inl EBADF) ?s1
     else do { (r, u', w) \<leftarrow> ?vop;
               case r of Inl e \<Rightarrow> oft_return (Inl e) (?s1\<lparr>fs_w := w\<rparr>)
               | Inr _ \<Rightarrow> do { s3 \<leftarrow> set_openfile (int j) (Some (f\<lparr>of_os := uio_offset u'\<rparr>)) (?s1\<lparr>fs_w := w\<rparr>);
                              oft_return (Inr (ucast (uio_offset u' - of_os f))) s3 } })"
    using e(1) o acq o1 by (simp add: file_rw_def Let_def)
  show ?thesis
  proof (cases ?bad)
    case True
    with body unlock show ?thesis by (simp add: oft_return_def oft_release_def)
  next
    case False
    show ?thesis
    proof (cases ?vop)
      case None
      with body False show ?thesis by (simp add: Let_def)
    next
      case (Some a)
      obtain rv u' w where a: "a = (rv, u', w)" by (cases a)
      note cw = same [OF Some [unfolded a]]
      show ?thesis
        using body False Some a cw o(2) t'(1,2)
        by (cases rv) (simp_all add: unlock Let_def oft_return_def oft_release_def set_openfile_def)
    qed
  qed
qed

lemma file_rw_inv:
  assumes inv: "file_idle winv s" and tab: "fd_t s (cur s) = Some tab" and fd: "0 \<le> fd" "fd < int OPEN_MAX"
    and ret: "file_rw E rw fd buf n s = Some (r, s')"
  shows "file_idle winv s' \<and> fd_t s' = fd_t s \<and> vfs_same (fs_w s) (fs_w s')"
proof (cases "fd_open tab fd")
  case False
  with file_rw_closed [OF inv tab fd] ret inv show ?thesis by simp
next
  case True
  then have ne: "tab ! nat fd \<noteq> FILE_CLOSED" by (simp add: fd_open_def)
  define j where "j = nat (tab ! nat fd)"
  from openfile_inv [OF inv tab fd ne] obtain t f where t: "of_t s = Some t"
    and f: "openfiles t ! j = Some f" "of_vn f \<in># vfs_refs (fs_w s) + file_refs (openfiles t)" "j < OPEN_MAX"
    using file_invD(2) [OF inv] by (auto simp: j_def)
  note t' = file_invD [OF inv t]
  let ?u = "uio_uinit (proc_getas (fs_w s)) buf n (of_os f) rw"
  let ?vop = "if rw = UIO_READ then VOP_READ E (of_vn f) ?u (fs_w s) else VOP_WRITE E (of_vn f) ?u (fs_w s)"
  note eq = file_rw_open [OF inv tab True t j_def f(1), of rw buf n]
  show ?thesis
  proof (cases "of_am f AND O_ACCMODE = (if rw = UIO_READ then O_WRONLY else O_RDONLY)")
    case True
    with eq ret inv show ?thesis by simp
  next
    case False
    then obtain rv u' w where v: "?vop = Some (rv, u', w)"
      using eq ret by (auto simp: Let_def split: option.splits)
    have k: "keeps winv (vfs_refs (fs_w s) + file_refs (openfiles t)) (fs_w s) w"
      using rw_law [OF v _ _ f(2)] t'(4) by (auto simp: vok_def)
    note inv1 = file_inv_w [OF inv t k]
    have "file_idle winv (s\<lparr>fs_w := w, of_t := Some (t\<lparr>openfiles := (openfiles t)[j := Some (f\<lparr>of_os := uio_offset u'\<rparr>)]\<rparr>)\<rparr>)"
      using file_inv_slot [OF inv1, of t j f "f\<lparr>of_os := uio_offset u'\<rparr>" 0] t f by simp
    with eq ret v False inv1 k show ?thesis by (cases rv) (auto simp: Let_def keeps_def)
  qed
qed

text \<open>The operations a seek makes on the vnode of an open file.\<close>

lemma seek_base_law:
  assumes "VOP_ISSEEKABLE E (of_vn f) w = Some (b, w1)" "w2 = w1 \<or> seek_base E f whence w1 = Some (q, w2)"
    and "vok winv R w" "of_vn f \<in># R"
  shows "keeps winv R w w2"
proof -
  have k1: "keeps winv R w w1" using isseekable_law [OF assms(1) _ _ assms(4)] assms(3) by (simp add: vok_def)
  have "keeps winv R w1 w3" if "VOP_STAT E (of_vn f) w1 = Some (rs, w3)" for rs w3
    using stat_law [OF that _ _ assms(4)] k1 by (simp add: keeps_def)
  with assms(2) k1 show ?thesis
    by (auto simp: seek_base_def split: if_splits elim!: bindE intro: keeps_trans)
qed

text \<open>A seek on an open file.\<close>

lemma sys_lseek_open:
  assumes inv: "file_idle winv s" and tab: "fd_t s (cur s) = Some tab" and fd: "fd_open tab fd"
    and t: "of_t s = Some t" and j: "j = nat (tab ! nat fd)" and f: "openfiles t ! j = Some f"
    and whence: "whence \<in> {SEEK_SET, SEEK_CUR, SEEK_END}"
  shows "sys_lseek E fd pos whence s =
    (case VOP_ISSEEKABLE E (of_vn f) (fs_w s) of
       None \<Rightarrow> None
     | Some (False, w1) \<Rightarrow> Some (Inl ESPIPE, s\<lparr>fs_w := w1\<rparr>)
     | Some (True, w1) \<Rightarrow>
         (case seek_base E f whence w1 of
            None \<Rightarrow> None
          | Some (Inl e, w2) \<Rightarrow> Some (Inl e, s\<lparr>fs_w := w2\<rparr>)
          | Some (Inr base, w2) \<Rightarrow>
              if sint (base + pos) < 0 then Some (Inl EINVAL, s\<lparr>fs_w := w2\<rparr>)
              else Some (Inr (base + pos), s\<lparr>fs_w := w2,
                of_t := Some (t\<lparr>openfiles := (openfiles t)[j := Some (f\<lparr>of_os := base + pos\<rparr>)]\<rparr>)\<rparr>)))"
proof -
  have r: "0 \<le> fd" "fd < int OPEN_MAX" "tab ! nat fd \<noteq> FILE_CLOSED" using fd by (simp_all add: fd_open_def)
  note e = fd_entry_inv [OF inv tab r(1,2)] and t' = file_invD [OF inv t]
  from openfile_inv [OF inv tab r] t j f have o: "j < OPEN_MAX" "tab ! nat fd = int j"
    "of_vn f \<in># vfs_refs (fs_w s) + file_refs (openfiles t)"
    using t' e(3) r(3) by auto
  let ?s1 = "s\<lparr>of_t := Some (t\<lparr>oft_l := Some (Some (thr s))\<rparr>)\<rparr>"
  have acq: "oft_acquire s = Some ?s1" using t t'(1) by (simp add: oft_acquire_def)
  have o1: "openfile (int j) ?s1 = Some (Some f)" using o t'(2) f by (simp add: openfile_def)
  note unlock = unlock_w [OF t t'(1)]
  have body: "sys_lseek E fd pos whence s =
    do { (seekable, w) \<leftarrow> VOP_ISSEEKABLE E (of_vn f) (fs_w s);
         if \<not> seekable then oft_return (Inl ESPIPE) (?s1\<lparr>fs_w := w\<rparr>)
         else
           do { (r, s3) \<leftarrow> lseek_offset E f pos whence (?s1\<lparr>fs_w := w\<rparr>);
                case r of
                  Inl e \<Rightarrow> oft_return (Inl e) s3
                | Inr os' \<Rightarrow>
                    if sint os' < 0 then oft_return (Inl EINVAL) s3
                    else do { s4 \<leftarrow> set_openfile (int j) (Some (f\<lparr>of_os := os'\<rparr>)) s3; oft_return (Inr os') s4 } } }"
    using r e(1) o acq o1 whence by (cases "VOP_ISSEEKABLE E (of_vn f) (fs_w s)") (auto simp: sys_lseek_def on_w_def)
  have lo: "lseek_offset E f pos whence (?s1\<lparr>fs_w := w\<rparr>) =
      map_option (\<lambda>(r, w'). (map_sum id (\<lambda>b. b + pos) r, ?s1\<lparr>fs_w := w'\<rparr>)) (seek_base E f whence w)" for w
  proof (cases "VOP_STAT E (of_vn f) w")
    case None
    then show ?thesis using whence
      by (auto simp: lseek_offset_def seek_base_def on_w_def SEEK_SET_def SEEK_CUR_def SEEK_END_def)
  next
    case (Some a)
    obtain rs w' where "a = (rs, w')" by (cases a)
    then show ?thesis using Some whence
      by (cases rs) (auto simp: lseek_offset_def seek_base_def on_w_def SEEK_SET_def SEEK_CUR_def SEEK_END_def)
  qed
  have cw: "curthread w2 = thr s"
    if "VOP_ISSEEKABLE E (of_vn f) (fs_w s) = Some (b, w1)" "w2 = w1 \<or> seek_base E f whence w1 = Some (q, w2)" for b w1 q w2
    using seek_base_law [OF that(1) that(2) t'(4) o(3)] by (simp add: keeps_def vfs_same_def)
  show ?thesis
  proof (cases "VOP_ISSEEKABLE E (of_vn f) (fs_w s)")
    case None
    with body show ?thesis by simp
  next
    case (Some a)
    obtain b w1 where a: "a = (b, w1)" by (cases a)
    show ?thesis
    proof (cases b)
      case False
      with body Some a cw [of b w1 w1] t'(1) show ?thesis by (simp add: unlock oft_return_def oft_release_def)
    next
      case True
      show ?thesis
      proof (cases "seek_base E f whence w1")
        case None
        with body Some a True lo show ?thesis by simp
      next
        case (Some c)
        obtain q w2 where c: "c = (q, w2)" by (cases c)
        show ?thesis
          using body \<open>VOP_ISSEEKABLE E (of_vn f) (fs_w s) = Some a\<close> a True lo Some c cw [of b w1 w2 q] o(1) t'(1,2)
          by (cases q) (simp_all add: unlock oft_return_def oft_release_def set_openfile_def)
      qed
    qed
  qed
qed

lemma sys_lseek_inv:
  assumes inv: "file_idle winv s" and tab: "fd_t s (cur s) = Some tab"
    and ret: "sys_lseek E fd pos whence s = Some (r, s')"
  shows "file_idle winv s' \<and> fd_t s' = fd_t s \<and> vfs_same (fs_w s) (fs_w s')"
proof (cases "fd_open tab fd \<and> whence \<in> {SEEK_SET, SEEK_CUR, SEEK_END}")
  case False
  then have "s' = s"
    using ret fd_entry_inv [OF inv tab, of fd] by (auto simp: sys_lseek_def fd_open_def split: if_splits)
  with inv show ?thesis by simp
next
  case True
  then have fd: "0 \<le> fd" "fd < int OPEN_MAX" "tab ! nat fd \<noteq> FILE_CLOSED" by (simp_all add: fd_open_def)
  define j where "j = nat (tab ! nat fd)"
  from openfile_inv [OF inv tab fd] obtain t f where t: "of_t s = Some t"
    and f: "openfiles t ! j = Some f" "of_vn f \<in># vfs_refs (fs_w s) + file_refs (openfiles t)" "j < OPEN_MAX"
    using file_invD(2) [OF inv] by (auto simp: j_def)
  note t' = file_invD [OF inv t]
  note eq = sys_lseek_open [OF inv tab _ t j_def f(1), of whence pos]
  obtain b w1 where w1: "VOP_ISSEEKABLE E (of_vn f) (fs_w s) = Some (b, w1)"
    using eq ret True by (auto split: option.splits)
  have k: "keeps winv (vfs_refs (fs_w s) + file_refs (openfiles t)) (fs_w s) w2"
    if "w2 = w1 \<or> seek_base E f whence w1 = Some (q, w2)" for q w2
    by (rule seek_base_law [OF w1 that t'(4) f(2)])
  have inv1: "file_idle winv (s\<lparr>fs_w := w2\<rparr>)" if "w2 = w1 \<or> seek_base E f whence w1 = Some (q, w2)" for q w2
    by (rule file_inv_w [OF inv t k [OF that]])
  have inv2: "file_idle winv (s\<lparr>fs_w := w2, of_t := Some (t\<lparr>openfiles := (openfiles t)[j := Some (f\<lparr>of_os := os'\<rparr>)]\<rparr>)\<rparr>)"
    if "seek_base E f whence w1 = Some (q, w2)" for q w2 os'
    using file_inv_slot [OF inv1 [of w2 q], of t j f "f\<lparr>of_os := os'\<rparr>" 0] that t f by simp
  have same: "vfs_same (fs_w s) w2" if "w2 = w1 \<or> seek_base E f whence w1 = Some (q, w2)" for q w2
    using k [OF that] by (simp add: keeps_def)
  show ?thesis
  proof (cases "b \<and> seek_base E f whence w1 \<noteq> None")
    case False
    with eq ret w1 True inv1 [of w1] same [of w1] show ?thesis
      by (cases b; cases "seek_base E f whence w1") auto
  next
    case b: True
    then obtain q w2 where "seek_base E f whence w1 = Some (q, w2)" by auto
    with eq ret w1 True b inv1 [of w2 q] inv2 [of q w2] same [of w2 q] show ?thesis
      by (cases q) (auto split: if_splits)
  qed
qed

text \<open>Destroying a process's table closes its descriptors, whatever lies beyond the table.\<close>

lemma table_destroy_loop_inv:
  assumes "file_idle winv s" "fd_t s (cur s) = Some tab"
  shows "\<exists>s'. table_destroy_loop E oob is s = Some s' \<and> file_idle winv s' \<and> vfs_same (fs_w s) (fs_w s') \<and>
    fd_t s' = (fd_t s)(cur s \<mapsto> map (\<lambda>k. if k \<in> set is then FILE_CLOSED else tab ! k) [0..<OPEN_MAX])"
  using assms
proof (induction "is" arbitrary: s tab)
  case Nil
  have "length tab = OPEN_MAX" using Nil file_invE by (metis tab_ok_def)
  then have "map (\<lambda>k. tab ! k) [0..<OPEN_MAX] = tab" by (metis map_nth)
  with Nil show ?case by (simp add: map_upd_triv)
next
  case (Cons i "is")
  have len: "length tab = OPEN_MAX" using Cons.prems file_invE by (metis tab_ok_def)
  obtain s1 where c: "file_close E (int i) s = Some (if fd_open tab (int i) then Inr () else Inl EBADF, s1)"
    "file_idle winv s1" "vfs_same (fs_w s) (fs_w s1)"
    "fd_t s1 = (if fd_open tab (int i) then (fd_t s)(cur s \<mapsto> tab[i := FILE_CLOSED]) else fd_t s)"
    using file_close_inv [OF Cons.prems, of "int i"] by auto
  define s2 where "s2 = (if (if i < length tab then tab ! i else oob i) \<noteq> FILE_CLOSED then s1 else s)"
  define tab2 where "tab2 = (if fd_open tab (int i) then tab[i := FILE_CLOSED] else tab)"
  have step: "table_destroy_loop E oob (i # is) s = table_destroy_loop E oob is s2"
    using Cons.prems(2) c(1) by (simp add: s2_def)
  have s2: "file_idle winv s2" "vfs_same (fs_w s) (fs_w s2)" "fd_t s2 = (fd_t s)(cur s \<mapsto> tab2)" "cur s2 = cur s"
    using c Cons.prems len by (auto simp: s2_def tab2_def fd_open_def map_upd_triv vfs_same_def)
  then have "fd_t s2 (cur s2) = Some tab2" by simp
  from Cons.IH [OF s2(1) this] obtain s' where s': "table_destroy_loop E oob is s2 = Some s'" "file_idle winv s'"
    "vfs_same (fs_w s2) (fs_w s')"
    "fd_t s' = (fd_t s2)(cur s2 \<mapsto> map (\<lambda>k. if k \<in> set is then FILE_CLOSED else tab2 ! k) [0..<OPEN_MAX])" by blast
  have "map (\<lambda>k. if k \<in> set is then FILE_CLOSED else tab2 ! k) [0..<OPEN_MAX] =
      map (\<lambda>k. if k \<in> set (i # is) then FILE_CLOSED else tab ! k) [0..<OPEN_MAX]"
    using len by (auto simp: tab2_def fd_open_def nth_list_update)
  with s' s2 step show ?case by (auto intro: vfs_same_trans)
qed

lemma table_destroy_loop_oob:
  assumes "file_idle winv s" "fd_t s (cur s) = Some tab"
  shows "table_destroy_loop E oob is s = table_destroy_loop E oob' is s"
  using assms
proof (induction "is" arbitrary: s tab)
  case (Cons i "is")
  have len: "length tab = OPEN_MAX" using Cons.prems file_invE by (metis tab_ok_def)
  show ?case
  proof (cases "i < length tab")
    case False
    then have "file_close E (int i) s = Some (Inl EBADF, s)" using len by (simp add: file_close_def)
    with Cons False show ?thesis by simp
  next
    case True
    obtain r s1 where c: "file_close E (int i) s = Some (r, s1)" "file_idle winv s1" "vfs_same (fs_w s) (fs_w s1)"
      "fd_t s1 = (if fd_open tab (int i) then (fd_t s)(cur s \<mapsto> tab[i := FILE_CLOSED]) else fd_t s)"
      using file_close_inv [OF Cons.prems, of "int i"] by auto
    moreover have "cur s1 = cur s" using c(3) by (simp add: vfs_same_def)
    ultimately obtain tab1 where "fd_t s1 (cur s1) = Some tab1" using Cons.prems(2) by (auto split: if_splits)
    with Cons.IH [OF c(2)] Cons.IH [OF Cons.prems] Cons.prems(2) c(1) True show ?thesis by simp
  qed
qed simp

text \<open>Opening the standard files fills the first descriptors of an empty table in order.\<close>

lemma open_std_inv:
  assumes "open_std E fs s = Some (Inr (), s')" "file_idle winv s" "fd_t s (cur s) = Some (xs @ replicate m FILE_CLOSED)"
    and "FILE_CLOSED \<notin> set xs" "length fs \<le> m"
  shows "\<exists>ys. file_idle winv s' \<and> vfs_same (fs_w s) (fs_w s') \<and> length ys = length fs \<and> FILE_CLOSED \<notin> set ys \<and>
    fd_t s' = (fd_t s)(cur s \<mapsto> xs @ ys @ replicate (m - length fs) FILE_CLOSED)"
  using assms
proof (induction fs arbitrary: s xs m)
  case Nil
  then show ?case by (auto simp: fun_eq_iff)
next
  case (Cons pf rest)
  obtain path fl where pf: "pf = (path, fl)" by (cases pf)
  note 2 = Cons [unfolded pf]
  let ?tab = "xs @ replicate m FILE_CLOSED"
  from 2(2) obtain fd s1 where o: "file_open E path fl 0 s = Some (Inr fd, s1)" and rest: "open_std E rest s1 = Some (Inr (), s')"
    by (auto split: sum.split_asm elim!: bindE)
  from 2(3) obtain t where t: "of_t s = Some t" by (blast elim: file_invE)
  from o obtain rv w where v: "vfs_open E path fl 0 (fs_w s) = Some (rv, w)"
    by (auto simp: file_open_def on_w_def elim!: bindE)
  have m: "0 < m" using 2(6) by simp
  have fi: "first_index (\<lambda>x. x = FILE_CLOSED) ?tab = Some (length xs)" using 2(5) m by (intro first_index_append) auto
  from file_open_inv [OF 2(3) 2(4) t v] o fi obtain j where
    s1: "file_idle winv s1" "vfs_same (fs_w s) (fs_w s1)" "fd_t s1 = (fd_t s)(cur s \<mapsto> ?tab[length xs := int j])"
    by (auto split: sum.split_asm option.split_asm if_split_asm)
  have upd: "?tab[length xs := int j] = (xs @ [int j]) @ replicate (m - 1) FILE_CLOSED"
    using m by (cases m) (simp_all add: list_update_append)
  have cur1: "cur s1 = cur s" using s1(2) by (simp add: vfs_same_def)
  have tab1: "fd_t s1 (cur s1) = Some ((xs @ [int j]) @ replicate (m - 1) FILE_CLOSED)" using s1(3) cur1 upd by simp
  have nc: "FILE_CLOSED \<notin> set (xs @ [int j])" using 2(5) by (auto simp: FILE_CLOSED_def)
  have le: "length rest \<le> m - 1" using 2(6) by simp
  from 2(1) [OF rest s1(1) tab1 nc le] obtain ys where
    ys: "file_idle winv s'" "vfs_same (fs_w s1) (fs_w s')" "length ys = length rest" "FILE_CLOSED \<notin> set ys"
    "fd_t s' = (fd_t s1)(cur s1 \<mapsto> (xs @ [int j]) @ ys @ replicate (m - 1 - length rest) FILE_CLOSED)" by blast
  have "fd_t s' = (fd_t s)(cur s \<mapsto> xs @ (int j # ys) @ replicate (m - Suc (length rest)) FILE_CLOSED)"
    using ys(5) s1(3) cur1 by simp
  with ys(1-4) s1(2) nc show ?case
    by (intro exI [of _ "int j # ys"]) (auto intro: vfs_same_trans)
qed

lemma kmalloc_keeps: "winv w \<Longrightarrow> holds R w \<Longrightarrow> keeps winv R w (w\<lparr>km_n := n\<rparr>)"
  by (simp add: keeps_def winv_kmalloc holds_def vfs_same_def)

lemma file_inv_kmalloc:
  assumes "file_inv winv h x s"
  shows "file_inv winv h x (s\<lparr>fs_w := (fs_w s)\<lparr>km_n := n\<rparr>\<rparr>)"
proof -
  from assms obtain t where t: "of_t s = Some t" by (blast elim: file_invE)
  show ?thesis
    by (rule file_inv_w [OF assms t kmalloc_keeps]) (use file_invD(4) [OF assms t] in \<open>simp_all add: vok_def\<close>)
qed

text \<open>The tables before the first process: there are none.\<close>

lemma oft_create_inv:
  assumes "oft_create s = Some (Inr (), s')"
    and "file_idle winv s \<or> of_t s = None \<and> fd_t s = Map.empty \<and> vok winv (vfs_refs (fs_w s)) (fs_w s)"
  shows "file_idle winv s' \<and> fd_t s' = fd_t s \<and> vfs_same (fs_w s) (fs_w s')"
proof (cases "of_t s")
  case (Some t)
  with assms show ?thesis by (auto simp: oft_create_def)
next
  case None
  then have v: "fd_t s = Map.empty" "vok winv (vfs_refs (fs_w s)) (fs_w s)"
    using assms(2) by (auto simp: file_inv_def)
  from assms(1) None obtain n where s': "s' = s\<lparr>fs_w := (fs_w s)\<lparr>km_n := n\<rparr>,
      of_t := Some \<lparr>oft_l = Some None, openfiles = replicate OPEN_MAX None\<rparr>\<rparr>"
    by (auto simp: oft_create_def lock_create_def f_kmalloc_def kmalloc_def split: if_split_asm bool.split_asm)
  have "keeps winv (vfs_refs (fs_w s)) (fs_w s) ((fs_w s)\<lparr>km_n := n\<rparr>)"
    using v(2) by (intro kmalloc_keeps) (simp_all add: vok_def)
  then have "vok winv (vfs_refs (fs_w s)) ((fs_w s)\<lparr>km_n := n\<rparr>)" "vfs_same (fs_w s) ((fs_w s)\<lparr>km_n := n\<rparr>)"
    using v(2) by (auto intro: vok_keeps_same simp: keeps_def)
  then show ?thesis using v(1) by (simp add: file_inv_def s' fd_refs_def vfs_same_refs)
qed

lemma file_inv_new_table:
  assumes "file_inv winv h x s" "fd_t s p = None"
  shows "file_inv winv h x (s\<lparr>fd_t := (fd_t s)(p \<mapsto> replicate OPEN_MAX FILE_CLOSED)\<rparr>)"
proof -
  from assms(1) obtain t where t: "of_t s = Some t" by (blast elim: file_invE)
  note t' = file_invD [OF assms(1) t]
  have "fd_refs ((fd_t s)(p \<mapsto> replicate OPEN_MAX FILE_CLOSED)) j = fd_refs (fd_t s) j" for j
    using fd_refs_new [OF t'(5) assms(2), of "replicate OPEN_MAX FILE_CLOSED" j] by (simp add: FILE_CLOSED_def)
  with t t' show ?thesis by (auto simp: file_inv_def tab_ok_def)
qed

lemma file_table_init_inv:
  assumes "file_table_init E p0 p1 p2 s = Some (Inr (), s')" "fd_t s (cur s) = None"
    and "file_idle winv s \<or> of_t s = None \<and> fd_t s = Map.empty \<and> vok winv (vfs_refs (fs_w s)) (fs_w s)"
  shows "file_idle winv s' \<and> vfs_same (fs_w s) (fs_w s') \<and>
    (\<exists>a b c. FILE_CLOSED \<notin> {a, b, c} \<and>
       fd_t s' = (fd_t s)(cur s \<mapsto> [a, b, c] @ replicate (OPEN_MAX - 3) FILE_CLOSED))"
proof -
  let ?fs = "[(p0, O_RDONLY), (p1, O_WRONLY), (p2, O_WRONLY)]"
  from assms(1) obtain s1 n where c: "oft_create s = Some (Inr (), s1)"
    and o: "open_std E ?fs (s1\<lparr>fs_w := (fs_w s1)\<lparr>km_n := n\<rparr>, fd_t := (fd_t s1)(cur s1 \<mapsto> replicate OPEN_MAX FILE_CLOSED)\<rparr>)
      = Some (Inr (), s')"
    by (auto simp: file_table_init_def f_kmalloc_def kmalloc_def elim!: bindE split: sum.split_asm bool.split_asm)
  note i1 = oft_create_inv [OF c assms(3)]
  then have cur1: "cur s1 = cur s" by (simp add: vfs_same_def)
  let ?s2 = "s1\<lparr>fs_w := (fs_w s1)\<lparr>km_n := n\<rparr>, fd_t := (fd_t s1)(cur s1 \<mapsto> replicate OPEN_MAX FILE_CLOSED)\<rparr>"
  have i2: "file_idle winv ?s2"
    using file_inv_new_table [OF file_inv_kmalloc [OF i1 [THEN conjunct1]], of n "cur s1"] i1 assms(2) cur1 by simp
  have tab2: "fd_t ?s2 (cur ?s2) = Some ([] @ replicate OPEN_MAX FILE_CLOSED)" by simp
  have "FILE_CLOSED \<notin> set []" "length ?fs \<le> OPEN_MAX" by (simp_all add: OPEN_MAX_def)
  from open_std_inv [OF o i2 tab2 this] obtain ys where ys: "file_idle winv s'" "vfs_same (fs_w ?s2) (fs_w s')"
    "length ys = length ?fs" "FILE_CLOSED \<notin> set ys"
    "fd_t s' = (fd_t ?s2)(cur ?s2 \<mapsto> [] @ ys @ replicate (OPEN_MAX - length ?fs) FILE_CLOSED)" by blast
  from ys(3) obtain a b c where abc: "ys = [a, b, c]" by (auto simp: length_Suc_conv)
  have "fd_t s' = (fd_t s)(cur s \<mapsto> [a, b, c] @ replicate (OPEN_MAX - 3) FILE_CLOSED)"
    using ys(5) abc i1 cur1 by (simp add: numeral_3_eq_3)
  moreover have "vfs_same (fs_w s) (fs_w s')" using ys(2) i1 by (auto simp: vfs_same_def)
  ultimately show ?thesis using ys(1,4) abc by auto
qed

end

section \<open>Processes making system calls\<close>

text \<open>
  The system calls of file_syscalls.c and a process's exit, and the states that processes reach
  by making them one after the other, in any order. \<open>fn\<close> is the kernel's buffer for a file
  name and \<open>oob\<close> the memory after a descriptor table.
\<close>

datatype file_call =
    COpen vaddr u32 u32
  | CRead int vaddr u32
  | CWrite int vaddr u32
  | CClose int
  | CDup2 int int
  | CLseek int u64 int
  | CExit

primrec file_call_run ::
    "('f kern) kenv \<Rightarrow> vaddr \<Rightarrow> (nat \<Rightarrow> int) \<Rightarrow> file_call \<Rightarrow> 'f fstate \<Rightarrow> 'f fstate option" where
  "file_call_run E fn oob (COpen path flags mode) s = map_option snd (sys_open E fn path flags mode s)"
| "file_call_run E fn oob (CRead fd buf n) s = map_option snd (sys_read E fd buf n s)"
| "file_call_run E fn oob (CWrite fd buf n) s = map_option snd (sys_write E fd buf n s)"
| "file_call_run E fn oob (CClose fd) s = map_option snd (sys_close E fd s)"
| "file_call_run E fn oob (CDup2 oldfd newfd) s = map_option snd (sys_dup2 E oldfd newfd s)"
| "file_call_run E fn oob (CLseek fd pos whence) s = map_option snd (sys_lseek E fd pos whence s)"
| "file_call_run E fn oob CExit s = file_table_destroy E oob s"

definition switch_to :: "procid \<Rightarrow> tid \<Rightarrow> 'f fstate \<Rightarrow> 'f fstate" where
  "switch_to p t s = s\<lparr>fs_w := (fs_w s)\<lparr>curproc := p, curthread := t\<rparr>\<rparr>"

inductive file_reach ::
    "('f kern) kenv \<Rightarrow> vaddr \<Rightarrow> (nat \<Rightarrow> int) \<Rightarrow> 'f fstate \<Rightarrow> 'f fstate \<Rightarrow> bool" for E fn oob s0 where
  reach_start: "file_reach E fn oob s0 s0"
| reach_call: "file_reach E fn oob s0 s \<Longrightarrow> fd_t s p \<noteq> None \<Longrightarrow>
    file_call_run E fn oob c (switch_to p t s) = Some s' \<Longrightarrow> file_reach E fn oob s0 s'"

inductive_cases file_reachE: "file_reach E fn oob s0 s"

context vnode_layer
begin

lemma file_inv_switch: "file_inv winv h x s \<Longrightarrow> file_inv winv h x (switch_to p t s)"
  by (auto simp: file_inv_def switch_to_def vok_def winv_cur holds_def vfs_refs_def big_ok_def)

lemma file_inv_mach:
  assumes "file_inv winv h x s"
  shows "file_inv winv h x (s\<lparr>fs_w := (fs_w s)\<lparr>k_mach := m\<rparr>\<rparr>)"
  using assms by (auto simp: file_inv_def vok_def winv_mach holds_def vfs_refs_def big_ok_def)

lemma sys_open_inv:
  assumes inv: "file_idle winv s" and tab: "fd_t s (cur s) = Some tab"
    and ret: "sys_open E fn path fl mode s = Some (r, s')"
  shows "file_idle winv s' \<and> vfs_same (fs_w s) (fs_w s') \<and> dom (fd_t s') = dom (fd_t s)"
proof -
  obtain rc m where c: "copyinstr path fn (of_nat PATH_MAX) (k_mach (fs_w s)) = (rc, m)" by fastforce
  let ?s = "s\<lparr>fs_w := (fs_w s)\<lparr>k_mach := m\<rparr>\<rparr>"
  have inv': "file_idle winv ?s" using inv by (rule file_inv_mach)
  show ?thesis
  proof (cases rc)
    case (Inl e)
    with c ret inv' show ?thesis by (auto simp: sys_open_def vfs_same_def)
  next
    case (Inr n)
    with c ret obtain name where o: "file_open E name fl mode ?s = Some (r, s')"
      by (auto simp: sys_open_def elim!: bindE)
    then obtain rv w where v: "vfs_open E name fl mode (fs_w ?s) = Some (rv, w)"
      by (auto simp: file_open_def on_w_def elim!: bindE)
    from inv' obtain t where t: "of_t ?s = Some t" by (blast elim: file_invE)
    have tab': "fd_t ?s (cur ?s) = Some tab" using tab by simp
    from file_open_inv [OF inv' tab' t v] o tab show ?thesis
      by (fastforce simp: vfs_same_def split: sum.split_asm option.split_asm if_split_asm)
  qed
qed

lemma file_call_inv:
  assumes inv: "file_idle winv s" and tab: "fd_t s (cur s) = Some tab"
    and ret: "file_call_run E fn oob c s = Some s'"
  shows "file_idle winv s' \<and> vfs_same (fs_w s) (fs_w s') \<and> dom (fd_t s') = dom (fd_t s)"
proof (cases c)
  case (COpen path fl mode)
  with ret obtain r where "sys_open E fn path fl mode s = Some (r, s')" by auto
  then show ?thesis by (rule sys_open_inv [OF inv tab])
next
  case (CRead fd buf n)
  with ret inv file_rw_inv [OF inv tab, of fd UIO_READ buf n] show ?thesis
    by (auto simp: sys_read_def file_read_def not_less not_le split: if_split_asm)
next
  case (CWrite fd buf n)
  with ret inv file_rw_inv [OF inv tab, of fd UIO_WRITE buf n] show ?thesis
    by (auto simp: sys_write_def file_write_def not_less not_le split: if_split_asm)
next
  case (CClose fd)
  with ret tab file_close_inv [OF inv tab, of fd] show ?thesis by (auto simp: sys_close_def split: if_split_asm)
next
  case (CDup2 oldfd newfd)
  with ret tab sys_dup2_inv [OF inv tab, of oldfd newfd] show ?thesis by (auto split: if_split_asm)
next
  case (CLseek fd pos whence)
  with ret sys_lseek_inv [OF inv tab] show ?thesis by auto
next
  case CExit
  with ret tab table_destroy_loop_inv [OF inv tab, of oob "[0..<PID_MAX]"] show ?thesis
    by (auto simp: file_table_destroy_def)
qed

lemma file_reach_inv: "file_reach E fn oob s0 s \<Longrightarrow> file_idle winv s0 \<Longrightarrow> file_idle winv s"
proof (induction rule: file_reach.induct)
  case (reach_call s p c t s')
  have sw: "file_idle winv (switch_to p t s)" using reach_call by (intro file_inv_switch) simp
  obtain tab where "fd_t (switch_to p t s) (cur (switch_to p t s)) = Some tab"
    using reach_call(2) by (auto simp: switch_to_def)
  from file_call_inv [OF sw this reach_call(3)] show ?case by blast
qed simp

end

end
