(* ===== verification/File_Props.thy ===== *)
theory File_Props
  imports File_Inv
begin

text \<open>
  What the file system calls promise their callers, stated over any file systems and devices
  that keep the contract \<open>vnode_layer\<close>, and examples on the system's own devices.
\<close>

section \<open>A system to run examples on\<close>

text \<open>
  One process, with the null device as its only device, open as descriptor 0 for reading and as
  descriptors 1 and 2, which share an open file, for writing.
\<close>

definition ex_kern :: "unit kern" where
  "ex_kern = (kern0 ())\<lparr>k_fresh := 8,
     k_vn := [7 \<mapsto> \<lparr>vn_refcount = 3, vn_fs = None, vn_data = 5, vn_ops = Some Dev_vnode_ops\<rparr>],
     k_dev := [5 \<mapsto> \<lparr>d_ops = Null_devops, d_blocks = 0, d_blocksize = 1, d_devnumber = 1\<rparr>],
     knowndevs := \<lparr>arr_v = [Some \<lparr>kd_name = ''null'', kd_rawname = None, kd_device = Some 5,
       kd_vnode = 7, kd_fs = Fs_null\<rparr>, None, None, None], arr_num = 1, arr_max = 4\<rparr>\<rparr>"

definition ex_table :: file_table where
  "ex_table = \<lparr>oft_l = Some None, openfiles =
     Some \<lparr>of_vn = 7, of_am = O_RDONLY, of_rc = 1, of_os = 0\<rparr> #
     Some \<lparr>of_vn = 7, of_am = O_WRONLY, of_rc = 2, of_os = 0\<rparr> # replicate 30 None\<rparr>"

definition ex_tab :: "int list" where
  "ex_tab = 0 # 1 # 1 # replicate 29 FILE_CLOSED"

definition ex_state :: "unit fstate" where
  "ex_state = \<lparr>fs_w = ex_kern, of_t = Some ex_table, fd_t = [1 \<mapsto> ex_tab]\<rparr>"

lemma ex_elems: "array_elems (knowndevs ex_kern) =
    [\<lparr>kd_name = ''null'', kd_rawname = None, kd_device = Some 5, kd_vnode = 7, kd_fs = Fs_null\<rparr>]"
  by (simp add: ex_kern_def array_elems_def)

lemma ex_dev_inv: "dev_inv ex_kern"
proof -
  have "arr_cap 4" by (auto simp: arr_cap_def intro!: exI [of _ 2])
  then have "array_ok (knowndevs ex_kern)" by (simp add: ex_kern_def array_ok_def)
  then show ?thesis by (simp add: dev_inv_def ex_elems) (simp add: ex_kern_def kern0_def)
qed

lemma ex_refs: "vfs_refs ex_kern = {#7#}"
  by (simp add: vfs_refs_def ex_elems) (simp add: ex_kern_def kern0_def)

lemma ex_file_refs: "file_refs (openfiles ex_table) = {#7, 7#}"
  by (simp add: ex_table_def)

lemma ex_vok: "vok dev_inv {#7, 7, 7#} ex_kern"
  using ex_dev_inv by (simp add: vok_def ex_refs) (simp add: ex_kern_def kern0_def holds_def big_ok_def)

lemma ex_idle: "file_idle dev_inv ex_state"
proof -
  have len: "length (openfiles ex_table) = OPEN_MAX" by (simp add: ex_table_def OPEN_MAX_def)
  have tab: "tab_ok ex_tab" by (auto simp: tab_ok_def ex_tab_def OPEN_MAX_def)
  have "slot_ok (fd_refs [1 \<mapsto> ex_tab] j) (openfiles ex_table ! j)" if j: "j < OPEN_MAX" for j
  proof -
    consider "j = 0" | "j = 1" | k where "j = Suc (Suc k)" "k < 30"
      using j unfolding OPEN_MAX_def by (cases j; cases "j - 1") auto
    then show ?thesis
      by cases (simp_all add: fd_refs_def ex_tab_def ex_table_def FILE_CLOSED_def)
  qed
  with len tab ex_vok show ?thesis
    by (simp add: file_inv_def ex_state_def ex_refs ex_file_refs) (simp add: ex_table_def)
qed

section \<open>All calls\<close>

text \<open>
  C5. Whatever system calls processes make, in whatever order, the file tables stay exact: after
  any sequence of open, read, write, close, dup2, lseek and exit by any processes, every open
  file's reference count is the number of descriptors that name its slot, a slot is empty exactly
  when no descriptor names it, the table lock is free, and the vnodes in the table are covered by
  their reference counts.
\<close>

theorem file_calls_keep_tables:
  assumes "vnode_layer E winv" "file_idle winv s0" "file_reach E fn oob s0 s"
  shows "file_idle winv s"
  using vnode_layer.file_reach_inv [OF assms(1,3,2)] .

theorem file_calls_keep_tables_witness:
  "\<forall>E fn oob. \<exists>s. file_reach E fn oob ex_state s \<and> fd_t s 1 = Some (ex_tab[2 := FILE_CLOSED]) \<and> file_idle dev_inv s"
proof (intro allI)
  fix E :: "(unit kern) kenv" and fn oob
  have sw: "switch_to 1 1 ex_state = ex_state" by (simp add: switch_to_def ex_state_def ex_kern_def kern0_def)
  have tab: "fd_t ex_state (cur ex_state) = Some ex_tab" by (simp add: ex_state_def ex_kern_def kern0_def)
  have op: "fd_open ex_tab 2" by (simp add: fd_open_def ex_tab_def FILE_CLOSED_def OPEN_MAX_def numeral_2_eq_2)
  from devs.file_close_inv [OF ex_idle tab, where E = E and fd = 2] op obtain s where s: "file_close E 2 ex_state = Some (Inr (), s)"
    "fd_t s = (fd_t ex_state)(cur ex_state \<mapsto> ex_tab[2 := FILE_CLOSED])" by auto
  have "file_reach E fn oob ex_state s"
    by (rule reach_call [of _ _ _ _ ex_state 1 "CClose 2" 1, OF reach_start], simp add: ex_state_def)
      (simp add: sys_close_def sw [simplified] s(1))
  moreover from this have "file_idle dev_inv s"
    by (rule file_calls_keep_tables [OF devs.vnode_layer_axioms ex_idle])
  ultimately show "\<exists>s. file_reach E fn oob ex_state s \<and> fd_t s 1 = Some (ex_tab[2 := FILE_CLOSED]) \<and> file_idle dev_inv s"
    using s(2) by (auto simp: ex_state_def ex_kern_def kern0_def)
qed

section \<open>Each call\<close>

text \<open>
  C7. \<^verbatim>\<open>close\<close> always returns. It succeeds exactly on an open descriptor; it then closes
  that descriptor and no other, and drops the open file and its vnode with the last descriptor
  that names it. On anything else it is EBADF and no descriptor changes.
\<close>

theorem sys_close_correct:
  assumes "vnode_layer E winv" "file_idle winv s" "fd_t s (cur s) = Some tab"
  shows "\<exists>s'. sys_close E fd s = Some (if fd_open tab fd then Inr () else Inl EBADF, s') \<and> file_idle winv s' \<and>
    fd_t s' = (if fd_open tab fd then (fd_t s)(cur s \<mapsto> tab[nat fd := FILE_CLOSED]) else fd_t s)"
  using vnode_layer.file_close_inv [OF assms, of fd] by (auto simp: sys_close_def)

theorem sys_close_correct_witness:
  "\<forall>E. \<exists>s'. sys_close E 1 ex_state = Some (Inr (), s') \<and> fd_t s' 1 = Some (ex_tab[1 := FILE_CLOSED])"
proof
  fix E :: "(unit kern) kenv"
  have tab: "fd_t ex_state (cur ex_state) = Some ex_tab" "cur ex_state = 1"
    by (simp_all add: ex_state_def ex_kern_def kern0_def)
  have "fd_open ex_tab 1" by (simp add: fd_open_def ex_tab_def FILE_CLOSED_def OPEN_MAX_def)
  with sys_close_correct [OF devs.vnode_layer_axioms ex_idle tab(1), of E 1] tab(2)
  show "\<exists>s'. sys_close E 1 ex_state = Some (Inr (), s') \<and> fd_t s' 1 = Some (ex_tab[1 := FILE_CLOSED])"
    by auto
qed




lemma null_open:
  assumes "knowndevs s = knowndevs ex_kern" "k_dev s = k_dev ex_kern" "k_vn s 7 = Some vn" "vn_ops vn = Some Dev_vnode_ops"
    and "vn_data vn = 5" "0 < vn_refcount vn" "vfs_biglock s = None" "vfs_biglock_depth s = 0" "fl = O_RDONLY \<or> fl = O_WRONLY"
  shows "vfs_open E ''null:'' fl 0 s =
    Some (Inr 7, s\<lparr>k_vn := (k_vn s)(7 \<mapsto> vn\<lparr>vn_refcount := vn_refcount vn + 1\<rparr>)\<rparr>)"
proof -
  have items: "array_items (knowndevs ex_kern) =
      Some [\<lparr>kd_name = ''null'', kd_rawname = None, kd_device = Some 5, kd_vnode = 7, kd_fs = Fs_null\<rparr>]"
    by (simp add: array_items_def array_num_def array_get_def ex_kern_def)
  have dev: "k_dev ex_kern 5 = Some \<lparr>d_ops = Null_devops, d_blocks = 0, d_blocksize = 1, d_devnumber = 1\<rparr>"
    by (simp add: ex_kern_def)
  let ?s1 = "s\<lparr>vfs_biglock := Some (curthread s), vfs_biglock_depth := Suc 0\<rparr>"
  have "getdevice E ''null:'' ?s1 =
      Some (Inr ([], 7), ?s1\<lparr>k_vn := (k_vn s)(7 \<mapsto> vn\<lparr>vn_refcount := vn_refcount vn + 1\<rparr>)\<rparr>)"
    using assms items
    by (simp add: getdevice_def biglock_do_i_hold_iff path_colon_def path_slash_def path_sep_def vfs_getroot_def
        getroot_device_def vnode_incref_def skip_slashes_def)
  then have "vfs_lookup E ''null:'' s =
      Some (Inr 7, s\<lparr>k_vn := (k_vn s)(7 \<mapsto> vn\<lparr>vn_refcount := vn_refcount vn + 1\<rparr>)\<rparr>)"
    using assms
    by (simp add: vfs_lookup_def vfs_biglock_acquire_def lock_do_i_hold_def lock_acquire_def biglock_return_def
        vfs_biglock_release_def lock_release_def)
  then show ?thesis
    using assms dev
    by (auto simp: vfs_open_def flag_defs Let_def open_found_def VOP_EACHOPEN_def vnode_check_def vops_def
        dev_vnode_ops_def dev_eachopen_def vdev_def DEVOP_EACHOPEN_def dops_def null_devops_def nullopen_def)
qed




text \<open>
  C10. \<^verbatim>\<open>lseek\<close> on an open descriptor with a known \<^verbatim>\<open>whence\<close>: ESPIPE when the vnode is not
  seekable; otherwise the new offset is the position plus 0, the present offset or the size of
  the file, in 64 bits. If that is negative the call is EINVAL and the offset stays; if not, it
  is returned and the open file stands there.
\<close>

theorem sys_lseek_correct:
  assumes "vnode_layer E winv" "file_idle winv s" "fd_t s (cur s) = Some tab" "fd_open tab fd" "of_t s = Some t"
    and "openfiles t ! nat (tab ! nat fd) = Some f" "whence \<in> {SEEK_SET, SEEK_CUR, SEEK_END}"
  shows "sys_lseek E fd pos whence s =
    (case VOP_ISSEEKABLE E (of_vn f) (fs_w s) of
       None \<Rightarrow> None
     | Some (False, w1) \<Rightarrow> Some (Inl ESPIPE, s\<lparr>fs_w := w1\<rparr>)
     | Some (True, w1) \<Rightarrow>
         (case seek_base E f whence w1 of
            None \<Rightarrow> None
          | Some (Inl e, w2) \<Rightarrow> Some (Inl e, s\<lparr>fs_w := w2\<rparr>)
          | Some (Inr base, w2) \<Rightarrow>
              if sint (base + pos) < 0 then Some (Inl EINVAL, s\<lparr>fs_w := w2\<rparr>)
              else Some (Inr (base + pos), s\<lparr>fs_w := w2, of_t := Some (t\<lparr>openfiles := (openfiles t)
                [nat (tab ! nat fd) := Some (f\<lparr>of_os := base + pos\<rparr>)]\<rparr>)\<rparr>)))"
  by (rule vnode_layer.sys_lseek_open [OF assms(1-5) refl assms(6,7)])

theorem sys_lseek_correct_witness:
  "\<forall>E. sys_lseek E 1 10 SEEK_SET ex_state = Some (Inl ESPIPE, ex_state)"
proof
  fix E :: "(unit kern) kenv"
  have s: "fd_t ex_state (cur ex_state) = Some ex_tab" "of_t ex_state = Some ex_table" "fs_w ex_state = ex_kern"
    by (simp_all add: ex_state_def ex_kern_def kern0_def)
  have op: "fd_open ex_tab 1" by (simp add: fd_open_def ex_tab_def FILE_CLOSED_def OPEN_MAX_def)
  have f: "openfiles ex_table ! nat (ex_tab ! nat 1) = Some \<lparr>of_vn = 7, of_am = O_WRONLY, of_rc = 2, of_os = 0\<rparr>"
    by (simp add: ex_table_def ex_tab_def)
  have "VOP_ISSEEKABLE E 7 ex_kern = Some (False, ex_kern)"
    by (simp add: VOP_ISSEEKABLE_def vnode_check_def vops_def dev_vnode_ops_def dev_isseekable_def vdev_def ex_kern_def
        kern0_def)
  with sys_lseek_correct [OF devs.vnode_layer_axioms ex_idle s(1) op s(2) f, of SEEK_SET E 10] s(3)
  show "sys_lseek E 1 10 SEEK_SET ex_state = Some (Inl ESPIPE, ex_state)"
    by (simp add: ex_state_def)
qed



text \<open>
  C12. A table set up by \<^verbatim>\<open>file_table_init\<close> has exactly the descriptors 0, 1 and 2 open, in a
  system whose tables are exact, whether or not the system-wide table existed before.
\<close>

theorem file_table_init_correct:
  assumes "vnode_layer E winv" "fd_t s (cur s) = None"
    and "file_idle winv s \<or> of_t s = None \<and> fd_t s = Map.empty \<and> vok winv (vfs_refs (fs_w s)) (fs_w s)"
    and "file_table_init E in_path out_path err_path s = Some (Inr (), s')"
  shows "file_idle winv s' \<and> (\<exists>tab. fd_t s' = (fd_t s)(cur s \<mapsto> tab) \<and> (\<forall>fd. fd_open tab fd \<longleftrightarrow> fd \<in> {0, 1, 2}))"
proof -
  from vnode_layer.file_table_init_inv [OF assms(1,4,2,3)] obtain a b c where
    abc: "file_idle winv s'" "FILE_CLOSED \<notin> {a, b, c}"
      "fd_t s' = (fd_t s)(cur s \<mapsto> [a, b, c] @ replicate (OPEN_MAX - 3) FILE_CLOSED)" by blast
  have "fd_open ([a, b, c] @ replicate (OPEN_MAX - 3) FILE_CLOSED) fd \<longleftrightarrow> fd \<in> {0, 1, 2}" for fd
  proof (cases "fd < 3")
    case True
    then consider "fd < 0" | "fd = 0" | "fd = 1" | "fd = 2" by linarith
    then show ?thesis using abc(2) by cases (auto simp: fd_open_def OPEN_MAX_def)
  next
    case False
    then have "nat fd = Suc (Suc (Suc (nat (fd - 3))))" by linarith
    then show ?thesis using False by (simp add: fd_open_def OPEN_MAX_def)
  qed
  with abc show ?thesis by blast
qed

text \<open>The same process before it has a table.\<close>

definition ex_start :: "unit fstate" where
  "ex_start = \<lparr>fs_w = ex_kern\<lparr>k_vn := [7 \<mapsto> \<lparr>vn_refcount = 1, vn_fs = None, vn_data = 5, vn_ops = Some Dev_vnode_ops\<rparr>]\<rparr>,
     of_t = None, fd_t = Map.empty\<rparr>"

lemma ex_start_vok: "vok dev_inv (vfs_refs (fs_w ex_start)) (fs_w ex_start)"
proof -
  have "vfs_refs (fs_w ex_start) = {#7#}" using ex_refs by (simp add: ex_start_def vfs_refs_def ex_kern_def)
  moreover have "dev_inv (fs_w ex_start)"
    using ex_dev_inv by (simp add: dev_inv_def ex_start_def ex_kern_def)
  ultimately show ?thesis
    by (simp add: vok_def ex_start_def ex_kern_def kern0_def holds_def big_ok_def)
qed

lemma null_file_open:
  assumes "knowndevs (fs_w s) = knowndevs ex_kern" "k_dev (fs_w s) = k_dev ex_kern" "k_vn (fs_w s) 7 = Some vn"
    and "vn_ops vn = Some Dev_vnode_ops" "vn_data vn = 5" "0 < vn_refcount vn" "vfs_biglock (fs_w s) = None"
    and "vfs_biglock_depth (fs_w s) = 0" "fl = O_RDONLY \<or> fl = O_WRONLY" "km_ok (fs_w s) (km_n (fs_w s))"
    and "of_t s = Some t" "oft_l t = Some None" "length (openfiles t) = OPEN_MAX"
    and "fd_t s (cur s) = Some tab" "length tab = OPEN_MAX"
    and "first_index (\<lambda>x. x = FILE_CLOSED) tab = Some i" "first_index (\<lambda>x. x = None) (openfiles t) = Some j"
  shows "file_open E ''null:'' fl 0 s = Some (Inr (int i), s\<lparr>
      fs_w := (fs_w s)\<lparr>k_vn := (k_vn (fs_w s))(7 \<mapsto> vn\<lparr>vn_refcount := vn_refcount vn + 1\<rparr>), km_n := Suc (km_n (fs_w s))\<rparr>,
      of_t := Some (t\<lparr>openfiles := (openfiles t)[j := Some \<lparr>of_vn = 7, of_am = fl, of_rc = 1, of_os = 0\<rparr>]\<rparr>),
      fd_t := (fd_t s)(cur s \<mapsto> tab[i := int j])\<rparr>)"
  using assms first_index_less [OF assms(16)] first_index_less [OF assms(17)]
  by (simp add: file_open_def on_w_def null_open oft_acquire_def lock_acquire_def f_kmalloc_def kmalloc_def
      set_fd_entry_def set_openfile_def oft_return_def oft_release_def lock_release_def)

theorem file_table_init_correct_witness:
  "\<forall>E. \<exists>s'. file_table_init E ''null:'' ''null:'' ''null:'' ex_start = Some (Inr (), s') \<and> file_idle dev_inv s'"
proof
  fix E :: "(unit kern) kenv"
  have no: "fd_t ex_start (cur ex_start) = None" by (simp add: ex_start_def)
  have rep: "replicate 32 x = x # x # x # replicate 29 x" for x :: 'x
    by (simp add: eval_nat_numeral)
  have "\<exists>s'. file_table_init E ''null:'' ''null:'' ''null:'' ex_start = Some (Inr (), s')"
    by (simp add: file_table_init_def oft_create_def f_kmalloc_def kmalloc_def lock_create_def ex_start_def kern0_def
        ex_kern_def)
      (simp add: null_file_open ex_kern_def rep OPEN_MAX_def FILE_CLOSED_def)
  then obtain s' where s': "file_table_init E ''null:'' ''null:'' ''null:'' ex_start = Some (Inr (), s')" ..
  from file_table_init_correct [OF devs.vnode_layer_axioms no _ s'] ex_start_vok
  have "file_idle dev_inv s'" by (simp add: ex_start_def)
  with s' show "\<exists>s'. file_table_init E ''null:'' ''null:'' ''null:'' ex_start = Some (Inr (), s') \<and> file_idle dev_inv s'"
    by blast
qed

end
