(* ===== verification/Dumbvm.thy ===== *)
theory Dumbvm
  imports Kmem
begin

text \<open>
  kern/arch/mips/vm/ram.c and dumbvm.c: physical memory that is handed out from the bottom and
  never taken back, and address spaces of two regions and a stack on top of it. Addresses and
  sizes are 32-bit words, so a size near the top of the address space wraps where the code's
  does. \<open>ram\<close> holds the page frames, at the addresses of the kernel's direct window.
\<close>

unbundle bit_operations_syntax

section \<open>Machine constants (mips/vm.h, mips/tlb.h)\<close>

definition PAGE_SIZE :: u32 where "PAGE_SIZE = 4096"
definition PAGE_FRAME :: u32 where "PAGE_FRAME = 0xfffff000"
definition MIPS_KSEG0 :: u32 where "MIPS_KSEG0 = 0x80000000"
definition PADDR_TO_KVADDR :: "u32 \<Rightarrow> vaddr" where "PADDR_TO_KVADDR paddr = paddr + MIPS_KSEG0"
definition USERSTACK :: vaddr where "USERSTACK = 0x80000000"
definition DUMBVM_STACKPAGES :: u32 where "DUMBVM_STACKPAGES = 18"
definition TLBLO_DIRTY :: u32 where "TLBLO_DIRTY = 0x400"
definition TLBLO_VALID :: u32 where "TLBLO_VALID = 0x200"
definition TLBHI_INVALID :: "nat \<Rightarrow> u32" where "TLBHI_INVALID i = push_bit 12 (0x80000 + of_nat i)"
definition NUM_TLB :: nat where "NUM_TLB = 64"
definition VM_FAULT_READ :: int where "VM_FAULT_READ = 0"
definition VM_FAULT_WRITE :: int where "VM_FAULT_WRITE = 1"
definition VM_FAULT_READONLY :: int where "VM_FAULT_READONLY = 2"

section \<open>State\<close>

record addrspace =
  as_vbase1 :: u32
  as_pbase1 :: u32
  as_npages1 :: u32
  as_vbase2 :: u32
  as_pbase2 :: u32
  as_npages2 :: u32
  as_stackpbase :: u32

type_synonym asref = nat

text \<open>
  \<open>firstpaddr\<close> and \<open>lastpaddr\<close> bound the free physical memory, \<open>as_heap\<close> has the address
  spaces by address, \<open>as_next\<close> is the next unused address, and \<open>tlb\<close> has the entries of the
  TLB as pairs of words.
\<close>

record vm =
  firstpaddr :: u32
  lastpaddr :: u32
  as_heap :: "asref \<Rightarrow> addrspace option"
  as_next :: asref
  tlb :: "(u32 \<times> u32) list"
  ram :: mem

section \<open>Physical memory (ram.c)\<close>

definition ram_bootstrap :: "u32 \<Rightarrow> vaddr \<Rightarrow> vm \<Rightarrow> vm" where
  "ram_bootstrap ramsize firstfree s =
     s\<lparr>lastpaddr := (if ramsize > 512 * 1024 * 1024 then 512 * 1024 * 1024 else ramsize),
       firstpaddr := firstfree - MIPS_KSEG0\<rparr>"

definition ram_stealmem :: "u32 \<Rightarrow> vm \<Rightarrow> u32 \<times> vm" where
  "ram_stealmem npages s =
     (let size = npages * PAGE_SIZE in
      if firstpaddr s + size > lastpaddr s then (0, s)
      else (firstpaddr s, s\<lparr>firstpaddr := firstpaddr s + size\<rparr>))"

definition ram_getsize :: "vm \<Rightarrow> u32" where
  "ram_getsize s = lastpaddr s"

definition ram_getfirstfree :: "vm \<Rightarrow> u32 \<times> vm" where
  "ram_getfirstfree s = (firstpaddr s, s\<lparr>firstpaddr := 0, lastpaddr := 0\<rparr>)"

section \<open>Pages and faults (dumbvm.c)\<close>

definition getppages :: "u32 \<Rightarrow> vm \<Rightarrow> u32 \<times> vm" where
  "getppages npages s = ram_stealmem npages s"

definition alloc_kpages :: "u32 \<Rightarrow> vm \<Rightarrow> vaddr \<times> vm" where
  "alloc_kpages npages s =
     (case getppages npages s of (pa, s') \<Rightarrow> (if pa = 0 then 0 else PADDR_TO_KVADDR pa, s'))"

definition free_kpages :: "vaddr \<Rightarrow> vm \<Rightarrow> vm" where
  "free_kpages addr s = s"

text \<open>The physical address \<^verbatim>\<open>vm_fault\<close> computes for the page at \<open>faultaddress\<close>.\<close>

definition fault_paddr :: "addrspace \<Rightarrow> vaddr \<Rightarrow> u32 option" where
  "fault_paddr as faultaddress =
     (let vbase1 = as_vbase1 as;
          vtop1 = vbase1 + as_npages1 as * PAGE_SIZE;
          vbase2 = as_vbase2 as;
          vtop2 = vbase2 + as_npages2 as * PAGE_SIZE;
          stackbase = USERSTACK - DUMBVM_STACKPAGES * PAGE_SIZE;
          stacktop = USERSTACK in
      if faultaddress \<ge> vbase1 \<and> faultaddress < vtop1 then Some ((faultaddress - vbase1) + as_pbase1 as)
      else if faultaddress \<ge> vbase2 \<and> faultaddress < vtop2 then Some ((faultaddress - vbase2) + as_pbase2 as)
      else if faultaddress \<ge> stackbase \<and> faultaddress < stacktop
      then Some ((faultaddress - stackbase) + as_stackpbase as)
      else None)"

definition page_aligned :: "u32 \<Rightarrow> bool" where
  "page_aligned a \<longleftrightarrow> a AND PAGE_FRAME = a"

text \<open>The assertions \<^verbatim>\<open>vm_fault\<close> makes of the address space.\<close>

definition fault_asserts :: "addrspace \<Rightarrow> bool" where
  "fault_asserts as \<longleftrightarrow>
     as_vbase1 as \<noteq> 0 \<and> as_pbase1 as \<noteq> 0 \<and> as_npages1 as \<noteq> 0 \<and>
     as_vbase2 as \<noteq> 0 \<and> as_pbase2 as \<noteq> 0 \<and> as_npages2 as \<noteq> 0 \<and> as_stackpbase as \<noteq> 0 \<and>
     page_aligned (as_vbase1 as) \<and> page_aligned (as_pbase1 as) \<and>
     page_aligned (as_vbase2 as) \<and> page_aligned (as_pbase2 as) \<and> page_aligned (as_stackpbase as)"

text \<open>\<open>curas\<close> is the address space of the current process, null without a process.\<close>

definition vm_fault :: "asref option \<Rightarrow> int \<Rightarrow> vaddr \<Rightarrow> vm \<Rightarrow> ((errno + unit) \<times> vm) option" where
  "vm_fault curas faulttype faultaddress0 s =
     (let faultaddress = faultaddress0 AND PAGE_FRAME in
      if faulttype = VM_FAULT_READONLY then None
      else if faulttype \<noteq> VM_FAULT_READ \<and> faulttype \<noteq> VM_FAULT_WRITE then Some (Inl EINVAL, s)
      else
        case curas of
          None \<Rightarrow> Some (Inl EFAULT, s)
        | Some a \<Rightarrow>
            do { as \<leftarrow> as_heap s a;
                 kassert (fault_asserts as);
                 case fault_paddr as faultaddress of
                   None \<Rightarrow> Some (Inl EFAULT, s)
                 | Some paddr \<Rightarrow>
                     do { kassert (page_aligned paddr);
                          case first_index (\<lambda>(ehi, elo). elo AND TLBLO_VALID = 0) (tlb s) of
                            None \<Rightarrow> Some (Inl EFAULT, s)
                          | Some i \<Rightarrow>
                              Some (Inr (), s\<lparr>tlb := (tlb s)[i :=
                                (faultaddress, paddr OR TLBLO_DIRTY OR TLBLO_VALID)]\<rparr>) } })"

section \<open>Address spaces (dumbvm.c)\<close>

definition as_zero :: addrspace where
  "as_zero = \<lparr>as_vbase1 = 0, as_pbase1 = 0, as_npages1 = 0, as_vbase2 = 0, as_pbase2 = 0,
     as_npages2 = 0, as_stackpbase = 0\<rparr>"

text \<open>\<open>ok\<close> says whether \<^verbatim>\<open>kmalloc\<close> finds memory.\<close>

definition as_create :: "bool \<Rightarrow> vm \<Rightarrow> asref option \<times> vm" where
  "as_create ok s =
     (if \<not> ok then (None, s)
      else (Some (as_next s), s\<lparr>as_next := Suc (as_next s), as_heap := (as_heap s)(as_next s \<mapsto> as_zero)\<rparr>))"

definition as_destroy :: "asref \<Rightarrow> vm \<Rightarrow> vm" where
  "as_destroy a s = s\<lparr>as_heap := (as_heap s)(a := None)\<rparr>"

definition as_activate :: "asref option \<Rightarrow> vm \<Rightarrow> vm" where
  "as_activate curas s =
     (case curas of
        None \<Rightarrow> s
      | Some a \<Rightarrow> s\<lparr>tlb := map (\<lambda>i. (TLBHI_INVALID i, 0)) [0..<NUM_TLB]\<rparr>)"

definition as_deactivate :: "vm \<Rightarrow> vm" where
  "as_deactivate s = s"

definition as_define_region :: "asref \<Rightarrow> vaddr \<Rightarrow> u32 \<Rightarrow> vm \<Rightarrow> ((errno + unit) \<times> vm) option" where
  "as_define_region a vaddr0 sz0 s =
     do { as \<leftarrow> as_heap s a;
          let sz1 = sz0 + (vaddr0 AND NOT PAGE_FRAME);
              vaddr = vaddr0 AND PAGE_FRAME;
              sz = (sz1 + PAGE_SIZE - 1) AND PAGE_FRAME;
              npages = sz div PAGE_SIZE in
          if as_vbase1 as = 0
          then Some (Inr (), s\<lparr>as_heap := (as_heap s)(a \<mapsto> as\<lparr>as_vbase1 := vaddr, as_npages1 := npages\<rparr>)\<rparr>)
          else if as_vbase2 as = 0
          then Some (Inr (), s\<lparr>as_heap := (as_heap s)(a \<mapsto> as\<lparr>as_vbase2 := vaddr, as_npages2 := npages\<rparr>)\<rparr>)
          else Some (Inl ENOSYS, s) }"

definition as_zero_region :: "u32 \<Rightarrow> u32 \<Rightarrow> vm \<Rightarrow> vm option" where
  "as_zero_region paddr npages s =
     (case bzero (PADDR_TO_KVADDR paddr) (unat (npages * PAGE_SIZE)) (ram s) of
        (ok, m) \<Rightarrow> if ok then Some (s\<lparr>ram := m\<rparr>) else None)"

text \<open>The three allocations of \<^verbatim>\<open>as_prepare_load\<close>, as far as they get.\<close>

definition as_get_pages :: "addrspace \<Rightarrow> vm \<Rightarrow> bool \<times> addrspace \<times> vm" where
  "as_get_pages as s =
     (case getppages (as_npages1 as) s of (p1, s1) \<Rightarrow>
      let as1 = as\<lparr>as_pbase1 := p1\<rparr> in
      if p1 = 0 then (False, as1, s1)
      else case getppages (as_npages2 as) s1 of (p2, s2) \<Rightarrow>
      let as2 = as1\<lparr>as_pbase2 := p2\<rparr> in
      if p2 = 0 then (False, as2, s2)
      else case getppages DUMBVM_STACKPAGES s2 of (p3, s3) \<Rightarrow>
      let as3 = as2\<lparr>as_stackpbase := p3\<rparr> in
      (p3 \<noteq> 0, as3, s3))"

definition as_prepare_load :: "asref \<Rightarrow> vm \<Rightarrow> ((errno + unit) \<times> vm) option" where
  "as_prepare_load a s =
     do { as \<leftarrow> as_heap s a;
          kassert (as_pbase1 as = 0);
          kassert (as_pbase2 as = 0);
          kassert (as_stackpbase as = 0);
          let (ok, as', s1) = as_get_pages as s;
          let s2 = s1\<lparr>as_heap := (as_heap s1)(a \<mapsto> as')\<rparr>;
          if \<not> ok then Some (Inl ENOMEM, s2)
          else do { s3 \<leftarrow> as_zero_region (as_pbase1 as') (as_npages1 as') s2;
                    s4 \<leftarrow> as_zero_region (as_pbase2 as') (as_npages2 as') s3;
                    s5 \<leftarrow> as_zero_region (as_stackpbase as') DUMBVM_STACKPAGES s4;
                    Some (Inr (), s5) } }"

definition as_complete_load :: "asref \<Rightarrow> vm \<Rightarrow> (errno + unit) \<times> vm" where
  "as_complete_load a s = (Inr (), s)"

definition as_define_stack :: "asref \<Rightarrow> vm \<Rightarrow> ((errno + vaddr) \<times> vm) option" where
  "as_define_stack a s = do { as \<leftarrow> as_heap s a; kassert (as_stackpbase as \<noteq> 0); Some (Inr USERSTACK, s) }"

definition ram_move :: "u32 \<Rightarrow> u32 \<Rightarrow> u32 \<Rightarrow> vm \<Rightarrow> vm option" where
  "ram_move dst src len s =
     (case memmove (PADDR_TO_KVADDR dst) (PADDR_TO_KVADDR src) (unat len) (ram s) of
        (ok, m) \<Rightarrow> if ok then Some (s\<lparr>ram := m\<rparr>) else None)"

definition as_copy :: "bool \<Rightarrow> asref \<Rightarrow> vm \<Rightarrow> ((errno + asref) \<times> vm) option" where
  "as_copy ok old s =
     (case as_create ok s of
        (None, s1) \<Rightarrow> Some (Inl ENOMEM, s1)
      | (Some new, s1) \<Rightarrow>
          do { o' \<leftarrow> as_heap s1 old;
               let n0 = as_zero\<lparr>as_vbase1 := as_vbase1 o', as_npages1 := as_npages1 o',
                                as_vbase2 := as_vbase2 o', as_npages2 := as_npages2 o'\<rparr>;
               (r, s2) \<leftarrow> as_prepare_load new (s1\<lparr>as_heap := (as_heap s1)(new \<mapsto> n0)\<rparr>);
               case r of
                 Inl _ \<Rightarrow> Some (Inl ENOMEM, as_destroy new s2)
               | Inr _ \<Rightarrow>
                   do { n \<leftarrow> as_heap s2 new;
                        kassert (as_pbase1 n \<noteq> 0 \<and> as_pbase2 n \<noteq> 0 \<and> as_stackpbase n \<noteq> 0);
                        s3 \<leftarrow> ram_move (as_pbase1 n) (as_pbase1 o') (as_npages1 o' * PAGE_SIZE) s2;
                        s4 \<leftarrow> ram_move (as_pbase2 n) (as_pbase2 o') (as_npages2 o' * PAGE_SIZE) s3;
                        s5 \<leftarrow> ram_move (as_stackpbase n) (as_stackpbase o') (DUMBVM_STACKPAGES * PAGE_SIZE) s4;
                        Some (Inr new, s5) } })"

lemmas vm_consts = PAGE_SIZE_def PAGE_FRAME_def MIPS_KSEG0_def USERSTACK_def DUMBVM_STACKPAGES_def

section \<open>Page arithmetic\<close>

lemma page_frame_unat: "unat (a AND PAGE_FRAME) = unat a div 4096 * 4096"
proof -
  have "PAGE_FRAME = NOT (mask 12)" by (simp add: PAGE_FRAME_def mask_eq_exp_minus_1)
  then have "a AND PAGE_FRAME = push_bit 12 (drop_bit 12 a)"
    unfolding \<open>PAGE_FRAME = NOT (mask 12)\<close> by (intro bit_eqI) (auto simp: bit_simps)
  then have "unat (a AND PAGE_FRAME) = push_bit 12 (drop_bit 12 (unat a)) mod 2 ^ 32"
    using unat_u32_less [of a] by (simp add: unsigned_push_bit_eq unsigned_drop_bit_eq take_bit_eq_mod)
  also have "\<dots> = unat a div 4096 * 4096"
    using unat_u32_less [of a] by (simp add: push_bit_eq_mult drop_bit_eq_div)
  finally show ?thesis .
qed

lemma page_aligned_iff: "page_aligned a \<longleftrightarrow> 4096 dvd unat a"
proof -
  have "page_aligned a \<longleftrightarrow> unat a div 4096 * 4096 = unat a"
    unfolding page_aligned_def by (metis page_frame_unat word_unat_eq_iff)
  also have "\<dots> \<longleftrightarrow> 4096 dvd unat a" by (metis dvd_div_mult_self dvd_triv_right)
  finally show ?thesis .
qed

lemma page_offset_unat: "unat (a AND NOT PAGE_FRAME) = unat a mod 4096"
proof -
  have "NOT PAGE_FRAME = mask 12" by (simp add: PAGE_FRAME_def mask_eq_exp_minus_1)
  then have "a AND NOT PAGE_FRAME = take_bit 12 a" by (simp only: take_bit_eq_mask)
  then have "unat (a AND NOT PAGE_FRAME) = take_bit 12 (unat a)" by (simp only: unsigned_take_bit_eq)
  then show ?thesis by (simp add: take_bit_eq_mod)
qed

lemma pages_unat: "unat n * 4096 < 2 ^ 32 \<Longrightarrow> unat (n * PAGE_SIZE) = unat n * 4096"
  by (simp add: PAGE_SIZE_def unat_word_ariths)

lemma stack_unat: "unat (DUMBVM_STACKPAGES * PAGE_SIZE) = 73728"
  by (simp add: vm_consts)

text \<open>The bytes of physical memory, by physical address.\<close>

definition pbyte :: "mem \<Rightarrow> nat \<Rightarrow> byte option" where
  "pbyte m p = m (PADDR_TO_KVADDR (of_nat p))"

lemma kv_add: "PADDR_TO_KVADDR d + of_nat i = PADDR_TO_KVADDR (of_nat (unat d + i))"
  by (simp add: PADDR_TO_KVADDR_def)

lemma kv_unat:
  assumes "p < 2 ^ 31"
  shows "unat (PADDR_TO_KVADDR (of_nat p)) = p + 2 ^ 31"
proof -
  have k: "unat MIPS_KSEG0 = 2 ^ 31" by (simp add: MIPS_KSEG0_def)
  have "unat MIPS_KSEG0 + p < 2 ^ LENGTH(32)" unfolding k using assms by simp
  from unat_plus_of_nat_less [OF this] show ?thesis
    unfolding PADDR_TO_KVADDR_def k by (simp only: add.commute)
qed

lemma kv_eq_iff:
  assumes "p < 2 ^ 31" "q < 2 ^ 31"
  shows "PADDR_TO_KVADDR (of_nat p) = PADDR_TO_KVADDR (of_nat q) \<longleftrightarrow> p = q"
  using kv_unat [OF assms(1)] kv_unat [OF assms(2)] by (metis add_right_cancel)

lemma kv_region:
  assumes "p < 2 ^ 31" "unat d + n \<le> 2 ^ 31"
  shows "PADDR_TO_KVADDR (of_nat p) \<in> region (PADDR_TO_KVADDR d) n \<longleftrightarrow> p \<in> {unat d..<unat d + n}"
proof
  assume "PADDR_TO_KVADDR (of_nat p) \<in> region (PADDR_TO_KVADDR d) n"
  then obtain i where "i < n" "PADDR_TO_KVADDR (of_nat p) = PADDR_TO_KVADDR (of_nat (unat d + i))"
    by (auto simp: region_def kv_add simp del: of_nat_add)
  with assms kv_eq_iff [of p "unat d + i"] show "p \<in> {unat d..<unat d + n}" by auto
next
  assume p: "p \<in> {unat d..<unat d + n}"
  then have "PADDR_TO_KVADDR (of_nat p) = PADDR_TO_KVADDR d + of_nat (p - unat d)"
    by (simp add: kv_add del: of_nat_add of_nat_diff)
  then show "PADDR_TO_KVADDR (of_nat p) \<in> region (PADDR_TO_KVADDR d) n"
    using p region_mem [of "p - unat d" n "PADDR_TO_KVADDR d"]
    by (metis atLeastLessThan_iff add.commute less_diff_conv2)
qed

section \<open>Physical memory is handed out once\<close>

definition ram_ok :: "vm \<Rightarrow> bool" where
  "ram_ok s \<longleftrightarrow> 0 < firstpaddr s \<and> page_aligned (firstpaddr s) \<and> firstpaddr s \<le> lastpaddr s \<and>
     unat (lastpaddr s) \<le> 2 ^ 29 \<and> (\<forall>p<unat (lastpaddr s). pbyte (ram s) p \<noteq> None)"

lemma getppages_cases:
  assumes "ram_ok s" "unat n * 4096 \<le> 2 ^ 31" "getppages n s = (p, s')"
  obtains (fail) "p = 0" "s' = s" "unat (lastpaddr s) < unat (firstpaddr s) + unat n * 4096"
  | (take) "p = firstpaddr s" "p \<noteq> 0" "s' = s\<lparr>firstpaddr := firstpaddr s + n * PAGE_SIZE\<rparr>"
      "unat (firstpaddr s + n * PAGE_SIZE) = unat (firstpaddr s) + unat n * 4096"
      "unat (firstpaddr s) + unat n * 4096 \<le> unat (lastpaddr s)" "ram_ok s'"
proof -
  have first: "unat (firstpaddr s) \<le> unat (lastpaddr s)" "unat (lastpaddr s) \<le> 2 ^ 29"
    using assms(1) by (simp_all add: ram_ok_def word_le_nat_alt)
  have n: "unat (n * PAGE_SIZE) = unat n * 4096" using assms(2) by (intro pages_unat) simp
  then have sum: "unat (firstpaddr s + n * PAGE_SIZE) = unat (firstpaddr s) + unat n * 4096"
    using first assms(2) by (simp add: unat_word_ariths(1))
  show thesis
  proof (cases "firstpaddr s + n * PAGE_SIZE > lastpaddr s")
    case True
    then show thesis using fail assms(3) sum
      by (simp add: getppages_def ram_stealmem_def Let_def word_less_nat_alt)
  next
    case False
    then have le: "unat (firstpaddr s) + unat n * 4096 \<le> unat (lastpaddr s)"
      using sum by (simp add: word_less_nat_alt)
    have "firstpaddr s \<noteq> 0" using assms(1) by (auto simp: ram_ok_def)
    have pos: "0 < unat (firstpaddr s)" using assms(1) by (simp add: ram_ok_def word_less_nat_alt)
    have "page_aligned (firstpaddr s + n * PAGE_SIZE)"
      using assms(1) sum by (simp add: ram_ok_def page_aligned_iff)
    moreover have "s' = s\<lparr>firstpaddr := firstpaddr s + n * PAGE_SIZE\<rparr>" "p = firstpaddr s"
      using assms(3) False by (auto simp: getppages_def ram_stealmem_def Let_def)
    ultimately have "ram_ok s'" using sum le pos assms(1) by (simp add: ram_ok_def word_less_nat_alt word_le_nat_alt)
    with take sum le \<open>firstpaddr s \<noteq> 0\<close> \<open>s' = _\<close> \<open>p = _\<close> show thesis by simp
  qed
qed

lemma ram_ok_mapped:
  assumes "ram_ok s" "unat d + n \<le> unat (lastpaddr s)"
  shows "mapped (PADDR_TO_KVADDR d) n (ram s)"
proof -
  have "ram s (PADDR_TO_KVADDR d + of_nat i) \<noteq> None" if "i < n" for i
  proof -
    have "unat d + i < unat (lastpaddr s)" using assms(2) that by simp
    then have "pbyte (ram s) (unat d + i) \<noteq> None" using assms(1) unfolding ram_ok_def by blast
    then show ?thesis unfolding pbyte_def kv_add .
  qed
  then show ?thesis unfolding mapped_def region_def by (auto simp: domIff)
qed

lemma ram_ok_dom: "ram_ok s \<Longrightarrow> dom m = dom (ram s) \<Longrightarrow> ram_ok (s\<lparr>ram := m\<rparr>)"
proof -
  assume "ram_ok s" "dom m = dom (ram s)"
  moreover from this(2) have "pbyte m p = None \<longleftrightarrow> pbyte (ram s) p = None" for p
    unfolding pbyte_def by (metis domIff)
  ultimately show "ram_ok (s\<lparr>ram := m\<rparr>)" unfolding ram_ok_def by simp
qed

lemma ram_move_ok:
  assumes "ram_ok s" "unat d + unat len \<le> unat (lastpaddr s)" "unat e + unat len \<le> unat (lastpaddr s)"
  obtains m where "ram_move d e len s = Some (s\<lparr>ram := m\<rparr>)" "dom m = dom (ram s)"
    "\<And>i. i < unat len \<Longrightarrow> pbyte m (unat d + i) = pbyte (ram s) (unat e + i)"
    "\<And>p. p < 2 ^ 31 \<Longrightarrow> p \<notin> {unat d..<unat d + unat len} \<Longrightarrow> pbyte m p = pbyte (ram s) p"
proof -
  have top: "unat (lastpaddr s) \<le> 2 ^ 29" using assms(1) by (simp add: ram_ok_def)
  have bound: "unat (PADDR_TO_KVADDR a) + unat len \<le> 2 ^ 32" if "unat a + unat len \<le> unat (lastpaddr s)" for a
    using that top kv_unat [of "unat a"] by simp
  from memmove_spec [OF ram_ok_mapped [OF assms(1,3)] ram_ok_mapped [OF assms(1,2)] bound [OF assms(3)] bound [OF assms(2)]]
  obtain m where m: "memmove (PADDR_TO_KVADDR d) (PADDR_TO_KVADDR e) (unat len) (ram s) = (True, m)" "dom m = dom (ram s)"
    "\<forall>i<unat len. m (PADDR_TO_KVADDR d + of_nat i) = ram s (PADDR_TO_KVADDR e + of_nat i)"
    "\<forall>a. a \<notin> region (PADDR_TO_KVADDR d) (unat len) \<longrightarrow> m a = ram s a" by blast
  show thesis
  proof (rule that)
    show "ram_move d e len s = Some (s\<lparr>ram := m\<rparr>)" using m(1) by (simp add: ram_move_def)
    show "pbyte m (unat d + i) = pbyte (ram s) (unat e + i)" if "i < unat len" for i
      using m(3) [rule_format, OF that] unfolding pbyte_def kv_add .
    show "pbyte m p = pbyte (ram s) p" if "p < 2 ^ 31" "p \<notin> {unat d..<unat d + unat len}" for p
    proof -
      have "unat d + unat len \<le> 2 ^ 31" using assms(2) top by simp
      with kv_region [OF that(1)] that(2) m(4) show ?thesis unfolding pbyte_def by blast
    qed
  qed (rule m(2))
qed

lemma as_zero_region_ok:
  assumes "ram_ok s" "unat n * 4096 \<le> 2 ^ 31" "unat d + unat n * 4096 \<le> unat (lastpaddr s)"
  obtains m where "as_zero_region d n s = Some (s\<lparr>ram := m\<rparr>)" "dom m = dom (ram s)"
    "\<And>i. i < unat n * 4096 \<Longrightarrow> pbyte m (unat d + i) = Some 0"
    "\<And>p. p < 2 ^ 31 \<Longrightarrow> p \<notin> {unat d..<unat d + unat n * 4096} \<Longrightarrow> pbyte m p = pbyte (ram s) p"
proof -
  have top: "unat (lastpaddr s) \<le> 2 ^ 29" using assms(1) by (simp add: ram_ok_def)
  have n: "unat (n * PAGE_SIZE) = unat n * 4096" using assms(2) by (intro pages_unat) simp
  note map = ram_ok_mapped [OF assms(1,3)]
  from bzero_spec [OF map] top assms(3) obtain m where
    m: "bzero (PADDR_TO_KVADDR d) (unat n * 4096) (ram s) = (True, m)"
    "\<forall>i<unat n * 4096. m (PADDR_TO_KVADDR d + of_nat i) = Some 0"
    "\<forall>a. a \<notin> region (PADDR_TO_KVADDR d) (unat n * 4096) \<longrightarrow> m a = ram s a" by auto
  have "dom m = dom (ram s)"
  proof (intro set_eqI)
    fix a show "a \<in> dom m \<longleftrightarrow> a \<in> dom (ram s)"
    proof (cases "a \<in> region (PADDR_TO_KVADDR d) (unat n * 4096)")
      case True
      then have "m a \<noteq> None" using m(2) unfolding region_def by fastforce
      with True map show ?thesis unfolding mapped_def by blast
    next
      case False
      with m(3) show ?thesis by (simp add: domIff)
    qed
  qed
  moreover have "as_zero_region d n s = Some (s\<lparr>ram := m\<rparr>)" using m(1) n by (simp add: as_zero_region_def)
  moreover have "pbyte m (unat d + i) = Some 0" if "i < unat n * 4096" for i
    using m(2) [rule_format, OF that] unfolding pbyte_def kv_add .
  moreover have "pbyte m p = pbyte (ram s) p" if "p < 2 ^ 31" "p \<notin> {unat d..<unat d + unat n * 4096}" for p
  proof -
    have "unat d + unat n * 4096 \<le> 2 ^ 31" using assms(3) top by simp
    with kv_region [OF that(1)] that(2) m(3) show ?thesis unfolding pbyte_def by blast
  qed
  ultimately show thesis using that by blast
qed

end
