(* ===== verification/Dumbvm_Inv.thy ===== *)
theory Dumbvm_Inv
  imports Dumbvm
begin

text \<open>
  The invariant of the virtual memory system: every byte of physical memory belongs to at most
  one part (two regions and a stack) of one address space. All operations keep it, and it gives
  the isolation of processes from each other.
\<close>

section \<open>The physical memory of an address space\<close>

text \<open>An address space has three parts: the two regions and the stack.\<close>

fun as_base :: "addrspace \<Rightarrow> nat \<Rightarrow> u32" where
  "as_base as 0 = as_pbase1 as"
| "as_base as (Suc 0) = as_pbase2 as"
| "as_base as _ = as_stackpbase as"

fun as_size :: "addrspace \<Rightarrow> nat \<Rightarrow> nat" where
  "as_size as 0 = unat (as_npages1 as) * 4096"
| "as_size as (Suc 0) = unat (as_npages2 as) * 4096"
| "as_size as _ = 73728"

fun as_set_base :: "nat \<Rightarrow> u32 \<Rightarrow> addrspace \<Rightarrow> addrspace" where
  "as_set_base 0 p as = as\<lparr>as_pbase1 := p\<rparr>"
| "as_set_base (Suc 0) p as = as\<lparr>as_pbase2 := p\<rparr>"
| "as_set_base _ p as = as\<lparr>as_stackpbase := p\<rparr>"

definition as_bytes :: "addrspace \<Rightarrow> nat \<Rightarrow> nat set" where
  "as_bytes as k = (if as_base as k = 0 then {} else {unat (as_base as k)..<unat (as_base as k) + as_size as k})"

lemma parts_cases:
  assumes "k < (3::nat)"
  obtains "k = 0" | "k = Suc 0" | "k = Suc (Suc 0)"
  using assms by (auto simp: numeral_3_eq_3 less_Suc_eq)

lemma as_set_base_simps [simp]:
  "k < 3 \<Longrightarrow> l < 3 \<Longrightarrow> as_base (as_set_base k p as) l = (if l = k then p else as_base as l)"
  "k < 3 \<Longrightarrow> as_size (as_set_base k p as) l = as_size as l"
  "k < 3 \<Longrightarrow> as_vbase1 (as_set_base k p as) = as_vbase1 as"
  "k < 3 \<Longrightarrow> as_vbase2 (as_set_base k p as) = as_vbase2 as"
  "k < 3 \<Longrightarrow> as_npages1 (as_set_base k p as) = as_npages1 as"
  "k < 3 \<Longrightarrow> as_npages2 (as_set_base k p as) = as_npages2 as"
  by (auto elim!: parts_cases) (cases "(as, l)" rule: as_size.cases; simp)+

text \<open>Both regions lie in user space and begin on a page.\<close>

definition as_virt :: "addrspace \<Rightarrow> bool" where
  "as_virt as \<longleftrightarrow> page_aligned (as_vbase1 as) \<and> page_aligned (as_vbase2 as) \<and>
     unat (as_vbase1 as) + unat (as_npages1 as) * 4096 \<le> 2 ^ 31 \<and>
     unat (as_vbase2 as) + unat (as_npages2 as) * 4096 \<le> 2 ^ 31"

definition as_wf :: "u32 \<Rightarrow> addrspace \<Rightarrow> bool" where
  "as_wf lim as \<longleftrightarrow> as_virt as \<and>
     (\<forall>k<3. page_aligned (as_base as k) \<and> as_bytes as k \<subseteq> {..<unat lim}) \<and>
     (\<forall>k<3. \<forall>l<3. k \<noteq> l \<longrightarrow> as_bytes as k \<inter> as_bytes as l = {})"

definition vm_ok :: "vm \<Rightarrow> bool" where
  "vm_ok s \<longleftrightarrow> ram_ok s \<and>
     (\<forall>a as. as_heap s a = Some as \<longrightarrow> a < as_next s \<and> as_wf (firstpaddr s) as) \<and>
     (\<forall>a b as bs k l. as_heap s a = Some as \<longrightarrow> as_heap s b = Some bs \<longrightarrow> a \<noteq> b \<longrightarrow> k < 3 \<longrightarrow> l < 3 \<longrightarrow>
        as_bytes as k \<inter> as_bytes bs l = {})"

lemma vm_okD:
  assumes "vm_ok s"
  shows "ram_ok s" "as_heap s a = Some as \<Longrightarrow> a < as_next s" "as_heap s a = Some as \<Longrightarrow> as_wf (firstpaddr s) as"
    "as_heap s a = Some as \<Longrightarrow> as_heap s b = Some bs \<Longrightarrow> a \<noteq> b \<Longrightarrow> k < 3 \<Longrightarrow> l < 3 \<Longrightarrow> as_bytes as k \<inter> as_bytes bs l = {}"
  using assms unfolding vm_ok_def by blast+

lemma vm_ok_ram: "vm_ok s \<Longrightarrow> dom m = dom (ram s) \<Longrightarrow> vm_ok (s\<lparr>ram := m\<rparr>)"
  using ram_ok_dom unfolding vm_ok_def by simp

lemma vm_ok_tlb: "vm_ok (s\<lparr>tlb := t\<rparr>) = vm_ok s"
  by (simp add: vm_ok_def ram_ok_def)

text \<open>Putting an address space that owns no memory of another one at an address.\<close>

lemma vm_ok_put:
  assumes "vm_ok s" "a < as_next s" "as_wf (firstpaddr s) n"
    and "\<And>b bs k l. as_heap s b = Some bs \<Longrightarrow> b \<noteq> a \<Longrightarrow> k < 3 \<Longrightarrow> l < 3 \<Longrightarrow> as_bytes n k \<inter> as_bytes bs l = {}"
  shows "vm_ok (s\<lparr>as_heap := (as_heap s)(a \<mapsto> n)\<rparr>)"
  unfolding vm_ok_def
proof (intro conjI allI impI)
  show "ram_ok (s\<lparr>as_heap := (as_heap s)(a \<mapsto> n)\<rparr>)" using vm_okD(1) [OF assms(1)] by (simp add: ram_ok_def)
next
  fix b bs assume "as_heap (s\<lparr>as_heap := (as_heap s)(a \<mapsto> n)\<rparr>) b = Some bs"
  then show "b < as_next (s\<lparr>as_heap := (as_heap s)(a \<mapsto> n)\<rparr>)"
    "as_wf (firstpaddr (s\<lparr>as_heap := (as_heap s)(a \<mapsto> n)\<rparr>)) bs"
    using assms(2,3) vm_okD(2,3) [OF assms(1), of b] by (auto split: if_splits)
next
  fix b c bs cs k l
  assume "as_heap (s\<lparr>as_heap := (as_heap s)(a \<mapsto> n)\<rparr>) b = Some bs"
    "as_heap (s\<lparr>as_heap := (as_heap s)(a \<mapsto> n)\<rparr>) c = Some cs" "b \<noteq> c" "k < (3::nat)" "l < (3::nat)"
  then show "as_bytes bs k \<inter> as_bytes cs l = {}"
    using assms(4) [of c cs k l] assms(4) [of b bs l k] vm_okD(4) [OF assms(1), of b bs c cs k l]
    by (auto split: if_splits)
qed

lemma as_wf_unbased: "as_virt as \<Longrightarrow> (\<And>k. k < 3 \<Longrightarrow> as_base as k = 0) \<Longrightarrow> as_wf lim as"
  by (simp add: as_wf_def as_bytes_def page_aligned_def)

lemma as_zero_base [simp]: "as_base as_zero k = 0"
  by (cases "(as_zero, k)" rule: as_base.cases) (simp_all add: as_zero_def)

section \<open>Every operation keeps it\<close>

lemma as_create_vm_ok:
  assumes "vm_ok s" "as_create ok s = (r, s')"
  shows "vm_ok s'"
proof (cases ok)
  case True
  let ?s = "s\<lparr>as_next := Suc (as_next s)\<rparr>"
  have v: "vm_ok ?s" using assms(1) unfolding vm_ok_def ram_ok_def by (auto dest: less_SucI)
  have "as_wf (firstpaddr ?s) as_zero"
    by (rule as_wf_unbased) (simp_all add: as_virt_def, simp_all add: as_zero_def page_aligned_def)
  from vm_ok_put [OF v _ this, of "as_next s"]
  have "vm_ok (?s\<lparr>as_heap := (as_heap s)(as_next s \<mapsto> as_zero)\<rparr>)" by (simp add: as_bytes_def)
  with assms(2) True show ?thesis by (auto simp: as_create_def)
qed (use assms in \<open>simp add: as_create_def\<close>)

lemma as_destroy_vm_ok: "vm_ok s \<Longrightarrow> vm_ok (as_destroy a s)"
  unfolding vm_ok_def by (auto simp: as_destroy_def ram_ok_def split: if_splits)

text \<open>The size of a region, rounded up to pages.\<close>

lemma define_size:
  fixes v sz :: u32
  assumes "unat v + unat sz \<le> 2 ^ 31"
  defines "n \<equiv> ((sz + (v AND NOT PAGE_FRAME) + PAGE_SIZE - 1) AND PAGE_FRAME) div PAGE_SIZE"
  shows "unat n = (unat sz + unat v mod 4096 + 4095) div 4096"
    "unat (v AND PAGE_FRAME) + unat n * 4096 \<le> 2 ^ 31"
proof -
  have a: "unat (sz + (v AND NOT PAGE_FRAME)) = unat sz + unat v mod 4096"
    using assms(1) mod_less_eq_dividend [of "unat v" 4096] by (simp add: unat_word_ariths(1) page_offset_unat)
  have "unat (sz + (v AND NOT PAGE_FRAME) + 4095) = unat sz + unat v mod 4096 + 4095"
    using assms(1) mod_less_eq_dividend [of "unat v" 4096]
    by (subst unat_word_ariths(1), subst a) simp
  then have b: "unat (sz + (v AND NOT PAGE_FRAME) + PAGE_SIZE - 1) = unat sz + unat v mod 4096 + 4095"
    by (simp add: PAGE_SIZE_def add_diff_eq [symmetric] del: add_diff_eq)
  then show *: "unat n = (unat sz + unat v mod 4096 + 4095) div 4096"
    unfolding n_def unat_div page_frame_unat b by (simp add: PAGE_SIZE_def)
  have "unat v = unat v div 4096 * 4096 + unat v mod 4096" by simp
  moreover have "(unat sz + unat v mod 4096 + 4095) div 4096 * 4096 \<le> unat sz + unat v mod 4096 + 4095"
    by (rule div_times_less_eq_dividend)
  ultimately have "unat v div 4096 * 4096 + unat n * 4096 < 2 ^ 31 + 4096"
    unfolding * using assms(1) by linarith
  then have "(unat v div 4096 + unat n) * 4096 < (2 ^ 19 + 1) * 4096" by (simp add: algebra_simps)
  then have "unat v div 4096 + unat n \<le> 2 ^ 19" by simp
  then show "unat (v AND PAGE_FRAME) + unat n * 4096 \<le> 2 ^ 31" by (simp add: page_frame_unat)
qed

lemma page_frame_aligned: "page_aligned (v AND PAGE_FRAME)"
  by (simp add: page_aligned_iff page_frame_unat)

lemma as_define_region_vm_ok:
  assumes "vm_ok s" "as_define_region a v sz s = Some (r, s')" "as_heap s a = Some as"
    and "as_pbase1 as = 0" "as_pbase2 as = 0" "unat v + unat sz \<le> 2 ^ 31"
  shows "vm_ok s'"
proof -
  note wf = vm_okD(3) [OF assms(1,3)]
  let ?v = "v AND PAGE_FRAME" and ?n = "((sz + (v AND NOT PAGE_FRAME) + PAGE_SIZE - 1) AND PAGE_FRAME) div PAGE_SIZE"
  have bytes: "as_bytes n k = as_bytes as k"
    if "n = as\<lparr>as_vbase1 := ?v, as_npages1 := ?n\<rparr> \<or> n = as\<lparr>as_vbase2 := ?v, as_npages2 := ?n\<rparr>" "k < 3" for n k
    using that(2) by (rule parts_cases) (use that(1) assms(4,5) in \<open>auto simp: as_bytes_def\<close>)
  have base: "as_base n k = as_base as k"
    if "n = as\<lparr>as_vbase1 := ?v, as_npages1 := ?n\<rparr> \<or> n = as\<lparr>as_vbase2 := ?v, as_npages2 := ?n\<rparr>" "k < 3" for n k
    using that(2) by (rule parts_cases) (use that(1) in auto)
  have put: "vm_ok (s\<lparr>as_heap := (as_heap s)(a \<mapsto> n)\<rparr>)"
    if n: "n = as\<lparr>as_vbase1 := ?v, as_npages1 := ?n\<rparr> \<or> n = as\<lparr>as_vbase2 := ?v, as_npages2 := ?n\<rparr>" for n
  proof (rule vm_ok_put [OF assms(1)])
    show "a < as_next s" by (rule vm_okD(2) [OF assms(1,3)])
    have "as_virt n"
      using n wf define_size(2) [OF assms(6)] page_frame_aligned by (auto simp: as_wf_def as_virt_def)
    then show "as_wf (firstpaddr s) n" using wf bytes [OF n] base [OF n] by (simp add: as_wf_def)
    show "as_bytes n k \<inter> as_bytes bs l = {}" if "as_heap s b = Some bs" "b \<noteq> a" "k < 3" "l < 3" for b bs k l
      using vm_okD(4) [OF assms(1,3) that(1)] that bytes [OF n] by simp
  qed
  show ?thesis
    using assms(1,2,3) put by (auto simp: as_define_region_def Let_def split: if_splits)
qed

text \<open>Allocating one part of an address space that has none yet.\<close>

lemma alloc_part_vm_ok:
  assumes "vm_ok s" "as_heap s a = Some as" "k < 3" "as_base as k = 0" "unat n * 4096 = as_size as k"
    and "getppages n s = (p, s')"
  shows "vm_ok (s'\<lparr>as_heap := (as_heap s)(a \<mapsto> as_set_base k p as)\<rparr>)" (is "vm_ok ?s")
proof -
  note wf = vm_okD(3) [OF assms(1,2)]
  have "as_size as k \<le> 2 ^ 31" using wf assms(3) by (auto simp: as_wf_def as_virt_def elim: parts_cases)
  then have size: "unat n * 4096 \<le> 2 ^ 31" using assms(5) by simp
  have set0: "as_set_base k 0 as = as" using assms(3,4) by (auto elim!: parts_cases)
  from vm_okD(1) [OF assms(1)] size assms(6) show ?thesis
  proof (cases rule: getppages_cases)
    case fail
    with set0 assms(1,2) show ?thesis by (simp add: map_upd_triv)
  next
    case take
    have le: "unat (firstpaddr s) \<le> unat (firstpaddr s')" using take(3,4) by simp
    have grow: "as_wf (firstpaddr s) bs \<Longrightarrow> as_wf (firstpaddr s') bs" for bs
      using le unfolding as_wf_def by (meson lessThan_subset_iff order_trans)
    have v': "vm_ok s'"
      using assms(1) take(3,6) grow unfolding vm_ok_def by (auto simp: take(3))
    have heap: "as_heap s' = as_heap s" using take(3) by simp
    have new: "as_bytes (as_set_base k p as) k = {unat (firstpaddr s)..<unat (firstpaddr s')}"
      using take(1,2,3,4) assms(3,5) by (simp add: as_bytes_def)
    have old: "as_bytes (as_set_base k p as) l = as_bytes as l" if "l < 3" "l \<noteq> k" for l
      using that assms(3) by (simp add: as_bytes_def)
    have below: "as_bytes bs l \<subseteq> {..<unat (firstpaddr s)}" if "as_heap s b = Some bs" "l < 3" for b bs l
      using vm_okD(3) [OF assms(1) that(1)] that(2) by (simp add: as_wf_def)
    have wf': "as_wf (firstpaddr s') (as_set_base k p as)"
      unfolding as_wf_def
    proof (intro conjI allI impI)
      show "as_virt (as_set_base k p as)" using wf assms(3) by (simp add: as_wf_def as_virt_def)
      fix l assume l: "l < (3::nat)"
      show "page_aligned (as_base (as_set_base k p as) l)"
        using wf l assms(3) take(1) vm_okD(1) [OF assms(1)] by (simp add: as_wf_def ram_ok_def)
      show "as_bytes (as_set_base k p as) l \<subseteq> {..<unat (firstpaddr s')}"
        using new old [OF l] below [OF assms(2) l] le by (cases "l = k") auto
      fix m assume m: "m < (3::nat)" "l \<noteq> m"
      show "as_bytes (as_set_base k p as) l \<inter> as_bytes (as_set_base k p as) m = {}"
      proof (cases "l \<noteq> k \<and> m \<noteq> k")
        case True
        with wf l m old [OF l] old [OF m(1)] show ?thesis by (simp add: as_wf_def)
      next
        case False
        have "{unat (firstpaddr s)..<unat (firstpaddr s')} \<inter> {..<unat (firstpaddr s)} = {}" by auto
        with False new old [OF l] old [OF m(1)] below [OF assms(2) l] below [OF assms(2) m(1)] m(2) show ?thesis
          by blast
      qed
    qed
    have "a < as_next s'" using vm_okD(2) [OF assms(1,2)] take(3) by simp
    moreover have "as_bytes (as_set_base k p as) l \<inter> as_bytes bs m = {}"
      if "as_heap s' b = Some bs" "b \<noteq> a" "l < 3" "m < 3" for b bs l m
      using new old [OF that(3)] below [of b bs m] vm_okD(4) [OF assms(1,2), of b bs l m] that heap
      by (cases "l = k") auto
    ultimately show ?thesis using vm_ok_put [OF v' _ wf'] heap by simp
  qed
qed

text \<open>All three parts: what \<^verbatim>\<open>as_prepare_load\<close> allocates.\<close>

lemma getppages_heap:
  "getppages n (s\<lparr>as_heap := h\<rparr>) = (case getppages n s of (p, s') \<Rightarrow> (p, s'\<lparr>as_heap := h\<rparr>))"
  by (simp add: getppages_def ram_stealmem_def Let_def)

lemma getppages_same_heap: "getppages n s = (p, s') \<Longrightarrow> as_heap s' = as_heap s \<and> as_next s' = as_next s \<and> ram s' = ram s \<and> lastpaddr s' = lastpaddr s"
  by (auto simp: getppages_def ram_stealmem_def Let_def split: if_splits)

lemma as_get_pages_vm_ok:
  assumes "vm_ok s" "as_heap s a = Some as" "as_pbase1 as = 0" "as_pbase2 as = 0" "as_stackpbase as = 0"
    and "as_get_pages as s = (ok, as', s')"
  shows "vm_ok (s'\<lparr>as_heap := (as_heap s)(a \<mapsto> as')\<rparr>)" "as_heap s' = as_heap s" "as_next s' = as_next s"
    "ram s' = ram s" "lastpaddr s' = lastpaddr s"
    "ok \<Longrightarrow> as_pbase1 as' \<noteq> 0 \<and> as_pbase2 as' \<noteq> 0 \<and> as_stackpbase as' \<noteq> 0"
    "as_vbase1 as' = as_vbase1 as \<and> as_vbase2 as' = as_vbase2 as \<and> as_npages1 as' = as_npages1 as \<and> as_npages2 as' = as_npages2 as"
proof -
  have sz: "unat DUMBVM_STACKPAGES * 4096 = 73728" by (simp add: DUMBVM_STACKPAGES_def)
  obtain p1 s1 where g1: "getppages (as_npages1 as) s = (p1, s1)" by (cases "getppages (as_npages1 as) s")
  let ?as1 = "as\<lparr>as_pbase1 := p1\<rparr>"
  let ?s1 = "s1\<lparr>as_heap := (as_heap s)(a \<mapsto> ?as1)\<rparr>"
  have v1: "vm_ok ?s1" using alloc_part_vm_ok [OF assms(1,2), of 0 "as_npages1 as" p1 s1] g1 assms(3) by simp
  obtain p2 s2 where g2: "getppages (as_npages2 as) s1 = (p2, s2)" by (cases "getppages (as_npages2 as) s1")
  let ?as2 = "?as1\<lparr>as_pbase2 := p2\<rparr>"
  let ?s2 = "s2\<lparr>as_heap := (as_heap s)(a \<mapsto> ?as2)\<rparr>"
  have v2: "vm_ok ?s2"
    using alloc_part_vm_ok [OF v1, of a ?as1 "Suc 0" "as_npages2 as"] g2 assms(4) by (simp add: getppages_heap)
  obtain p3 s3 where g3: "getppages DUMBVM_STACKPAGES s2 = (p3, s3)" by (cases "getppages DUMBVM_STACKPAGES s2")
  let ?as3 = "?as2\<lparr>as_stackpbase := p3\<rparr>"
  let ?s3 = "s3\<lparr>as_heap := (as_heap s)(a \<mapsto> ?as3)\<rparr>"
  have v3: "vm_ok ?s3"
    using alloc_part_vm_ok [OF v2, of a ?as2 "Suc (Suc 0)" DUMBVM_STACKPAGES] g3 assms(5) sz by (simp add: getppages_heap)
  note same = getppages_same_heap [OF g1] getppages_same_heap [OF g2] getppages_same_heap [OF g3]
  have cases: "(as' = ?as1 \<and> s' = s1 \<and> \<not> ok) \<or> (as' = ?as2 \<and> s' = s2 \<and> \<not> ok) \<or>
      (as' = ?as3 \<and> s' = s3 \<and> (ok \<longrightarrow> p1 \<noteq> 0 \<and> p2 \<noteq> 0 \<and> p3 \<noteq> 0))"
    using assms(6) g1 g2 g3 by (auto simp: as_get_pages_def Let_def split: if_splits)
  show "vm_ok (s'\<lparr>as_heap := (as_heap s)(a \<mapsto> as')\<rparr>)" using cases v1 v2 v3 by auto
  show "as_heap s' = as_heap s" "as_next s' = as_next s" "ram s' = ram s" "lastpaddr s' = lastpaddr s"
    using cases same by auto
  show "ok \<Longrightarrow> as_pbase1 as' \<noteq> 0 \<and> as_pbase2 as' \<noteq> 0 \<and> as_stackpbase as' \<noteq> 0"
    "as_vbase1 as' = as_vbase1 as \<and> as_vbase2 as' = as_vbase2 as \<and> as_npages1 as' = as_npages1 as \<and> as_npages2 as' = as_npages2 as"
    using cases by auto
qed

lemma stack_pages: "unat DUMBVM_STACKPAGES * 4096 = 73728"
  by (simp add: DUMBVM_STACKPAGES_def)

text \<open>It succeeds exactly when there is room for all three.\<close>

lemma as_get_pages_ok_iff:
  assumes "ram_ok s" "as_virt as"
  shows "fst (as_get_pages as s) \<longleftrightarrow>
    unat (firstpaddr s) + as_size as 0 + as_size as 1 + as_size as 2 \<le> unat (lastpaddr s)"
proof -
  have sz: "unat (as_npages1 as) * 4096 \<le> 2 ^ 31" "unat (as_npages2 as) * 4096 \<le> 2 ^ 31"
    "unat DUMBVM_STACKPAGES * 4096 \<le> 2 ^ 31"
    using assms(2) by (simp_all add: as_virt_def DUMBVM_STACKPAGES_def)
  have two: "as_size as 2 = unat DUMBVM_STACKPAGES * 4096" by (simp add: numeral_2_eq_2 stack_pages)
  obtain p1 s1 where g1: "getppages (as_npages1 as) s = (p1, s1)" by (cases "getppages (as_npages1 as) s")
  from assms(1) sz(1) g1 show ?thesis
  proof (cases rule: getppages_cases)
    case fail
    with g1 show ?thesis by (simp add: as_get_pages_def)
  next
    case t1: take
    obtain p2 s2 where g2: "getppages (as_npages2 as) s1 = (p2, s2)" by (cases "getppages (as_npages2 as) s1")
    from t1(6) sz(2) g2 show ?thesis
    proof (cases rule: getppages_cases)
      case fail
      with g1 g2 t1 show ?thesis by (simp add: as_get_pages_def Let_def)
    next
      case t2: take
      obtain p3 s3 where g3: "getppages DUMBVM_STACKPAGES s2 = (p3, s3)" by (cases "getppages DUMBVM_STACKPAGES s2")
      from t2(6) sz(3) g3 show ?thesis
      proof (cases rule: getppages_cases)
        case fail
        with g1 g2 g3 t1 t2 two show ?thesis by (simp add: as_get_pages_def Let_def)
      next
        case take
        with g1 g2 g3 t1 t2 two show ?thesis by (simp add: as_get_pages_def Let_def)
      qed
    qed
  qed
qed

text \<open>A part that is allocated lies in memory.\<close>

lemma part_bounds:
  assumes "vm_ok s" "as_heap s a = Some as" "k < 3" "as_base as k \<noteq> 0"
  shows "as_size as k \<le> 2 ^ 31" "unat (as_base as k) + as_size as k \<le> unat (lastpaddr s) \<or> as_size as k = 0"
proof -
  note wf = vm_okD(3) [OF assms(1,2)] and r = vm_okD(1) [OF assms(1)]
  show "as_size as k \<le> 2 ^ 31" using wf assms(3) by (auto simp: as_wf_def as_virt_def elim: parts_cases)
  have "as_bytes as k \<subseteq> {..<unat (firstpaddr s)}" using wf assms(3) by (simp add: as_wf_def)
  moreover have "as_bytes as k = {unat (as_base as k)..<unat (as_base as k) + as_size as k}"
    using assms(4) by (simp add: as_bytes_def)
  moreover have "unat (firstpaddr s) \<le> unat (lastpaddr s)" using r by (simp add: ram_ok_def word_le_nat_alt)
  ultimately show "unat (as_base as k) + as_size as k \<le> unat (lastpaddr s) \<or> as_size as k = 0"
    by (auto simp: ivl_subset lessThan_atLeast0)
qed

section \<open>Loading and copying\<close>

text \<open>Zeroing and copying a part touch the bytes of that part only.\<close>

lemma zero_part:
  assumes "vm_ok s" "as_heap s a = Some as" "k < 3" "as_base as k \<noteq> 0" "unat n * 4096 = as_size as k"
  obtains m where "as_zero_region (as_base as k) n s = Some (s\<lparr>ram := m\<rparr>)" "dom m = dom (ram s)"
    "\<And>p. p \<in> as_bytes as k \<Longrightarrow> pbyte m p = Some 0"
    "\<And>p. p < 2 ^ 31 \<Longrightarrow> p \<notin> as_bytes as k \<Longrightarrow> pbyte m p = pbyte (ram s) p"
proof (cases "as_size as k = 0")
  case True
  with assms(5) have n0: "n = 0" by (simp add: word_unat_eq_iff)
  have "s\<lparr>ram := ram s\<rparr> = s" by simp
  moreover have "as_zero_region (as_base as k) n s = Some s"
    unfolding n0 as_zero_region_def bzero_def by (simp add: sizeof_long_def)
  moreover have "as_bytes as k = {}" using True by (simp add: as_bytes_def)
  ultimately show thesis using that [of "ram s"] True by simp
next
  case False
  note b = part_bounds [OF assms(1-4)]
  obtain m where m: "as_zero_region (as_base as k) n s = Some (s\<lparr>ram := m\<rparr>)" "dom m = dom (ram s)"
    "\<And>i. i < unat n * 4096 \<Longrightarrow> pbyte m (unat (as_base as k) + i) = Some 0"
    "\<And>p. p < 2 ^ 31 \<Longrightarrow> p \<notin> {unat (as_base as k)..<unat (as_base as k) + unat n * 4096} \<Longrightarrow> pbyte m p = pbyte (ram s) p"
    using as_zero_region_ok [OF vm_okD(1) [OF assms(1)], of n "as_base as k"] b False unfolding assms(5) by blast
  have bytes: "as_bytes as k = {unat (as_base as k)..<unat (as_base as k) + unat n * 4096}"
    using assms(4,5) by (simp add: as_bytes_def)
  have "pbyte m p = Some 0" if "p \<in> as_bytes as k" for p
    using m(3) [of "p - unat (as_base as k)"] that unfolding bytes by auto
  with m(1,2,4) bytes that show thesis by blast
qed

lemma move_part:
  assumes "vm_ok s" "as_heap s a = Some as" "as_heap s b = Some bs" "k < 3"
    and "as_base as k \<noteq> 0" "as_base bs k \<noteq> 0" "unat len = as_size as k" "as_size bs k = as_size as k"
  obtains m where "ram_move (as_base as k) (as_base bs k) len s = Some (s\<lparr>ram := m\<rparr>)" "dom m = dom (ram s)"
    "\<And>i. i < as_size as k \<Longrightarrow> pbyte m (unat (as_base as k) + i) = pbyte (ram s) (unat (as_base bs k) + i)"
    "\<And>p. p < 2 ^ 31 \<Longrightarrow> p \<notin> as_bytes as k \<Longrightarrow> pbyte m p = pbyte (ram s) p"
proof (cases "as_size as k = 0")
  case True
  with assms(7) have n0: "len = 0" by (simp add: word_unat_eq_iff)
  have "s\<lparr>ram := ram s\<rparr> = s" by simp
  moreover have "ram_move (as_base as k) (as_base bs k) len s = Some s"
    unfolding n0 ram_move_def memmove_def memcpy_def by (simp add: sizeof_long_def)
  moreover have "as_bytes as k = {}" using True by (simp add: as_bytes_def)
  ultimately show thesis using that [of "ram s"] True by simp
next
  case False
  then have b: "unat (as_base as k) + unat len \<le> unat (lastpaddr s)" "unat (as_base bs k) + unat len \<le> unat (lastpaddr s)"
    using part_bounds(2) [OF assms(1,2,4,5)] part_bounds(2) [OF assms(1,3,4,6)] assms(7,8) by auto
  have bytes: "as_bytes as k = {unat (as_base as k)..<unat (as_base as k) + unat len}"
    using assms(5,7) by (simp add: as_bytes_def)
  obtain m where "ram_move (as_base as k) (as_base bs k) len s = Some (s\<lparr>ram := m\<rparr>)" "dom m = dom (ram s)"
    "\<And>i. i < unat len \<Longrightarrow> pbyte m (unat (as_base as k) + i) = pbyte (ram s) (unat (as_base bs k) + i)"
    "\<And>p. p < 2 ^ 31 \<Longrightarrow> p \<notin> {unat (as_base as k)..<unat (as_base as k) + unat len} \<Longrightarrow> pbyte m p = pbyte (ram s) p"
    using ram_move_ok [OF vm_okD(1) [OF assms(1)] b] by blast
  then show thesis using that bytes assms(7) by simp
qed

text \<open>The bytes of an address space's parts lie below half of the address range.\<close>

lemma bytes_below:
  assumes "vm_ok s" "as_heap s a = Some as" "k < 3" "p \<in> as_bytes as k"
  shows "p < 2 ^ 31"
proof -
  have "p < unat (firstpaddr s)" using vm_okD(3) [OF assms(1,2)] assms(3,4) by (auto simp: as_wf_def)
  moreover have "unat (firstpaddr s) \<le> 2 ^ 29"
    using vm_okD(1) [OF assms(1)] by (auto simp: ram_ok_def word_le_nat_alt)
  ultimately show ?thesis by simp
qed

text \<open>
  Three writes to memory, one for each part of an address space, each of which gives the bytes
  of its part the values \<open>f\<close> and leaves all others alone: together they give every part its
  values.
\<close>

lemma three_writes:
  assumes "as_wf lim n" "\<And>k p. k < 3 \<Longrightarrow> p \<in> as_bytes n k \<Longrightarrow> p < 2 ^ 31"
    and "\<And>p. p \<in> as_bytes n 0 \<Longrightarrow> pbyte m1 p = f p" "\<And>p. p < 2 ^ 31 \<Longrightarrow> p \<notin> as_bytes n 0 \<Longrightarrow> pbyte m1 p = pbyte m0 p"
    and "\<And>p. p \<in> as_bytes n (Suc 0) \<Longrightarrow> pbyte m2 p = f p" "\<And>p. p < 2 ^ 31 \<Longrightarrow> p \<notin> as_bytes n (Suc 0) \<Longrightarrow> pbyte m2 p = pbyte m1 p"
    and "\<And>p. p \<in> as_bytes n (Suc (Suc 0)) \<Longrightarrow> pbyte m3 p = f p"
      "\<And>p. p < 2 ^ 31 \<Longrightarrow> p \<notin> as_bytes n (Suc (Suc 0)) \<Longrightarrow> pbyte m3 p = pbyte m2 p"
  shows "k < 3 \<Longrightarrow> p \<in> as_bytes n k \<Longrightarrow> pbyte m3 p = f p"
    "p < 2 ^ 31 \<Longrightarrow> (\<And>k. k < 3 \<Longrightarrow> p \<notin> as_bytes n k) \<Longrightarrow> pbyte m3 p = pbyte m0 p"
proof -
  assume k: "k < 3" "p \<in> as_bytes n k"
  have "p \<notin> as_bytes n l" if "l < 3" "l \<noteq> k" for l
    using assms(1) k that unfolding as_wf_def by blast
  then show "pbyte m3 p = f p"
    using k(1) k(2) assms(2) [OF k] assms(3,5,7) assms(4,6,8) [of p] by (elim parts_cases) auto
next
  assume "p < 2 ^ 31" "\<And>k. k < 3 \<Longrightarrow> p \<notin> as_bytes n k"
  then show "pbyte m3 p = pbyte m0 p" using assms(4,6,8) by simp
qed

definition as_loaded :: "addrspace \<Rightarrow> bool" where
  "as_loaded as \<longleftrightarrow> as_pbase1 as \<noteq> 0 \<and> as_pbase2 as \<noteq> 0 \<and> as_stackpbase as \<noteq> 0"

lemma as_loaded_base: "as_loaded as \<longleftrightarrow> (\<forall>k<3. as_base as k \<noteq> 0)"
  by (auto simp: as_loaded_def numeral_3_eq_3 less_Suc_eq)

lemma as_prepare_load_result:
  assumes "vm_ok s" "as_heap s a = Some as" "as_pbase1 as = 0" "as_pbase2 as = 0" "as_stackpbase as = 0"
  obtains (nomem) s' where "as_prepare_load a s = Some (Inl ENOMEM, s')" "vm_ok s'" "ram s' = ram s" "as_next s' = as_next s"
      "\<And>b. b \<noteq> a \<Longrightarrow> as_heap s' b = as_heap s b"
      "unat (lastpaddr s) < unat (firstpaddr s) + as_size as 0 + as_size as 1 + as_size as 2"
  | (loaded) as' s' where "as_prepare_load a s = Some (Inr (), s')" "vm_ok s'" "as_heap s' = (as_heap s)(a \<mapsto> as')"
      "as_loaded as'" "as_vbase1 as' = as_vbase1 as" "as_vbase2 as' = as_vbase2 as" "as_npages1 as' = as_npages1 as"
      "as_npages2 as' = as_npages2 as" "\<And>k p. k < 3 \<Longrightarrow> p \<in> as_bytes as' k \<Longrightarrow> pbyte (ram s') p = Some 0"
      "\<And>b bs k p. as_heap s b = Some bs \<Longrightarrow> b \<noteq> a \<Longrightarrow> k < 3 \<Longrightarrow> p \<in> as_bytes bs k \<Longrightarrow> pbyte (ram s') p = pbyte (ram s) p"
      "as_next s' = as_next s"
      "unat (firstpaddr s) + as_size as 0 + as_size as 1 + as_size as 2 \<le> unat (lastpaddr s)"
proof -
  obtain ok as' s1 where g: "as_get_pages as s = (ok, as', s1)" by (metis prod_cases3)
  have "as_virt as" using vm_okD(3) [OF assms(1,2)] by (simp add: as_wf_def)
  note room = as_get_pages_ok_iff [OF vm_okD(1) [OF assms(1)] this, unfolded g fst_conv]
  note P = as_get_pages_vm_ok [OF assms g]
  let ?s2 = "s1\<lparr>as_heap := (as_heap s)(a \<mapsto> as')\<rparr>"
  have body: "as_prepare_load a s =
      (if \<not> ok then Some (Inl ENOMEM, ?s2)
       else do { s3 \<leftarrow> as_zero_region (as_pbase1 as') (as_npages1 as') ?s2;
                 s4 \<leftarrow> as_zero_region (as_pbase2 as') (as_npages2 as') s3;
                 s5 \<leftarrow> as_zero_region (as_stackpbase as') DUMBVM_STACKPAGES s4; Some (Inr (), s5) })"
    using assms(2-5) g P(2) by (simp add: as_prepare_load_def)
  show thesis
  proof (cases ok)
    case False
    then have "unat (lastpaddr s) < unat (firstpaddr s) + as_size as 0 + as_size as 1 + as_size as 2" using room by linarith
    with body P nomem False show thesis by simp
  next
    case True
    have ld: "as_loaded as'" using P(6) [OF True] by (simp add: as_loaded_def)
    then have nz: "as_base as' k \<noteq> 0" if "k < 3" for k using that by (simp add: as_loaded_base)
    have h: "as_heap ?s2 a = Some as'" by simp
    obtain m1 where m1: "as_zero_region (as_pbase1 as') (as_npages1 as') ?s2 = Some (?s2\<lparr>ram := m1\<rparr>)" "dom m1 = dom (ram ?s2)"
      "\<And>p. p \<in> as_bytes as' 0 \<Longrightarrow> pbyte m1 p = Some 0"
      "\<And>p. p < 2 ^ 31 \<Longrightarrow> p \<notin> as_bytes as' 0 \<Longrightarrow> pbyte m1 p = pbyte (ram ?s2) p"
      using zero_part [OF P(1) h, of 0 "as_npages1 as'"] nz [of 0] by auto
    let ?s3 = "?s2\<lparr>ram := m1\<rparr>"
    have v3: "vm_ok ?s3" using vm_ok_ram [OF P(1)] m1(2) by simp
    obtain m2 where m2: "as_zero_region (as_pbase2 as') (as_npages2 as') ?s3 = Some (?s3\<lparr>ram := m2\<rparr>)" "dom m2 = dom (ram ?s3)"
      "\<And>p. p \<in> as_bytes as' (Suc 0) \<Longrightarrow> pbyte m2 p = Some 0"
      "\<And>p. p < 2 ^ 31 \<Longrightarrow> p \<notin> as_bytes as' (Suc 0) \<Longrightarrow> pbyte m2 p = pbyte (ram ?s3) p"
      using zero_part [OF v3, of a as' "Suc 0" "as_npages2 as'"] nz [of "Suc 0"] by auto
    let ?s4 = "?s3\<lparr>ram := m2\<rparr>"
    have v4: "vm_ok ?s4" using vm_ok_ram [OF v3] m2(2) by simp
    obtain m3 where m3: "as_zero_region (as_stackpbase as') DUMBVM_STACKPAGES ?s4 = Some (?s4\<lparr>ram := m3\<rparr>)" "dom m3 = dom (ram ?s4)"
      "\<And>p. p \<in> as_bytes as' (Suc (Suc 0)) \<Longrightarrow> pbyte m3 p = Some 0"
      "\<And>p. p < 2 ^ 31 \<Longrightarrow> p \<notin> as_bytes as' (Suc (Suc 0)) \<Longrightarrow> pbyte m3 p = pbyte (ram ?s4) p"
      using zero_part [OF v4, of a as' "Suc (Suc 0)" DUMBVM_STACKPAGES] nz [of "Suc (Suc 0)"] stack_pages by auto
    let ?s5 = "?s4\<lparr>ram := m3\<rparr>"
    have v5: "vm_ok ?s5" using vm_ok_ram [OF v4] m3(2) by simp
    note W = three_writes [where n = as' and f = "\<lambda>_. Some 0" and ?m0.0 = "ram s",
        OF vm_okD(3) [OF P(1) h] bytes_below [OF P(1) h] m1(3) _ m2(3) _ m3(3)]
    have frame: "pbyte m3 p = pbyte (ram s) p" if "p < 2 ^ 31" "\<And>k. k < 3 \<Longrightarrow> p \<notin> as_bytes as' k" for p
      by (rule W(2)) (use m1(4) m2(4) m3(4) P(4) that in simp_all)
    have zero: "pbyte m3 p = Some 0" if "k < 3" "p \<in> as_bytes as' k" for k p
      by (rule W(1)) (use m1(4) m2(4) m3(4) P(4) that in simp_all)
    have other: "pbyte m3 p = pbyte (ram s) p" if "as_heap s b = Some bs" "b \<noteq> a" "k < 3" "p \<in> as_bytes bs k" for b bs k p
    proof (rule frame)
      show "p < 2 ^ 31" using bytes_below [OF assms(1) that(1,3,4)] .
      show "p \<notin> as_bytes as' l" if "l < 3" for l
        using vm_okD(4) [OF P(1) h, of b bs l k] \<open>as_heap s b = Some bs\<close> \<open>b \<noteq> a\<close> \<open>k < 3\<close> \<open>p \<in> as_bytes bs k\<close> that by auto
    qed
    have "as_prepare_load a s = Some (Inr (), ?s5)" using body True m1(1) m2(1) m3(1) by simp
    with loaded [of ?s5 as'] v5 ld P(3,7) zero other True room show thesis by simp
  qed
qed

text \<open>Copying an address space.\<close>

lemma move_parts:
  assumes "vm_ok t" "as_heap t new = Some n" "as_heap t old = Some os" "new \<noteq> old" "as_loaded n" "as_loaded os"
    and "as_npages1 n = as_npages1 os" "as_npages2 n = as_npages2 os"
  obtains m where "do { s3 \<leftarrow> ram_move (as_pbase1 n) (as_pbase1 os) (as_npages1 os * PAGE_SIZE) t;
        s4 \<leftarrow> ram_move (as_pbase2 n) (as_pbase2 os) (as_npages2 os * PAGE_SIZE) s3;
        ram_move (as_stackpbase n) (as_stackpbase os) (DUMBVM_STACKPAGES * PAGE_SIZE) s4 } = Some (t\<lparr>ram := m\<rparr>)"
    "dom m = dom (ram t)"
    "\<And>k i. k < 3 \<Longrightarrow> i < as_size os k \<Longrightarrow> pbyte m (unat (as_base n k) + i) = pbyte (ram t) (unat (as_base os k) + i)"
    "\<And>b bs k p. as_heap t b = Some bs \<Longrightarrow> b \<noteq> new \<Longrightarrow> k < 3 \<Longrightarrow> p \<in> as_bytes bs k \<Longrightarrow> pbyte m p = pbyte (ram t) p"
proof -
  have nz: "as_base n k \<noteq> 0" "as_base os k \<noteq> 0" "as_size os k = as_size n k" if "k < 3" for k
    using that assms(5-8) by (auto simp: as_loaded_base elim!: parts_cases)
  have "as_virt os" using vm_okD(3) [OF assms(1,3)] by (simp add: as_wf_def)
  then have len: "unat (as_npages1 os * PAGE_SIZE) = as_size n 0" "unat (as_npages2 os * PAGE_SIZE) = as_size n (Suc 0)"
    "unat (DUMBVM_STACKPAGES * PAGE_SIZE) = as_size n (Suc (Suc 0))"
    using assms(7,8) pages_unat [of "as_npages1 os"] pages_unat [of "as_npages2 os"] stack_unat by (simp_all add: as_virt_def)
  note mv = move_part [where a = new and b = old and as = n and bs = os]
  obtain m1 where m1: "ram_move (as_pbase1 n) (as_pbase1 os) (as_npages1 os * PAGE_SIZE) t = Some (t\<lparr>ram := m1\<rparr>)"
    "dom m1 = dom (ram t)" "\<And>i. i < as_size n 0 \<Longrightarrow> pbyte m1 (unat (as_base n 0) + i) = pbyte (ram t) (unat (as_base os 0) + i)"
    "\<And>p. p < 2 ^ 31 \<Longrightarrow> p \<notin> as_bytes n 0 \<Longrightarrow> pbyte m1 p = pbyte (ram t) p"
    using mv [of t 0 "as_npages1 os * PAGE_SIZE", OF assms(1-3)] nz [of 0] len(1) by auto
  let ?t1 = "t\<lparr>ram := m1\<rparr>"
  have w1: "vm_ok ?t1" using vm_ok_ram [OF assms(1) m1(2)] .
  obtain m2 where m2: "ram_move (as_pbase2 n) (as_pbase2 os) (as_npages2 os * PAGE_SIZE) ?t1 = Some (?t1\<lparr>ram := m2\<rparr>)"
    "dom m2 = dom (ram ?t1)" "\<And>i. i < as_size n (Suc 0) \<Longrightarrow> pbyte m2 (unat (as_base n (Suc 0)) + i) = pbyte m1 (unat (as_base os (Suc 0)) + i)"
    "\<And>p. p < 2 ^ 31 \<Longrightarrow> p \<notin> as_bytes n (Suc 0) \<Longrightarrow> pbyte m2 p = pbyte m1 p"
    using mv [of ?t1 "Suc 0" "as_npages2 os * PAGE_SIZE", OF w1] assms(2,3) nz [of "Suc 0"] len(2) by auto
  let ?t2 = "?t1\<lparr>ram := m2\<rparr>"
  have w2: "vm_ok ?t2" using vm_ok_ram [OF w1 m2(2)] .
  obtain m3 where m3: "ram_move (as_stackpbase n) (as_stackpbase os) (DUMBVM_STACKPAGES * PAGE_SIZE) ?t2 = Some (?t2\<lparr>ram := m3\<rparr>)"
    "dom m3 = dom (ram ?t2)" "\<And>i. i < as_size n (Suc (Suc 0)) \<Longrightarrow> pbyte m3 (unat (as_base n (Suc (Suc 0))) + i) = pbyte m2 (unat (as_base os (Suc (Suc 0))) + i)"
    "\<And>p. p < 2 ^ 31 \<Longrightarrow> p \<notin> as_bytes n (Suc (Suc 0)) \<Longrightarrow> pbyte m3 p = pbyte m2 p"
    using mv [of ?t2 "Suc (Suc 0)" "DUMBVM_STACKPAGES * PAGE_SIZE", OF w2] assms(2,3) nz [of "Suc (Suc 0)"] len(3) by auto
  have apart: "p < 2 ^ 31 \<and> (\<forall>l<3. p \<notin> as_bytes n l)"
    if "as_heap t b = Some bs" "b \<noteq> new" "k < 3" "p \<in> as_bytes bs k" for b bs k p
    using bytes_below [OF assms(1) that(1,3,4)] vm_okD(4) [OF assms(1,2) that(1)] that by blast
  have src: "pbyte (ram t) (unat (as_base os k) + i) = pbyte m1 (unat (as_base os k) + i) \<and>
      pbyte m1 (unat (as_base os k) + i) = pbyte m2 (unat (as_base os k) + i)" if "k < 3" "i < as_size n k" for k i
  proof -
    have "unat (as_base os k) + i \<in> as_bytes os k" using that nz(2,3) [OF that(1)] by (simp add: as_bytes_def)
    from apart [OF assms(3) assms(4) [symmetric] that(1) this] m1(4) m2(4) show ?thesis by simp
  qed
  define f where "f p = (if p \<in> as_bytes n 0 then pbyte (ram t) (unat (as_base os 0) + (p - unat (as_base n 0)))
    else if p \<in> as_bytes n (Suc 0) then pbyte (ram t) (unat (as_base os (Suc 0)) + (p - unat (as_base n (Suc 0))))
    else pbyte (ram t) (unat (as_base os (Suc (Suc 0))) + (p - unat (as_base n (Suc (Suc 0))))))" for p
  have disj: "k < 3 \<Longrightarrow> l < 3 \<Longrightarrow> k \<noteq> l \<Longrightarrow> p \<in> as_bytes n k \<Longrightarrow> p \<notin> as_bytes n l" for k l p
    using vm_okD(3) [OF assms(1,2)] unfolding as_wf_def by blast
  have split: "p \<in> as_bytes n k \<Longrightarrow> k < 3 \<Longrightarrow> \<exists>i<as_size n k. p = unat (as_base n k) + i" for p k
    using nz(1) [of k] by (auto simp: as_bytes_def intro!: exI [of _ "p - unat (as_base n k)"])
  have f: "f (unat (as_base n k) + i) = pbyte (ram t) (unat (as_base os k) + i)" if "k < 3" "i < as_size n k" for k i
  proof -
    have "unat (as_base n k) + i \<in> as_bytes n k" using that nz(1) by (simp add: as_bytes_def)
    then show ?thesis using that(1) disj [of k 0] disj [of k "Suc 0"] by (elim parts_cases) (simp_all add: f_def)
  qed
  have p1: "p \<in> as_bytes n 0 \<Longrightarrow> pbyte m1 p = f p" for p
    using split [of p 0] m1(3) f [of 0] by auto
  have p2: "p \<in> as_bytes n (Suc 0) \<Longrightarrow> pbyte m2 p = f p" for p
    using split [of p "Suc 0"] m2(3) f [of "Suc 0"] src [of "Suc 0"] by auto
  have p3: "p \<in> as_bytes n (Suc (Suc 0)) \<Longrightarrow> pbyte m3 p = f p" for p
    using split [of p "Suc (Suc 0)"] m3(3) f [of "Suc (Suc 0)"] src [of "Suc (Suc 0)"] by auto
  note W = three_writes [where n = n and f = f and ?m0.0 = "ram t", OF vm_okD(3) [OF assms(1,2)]
      bytes_below [OF assms(1,2)] p1 m1(4) p2 m2(4) p3 m3(4)]
  have W1: "pbyte m3 p = f p" if "k < 3" "p \<in> as_bytes n k" for k p
    by (rule W(1) [where k = k]) (use that in auto)
  have W2: "pbyte m3 p = pbyte (ram t) p" if "p < 2 ^ 31" "\<forall>k<3. p \<notin> as_bytes n k" for p
    by (rule W(2)) (use that in auto)
  show thesis
  proof (rule that [of m3])
    show "pbyte m3 (unat (as_base n k) + i) = pbyte (ram t) (unat (as_base os k) + i)" if "k < 3" "i < as_size os k" for k i
    proof -
      have i: "i < as_size n k" using that nz(3) by simp
      have "unat (as_base n k) + i \<in> as_bytes n k" using that(1) i nz(1) by (simp add: as_bytes_def)
      from W1 [OF that(1) this] f [OF that(1) i] show ?thesis by simp
    qed
    show "pbyte m3 p = pbyte (ram t) p" if "as_heap t b = Some bs" "b \<noteq> new" "k < 3" "p \<in> as_bytes bs k" for b bs k p
      using apart [OF that] W2 by blast
  qed (use m1(1,2) m2(1,2) m3(1,2) in simp_all)
qed

lemma as_copy_result:
  assumes "vm_ok s" "as_heap s old = Some os" "as_loaded os"
  obtains (nomem) s' where "as_copy ok old s = Some (Inl ENOMEM, s')" "vm_ok s'" "ram s' = ram s"
      "\<And>b bs. as_heap s b = Some bs \<Longrightarrow> as_heap s' b = Some bs"
      "ok \<Longrightarrow> unat (lastpaddr s) < unat (firstpaddr s) + as_size os 0 + as_size os 1 + as_size os 2"
  | (copied) n s' where "as_copy ok old s = Some (Inr (as_next s), s')" "vm_ok s'" "as_heap s (as_next s) = None"
      "as_heap s' = (as_heap s)(as_next s \<mapsto> n)" "as_loaded n"
      "as_vbase1 n = as_vbase1 os" "as_vbase2 n = as_vbase2 os" "as_npages1 n = as_npages1 os" "as_npages2 n = as_npages2 os"
      "\<And>k i. k < 3 \<Longrightarrow> i < as_size os k \<Longrightarrow>
         pbyte (ram s') (unat (as_base n k) + i) = pbyte (ram s) (unat (as_base os k) + i)"
      "\<And>b bs k p. as_heap s b = Some bs \<Longrightarrow> k < 3 \<Longrightarrow> p \<in> as_bytes bs k \<Longrightarrow> pbyte (ram s') p = pbyte (ram s) p"
      "ok" "unat (firstpaddr s) + as_size os 0 + as_size os 1 + as_size os 2 \<le> unat (lastpaddr s)"
proof (cases ok)
  case False
  then show thesis using nomem [of s] assms(1) by (simp add: as_copy_def as_create_def)
next
  case True
  define new where "new = as_next s"
  define s1 where "s1 = s\<lparr>as_next := Suc new, as_heap := (as_heap s)(new \<mapsto> as_zero)\<rparr>"
  have cr: "as_create ok s = (Some new, s1)" using True by (simp add: as_create_def s1_def new_def)
  have v1: "vm_ok s1" using as_create_vm_ok [OF assms(1) cr] .
  have on: "old \<noteq> new" using vm_okD(2) [OF assms(1,2)] by (simp add: new_def)
  have o1: "as_heap s1 old = Some os" using assms(2) on by (simp add: s1_def)
  have fresh: "as_heap s new = None" using vm_okD(2) [OF assms(1), of new] by (cases "as_heap s new") (auto simp: new_def)
  define n0 where "n0 = as_zero\<lparr>as_vbase1 := as_vbase1 os, as_npages1 := as_npages1 os,
    as_vbase2 := as_vbase2 os, as_npages2 := as_npages2 os\<rparr>"
  define s2 where "s2 = s1\<lparr>as_heap := (as_heap s1)(new \<mapsto> n0)\<rparr>"
  have n0: "as_base n0 k = 0" if "k < 3" for k using that by (rule parts_cases) (simp_all add: n0_def as_zero_def)
  have v2: "vm_ok s2"
    unfolding s2_def
  proof (rule vm_ok_put [OF v1])
    show "new < as_next s1" by (simp add: s1_def)
    have "as_virt n0" using vm_okD(3) [OF v1 o1] by (simp add: as_wf_def as_virt_def n0_def)
    with n0 show "as_wf (firstpaddr s1) n0" by (rule as_wf_unbased [rotated])
  qed (simp add: as_bytes_def n0)
  have h2: "as_heap s2 new = Some n0" by (simp add: s2_def)
  have body: "as_copy ok old s = do { (r, t) \<leftarrow> as_prepare_load new s2;
      case r of Inl _ \<Rightarrow> Some (Inl ENOMEM, as_destroy new t)
      | Inr _ \<Rightarrow> do { n \<leftarrow> as_heap t new; kassert (as_pbase1 n \<noteq> 0 \<and> as_pbase2 n \<noteq> 0 \<and> as_stackpbase n \<noteq> 0);
          s3 \<leftarrow> ram_move (as_pbase1 n) (as_pbase1 os) (as_npages1 os * PAGE_SIZE) t;
          s4 \<leftarrow> ram_move (as_pbase2 n) (as_pbase2 os) (as_npages2 os * PAGE_SIZE) s3;
          s5 \<leftarrow> ram_move (as_stackpbase n) (as_stackpbase os) (DUMBVM_STACKPAGES * PAGE_SIZE) s4;
          Some (Inr new, s5) } }"
    using cr o1 by (simp add: as_copy_def n0_def s2_def)
  note out_of_memory = nomem
  have pz: "as_pbase1 n0 = 0" "as_pbase2 n0 = 0" "as_stackpbase n0 = 0" by (simp_all add: n0_def as_zero_def)
  from v2 h2 pz show thesis
  proof (cases rule: as_prepare_load_result)
    case (nomem t)
    have "as_heap (as_destroy new t) b = Some bs" if "as_heap s b = Some bs" for b bs
    proof -
      have "b \<noteq> new" using that fresh by auto
      with that nomem(5) show ?thesis by (simp add: as_destroy_def s2_def s1_def)
    qed
    moreover have "unat (lastpaddr s) < unat (firstpaddr s) + as_size os 0 + as_size os 1 + as_size os 2"
      using nomem(6) by (simp add: s2_def s1_def n0_def numeral_2_eq_2)
    ultimately show thesis
      using body nomem(1,3) out_of_memory [of "as_destroy new t"] as_destroy_vm_ok [OF nomem(2)]
      by (simp add: as_destroy_def s2_def s1_def)
  next
    case (loaded n t)
    have hn: "as_heap t new = Some n" and ho: "as_heap t old = Some os"
      using loaded(3) on o1 by (simp_all add: s2_def)
    have lay: "as_vbase1 n = as_vbase1 os" "as_vbase2 n = as_vbase2 os" "as_npages1 n = as_npages1 os" "as_npages2 n = as_npages2 os"
      using loaded(5-8) by (simp_all add: n0_def)
    obtain m where m: "do { s3 \<leftarrow> ram_move (as_pbase1 n) (as_pbase1 os) (as_npages1 os * PAGE_SIZE) t;
        s4 \<leftarrow> ram_move (as_pbase2 n) (as_pbase2 os) (as_npages2 os * PAGE_SIZE) s3;
        ram_move (as_stackpbase n) (as_stackpbase os) (DUMBVM_STACKPAGES * PAGE_SIZE) s4 } = Some (t\<lparr>ram := m\<rparr>)"
      "dom m = dom (ram t)"
      "\<And>k i. k < 3 \<Longrightarrow> i < as_size os k \<Longrightarrow> pbyte m (unat (as_base n k) + i) = pbyte (ram t) (unat (as_base os k) + i)"
      "\<And>b bs k p. as_heap t b = Some bs \<Longrightarrow> b \<noteq> new \<Longrightarrow> k < 3 \<Longrightarrow> p \<in> as_bytes bs k \<Longrightarrow> pbyte m p = pbyte (ram t) p"
      using move_parts [OF loaded(2) hn ho on [symmetric] loaded(4) assms(3) lay(3,4)] by blast
    let ?t3 = "t\<lparr>ram := m\<rparr>"
    have w3: "vm_ok ?t3" using vm_ok_ram [OF loaded(2) m(2)] .
    have run: "as_copy ok old s = Some (Inr new, ?t3)"
      using body loaded(1,4) hn m(1) by (auto simp: as_loaded_def elim!: bindE)
    have keep: "pbyte (ram t) p = pbyte (ram s) p \<and> pbyte m p = pbyte (ram s) p"
      if b: "as_heap s b = Some bs" "k < 3" "p \<in> as_bytes bs k" for b bs k p
    proof -
      have bn: "b \<noteq> new" using b(1) fresh by auto
      have hb: "as_heap t b = Some bs" "as_heap s2 b = Some bs" using b(1) bn loaded(3) by (simp_all add: s2_def s1_def)
      show ?thesis using loaded(10) [OF hb(2) bn b(2,3)] m(4) [OF hb(1) bn b(2,3)] by (simp add: s2_def s1_def)
    qed
    have bytes: "pbyte m (unat (as_base n k) + i) = pbyte (ram s) (unat (as_base os k) + i)"
      if k: "k < 3" "i < as_size os k" for k i
    proof -
      have "unat (as_base os k) + i \<in> as_bytes os k" using k assms(3) by (simp add: as_bytes_def as_loaded_base)
      with keep [OF assms(2) k(1)] m(3) [OF k] show ?thesis by simp
    qed
    have room: "unat (firstpaddr s) + as_size os 0 + as_size os 1 + as_size os 2 \<le> unat (lastpaddr s)"
      using loaded(12) by (simp add: s2_def s1_def n0_def numeral_2_eq_2)
    have "as_heap ?t3 = (as_heap s)(as_next s \<mapsto> n)" using loaded(3) by (simp add: s2_def s1_def new_def)
    with copied [of ?t3 n] run w3 loaded(4) lay bytes keep fresh room True show thesis by (simp add: new_def)
  qed
qed

end
