(* ===== verification/Dumbvm_Props.thy ===== *)
theory Dumbvm_Props
  imports Dumbvm_Inv
begin

text \<open>
  What the virtual memory system promises: processes are isolated from each other in every
  state it can reach, a copied address space has the contents of the old one, and a fault
  enters the translation the address space defines.
\<close>

section \<open>Translation\<close>

text \<open>The part of an address space a page lies in, and its offset there.\<close>

definition fault_slot :: "addrspace \<Rightarrow> vaddr \<Rightarrow> (nat \<times> nat) option" where
  "fault_slot as va =
     (if unat (as_vbase1 as) \<le> unat va \<and> unat va < unat (as_vbase1 as) + as_size as 0
      then Some (0, unat va - unat (as_vbase1 as))
      else if unat (as_vbase2 as) \<le> unat va \<and> unat va < unat (as_vbase2 as) + as_size as 1
      then Some (1, unat va - unat (as_vbase2 as))
      else if 2 ^ 31 - 73728 \<le> unat va \<and> unat va < 2 ^ 31 then Some (2, unat va - (2 ^ 31 - 73728))
      else None)"

lemma region_top:
  assumes "unat v + unat n * 4096 \<le> 2 ^ 31"
  shows "unat (v + n * PAGE_SIZE) = unat v + unat n * 4096"
proof -
  have "unat (n * PAGE_SIZE) = unat n * 4096" using assms by (intro pages_unat) simp
  then show ?thesis using assms by (simp add: unat_word_ariths(1))
qed

lemma fault_paddr_slot:
  assumes "as_virt as"
  shows "fault_paddr as va = map_option (\<lambda>(k, off). as_base as k + of_nat off) (fault_slot as va)"
proof -
  have t1: "unat (as_vbase1 as + as_npages1 as * PAGE_SIZE) = unat (as_vbase1 as) + as_size as 0"
    and t2: "unat (as_vbase2 as + as_npages2 as * PAGE_SIZE) = unat (as_vbase2 as) + as_size as 1"
    using assms region_top by (simp_all add: as_virt_def)
  have sb: "unat (USERSTACK - DUMBVM_STACKPAGES * PAGE_SIZE) = 2 ^ 31 - 73728" "unat USERSTACK = 2 ^ 31"
    by (simp_all add: vm_consts)
  have sub: "w - v = of_nat (unat w - unat v)" if "unat v \<le> unat w" for v w :: u32
    using that by (simp add: of_nat_diff)
  have subs: "va - (USERSTACK - DUMBVM_STACKPAGES * PAGE_SIZE) = of_nat (unat va - (2 ^ 31 - 73728))"
    if "2 ^ 31 - 73728 \<le> unat va" using sub [of "USERSTACK - DUMBVM_STACKPAGES * PAGE_SIZE" va] that unfolding sb(1) .
  have base2: "as_base as 2 = as_stackpbase as" by (simp add: numeral_2_eq_2)
  show ?thesis
    unfolding fault_paddr_def fault_slot_def Let_def word_le_nat_alt word_less_nat_alt t1 t2 sb
    using sub [of "as_vbase1 as" va] sub [of "as_vbase2 as" va] subs base2 by (simp add: add.commute)
qed

lemma aligned_room:
  fixes a b n :: nat
  assumes "4096 dvd a" "4096 dvd b" "b \<le> a" "a < b + n" "4096 dvd n"
  shows "a - b + 4096 \<le> n"
proof -
  from assms obtain i j k where "a = 4096 * i" "b = 4096 * j" "n = 4096 * k" by (auto elim!: dvdE)
  with assms(3,4) have ij: "j \<le> i" "4096 * i < 4096 * (j + k)" by simp_all
  then have "i - j + 1 \<le> k" by simp
  then have "4096 * (i - j + 1) \<le> 4096 * k" by (rule mult_le_mono2)
  moreover have "a - b + 4096 = 4096 * (i - j + 1)"
    unfolding \<open>a = 4096 * i\<close> \<open>b = 4096 * j\<close> by (simp add: diff_mult_distrib2)
  ultimately show ?thesis unfolding \<open>n = 4096 * k\<close> by simp
qed

lemma fault_slot_room:
  assumes "as_virt as" "page_aligned va" "fault_slot as va = Some (k, off)"
  shows "k < 3" "off + 4096 \<le> as_size as k"
proof -
  have d: "4096 dvd unat va" "4096 dvd unat (as_vbase1 as)" "4096 dvd unat (as_vbase2 as)"
    using assms(1,2) by (simp_all add: as_virt_def page_aligned_iff)
  have two: "as_size as 2 = 73728" by (simp add: numeral_2_eq_2)
  consider (one) "k = 0" "off = unat va - unat (as_vbase1 as)" "unat (as_vbase1 as) \<le> unat va" "unat va < unat (as_vbase1 as) + as_size as 0"
    | (two) "k = 1" "off = unat va - unat (as_vbase2 as)" "unat (as_vbase2 as) \<le> unat va" "unat va < unat (as_vbase2 as) + as_size as 1"
    | (stack) "k = 2" "off = unat va - (2 ^ 31 - 73728)" "2 ^ 31 - 73728 \<le> unat va" "unat va < 2 ^ 31"
    using assms(3) by (auto simp: fault_slot_def split: if_splits)
  then have "k < 3 \<and> off + 4096 \<le> as_size as k"
  proof cases
    case one
    then show ?thesis using aligned_room [OF d(1,2) one(3,4)] by simp
  next
    case two
    then show ?thesis using aligned_room [OF d(1,3) two(3,4)] by simp
  next
    case stack
    have "(4096 :: nat) dvd 2 ^ 31 - 73728" "(4096 :: nat) dvd 73728" by simp_all
    moreover have "unat va < 2 ^ 31 - 73728 + 73728" using stack(4) by simp
    ultimately have "unat va - (2 ^ 31 - 73728) + 4096 \<le> 73728"
      by (intro aligned_room d(1) stack(3))
    with stack(1,2) two show ?thesis by simp
  qed
  then show "k < 3" "off + 4096 \<le> as_size as k" by simp_all
qed

text \<open>A page that is translated lies in the memory of its part.\<close>

definition page_bytes :: "u32 \<Rightarrow> nat set" where
  "page_bytes p = {unat p..<unat p + 4096}"

lemma fault_paddr_part:
  assumes "vm_ok s" "as_heap s a = Some as" "as_loaded as" "page_aligned va" "fault_paddr as va = Some p"
  obtains k off where "fault_slot as va = Some (k, off)" "k < 3" "off + 4096 \<le> as_size as k"
    "unat p = unat (as_base as k) + off" "page_bytes p \<subseteq> as_bytes as k"
proof -
  have virt: "as_virt as" using vm_okD(3) [OF assms(1,2)] by (simp add: as_wf_def)
  from assms(5) obtain k off where slot: "fault_slot as va = Some (k, off)" "p = as_base as k + of_nat off"
    by (auto simp: fault_paddr_slot [OF virt])
  note room = fault_slot_room [OF virt assms(4) slot(1)]
  have nz: "as_base as k \<noteq> 0" using assms(3) room(1) by (simp add: as_loaded_base)
  have "unat (as_base as k) + as_size as k \<le> unat (lastpaddr s)"
    using part_bounds(2) [OF assms(1,2) room(1) nz] room(2) by auto
  moreover have "unat (lastpaddr s) \<le> 2 ^ 29" using vm_okD(1) [OF assms(1)] by (simp add: ram_ok_def)
  ultimately have "unat (as_base as k) + off < 2 ^ LENGTH(32)" using room(2) by simp
  then have "unat p = unat (as_base as k) + off" unfolding slot(2) by (rule unat_plus_of_nat_less)
  with slot(1) room nz show thesis by (intro that) (auto simp: page_bytes_def as_bytes_def)
qed

section \<open>The reachable states\<close>

text \<open>
  Everything the rest of the kernel and user programs do: create and destroy address spaces,
  define regions that lie in user space before an address space is loaded, load, copy a loaded
  one, take kernel pages, handle faults, switch, and store to memory.
\<close>

inductive vm_step :: "vm \<Rightarrow> vm \<Rightarrow> bool" where
  step_create: "as_create ok s = (r, s') \<Longrightarrow> vm_step s s'"
| step_destroy: "vm_step s (as_destroy a s)"
| step_define: "as_define_region a v sz s = Some (r, s') \<Longrightarrow> as_heap s a = Some as \<Longrightarrow> as_pbase1 as = 0 \<Longrightarrow>
    as_pbase2 as = 0 \<Longrightarrow> unat v + unat sz \<le> 2 ^ 31 \<Longrightarrow> vm_step s s'"
| step_load: "as_prepare_load a s = Some (r, s') \<Longrightarrow> vm_step s s'"
| step_copy: "as_heap s a = Some as \<Longrightarrow> as_loaded as \<Longrightarrow> as_copy ok a s = Some (rc, s') \<Longrightarrow> vm_step s s'"
| step_kpages: "unat n * 4096 \<le> 2 ^ 31 \<Longrightarrow> alloc_kpages n s = (va, s') \<Longrightarrow> vm_step s s'"
| step_fault: "vm_fault ca ft va s = Some (rf, s') \<Longrightarrow> vm_step s s'"
| step_activate: "vm_step s (as_activate ca s)"
| step_store: "ram s va \<noteq> None \<Longrightarrow> vm_step s (s\<lparr>ram := (ram s)(va \<mapsto> x)\<rparr>)"

inductive vm_reach :: "vm \<Rightarrow> vm \<Rightarrow> bool" for s0 where
  vm_start: "vm_reach s0 s0"
| vm_next: "vm_reach s0 s \<Longrightarrow> vm_step s s' \<Longrightarrow> vm_reach s0 s'"

lemma vm_ok_first:
  assumes "vm_ok s" "ram_ok (s\<lparr>firstpaddr := f\<rparr>)" "unat (firstpaddr s) \<le> unat f"
  shows "vm_ok (s\<lparr>firstpaddr := f\<rparr>)"
proof -
  have "as_wf (firstpaddr s) as \<Longrightarrow> as_wf f as" for as
    using assms(3) unfolding as_wf_def by (meson lessThan_subset_iff order_trans)
  with assms(1,2) show ?thesis unfolding vm_ok_def by simp
qed

lemma vm_step_ok: "vm_step s s' \<Longrightarrow> vm_ok s \<Longrightarrow> vm_ok s'"
proof (induction rule: vm_step.induct)
  case (step_create ok s r s')
  then show ?case by (blast intro: as_create_vm_ok)
next
  case (step_destroy s a)
  then show ?case by (rule as_destroy_vm_ok)
next
  case (step_define a v sz s r s' as)
  then show ?case by (blast intro: as_define_region_vm_ok)
next
  case (step_load a s r s')
  then obtain as where as: "as_heap s a = Some as" "as_pbase1 as = 0" "as_pbase2 as = 0" "as_stackpbase as = 0"
    by (auto simp: as_prepare_load_def elim!: bindE)
  from step_load.prems as show ?case
    by (cases rule: as_prepare_load_result) (use step_load.hyps in auto)
next
  case (step_copy s a as ok rc s')
  from step_copy.prems step_copy.hyps(1,2) show ?case
    by (cases rule: as_copy_result [where ok = ok]) (use step_copy.hyps(3) in auto)
next
  case (step_kpages n s va s')
  then obtain p where g: "getppages n s = (p, s')" by (auto simp: alloc_kpages_def split: prod.splits)
  from vm_okD(1) [OF step_kpages.prems] step_kpages.hyps(1) g show ?case
  proof (cases rule: getppages_cases)
    case fail
    with step_kpages.prems show ?thesis by simp
  next
    case take
    with vm_ok_first [OF step_kpages.prems, of "firstpaddr s + n * PAGE_SIZE"] show ?thesis by simp
  qed
next
  case (step_fault ca ft va s rf s')
  then have "s' = s\<lparr>tlb := tlb s'\<rparr>"
    by (auto simp: vm_fault_def Let_def split: if_splits option.split_asm elim!: bindE)
  then show ?case using step_fault.prems by (metis vm_ok_tlb)
next
  case (step_activate s ca)
  then show ?case by (auto simp: as_activate_def vm_ok_tlb split: option.splits)
next
  case (step_store s va x)
  then show ?case by (intro vm_ok_ram) auto
qed

lemma vm_reach_ok: "vm_reach s0 s \<Longrightarrow> vm_ok s0 \<Longrightarrow> vm_ok s"
  by (induction rule: vm_reach.induct) (auto intro: vm_step_ok)

section \<open>Example\<close>

definition ex_as :: "u32 \<Rightarrow> addrspace" where
  "ex_as p = \<lparr>as_vbase1 = 0x400000, as_pbase1 = p, as_npages1 = 1, as_vbase2 = 0x10000000,
     as_pbase2 = p + 0x1000, as_npages2 = 1, as_stackpbase = p + 0x2000\<rparr>"

definition ex_vm :: vm where
  "ex_vm = \<lparr>firstpaddr = 0x29000, lastpaddr = 0x100000, as_heap = [0 \<mapsto> ex_as 0x1000, 1 \<mapsto> ex_as 0x15000], as_next = 2,
     tlb = [(0x400000, 0x1600), (TLBHI_INVALID 1, 0)],
     ram = (\<lambda>va. if 0x80000000 \<le> va \<and> va < 0x80100000 then Some 0 else None)\<rparr>"

lemma ex_as_fields:
  "as_base (ex_as p) 0 = p" "as_base (ex_as p) (Suc 0) = p + 0x1000" "as_base (ex_as p) (Suc (Suc 0)) = p + 0x2000"
  "as_size (ex_as p) 0 = 4096" "as_size (ex_as p) (Suc 0) = 4096"
  by (simp_all add: ex_as_def)

lemma ex_as_bytes:
  assumes "0 < p" "page_aligned p" "unat p + 0x14000 \<le> 2 ^ 20"
  shows "as_bytes (ex_as p) 0 = {unat p..<unat p + 0x1000}"
    "as_bytes (ex_as p) (Suc 0) = {unat p + 0x1000..<unat p + 0x2000}"
    "as_bytes (ex_as p) (Suc (Suc 0)) = {unat p + 0x2000..<unat p + 0x14000}"
proof -
  have u: "unat (p + 0x1000) = unat p + 0x1000" "unat (p + 0x2000) = unat p + 0x2000"
    using assms(3) by (simp_all add: unat_word_ariths(1))
  have nz: "p \<noteq> 0" "p + 0x1000 \<noteq> 0" "p + 0x2000 \<noteq> 0"
    using assms(1) u by (auto simp: word_unat_eq_iff word_less_nat_alt)
  show "as_bytes (ex_as p) 0 = {unat p..<unat p + 0x1000}"
    "as_bytes (ex_as p) (Suc 0) = {unat p + 0x1000..<unat p + 0x2000}"
    "as_bytes (ex_as p) (Suc (Suc 0)) = {unat p + 0x2000..<unat p + 0x14000}"
    unfolding as_bytes_def ex_as_fields u by (simp_all add: nz add.commute)
qed

lemma ex_as_wf:
  assumes "0 < p" "page_aligned p" "unat p + 0x14000 \<le> 2 ^ 20" "unat p + 0x14000 \<le> unat lim"
  shows "as_wf lim (ex_as p)"
proof -
  have u: "unat (p + 0x1000) = unat p + 0x1000" "unat (p + 0x2000) = unat p + 0x2000"
    using assms(3) by (simp_all add: unat_word_ariths(1))
  have al: "page_aligned (as_base (ex_as p) k) \<and> as_bytes (ex_as p) k \<subseteq> {..<unat lim}" if "k < 3" for k
    using that
    by (rule parts_cases)
      (use assms ex_as_bytes [OF assms(1-3)] ex_as_fields u in \<open>auto simp: page_aligned_iff\<close>)
  have dj: "as_bytes (ex_as p) k \<inter> as_bytes (ex_as p) l = {}" if "k < 3" "l < 3" "k \<noteq> l" for k l
    using that by (elim parts_cases) (use ex_as_bytes [OF assms(1-3)] in auto)
  have "as_virt (ex_as p)" by (simp add: as_virt_def ex_as_def page_aligned_iff)
  with al dj show ?thesis unfolding as_wf_def by blast
qed

lemma ex_as_disjoint: "k < 3 \<Longrightarrow> l < 3 \<Longrightarrow> as_bytes (ex_as 0x1000) k \<inter> as_bytes (ex_as 0x15000) l = {}"
  using ex_as_bytes [of "0x1000"] ex_as_bytes [of "0x15000"]
  by (elim parts_cases) (simp_all add: page_aligned_iff Int_commute)

lemma ex_vm_ok: "vm_ok ex_vm"
  unfolding vm_ok_def
proof (intro conjI allI impI)
  have "pbyte (ram ex_vm) p \<noteq> None" if "p < 0x100000" for p
  proof -
    have "unat (PADDR_TO_KVADDR (of_nat p)) = p + 2 ^ 31" using that by (intro kv_unat) simp
    with that show ?thesis by (simp add: pbyte_def ex_vm_def word_le_nat_alt word_less_nat_alt)
  qed
  then show "ram_ok ex_vm" by (simp add: ram_ok_def ex_vm_def page_aligned_iff)
next
  fix a as assume "as_heap ex_vm a = Some as"
  then have "a = 0 \<and> as = ex_as 0x1000 \<or> a = 1 \<and> as = ex_as 0x15000" by (auto simp: ex_vm_def split: if_splits)
  then show "a < as_next ex_vm" "as_wf (firstpaddr ex_vm) as"
    by (auto simp: ex_vm_def page_aligned_iff intro!: ex_as_wf)
next
  fix a b as bs and k l :: nat
  assume "as_heap ex_vm a = Some as" "as_heap ex_vm b = Some bs" "a \<noteq> b" "k < 3" "l < 3"
  then show "as_bytes as k \<inter> as_bytes bs l = {}"
    using ex_as_disjoint [of k l] ex_as_disjoint [of l k] by (auto simp: ex_vm_def split: if_splits)
qed

section \<open>Isolation\<close>

text \<open>Different pages of one part have different bytes.\<close>

lemma page_bytes_disjoint:
  assumes "4096 dvd x" "4096 dvd y" "x \<noteq> (y::nat)"
  shows "{b + x..<b + x + 4096} \<inter> {b + y..<b + y + 4096} = {}"
proof -
  from assms obtain i j where ij: "x = 4096 * i" "y = 4096 * j" "i \<noteq> j" by (auto elim!: dvdE)
  then have "x + 4096 \<le> y \<or> y + 4096 \<le> x"
    using mult_le_mono2 [of "Suc i" j 4096] mult_le_mono2 [of "Suc j" i 4096] by (cases "i < j") auto
  then show ?thesis by auto
qed

lemma fault_slot_inj:
  assumes "as_virt as" "page_aligned va" "page_aligned vb" "va \<noteq> vb"
    and "fault_slot as va = Some (k, x)" "fault_slot as vb = Some (k, y)"
  shows "4096 dvd x \<and> 4096 dvd y \<and> x \<noteq> y"
proof -
  have d: "4096 dvd unat va" "4096 dvd unat vb" "4096 dvd unat (as_vbase1 as)" "4096 dvd unat (as_vbase2 as)"
    using assms(1-3) by (simp_all add: as_virt_def page_aligned_iff)
  have s: "(4096 :: nat) dvd 2 ^ 31 - 73728" by simp
  have ne: "unat va \<noteq> unat vb" using assms(4) by (simp add: word_unat_eq_iff)
  from assms(5,6) obtain b where b: "b \<le> unat va" "b \<le> unat vb" "x = unat va - b" "y = unat vb - b" "4096 dvd b"
    using d(3,4) s unfolding fault_slot_def by (auto split: if_splits)
  with d ne show ?thesis by (simp add: dvd_diff_nat)
qed

lemma pages_disjoint:
  assumes "vm_ok s" "as_heap s a = Some as" "as_heap s b = Some bs" "as_loaded as" "as_loaded bs"
    and "page_aligned va" "page_aligned vb" "fault_paddr as va = Some p" "fault_paddr bs vb = Some q" "(a, va) \<noteq> (b, vb)"
  shows "page_bytes p \<inter> page_bytes q = {}"
proof -
  note ok = assms(1)
  obtain k x where k: "fault_slot as va = Some (k, x)" "k < 3" "unat p = unat (as_base as k) + x" "page_bytes p \<subseteq> as_bytes as k"
    by (rule fault_paddr_part [OF ok assms(2,4,6,8)]) blast
  obtain l y where l: "fault_slot bs vb = Some (l, y)" "l < 3" "unat q = unat (as_base bs l) + y" "page_bytes q \<subseteq> as_bytes bs l"
    by (rule fault_paddr_part [OF ok assms(3,5,7,9)]) blast
  show ?thesis
  proof (cases "a = b \<and> k = l")
    case True
    then have "as = bs" "va \<noteq> vb" using assms(2,3,10) by auto
    moreover have "as_virt as" using vm_okD(3) [OF ok assms(2)] by (simp add: as_wf_def)
    ultimately have "4096 dvd x \<and> 4096 dvd y \<and> x \<noteq> y"
      using fault_slot_inj [OF _ assms(6,7)] k(1) l(1) True by blast
    with page_bytes_disjoint [of x y "unat (as_base as k)"] k(3) l(3) True \<open>as = bs\<close> show ?thesis
      by (simp add: page_bytes_def)
  next
    case False
    then have "as_bytes as k \<inter> as_bytes bs l = {}"
      using vm_okD(3) [OF ok assms(2)] vm_okD(4) [OF ok assms(2,3)] assms(2,3) k(2) l(2)
      by (cases "a = b") (auto simp: as_wf_def)
    with k(4) l(4) show ?thesis by blast
  qed
qed



text \<open>
  \<open>as_same_pages os n m m'\<close>: \<open>n\<close> translates the pages that \<open>os\<close> does, a page has in \<open>m'\<close> the contents the page of \<open>os\<close> has in
  \<open>m\<close>, and the pages of \<open>os\<close> are as they were.
\<close>

definition as_same_pages :: "addrspace \<Rightarrow> addrspace \<Rightarrow> mem \<Rightarrow> mem \<Rightarrow> bool" where
  "as_same_pages os n m m' \<longleftrightarrow>
     (\<forall>va. page_aligned va \<longrightarrow>
        (case fault_paddr os va of
           None \<Rightarrow> fault_paddr n va = None
         | Some p \<Rightarrow> \<exists>q. fault_paddr n va = Some q \<and>
             (\<forall>i<4096. pbyte m' (unat q + i) = pbyte m (unat p + i) \<and> pbyte m' (unat p + i) = pbyte m (unat p + i))))"

lemma as_copy_pages:
  assumes "vm_ok s" "as_heap s old = Some os" "as_loaded os"
  shows "if ok \<and> unat (firstpaddr s) + as_size os 0 + as_size os 1 + as_size os 2 \<le> unat (lastpaddr s)
    then \<exists>n s'. as_copy ok old s = Some (Inr (as_next s), s') \<and> as_heap s (as_next s) = None \<and> as_heap s' = (as_heap s)(as_next s \<mapsto> n) \<and> as_loaded n \<and> vm_ok s' \<and>
      as_same_pages os n (ram s) (ram s')
    else \<exists>s'. as_copy ok old s = Some (Inl ENOMEM, s') \<and> ram s' = ram s \<and> vm_ok s' \<and> (\<forall>b bs. as_heap s b = Some bs \<longrightarrow> as_heap s' b = Some bs)"
  using assms
proof (cases rule: as_copy_result [where ok = ok])
  case (nomem s')
  then show ?thesis by auto
next
  case (copied n s')
  have virt: "as_virt os" "as_virt n"
    using vm_okD(3) [OF assms(1,2)] vm_okD(3) [OF copied(2), of "as_next s" n] copied(4) by (simp_all add: as_wf_def)
  have slot: "fault_slot n va = fault_slot os va" for va using copied(6-9) by (simp add: fault_slot_def)
  have page: "\<exists>q. fault_paddr n va = Some q \<and> (\<forall>i<4096. pbyte (ram s') (unat q + i) = pbyte (ram s) (unat p + i) \<and>
      pbyte (ram s') (unat p + i) = pbyte (ram s) (unat p + i))"
    if va: "page_aligned va" "fault_paddr os va = Some p" for va p
  proof -
    obtain k x where k: "fault_slot os va = Some (k, x)" "k < 3" "x + 4096 \<le> as_size os k" "unat p = unat (as_base os k) + x"
      "page_bytes p \<subseteq> as_bytes os k" by (rule fault_paddr_part [OF assms va]) blast
    obtain q where q: "fault_paddr n va = Some q" using k(1) slot by (auto simp: fault_paddr_slot [OF virt(2)])
    have hn: "as_heap s' (as_next s) = Some n" using copied(4) by simp
    obtain l y where "fault_slot n va = Some (l, y)" "unat q = unat (as_base n l) + y"
      by (rule fault_paddr_part [OF copied(2) hn copied(5) va(1) q]) blast
    with k(1) slot have "unat q = unat (as_base n k) + x" by simp
    moreover have "unat p + i \<in> as_bytes os k" if "i < 4096" for i using k(5) that by (auto simp: page_bytes_def)
    ultimately show ?thesis
      using q k(2-4) copied(10) [OF k(2)] copied(11) [OF assms(2) k(2)] by (simp add: add.assoc)
  qed
  have none: "fault_paddr n va = None" if "fault_paddr os va = None" for va
    using that slot by (simp add: fault_paddr_slot virt)
  show ?thesis using copied(1-5,12,13) page none by (auto simp: as_same_pages_def split: option.split)
qed

text \<open>
  C19. \<^verbatim>\<open>as_copy\<close> of a loaded address space always returns. It is ENOMEM when there is no memory
  for the structure or not enough physical memory for its three parts; otherwise the new address
  space translates the same pages as the old one, and each of them has the contents the page of
  the old one has.
\<close>

theorem as_copy_correct:
  assumes "vm_ok s" "as_heap s old = Some os" "as_loaded os"
  shows "if ok \<and> unat (firstpaddr s) + as_size os 0 + as_size os 1 + as_size os 2 \<le> unat (lastpaddr s)
    then \<exists>n s'. as_copy ok old s = Some (Inr (as_next s), s') \<and> as_heap s' = (as_heap s)(as_next s \<mapsto> n) \<and> as_loaded n \<and> vm_ok s' \<and>
      (\<forall>va. page_aligned va \<longrightarrow>
         (case fault_paddr os va of
            None \<Rightarrow> fault_paddr n va = None
          | Some p \<Rightarrow> \<exists>q. fault_paddr n va = Some q \<and>
              (\<forall>i<4096. pbyte (ram s') (unat q + i) = pbyte (ram s) (unat p + i) \<and>
                pbyte (ram s') (unat p + i) = pbyte (ram s) (unat p + i))))
    else \<exists>s'. as_copy ok old s = Some (Inl ENOMEM, s') \<and> ram s' = ram s \<and> vm_ok s'"
  using as_copy_pages [OF assms, of ok] unfolding as_same_pages_def by (auto split: if_splits)

theorem as_copy_correct_witness:
  "\<exists>n s'. as_copy True 0 ex_vm = Some (Inr 2, s') \<and> fault_paddr n 0x400000 \<noteq> None \<and>
     as_heap s' 2 = Some n"
proof -
  have h: "as_heap ex_vm 0 = Some (ex_as 0x1000)" by (simp add: ex_vm_def)
  have l: "as_loaded (ex_as 0x1000)" by (simp add: as_loaded_def ex_as_def)
  have v: "page_aligned 0x400000" by (simp add: page_aligned_iff)
  have f: "fault_paddr (ex_as 0x1000) 0x400000 = Some 0x1000" by code_simp
  have sz: "unat (firstpaddr ex_vm) + as_size (ex_as 0x1000) 0 + as_size (ex_as 0x1000) 1 + as_size (ex_as 0x1000) 2 \<le> unat (lastpaddr ex_vm)"
  proof -
    have "unat (firstpaddr ex_vm) = 0x29000" "unat (lastpaddr ex_vm) = 0x100000" by (simp_all add: ex_vm_def)
    moreover have "as_size (ex_as 0x1000) 0 = 4096" "as_size (ex_as 0x1000) 1 = 4096" "as_size (ex_as 0x1000) 2 = 73728"
      by (simp_all add: ex_as_def numeral_2_eq_2)
    ultimately show ?thesis by simp
  qed
  have n: "as_next ex_vm = 2" by (simp add: ex_vm_def)
  from as_copy_correct [OF ex_vm_ok h l, of True] sz n obtain n s' where
    c: "as_copy True 0 ex_vm = Some (Inr 2, s')" "as_heap s' = (as_heap ex_vm)(2 \<mapsto> n)"
      "\<forall>va. page_aligned va \<longrightarrow> (case fault_paddr (ex_as 0x1000) va of
            None \<Rightarrow> fault_paddr n va = None
          | Some p \<Rightarrow> \<exists>q. fault_paddr n va = Some q \<and>
              (\<forall>i<4096. pbyte (ram s') (unat q + i) = pbyte (ram ex_vm) (unat p + i) \<and>
                pbyte (ram s') (unat p + i) = pbyte (ram ex_vm) (unat p + i)))" by auto
  from c(3) [rule_format, OF v] f have "fault_paddr n 0x400000 \<noteq> None" by auto
  with c(1,2) show ?thesis by auto
qed

section \<open>Faults\<close>

lemma aligned_add: "page_aligned p \<Longrightarrow> unat q = unat p + x \<Longrightarrow> 4096 dvd x \<Longrightarrow> page_aligned q"
  by (simp add: page_aligned_iff)

lemma fault_paddr_aligned:
  assumes "vm_ok s" "as_heap s a = Some as" "as_loaded as" "page_aligned va" "fault_paddr as va = Some p"
  shows "page_aligned p"
proof -
  have wf: "as_wf (firstpaddr s) as" using vm_okD(3) [OF assms(1,2)] .
  obtain k x where k: "fault_slot as va = Some (k, x)" "k < 3" "unat p = unat (as_base as k) + x"
    by (rule fault_paddr_part [OF assms]) blast
  have "4096 dvd unat va" "4096 dvd unat (as_vbase1 as)" "4096 dvd unat (as_vbase2 as)" "(4096::nat) dvd 2 ^ 31 - 73728"
    using wf assms(4) by (simp_all add: as_wf_def as_virt_def page_aligned_iff)
  then have "4096 dvd x" using k(1) unfolding fault_slot_def by (auto split: if_splits simp: dvd_diff_nat)
  with wf k(2,3) show ?thesis by (auto simp: as_wf_def intro: aligned_add)
qed

text \<open>
  C20. A read or write fault in a loaded address space with two regions of at least a page never
  stops the kernel. When the page is outside the regions and the stack, or the TLB is full, the
  result is EFAULT and nothing changes; otherwise the first entry of the TLB that is not valid
  becomes the translation of the page, valid and writable, and no other entry changes.
\<close>

theorem vm_fault_correct:
  assumes "vm_ok s" "as_heap s a = Some as" "as_loaded as" "as_vbase1 as \<noteq> 0" "as_vbase2 as \<noteq> 0"
    and "as_npages1 as \<noteq> 0" "as_npages2 as \<noteq> 0" "ft = VM_FAULT_READ \<or> ft = VM_FAULT_WRITE"
  shows "case fault_paddr as (va AND PAGE_FRAME) of
      None \<Rightarrow> vm_fault (Some a) ft va s = Some (Inl EFAULT, s)
    | Some p \<Rightarrow>
        if \<forall>(hi, lo)\<in>set (tlb s). lo AND TLBLO_VALID \<noteq> 0 then vm_fault (Some a) ft va s = Some (Inl EFAULT, s)
        else \<exists>i < length (tlb s). snd (tlb s ! i) AND TLBLO_VALID = 0 \<and> (\<forall>j<i. snd (tlb s ! j) AND TLBLO_VALID \<noteq> 0) \<and>
          vm_fault (Some a) ft va s =
            Some (Inr (), s\<lparr>tlb := (tlb s)[i := (va AND PAGE_FRAME, p OR TLBLO_DIRTY OR TLBLO_VALID)]\<rparr>)"
proof -
  have wf: "as_wf (firstpaddr s) as" using vm_okD(3) [OF assms(1,2)] .
  then have al: "page_aligned (as_base as k)" if "k < 3" for k using that by (simp add: as_wf_def)
  have fa: "fault_asserts as"
    using assms(3-7) al [of 0] al [of 1] al [of 2] wf by (simp add: fault_asserts_def as_loaded_def as_wf_def as_virt_def numeral_2_eq_2)
  have ft: "ft \<noteq> VM_FAULT_READONLY" using assms(8) by (auto simp: VM_FAULT_READ_def VM_FAULT_WRITE_def VM_FAULT_READONLY_def)
  show ?thesis
  proof (cases "fault_paddr as (va AND PAGE_FRAME)")
    case None
    with assms(2,8) fa ft show ?thesis by (auto simp: vm_fault_def)
  next
    case (Some p)
    have "page_aligned p" by (rule fault_paddr_aligned [OF assms(1-3) page_frame_aligned Some])
    then have run: "vm_fault (Some a) ft va s = (case first_index (\<lambda>(ehi, elo). elo AND TLBLO_VALID = 0) (tlb s) of
        None \<Rightarrow> Some (Inl EFAULT, s)
      | Some i \<Rightarrow> Some (Inr (), s\<lparr>tlb := (tlb s)[i := (va AND PAGE_FRAME, p OR TLBLO_DIRTY OR TLBLO_VALID)]\<rparr>))"
      using assms(2,8) fa ft Some by (auto simp: vm_fault_def)
    show ?thesis
    proof (cases "first_index (\<lambda>(ehi, elo). elo AND TLBLO_VALID = 0) (tlb s)")
      case None
      with run Some show ?thesis by (auto simp: first_index_None_iff)
    next
      case (Some i)
      then have i: "i < length (tlb s)" "snd (tlb s ! i) AND TLBLO_VALID = 0" "\<forall>j<i. snd (tlb s ! j) AND TLBLO_VALID \<noteq> 0"
        by (auto simp: case_prod_beta dest!: first_index_SomeD)
      then have "\<not> (\<forall>(hi, lo)\<in>set (tlb s). lo AND TLBLO_VALID \<noteq> 0)" using nth_mem [OF i(1)] by (auto simp: case_prod_beta)
      with i run Some \<open>fault_paddr as (va AND PAGE_FRAME) = Some p\<close> show ?thesis by auto
    qed
  qed
qed

theorem vm_fault_correct_witness:
  "vm_fault (Some 1) VM_FAULT_WRITE 0x400010 ex_vm =
     Some (Inr (), ex_vm\<lparr>tlb := [(0x400000, 0x1600), (0x400000, 0x15600)]\<rparr>)"
proof -
  have h: "as_heap ex_vm 1 = Some (ex_as 0x15000)" by (simp add: ex_vm_def)
  have l: "as_loaded (ex_as 0x15000)" by (simp add: as_loaded_def ex_as_def)
  have f: "fault_paddr (ex_as 0x15000) (0x400010 AND PAGE_FRAME) = Some 0x15000" by code_simp
  have v: "0x400010 AND PAGE_FRAME = 0x400000" "0x15000 OR TLBLO_DIRTY OR TLBLO_VALID = 0x15600" by code_simp+
  have t: "tlb ex_vm = [(0x400000, 0x1600), (TLBHI_INVALID 1, 0)]" by (simp add: ex_vm_def)
  have b: "0x1600 AND TLBLO_VALID \<noteq> 0" by code_simp
  have nz: "as_vbase1 (ex_as 0x15000) \<noteq> 0" "as_vbase2 (ex_as 0x15000) \<noteq> 0" "as_npages1 (ex_as 0x15000) \<noteq> 0"
    "as_npages2 (ex_as 0x15000) \<noteq> 0" by (simp_all add: ex_as_def)
  have nf: "\<not> (\<forall>(hi, lo)\<in>set (tlb ex_vm). lo AND TLBLO_VALID \<noteq> 0)" by (simp add: t)
  from vm_fault_correct [OF ex_vm_ok h l nz, of VM_FAULT_WRITE "0x400010"] f nf obtain i where
    i: "i < length (tlb ex_vm)" "snd (tlb ex_vm ! i) AND TLBLO_VALID = 0" "vm_fault (Some 1) VM_FAULT_WRITE 0x400010 ex_vm =
      Some (Inr (), ex_vm\<lparr>tlb := (tlb ex_vm)[i := (0x400010 AND PAGE_FRAME, 0x15000 OR TLBLO_DIRTY OR TLBLO_VALID)]\<rparr>)"
    by auto
  have "i = 1" using i(1,2) b by (cases i) (simp_all add: t)
  with i(3) show ?thesis by (simp add: t v)
qed

text \<open>After a switch to an address space no translation of another one is left.\<close>

lemma as_activate_flushes: "\<forall>(hi, lo)\<in>set (tlb (as_activate (Some a) s)). lo AND TLBLO_VALID = 0"
  by (simp add: as_activate_def)

lemma stolen_pages: "of_nat k * PAGE_SIZE + n * PAGE_SIZE = (of_nat ((k + unat n) * 4096) :: u32)"
  by (simp add: PAGE_SIZE_def algebra_simps)

text \<open>
  C33. As long as the end of the request lies below 4 GB, \<^verbatim>\<open>ram_stealmem\<close> gives the pages at the bottom of free
  memory out exactly when they fit, and moves the bottom above them. The sum is computed in 32 bits, and the size is not checked:
  a request for everything from the bottom of free memory to 4 GB always succeeds, whatever the size of
  the memory, and moves the bottom to address 0, below what is in use.
\<close>

theorem ram_stealmem_bounds:
  assumes "firstpaddr s = of_nat k * PAGE_SIZE" "k < 2 ^ 20"
  shows "(\<forall>n. (k + unat n) * 4096 < 2 ^ 32 \<longrightarrow>
      ram_stealmem n s = (if (k + unat n) * 4096 \<le> unat (lastpaddr s)
        then (firstpaddr s, s\<lparr>firstpaddr := of_nat ((k + unat n) * 4096)\<rparr>) else (0, s))) \<and>
    ram_stealmem (of_nat (2 ^ 20 - k)) s = (firstpaddr s, s\<lparr>firstpaddr := 0\<rparr>)"
proof (intro conjI allI impI)
  fix n :: u32 assume n: "(k + unat n) * 4096 < 2 ^ 32"
  have "unat (of_nat ((k + unat n) * 4096) :: u32) = (k + unat n) * 4096" using n by (simp only: unat_of_nat) simp
  then have "lastpaddr s < of_nat ((k + unat n) * 4096) \<longleftrightarrow> \<not> (k + unat n) * 4096 \<le> unat (lastpaddr s)"
    by (simp only: word_less_nat_alt not_le)
  then show "ram_stealmem n s = (if (k + unat n) * 4096 \<le> unat (lastpaddr s)
        then (firstpaddr s, s\<lparr>firstpaddr := of_nat ((k + unat n) * 4096)\<rparr>) else (0, s))"
    unfolding ram_stealmem_def Let_def assms(1) stolen_pages by simp
next
  have "of_nat k * PAGE_SIZE + of_nat (2 ^ 20 - k) * PAGE_SIZE = (of_nat (k + (2 ^ 20 - k)) :: u32) * PAGE_SIZE"
    by (simp only: of_nat_add distrib_right)
  also have "k + (2 ^ 20 - k) = 2 ^ 20" using assms(2) by simp
  also have "(of_nat (2 ^ 20) :: u32) = 0x100000" by simp
  also have "0x100000 * PAGE_SIZE = 0" by code_simp
  finally show "ram_stealmem (of_nat (2 ^ 20 - k)) s = (firstpaddr s, s\<lparr>firstpaddr := 0\<rparr>)"
    unfolding ram_stealmem_def Let_def assms(1) by simp
qed

theorem ram_stealmem_bounds_witness:
  "ram_stealmem 0xffff0 (ex_vm\<lparr>firstpaddr := 0x10000, lastpaddr := 0x20000\<rparr>) = (0x10000, ex_vm\<lparr>firstpaddr := 0, lastpaddr := 0x20000\<rparr>)"
proof -
  have "firstpaddr (ex_vm\<lparr>firstpaddr := 0x10000, lastpaddr := 0x20000\<rparr>) = of_nat 16 * PAGE_SIZE" by (simp add: PAGE_SIZE_def)
  from conjunct2 [OF ram_stealmem_bounds [OF this]] show ?thesis by simp
qed

end
