(* ===== verification/Threadlist.thy ===== *)
theory Threadlist
  imports Kern_Prelude
begin

text \<open>
  kern/include/threadlist.h and kern/thread/threadlist.c: doubly linked lists of threads with a
  node at both ends. The nodes are kept in a heap of links, as in the code. \<open>tl_rep\<close> relates
  a heap to the lists of threads it represents, and every operation is shown to do on the lists
  what its name says.
\<close>

type_synonym tid = u32

section \<open>Nodes\<close>

text \<open>
  A node is the head or the tail of a list, or the \<^verbatim>\<open>t_listnode\<close> of a thread. A list is named by
  its address, of a type \<open>'l\<close>.
\<close>

datatype 'l tlnode = Head 'l | Tail 'l | Node tid

record 'l tlheap =
  tln_prev :: "'l tlnode \<Rightarrow> 'l tlnode option"
  tln_next :: "'l tlnode \<Rightarrow> 'l tlnode option"
  tln_self :: "'l tlnode \<Rightarrow> tid option"
  tl_count :: "'l \<Rightarrow> u32"

definition set_prev :: "'l tlnode \<Rightarrow> 'l tlnode option \<Rightarrow> 'l tlheap \<Rightarrow> 'l tlheap" where
  "set_prev n p h = h\<lparr>tln_prev := (tln_prev h)(n := p)\<rparr>"

definition set_next :: "'l tlnode \<Rightarrow> 'l tlnode option \<Rightarrow> 'l tlheap \<Rightarrow> 'l tlheap" where
  "set_next n p h = h\<lparr>tln_next := (tln_next h)(n := p)\<rparr>"

definition set_self :: "'l tlnode \<Rightarrow> tid option \<Rightarrow> 'l tlheap \<Rightarrow> 'l tlheap" where
  "set_self n t h = h\<lparr>tln_self := (tln_self h)(n := t)\<rparr>"

definition set_count :: "'l \<Rightarrow> u32 \<Rightarrow> 'l tlheap \<Rightarrow> 'l tlheap" where
  "set_count l c h = h\<lparr>tl_count := (tl_count h)(l := c)\<rparr>"

section \<open>Operations (threadlist.c)\<close>

definition threadlistnode_init :: "tid \<Rightarrow> 'l tlheap \<Rightarrow> 'l tlheap option" where
  "threadlistnode_init t h =
     do { kassert (t \<noteq> 0);
          Some (set_self (Node t) (Some t) (set_prev (Node t) None (set_next (Node t) None h))) }"

definition threadlistnode_cleanup :: "tid \<Rightarrow> 'l tlheap \<Rightarrow> unit option" where
  "threadlistnode_cleanup t h =
     do { kassert (tln_next h (Node t) = None);
          kassert (tln_prev h (Node t) = None);
          kassert (tln_self h (Node t) \<noteq> None) }"

definition threadlist_init :: "'l \<Rightarrow> 'l tlheap \<Rightarrow> 'l tlheap" where
  "threadlist_init l h =
     (let h = set_next (Head l) (Some (Tail l)) h;
          h = set_prev (Head l) None h;
          h = set_next (Tail l) None h;
          h = set_prev (Tail l) (Some (Head l)) h;
          h = set_self (Head l) None h;
          h = set_self (Tail l) None h
      in set_count l 0 h)"

definition threadlist_isempty :: "'l \<Rightarrow> 'l tlheap \<Rightarrow> bool" where
  "threadlist_isempty l h \<longleftrightarrow> tl_count h l = 0"

definition threadlist_cleanup :: "'l \<Rightarrow> 'l tlheap \<Rightarrow> unit option" where
  "threadlist_cleanup l h = do { kassert (threadlist_isempty l h); kassert (tl_count h l = 0) }"

definition threadlist_insertafternode :: "'l tlnode \<Rightarrow> tid \<Rightarrow> 'l tlheap \<Rightarrow> 'l tlheap option" where
  "threadlist_insertafternode onlist t h =
     (let addee = Node t;
          h = set_prev addee (Some onlist) h;
          h = set_next addee (tln_next h onlist) h in
      do { p \<leftarrow> tln_prev h addee;
           let h = set_next p (Some addee) h;
           n \<leftarrow> tln_next h addee;
           Some (set_prev n (Some addee) h) })"

definition threadlist_insertbeforenode :: "tid \<Rightarrow> 'l tlnode \<Rightarrow> 'l tlheap \<Rightarrow> 'l tlheap option" where
  "threadlist_insertbeforenode t onlist h =
     (let addee = Node t;
          h = set_prev addee (tln_prev h onlist) h;
          h = set_next addee (Some onlist) h in
      do { p \<leftarrow> tln_prev h addee;
           let h = set_next p (Some addee) h;
           n \<leftarrow> tln_next h addee;
           Some (set_prev n (Some addee) h) })"

definition threadlist_removenode :: "'l tlnode \<Rightarrow> 'l tlheap \<Rightarrow> 'l tlheap option" where
  "threadlist_removenode tln h =
     do { p \<leftarrow> tln_prev h tln;
          let h = set_next p (tln_next h tln) h;
          n \<leftarrow> tln_next h tln;
          let h = set_prev n (tln_prev h tln) h;
          Some (set_next tln None (set_prev tln None h)) }"

definition threadlist_addhead :: "'l \<Rightarrow> tid \<Rightarrow> 'l tlheap \<Rightarrow> 'l tlheap option" where
  "threadlist_addhead l t h =
     do { h \<leftarrow> threadlist_insertafternode (Head l) t h; Some (set_count l (tl_count h l + 1) h) }"

definition threadlist_addtail :: "'l \<Rightarrow> tid \<Rightarrow> 'l tlheap \<Rightarrow> 'l tlheap option" where
  "threadlist_addtail l t h =
     do { h \<leftarrow> threadlist_insertbeforenode t (Tail l) h; Some (set_count l (tl_count h l + 1) h) }"

definition threadlist_remhead :: "'l \<Rightarrow> 'l tlheap \<Rightarrow> (tid option \<times> 'l tlheap) option" where
  "threadlist_remhead l h =
     do { tln \<leftarrow> tln_next h (Head l);
          if tln_next h tln = None then Some (None, h)
          else do { h \<leftarrow> threadlist_removenode tln h;
                    let h = set_count l (tl_count h l - 1) h;
                    Some (tln_self h tln, h) } }"

definition threadlist_remtail :: "'l \<Rightarrow> 'l tlheap \<Rightarrow> (tid option \<times> 'l tlheap) option" where
  "threadlist_remtail l h =
     do { tln \<leftarrow> tln_prev h (Tail l);
          if tln_prev h tln = None then Some (None, h)
          else do { h \<leftarrow> threadlist_removenode tln h;
                    let h = set_count l (tl_count h l - 1) h;
                    Some (tln_self h tln, h) } }"

definition threadlist_insertafter :: "'l \<Rightarrow> tid \<Rightarrow> tid \<Rightarrow> 'l tlheap \<Rightarrow> 'l tlheap option" where
  "threadlist_insertafter l onlist addee h =
     do { h \<leftarrow> threadlist_insertafternode (Node onlist) addee h; Some (set_count l (tl_count h l + 1) h) }"

definition threadlist_insertbefore :: "'l \<Rightarrow> tid \<Rightarrow> tid \<Rightarrow> 'l tlheap \<Rightarrow> 'l tlheap option" where
  "threadlist_insertbefore l addee onlist h =
     do { h \<leftarrow> threadlist_insertbeforenode addee (Node onlist) h; Some (set_count l (tl_count h l + 1) h) }"

definition threadlist_remove :: "'l \<Rightarrow> tid \<Rightarrow> 'l tlheap \<Rightarrow> 'l tlheap option" where
  "threadlist_remove l t h =
     do { h \<leftarrow> threadlist_removenode (Node t) h; Some (set_count l (tl_count h l - 1) h) }"

text \<open>The threads \<^verbatim>\<open>THREADLIST_FORALL\<close> visits from a node on.\<close>

partial_function (option) threadlist_forall_from :: "'l tlheap \<Rightarrow> 'l tlnode \<Rightarrow> tid list option" where
  "threadlist_forall_from h n =
     (case tln_next h n of
        None \<Rightarrow> None
      | Some m \<Rightarrow>
          (case tln_self h m of
             None \<Rightarrow> Some []
           | Some t \<Rightarrow> do { ts \<leftarrow> threadlist_forall_from h (Node t); Some (t # ts) }))"

definition THREADLIST_FORALL :: "'l \<Rightarrow> 'l tlheap \<Rightarrow> tid list option" where
  "THREADLIST_FORALL l h = threadlist_forall_from h (Head l)"

lemmas tl_setters = set_prev_def set_next_def set_self_def set_count_def

section \<open>Chains of nodes\<close>

fun linked :: "'l tlheap \<Rightarrow> 'l tlnode list \<Rightarrow> bool" where
  "linked h (a # b # ns) \<longleftrightarrow> tln_next h a = Some b \<and> tln_prev h b = Some a \<and> linked h (b # ns)"
| "linked h _ \<longleftrightarrow> True"

lemma linked_split:
  "linked h (us @ a # b # vs) \<longleftrightarrow>
     linked h (us @ [a]) \<and> tln_next h a = Some b \<and> tln_prev h b = Some a \<and> linked h (b # vs)"
  by (induction h us rule: linked.induct) auto

lemma linked_cong:
  assumes "linked h ns" "\<forall>n\<in>set (butlast ns). tln_next h' n = tln_next h n" "\<forall>n\<in>set (tl ns). tln_prev h' n = tln_prev h n"
  shows "linked h' ns"
  using assms by (induction h ns rule: linked.induct) auto

text \<open>Linking a node in between two neighbours, and taking it out.\<close>

definition link_in :: "'l tlnode \<Rightarrow> 'l tlnode \<Rightarrow> 'l tlnode \<Rightarrow> 'l tlheap \<Rightarrow> 'l tlheap" where
  "link_in a n b h = h\<lparr>tln_prev := (tln_prev h)(n \<mapsto> a, b \<mapsto> n), tln_next := (tln_next h)(n \<mapsto> b, a \<mapsto> n)\<rparr>"

definition link_out :: "'l tlnode \<Rightarrow> 'l tlnode \<Rightarrow> 'l tlnode \<Rightarrow> 'l tlheap \<Rightarrow> 'l tlheap" where
  "link_out a n b h = h\<lparr>tln_prev := (tln_prev h)(b \<mapsto> a, n := None), tln_next := (tln_next h)(a \<mapsto> b, n := None)\<rparr>"

lemma linked_link_in:
  assumes "linked h (us @ a # b # vs)" "distinct (us @ a # b # vs)" "n \<notin> set (us @ a # b # vs)"
  shows "linked (link_in a n b h) (us @ a # n # b # vs)"
proof -
  have l: "linked h (us @ [a])" "linked h (b # vs)" using assms(1) by (simp_all add: linked_split)
  have "linked (link_in a n b h) (us @ [a])"
    by (rule linked_cong [OF l(1)]) (use assms(2,3) in \<open>auto simp: link_in_def dest: list.set_sel(2) [rotated]\<close>)
  moreover have "linked (link_in a n b h) (b # vs)"
    by (rule linked_cong [OF l(2)]) (use assms(2,3) in \<open>auto simp: link_in_def dest: in_set_butlastD split: if_splits\<close>)
  ultimately show ?thesis using assms(2,3)
    by (simp add: linked_split [of _ us a n]) (auto simp: link_in_def)
qed

lemma linked_link_out:
  assumes "linked h (us @ a # n # b # vs)" "distinct (us @ a # n # b # vs)"
  shows "linked (link_out a n b h) (us @ a # b # vs)"
proof -
  have l: "linked h (us @ [a])" "linked h (b # vs)" using assms(1) by (simp_all add: linked_split [of _ us a n])
  have "linked (link_out a n b h) (us @ [a])"
    by (rule linked_cong [OF l(1)]) (use assms(2) in \<open>auto simp: link_out_def dest: list.set_sel(2) [rotated]\<close>)
  moreover have "linked (link_out a n b h) (b # vs)"
    by (rule linked_cong [OF l(2)]) (use assms(2) in \<open>auto simp: link_out_def dest: in_set_butlastD split: if_splits\<close>)
  ultimately show ?thesis using assms(2)
    by (simp add: linked_split [of _ us a b]) (auto simp: link_out_def)
qed

text \<open>Changes elsewhere.\<close>

lemma linked_link_other:
  assumes "linked h ns" "a \<notin> set ns" "n \<notin> set ns" "b \<notin> set ns"
  shows "linked (link_in a n b h) ns" "linked (link_out a n b h) ns"
proof -
  have "n' \<in> set ns" if "n' \<in> set (butlast ns) \<or> n' \<in> set (tl ns)" for n'
    using that by (cases ns) (auto dest: in_set_butlastD split: if_splits)
  with assms(2-) show "linked (link_in a n b h) ns" "linked (link_out a n b h) ns"
    by (auto simp: link_in_def link_out_def intro!: linked_cong [OF assms(1)])
qed

section \<open>What a heap represents\<close>

definition ring :: "'l \<Rightarrow> tid list \<Rightarrow> 'l tlnode list" where
  "ring l ts = Head l # map Node ts @ [Tail l]"

definition list_rep :: "'l tlheap \<Rightarrow> 'l \<Rightarrow> tid list \<Rightarrow> bool" where
  "list_rep h l ts \<longleftrightarrow>
     linked h (ring l ts) \<and> tln_prev h (Head l) = None \<and> tln_next h (Tail l) = None \<and>
     tln_self h (Head l) = None \<and> tln_self h (Tail l) = None \<and> tl_count h l = of_nat (length ts)"

text \<open>
  \<open>Q\<close> has the initialised lists and \<open>T\<close> the initialised threads. A thread is at most once on
  at most one list, and has null links when it is on none.
\<close>

definition tl_rep :: "'l tlheap \<Rightarrow> tid set \<Rightarrow> ('l \<Rightarrow> tid list option) \<Rightarrow> bool" where
  "tl_rep h T Q \<longleftrightarrow>
     0 \<notin> T \<and>
     (\<forall>l ts. Q l = Some ts \<longrightarrow> list_rep h l ts \<and> distinct ts \<and> set ts \<subseteq> T) \<and>
     (\<forall>l m ts us. Q l = Some ts \<longrightarrow> Q m = Some us \<longrightarrow> l \<noteq> m \<longrightarrow> set ts \<inter> set us = {}) \<and>
     (\<forall>t\<in>T. tln_self h (Node t) = Some t) \<and>
     (\<forall>t\<in>T. (\<forall>l ts. Q l = Some ts \<longrightarrow> t \<notin> set ts) \<longrightarrow> tln_prev h (Node t) = None \<and> tln_next h (Node t) = None)"

definition unlisted :: "tid \<Rightarrow> ('l \<Rightarrow> tid list option) \<Rightarrow> bool" where
  "unlisted t Q \<longleftrightarrow> (\<forall>l ts. Q l = Some ts \<longrightarrow> t \<notin> set ts)"

lemma tl_repD:
  assumes "tl_rep h T Q"
  shows "0 \<notin> T" "Q l = Some ts \<Longrightarrow> list_rep h l ts" "Q l = Some ts \<Longrightarrow> distinct ts" "Q l = Some ts \<Longrightarrow> set ts \<subseteq> T"
    "Q l = Some ts \<Longrightarrow> Q m = Some us \<Longrightarrow> l \<noteq> m \<Longrightarrow> set ts \<inter> set us = {}" "t \<in> T \<Longrightarrow> tln_self h (Node t) = Some t"
    "t \<in> T \<Longrightarrow> unlisted t Q \<Longrightarrow> tln_prev h (Node t) = None \<and> tln_next h (Node t) = None"
  using assms unfolding tl_rep_def unlisted_def by blast+

text \<open>A count never wraps, since threads have different addresses.\<close>

lemma tl_length_less:
  assumes "distinct (ts :: tid list)" "0 \<notin> set ts"
  shows "length ts < 2 ^ 32"
proof -
  have "card (insert 0 (set ts)) \<le> card (UNIV :: tid set)" by (intro card_mono) simp_all
  moreover have "card (UNIV :: tid set) = 2 ^ 32" by (simp add: card_word)
  moreover have "card (insert 0 (set ts)) = Suc (length ts)" using assms by (simp add: distinct_card)
  ultimately show ?thesis by simp
qed

lemma tl_count_0_iff:
  assumes "tl_rep h T Q" "Q l = Some ts"
  shows "tl_count h l = 0 \<longleftrightarrow> ts = []"
proof -
  have "length ts < 2 ^ 32" using tl_repD(1) [OF assms(1)] tl_repD(3,4) [OF assms] by (intro tl_length_less) auto
  moreover have "tl_count h l = of_nat (length ts)" using tl_repD(2) [OF assms] by (simp add: list_rep_def)
  ultimately show ?thesis by (simp add: word_unat_eq_iff unsigned_of_nat take_bit_nat_eq_self)
qed

lemma ring_distinct: "distinct ts \<Longrightarrow> distinct (ring l ts)"
  by (auto simp: ring_def distinct_map inj_on_def)

lemma ring_nodes: "Head m \<in> set (ring l ts) \<longleftrightarrow> m = l" "Tail m \<in> set (ring l ts) \<longleftrightarrow> m = l" "Node t \<in> set (ring l ts) \<longleftrightarrow> t \<in> set ts"
  by (auto simp: ring_def)

text \<open>The nodes on both sides of a position.\<close>

definition before :: "'l \<Rightarrow> tid list \<Rightarrow> 'l tlnode" where
  "before l ps = last (Head l # map Node ps)"

definition after :: "'l \<Rightarrow> tid list \<Rightarrow> 'l tlnode" where
  "after l qs = hd (map Node qs @ [Tail l])"

lemma around_simps [simp]:
  "before l [] = Head l" "before l (ps @ [p]) = Node p" "after l [] = Tail l" "after l (q # qs) = Node q"
  by (simp_all add: before_def after_def)

lemma ring_split:
  "ring l (ps @ qs) = butlast (Head l # map Node ps) @ before l ps # after l qs # tl (map Node qs @ [Tail l])"
proof -
  have "Head l # map Node ps = butlast (Head l # map Node ps) @ [before l ps]"
    unfolding before_def by (rule append_butlast_last_id [symmetric]) simp
  moreover have "map Node qs @ [Tail l] = after l qs # tl (map Node qs @ [Tail l])"
    by (simp add: after_def)
  moreover have "ring l (ps @ qs) = (Head l # map Node ps) @ (map Node qs @ [Tail l])" by (simp add: ring_def)
  ultimately show ?thesis by (metis append.assoc append_Cons append_Nil)
qed

lemma ring_insert:
  "ring l (ps @ t # qs) = butlast (Head l # map Node ps) @ before l ps # Node t # after l qs # tl (map Node qs @ [Tail l])"
proof -
  have "ring l (ps @ t # qs) = butlast (Head l # map Node ps) @ before l ps # after l (t # qs) # tl (map Node (t # qs) @ [Tail l])"
    by (rule ring_split)
  then show ?thesis by (simp add: after_def)
qed

lemma around_mem:
  "before l ps \<in> set (ring l (ps @ qs))" "after l qs \<in> set (ring l (ps @ qs))" "before l ps \<noteq> after l qs' \<or> set ps \<inter> set qs' \<noteq> {}"
  "before l ps \<in> insert (Head l) (Node ` set ps)" "after l qs \<in> insert (Tail l) (Node ` set qs)"
proof -
  show b: "before l ps \<in> insert (Head l) (Node ` set ps)" for ps
    by (cases ps rule: rev_cases) simp_all
  show a: "after l qs \<in> insert (Tail l) (Node ` set qs)" for qs
    by (cases qs) simp_all
  show "before l ps \<in> set (ring l (ps @ qs))" using b by (auto simp: ring_def)
  show "after l qs \<in> set (ring l (ps @ qs))" using a by (auto simp: ring_def)
  show "before l ps \<noteq> after l qs' \<or> set ps \<inter> set qs' \<noteq> {}" using a [of qs'] b [of ps] by auto
qed

lemma neighbours:
  assumes "list_rep h l (ps @ qs)"
  shows "tln_next h (before l ps) = Some (after l qs)" "tln_prev h (after l qs) = Some (before l ps)"
  using assms unfolding list_rep_def ring_split linked_split by simp_all

text \<open>Lists that are not touched.\<close>

lemma list_rep_link:
  assumes "list_rep h m us" "set us \<inter> set (ps @ t # qs) = {}" "m \<noteq> l"
  shows "list_rep (set_count l c (link_in (before l ps) (Node t) (after l qs) h)) m us"
    "list_rep (set_count l c (link_out (before l ps) (Node t) (after l qs) h)) m us"
proof -
  have out: "before l ps \<notin> set (ring m us)" "after l qs \<notin> set (ring m us)" "Node t \<notin> set (ring m us)"
    using around_mem(4) [of l ps] around_mem(5) [of l qs] assms(2,3) by (auto simp: ring_nodes)
  have ends: "Head m \<noteq> before l ps" "Tail m \<noteq> before l ps" "Head m \<noteq> after l qs" "Tail m \<noteq> after l qs"
    using out by (auto simp: ring_def)
  have cong: "linked (set_count l c g) ns = linked g ns" for g :: "'a tlheap" and ns
    by (auto simp: set_count_def intro: linked_cong)
  show "list_rep (set_count l c (link_in (before l ps) (Node t) (after l qs) h)) m us"
    "list_rep (set_count l c (link_out (before l ps) (Node t) (after l qs) h)) m us"
    using assms(1,3) linked_link_other [OF _ out(1,3,2)] ends unfolding list_rep_def cong
    by (simp_all add: set_count_def link_in_def link_out_def)
qed

lemma list_rep_insert:
  assumes "list_rep h l (ps @ qs)" "distinct (ps @ qs)" "t \<notin> set (ps @ qs)"
  shows "list_rep (set_count l (tl_count h l + 1) (link_in (before l ps) (Node t) (after l qs) h)) l (ps @ t # qs)"
proof -
  let ?g = "link_in (before l ps) (Node t) (after l qs) h"
  have "linked ?g (ring l (ps @ t # qs))"
    using assms linked_link_in [of h _ _ _ _ "Node t"] ring_distinct [OF assms(2), of l] ring_nodes(3) [of t l "ps @ qs"]
    unfolding list_rep_def ring_split [of l ps qs] ring_insert by blast
  then have "linked (set_count l (tl_count h l + 1) ?g) (ring l (ps @ t # qs))"
    by (rule linked_cong) (simp_all add: set_count_def)
  moreover have "after l qs \<noteq> Head l" "before l ps \<noteq> Tail l"
    using around_mem(4) [of l ps] around_mem(5) [of l qs] by auto
  ultimately show ?thesis using assms(1) by (auto simp: list_rep_def set_count_def link_in_def)
qed

lemma list_rep_remove:
  assumes "list_rep h l (ps @ t # qs)" "distinct (ps @ t # qs)"
  shows "list_rep (set_count l (tl_count h l - 1) (link_out (before l ps) (Node t) (after l qs) h)) l (ps @ qs)"
proof -
  let ?g = "link_out (before l ps) (Node t) (after l qs) h"
  have "linked ?g (ring l (ps @ qs))"
    using assms linked_link_out [of h _ _ "Node t"] ring_distinct [OF assms(2), of l]
    unfolding list_rep_def ring_split [of l ps qs] ring_insert by blast
  then have "linked (set_count l (tl_count h l - 1) ?g) (ring l (ps @ qs))"
    by (rule linked_cong) (simp_all add: set_count_def)
  moreover have "after l qs \<noteq> Head l" "before l ps \<noteq> Tail l"
    using around_mem(4) [of l ps] around_mem(5) [of l qs] by auto
  ultimately show ?thesis using assms(1) by (auto simp: list_rep_def set_count_def link_out_def)
qed

lemma link_self [simp]:
  "tln_self (link_in a n b h) = tln_self h" "tln_self (link_out a n b h) = tln_self h" "tln_self (set_count l c h) = tln_self h"
  by (simp_all add: link_in_def link_out_def set_count_def)

lemma tl_rep_upd:
  assumes "tl_rep h T Q" "list_rep g l us" "distinct us" "set us \<subseteq> T"
    and "\<And>m ts. m \<noteq> l \<Longrightarrow> Q m = Some ts \<Longrightarrow> list_rep g m ts \<and> set ts \<inter> set us = {}"
    and "\<And>t. t \<in> T \<Longrightarrow> tln_self g (Node t) = tln_self h (Node t)"
    and "\<And>t. t \<in> T \<Longrightarrow> unlisted t (Q(l \<mapsto> us)) \<Longrightarrow> tln_prev g (Node t) = None \<and> tln_next g (Node t) = None"
  shows "tl_rep g T (Q(l \<mapsto> us))"
  unfolding tl_rep_def
proof (intro conjI allI ballI impI)
  note D = tl_repD [OF assms(1)]
  show "0 \<notin> T" by (rule D(1))
  fix m ts assume m: "(Q(l \<mapsto> us)) m = Some ts"
  show "list_rep g m ts" using m assms(2,5) by (auto split: if_splits)
  show "distinct ts" using m assms(3) D(3) [of m ts] by (auto split: if_splits)
  show "set ts \<subseteq> T" using m assms(4) D(4) [of m ts] by (auto split: if_splits)
next
  fix m k ts vs assume q: "(Q(l \<mapsto> us)) m = Some ts" "(Q(l \<mapsto> us)) k = Some vs" "m \<noteq> k"
  then show "set ts \<inter> set vs = {}"
    using tl_repD(5) [OF assms(1), of m ts k vs] assms(5) [of m ts] assms(5) [of k vs] by (auto split: if_splits)
next
  fix t assume "t \<in> T"
  then show "tln_self g (Node t) = Some t" using tl_repD(6) [OF assms(1)] assms(6) by simp
next
  fix t assume "t \<in> T" "\<forall>m ts. (Q(l \<mapsto> us)) m = Some ts \<longrightarrow> t \<notin> set ts"
  then show "tln_prev g (Node t) = None" "tln_next g (Node t) = None" using assms(7) [of t] by (auto simp: unlisted_def)
qed

lemma unlisted_upd: "unlisted t (Q(l \<mapsto> us)) \<longleftrightarrow> t \<notin> set us \<and> (\<forall>m ts. m \<noteq> l \<longrightarrow> Q m = Some ts \<longrightarrow> t \<notin> set ts)"
  by (auto simp: unlisted_def)

lemma tl_rep_insert:
  assumes "tl_rep h T Q" "Q l = Some (ps @ qs)" "t \<in> T" "unlisted t Q"
  shows "tl_rep (set_count l (tl_count h l + 1) (link_in (before l ps) (Node t) (after l qs) h)) T (Q(l \<mapsto> ps @ t # qs))"
    (is "tl_rep ?g T ?Q")
proof (rule tl_rep_upd [OF assms(1)])
  note D = tl_repD [OF assms(1)]
  have tn: "t \<notin> set (ps @ qs)" using assms(2,4) unfolding unlisted_def by blast
  show "list_rep ?g l (ps @ t # qs)" by (rule list_rep_insert [OF D(2,3) [OF assms(2)] tn])
  show "distinct (ps @ t # qs)" "set (ps @ t # qs) \<subseteq> T" using D(3,4) [OF assms(2)] assms(3) tn by auto
  show "list_rep ?g m us \<and> set us \<inter> set (ps @ t # qs) = {}" if m: "m \<noteq> l" "Q m = Some us" for m us
  proof -
    have dj: "set us \<inter> set (ps @ t # qs) = {}" using D(5) [OF m(2) assms(2) m(1)] assms(4) m by (auto simp: unlisted_def)
    show ?thesis using list_rep_link(1) [OF D(2) [OF m(2)] dj m(1)] dj by blast
  qed
  show "tln_prev ?g (Node u) = None \<and> tln_next ?g (Node u) = None" if u: "u \<in> T" "unlisted u ?Q" for u
  proof -
    have "unlisted u Q" using u(2) assms(2) unfolding unlisted_upd by (auto simp: unlisted_def) (metis UnE option.inject set_append)
    with u show ?thesis
      using D(7) around_mem(4) [of l ps] around_mem(5) [of l qs] by (auto simp: unlisted_upd set_count_def link_in_def)
  qed
qed simp

lemma tl_rep_remove:
  assumes "tl_rep h T Q" "Q l = Some (ps @ t # qs)"
  shows "tl_rep (set_count l (tl_count h l - 1) (link_out (before l ps) (Node t) (after l qs) h)) T (Q(l \<mapsto> ps @ qs))"
    (is "tl_rep ?g T ?Q")
proof (rule tl_rep_upd [OF assms(1)])
  note D = tl_repD [OF assms(1)]
  have dist: "distinct (ps @ t # qs)" using D(3) [OF assms(2)] .
  show "list_rep ?g l (ps @ qs)" by (rule list_rep_remove [OF D(2) [OF assms(2)] dist])
  show "distinct (ps @ qs)" "set (ps @ qs) \<subseteq> T" using D(3,4) [OF assms(2)] by auto
  show "list_rep ?g m us \<and> set us \<inter> set (ps @ qs) = {}" if m: "m \<noteq> l" "Q m = Some us" for m us
  proof -
    have dj: "set us \<inter> set (ps @ t # qs) = {}" using D(5) [OF m(2) assms(2) m(1)] .
    then show ?thesis using list_rep_link(2) [OF D(2) [OF m(2)] dj m(1)] by auto
  qed
  show "tln_prev ?g (Node u) = None \<and> tln_next ?g (Node u) = None" if u: "u \<in> T" "unlisted u ?Q" for u
  proof (cases "u = t")
    case True
    then show ?thesis
      using around_mem(4) [of l ps] around_mem(5) [of l qs] dist by (auto simp: set_count_def link_out_def)
  next
    case False
    then have "unlisted u Q" using u(2) assms(2) unfolding unlisted_upd by (auto simp: unlisted_def) (metis UnE option.inject set_ConsD set_append)
    with u False show ?thesis
      using D(7) around_mem(4) [of l ps] around_mem(5) [of l qs] by (auto simp: unlisted_upd set_count_def link_out_def)
  qed
qed simp

section \<open>The operations on the lists they represent\<close>

lemma insertnode_link:
  assumes "tl_rep h T Q" "Q l = Some (ps @ qs)" "unlisted t Q"
  shows "threadlist_insertafternode (before l ps) t h = Some (link_in (before l ps) (Node t) (after l qs) h)"
    "threadlist_insertbeforenode t (after l qs) h = Some (link_in (before l ps) (Node t) (after l qs) h)"
proof -
  have "t \<notin> set (ps @ qs)" using assms(2,3) unfolding unlisted_def by blast
  then have "before l ps \<noteq> Node t" "after l qs \<noteq> Node t"
    using around_mem(4) [of l ps] around_mem(5) [of l qs] by auto
  with neighbours [OF tl_repD(2) [OF assms(1,2)]]
  show "threadlist_insertafternode (before l ps) t h = Some (link_in (before l ps) (Node t) (after l qs) h)"
    "threadlist_insertbeforenode t (after l qs) h = Some (link_in (before l ps) (Node t) (after l qs) h)"
    by (auto simp: threadlist_insertafternode_def threadlist_insertbeforenode_def tl_setters link_in_def Let_def)
qed

lemma removenode_link:
  assumes "tl_rep h T Q" "Q l = Some (ps @ t # qs)"
  shows "threadlist_removenode (Node t) h = Some (link_out (before l ps) (Node t) (after l qs) h)"
    "tln_next h (Node t) = Some (after l qs)" "tln_prev h (Node t) = Some (before l ps)"
proof -
  have n: "tln_next h (before l ps) = Some (Node t)" "tln_prev h (Node t) = Some (before l ps)"
    using neighbours [of h l ps "t # qs"] tl_repD(2) [OF assms] by simp_all
  have m: "tln_next h (Node t) = Some (after l qs)" "tln_prev h (after l qs) = Some (Node t)"
    using neighbours [of h l "ps @ [t]" qs] tl_repD(2) [OF assms] by simp_all
  have "t \<notin> set ps" "t \<notin> set qs" using tl_repD(3) [OF assms] by simp_all
  then have "before l ps \<noteq> Node t" "after l qs \<noteq> Node t"
    using around_mem(4) [of l ps] around_mem(5) [of l qs] by auto
  with n m show "threadlist_removenode (Node t) h = Some (link_out (before l ps) (Node t) (after l qs) h)"
    "tln_next h (Node t) = Some (after l qs)" "tln_prev h (Node t) = Some (before l ps)"
    by (auto simp: threadlist_removenode_def tl_setters link_out_def fun_upd_twist)
qed

lemma link_count [simp]: "tl_count (link_in a n b h) = tl_count h" "tl_count (link_out a n b h) = tl_count h"
  by (simp_all add: link_in_def link_out_def)

lemma threadlist_insert_spec:
  assumes "tl_rep h T Q" "Q l = Some ts" "t \<in> T" "unlisted t Q"
  shows "\<exists>h'. threadlist_addhead l t h = Some h' \<and> tl_rep h' T (Q(l \<mapsto> t # ts))"
    "\<exists>h'. threadlist_addtail l t h = Some h' \<and> tl_rep h' T (Q(l \<mapsto> ts @ [t]))"
    "ts = ps @ u # qs \<Longrightarrow> \<exists>h'. threadlist_insertafter l u t h = Some h' \<and> tl_rep h' T (Q(l \<mapsto> ps @ u # t # qs))"
    "ts = ps @ u # qs \<Longrightarrow> \<exists>h'. threadlist_insertbefore l t u h = Some h' \<and> tl_rep h' T (Q(l \<mapsto> ps @ t # u # qs))"
proof -
  show "\<exists>h'. threadlist_addhead l t h = Some h' \<and> tl_rep h' T (Q(l \<mapsto> t # ts))"
    using insertnode_link(1) [of h T Q l "[]" ts t] tl_rep_insert [of h T Q l "[]" ts t] assms
    by (simp add: threadlist_addhead_def)
  show "\<exists>h'. threadlist_addtail l t h = Some h' \<and> tl_rep h' T (Q(l \<mapsto> ts @ [t]))"
    using insertnode_link(2) [of h T Q l ts "[]" t] tl_rep_insert [of h T Q l ts "[]" t] assms
    by (simp add: threadlist_addtail_def)
  show "\<exists>h'. threadlist_insertafter l u t h = Some h' \<and> tl_rep h' T (Q(l \<mapsto> ps @ u # t # qs))" if "ts = ps @ u # qs"
    using insertnode_link(1) [of h T Q l "ps @ [u]" qs t] tl_rep_insert [of h T Q l "ps @ [u]" qs t] assms that
    by (simp add: threadlist_insertafter_def)
  show "\<exists>h'. threadlist_insertbefore l t u h = Some h' \<and> tl_rep h' T (Q(l \<mapsto> ps @ t # u # qs))" if "ts = ps @ u # qs"
    using insertnode_link(2) [of h T Q l ps "u # qs" t] tl_rep_insert [of h T Q l ps "u # qs" t] assms that
    by (simp add: threadlist_insertbefore_def)
qed

lemma threadlist_remove_spec:
  assumes "tl_rep h T Q" "Q l = Some ts"
  shows "ts = [] \<Longrightarrow> threadlist_remhead l h = Some (None, h)"
    "ts = t # us \<Longrightarrow> \<exists>h'. threadlist_remhead l h = Some (Some t, h') \<and> tl_rep h' T (Q(l \<mapsto> us))"
    "ts = [] \<Longrightarrow> threadlist_remtail l h = Some (None, h)"
    "ts = us @ [t] \<Longrightarrow> \<exists>h'. threadlist_remtail l h = Some (Some t, h') \<and> tl_rep h' T (Q(l \<mapsto> us))"
    "ts = ps @ t # qs \<Longrightarrow> \<exists>h'. threadlist_remove l t h = Some h' \<and> tl_rep h' T (Q(l \<mapsto> ps @ qs))"
proof -
  note rep = tl_repD(2) [OF assms]
  show "threadlist_remhead l h = Some (None, h)" "threadlist_remtail l h = Some (None, h)" if "ts = []"
    using rep that by (auto simp: threadlist_remhead_def threadlist_remtail_def list_rep_def ring_def)
  have self: "tln_self h (Node t) = Some t" if "t \<in> set ts" for t using tl_repD(4,6) [OF assms(1)] assms(2) that by blast
  show "\<exists>h'. threadlist_remhead l h = Some (Some t, h') \<and> tl_rep h' T (Q(l \<mapsto> us))" if "ts = t # us"
    using removenode_link [of h T Q l "[]" t us] tl_rep_remove [of h T Q l "[]" t us] assms that neighbours(1) [of h l "[]" ts] rep self
    by (simp add: threadlist_remhead_def)
  show "\<exists>h'. threadlist_remtail l h = Some (Some t, h') \<and> tl_rep h' T (Q(l \<mapsto> us))" if "ts = us @ [t]"
    using removenode_link [of h T Q l us t "[]"] tl_rep_remove [of h T Q l us t "[]"] assms that neighbours(2) [of h l ts "[]"] rep self
    by (simp add: threadlist_remtail_def)
  show "\<exists>h'. threadlist_remove l t h = Some h' \<and> tl_rep h' T (Q(l \<mapsto> ps @ qs))" if "ts = ps @ t # qs"
    using removenode_link [of h T Q l ps t qs] tl_rep_remove [of h T Q l ps t qs] assms that
    by (simp add: threadlist_remove_def)
qed

lemma threadlist_init_spec:
  assumes "tl_rep h T Q" "Q l = None"
  shows "tl_rep (threadlist_init l h) T (Q(l \<mapsto> []))"
proof (rule tl_rep_upd [OF assms(1)])
  show "list_rep (threadlist_init l h) l []"
    by (simp add: list_rep_def ring_def threadlist_init_def tl_setters)
  show "list_rep (threadlist_init l h) m ts \<and> set ts \<inter> set [] = {}" if m: "m \<noteq> l" "Q m = Some ts" for m ts
  proof -
    have r: "list_rep h m ts" by (rule tl_repD(2) [OF assms(1) m(2)])
    have "linked (threadlist_init l h) (ring m ts)"
    proof (rule linked_cong [of h])
      show "linked h (ring m ts)" using r by (simp add: list_rep_def)
      have "n \<noteq> Head l" "n \<noteq> Tail l" if "n \<in> set (ring m ts)" for n using that m(1) by (auto simp: ring_def)
      moreover have "n \<in> set (ring m ts)" if "n \<in> set (butlast (ring m ts)) \<or> n \<in> set (tl (ring m ts))" for n
        using that by (cases "ring m ts") (auto dest: in_set_butlastD split: if_splits)
      ultimately show "\<forall>n\<in>set (butlast (ring m ts)). tln_next (threadlist_init l h) n = tln_next h n"
        "\<forall>n\<in>set (tl (ring m ts)). tln_prev (threadlist_init l h) n = tln_prev h n"
        by (auto simp: threadlist_init_def tl_setters)
    qed
    with r m(1) show ?thesis by (simp add: list_rep_def threadlist_init_def tl_setters)
  qed
  show "tln_prev (threadlist_init l h) (Node t) = None \<and> tln_next (threadlist_init l h) (Node t) = None"
    if "t \<in> T" "unlisted t (Q(l \<mapsto> []))" for t
  proof -
    have "t \<notin> set us" if "Q m = Some us" for m us
      using \<open>unlisted t (Q(l \<mapsto> []))\<close> assms(2) that by (cases "m = l") (auto simp: unlisted_upd)
    then have "unlisted t Q" unfolding unlisted_def by blast
    with tl_repD(7) [OF assms(1) that(1)] show ?thesis by (simp add: threadlist_init_def tl_setters)
  qed
qed (simp_all add: threadlist_init_def tl_setters)

lemma list_rep_cong:
  assumes "list_rep h l ts" "\<And>n. n \<in> set (ring l ts) \<Longrightarrow> tln_next g n = tln_next h n \<and> tln_prev g n = tln_prev h n \<and> tln_self g n = tln_self h n"
    "tl_count g l = tl_count h l"
  shows "list_rep g l ts"
proof -
  have "n \<in> set (ring l ts)" if "n \<in> set (butlast (ring l ts)) \<or> n \<in> set (tl (ring l ts))" for n
    using that by (cases "ring l ts") (auto dest: in_set_butlastD split: if_splits)
  with assms show ?thesis by (auto simp: list_rep_def ring_nodes intro: linked_cong)
qed

lemma threadlistnode_init_spec:
  assumes "tl_rep h T Q" "t \<notin> T" "t \<noteq> 0"
  shows "\<exists>h'. threadlistnode_init t h = Some h' \<and> tl_rep h' (insert t T) Q"
proof -
  let ?h = "set_self (Node t) (Some t) (set_prev (Node t) None (set_next (Node t) None h))"
  note D = tl_repD [OF assms(1)]
  have "list_rep ?h l ts" if "Q l = Some ts" for l ts
    by (rule list_rep_cong [OF D(2) [OF that]])
      (use D(4) [OF that] assms(2) in \<open>auto simp: tl_setters ring_nodes\<close>)
  moreover have "unlisted t Q" unfolding unlisted_def using D(4) assms(2) by blast
  ultimately have "tl_rep ?h (insert t T) Q"
    using assms D(1,3,5-7) D(4) [THEN subsetD] unfolding tl_rep_def unlisted_def by (auto simp: tl_setters)
  with assms(3) show ?thesis by (simp add: threadlistnode_init_def)
qed

text \<open>The assertions made on a list and on a node that go away.\<close>

lemma tl_rep_forget: "tl_rep h T Q \<Longrightarrow> Q l = Some [] \<Longrightarrow> tl_rep h T (Q(l := None))"
proof -
  assume a: "tl_rep h T Q" "Q l = Some []"
  then have "unlisted t (Q(l := None)) \<longleftrightarrow> unlisted t Q" for t
    unfolding unlisted_def by (auto split: if_splits) (case_tac "la = l"; simp)
  with a show ?thesis unfolding tl_rep_def unlisted_def by (auto split: if_splits)
qed

lemma threadlist_cleanup_spec:
  assumes "tl_rep h T Q" "Q l = Some ts"
  shows "threadlist_isempty l h \<longleftrightarrow> ts = []" "threadlist_cleanup l h = (if ts = [] then Some () else None)"
  using tl_count_0_iff [OF assms] by (auto simp: threadlist_isempty_def threadlist_cleanup_def)

lemma threadlistnode_cleanup_spec:
  assumes "tl_rep h T Q" "t \<in> T"
  shows "threadlistnode_cleanup t h = (if unlisted t Q then Some () else None)"
proof (cases "unlisted t Q")
  case True
  with tl_repD(6,7) [OF assms(1)] assms(2) show ?thesis by (simp add: threadlistnode_cleanup_def)
next
  case False
  then obtain l ts where "Q l = Some ts" "t \<in> set ts" by (auto simp: unlisted_def)
  then obtain ps qs where "Q l = Some (ps @ t # qs)" by (metis in_set_conv_decomp)
  from removenode_link(2) [OF assms(1) this] show ?thesis using False by (simp add: threadlistnode_cleanup_def)
qed

lemma threadlist_forall_from_spec:
  assumes "linked h (n # map Node ts @ [Tail l])" "tln_self h (Tail l) = None" "\<forall>t\<in>set ts. tln_self h (Node t) = Some t"
  shows "threadlist_forall_from h n = Some ts"
  using assms
proof (induction ts arbitrary: n)
  case Nil
  then show ?case by (simp add: threadlist_forall_from.simps)
next
  case (Cons t ts)
  then have "threadlist_forall_from h (Node t) = Some ts" by simp
  with Cons.prems show ?case by (simp add: threadlist_forall_from.simps [of h n])
qed

lemma THREADLIST_FORALL_spec:
  assumes "tl_rep h T Q" "Q l = Some ts"
  shows "THREADLIST_FORALL l h = Some ts"
  unfolding THREADLIST_FORALL_def
  by (rule threadlist_forall_from_spec)
    (use tl_repD(2,4) [OF assms] tl_repD(6) [OF assms(1)] in \<open>auto simp: list_rep_def ring_def\<close>)

section \<open>The contract\<close>

text \<open>
  What a client of the lists relies on. \<open>rep h T Q\<close> says that the heap \<open>h\<close> holds the lists \<open>Q\<close>
  of threads in \<open>T\<close>.
\<close>

locale thread_queues =
  fixes rep :: "'h \<Rightarrow> tid set \<Rightarrow> ('l \<Rightarrow> tid list option) \<Rightarrow> bool"
    and addhead addtail :: "'l \<Rightarrow> tid \<Rightarrow> 'h \<Rightarrow> 'h option"
    and remhead remtail :: "'l \<Rightarrow> 'h \<Rightarrow> (tid option \<times> 'h) option"
    and isempty :: "'l \<Rightarrow> 'h \<Rightarrow> bool"
  assumes addhead: "rep h T Q \<Longrightarrow> Q l = Some ts \<Longrightarrow> t \<in> T \<Longrightarrow> unlisted t Q \<Longrightarrow>
      \<exists>h'. addhead l t h = Some h' \<and> rep h' T (Q(l \<mapsto> t # ts))"
    and addtail: "rep h T Q \<Longrightarrow> Q l = Some ts \<Longrightarrow> t \<in> T \<Longrightarrow> unlisted t Q \<Longrightarrow>
      \<exists>h'. addtail l t h = Some h' \<and> rep h' T (Q(l \<mapsto> ts @ [t]))"
    and remhead_empty: "rep h T Q \<Longrightarrow> Q l = Some [] \<Longrightarrow> remhead l h = Some (None, h)"
    and remhead: "rep h T Q \<Longrightarrow> Q l = Some (t # ts) \<Longrightarrow> \<exists>h'. remhead l h = Some (Some t, h') \<and> rep h' T (Q(l \<mapsto> ts))"
    and remtail_empty: "rep h T Q \<Longrightarrow> Q l = Some [] \<Longrightarrow> remtail l h = Some (None, h)"
    and remtail: "rep h T Q \<Longrightarrow> Q l = Some (ts @ [t]) \<Longrightarrow> \<exists>h'. remtail l h = Some (Some t, h') \<and> rep h' T (Q(l \<mapsto> ts))"
    and isempty: "rep h T Q \<Longrightarrow> Q l = Some ts \<Longrightarrow> isempty l h \<longleftrightarrow> ts = []"
    and disjoint: "rep h T Q \<Longrightarrow> Q l = Some ts \<Longrightarrow> Q m = Some us \<Longrightarrow> l \<noteq> m \<Longrightarrow> set ts \<inter> set us = {}"
    and distinct: "rep h T Q \<Longrightarrow> Q l = Some ts \<Longrightarrow> distinct ts"
    and threads: "rep h T Q \<Longrightarrow> Q l = Some ts \<Longrightarrow> set ts \<subseteq> T"
begin

text \<open>A thread that was taken off a list is on no list.\<close>

lemma taken_unlisted:
  assumes "rep h T Q" "Q l = Some ts" "set ts = insert t (set us)" "t \<notin> set us"
  shows "unlisted t (Q(l \<mapsto> us))" "t \<in> T"
  using disjoint [OF assms(1,2)] threads [OF assms(1,2)] assms(3,4) by (auto simp: unlisted_upd)

text \<open>Moving the first thread of a list to the end of another one.\<close>

lemma move_head_tail:
  assumes "rep h T Q" "Q l = Some (t # ts)" "Q m = Some us" "l \<noteq> m"
  shows "\<exists>h' h''. remhead l h = Some (Some t, h') \<and> addtail m t h' = Some h'' \<and>
    rep h'' T (Q(l \<mapsto> ts, m \<mapsto> us @ [t]))"
proof -
  obtain h' where h': "remhead l h = Some (Some t, h')" "rep h' T (Q(l \<mapsto> ts))" using remhead [OF assms(1,2)] by blast
  have "t \<notin> set ts" using distinct [OF assms(1,2)] by simp
  with taken_unlisted [OF assms(1,2), of t ts] have u: "unlisted t (Q(l \<mapsto> ts))" "t \<in> T" by simp_all
  have "(Q(l \<mapsto> ts)) m = Some us" using assms(3,4) by simp
  from addtail [OF h'(2) this u(2,1)] h'(1) show ?thesis by blast
qed

end

interpretation tq: thread_queues tl_rep threadlist_addhead threadlist_addtail threadlist_remhead threadlist_remtail threadlist_isempty
proof (unfold_locales, goal_cases)
  case (1 h T Q l ts t)
  then show ?case by (rule threadlist_insert_spec(1))
next
  case (2 h T Q l ts t)
  then show ?case by (rule threadlist_insert_spec(2))
next
  case (3 h T Q l)
  then show ?case by (rule threadlist_remove_spec(1)) simp
next
  case (4 h T Q l t ts)
  then show ?case by (rule threadlist_remove_spec(2)) simp
next
  case (5 h T Q l)
  then show ?case by (rule threadlist_remove_spec(3)) simp
next
  case (6 h T Q l ts t)
  then show ?case by (rule threadlist_remove_spec(4)) simp
next
  case (7 h T Q l ts)
  then show ?case by (rule threadlist_cleanup_spec(1))
next
  case (8 h T Q l ts m us)
  then show ?case by (rule tl_repD(5))
next
  case (9 h T Q l ts)
  then show ?case by (rule tl_repD(3))
next
  case (10 h T Q l ts)
  then show ?case by (rule tl_repD(4))
qed

section \<open>Sequences of operations\<close>

datatype 'l tl_cmd =
    AddHead 'l tid | AddTail 'l tid | RemHead 'l | RemTail 'l
  | InsertAfter 'l tid tid | InsertBefore 'l tid tid | Remove 'l tid

fun tl_exec :: "'l tl_cmd \<Rightarrow> 'l tlheap \<Rightarrow> (tid option \<times> 'l tlheap) option" where
  "tl_exec (AddHead l t) h = map_option (Pair None) (threadlist_addhead l t h)"
| "tl_exec (AddTail l t) h = map_option (Pair None) (threadlist_addtail l t h)"
| "tl_exec (RemHead l) h = threadlist_remhead l h"
| "tl_exec (RemTail l) h = threadlist_remtail l h"
| "tl_exec (InsertAfter l u t) h = map_option (Pair None) (threadlist_insertafter l u t h)"
| "tl_exec (InsertBefore l t u) h = map_option (Pair None) (threadlist_insertbefore l t u h)"
| "tl_exec (Remove l t) h = map_option (Pair None) (threadlist_remove l t h)"

text \<open>
  The same operations on the lists themselves. \<open>None\<close> is a call the interface does not allow: the
  list is not initialised, the thread to add is on a list already, or the thread named as being
  on the list is not.
\<close>

definition upto_before :: "tid \<Rightarrow> tid list \<Rightarrow> tid list" where "upto_before u ts = takeWhile (\<lambda>x. x \<noteq> u) ts"
definition from_after :: "tid \<Rightarrow> tid list \<Rightarrow> tid list" where "from_after u ts = tl (dropWhile (\<lambda>x. x \<noteq> u) ts)"

fun tl_spec :: "tid set \<Rightarrow> 'l tl_cmd \<Rightarrow> ('l \<Rightarrow> tid list option) \<Rightarrow> (tid option \<times> ('l \<Rightarrow> tid list option)) option" where
  "tl_spec T (AddHead l t) Q =
     do { ts \<leftarrow> Q l; kassert (t \<in> T \<and> unlisted t Q); Some (None, Q(l \<mapsto> t # ts)) }"
| "tl_spec T (AddTail l t) Q =
     do { ts \<leftarrow> Q l; kassert (t \<in> T \<and> unlisted t Q); Some (None, Q(l \<mapsto> ts @ [t])) }"
| "tl_spec T (RemHead l) Q =
     do { ts \<leftarrow> Q l; Some (if ts = [] then (None, Q) else (Some (hd ts), Q(l \<mapsto> tl ts))) }"
| "tl_spec T (RemTail l) Q =
     do { ts \<leftarrow> Q l; Some (if ts = [] then (None, Q) else (Some (last ts), Q(l \<mapsto> butlast ts))) }"
| "tl_spec T (InsertAfter l u t) Q =
     do { ts \<leftarrow> Q l; kassert (u \<in> set ts \<and> t \<in> T \<and> unlisted t Q);
          Some (None, Q(l \<mapsto> upto_before u ts @ u # t # from_after u ts)) }"
| "tl_spec T (InsertBefore l t u) Q =
     do { ts \<leftarrow> Q l; kassert (u \<in> set ts \<and> t \<in> T \<and> unlisted t Q);
          Some (None, Q(l \<mapsto> upto_before u ts @ t # u # from_after u ts)) }"
| "tl_spec T (Remove l t) Q =
     do { ts \<leftarrow> Q l; kassert (t \<in> set ts); Some (None, Q(l \<mapsto> upto_before t ts @ from_after t ts)) }"

fun tl_run :: "'l tl_cmd list \<Rightarrow> 'l tlheap \<Rightarrow> (tid option list \<times> 'l tlheap) option" where
  "tl_run [] h = Some ([], h)"
| "tl_run (c # cs) h = do { (r, h) \<leftarrow> tl_exec c h; (rs, h) \<leftarrow> tl_run cs h; Some (r # rs, h) }"

fun tl_spec_run :: "tid set \<Rightarrow> 'l tl_cmd list \<Rightarrow> ('l \<Rightarrow> tid list option) \<Rightarrow> (tid option list \<times> ('l \<Rightarrow> tid list option)) option" where
  "tl_spec_run T [] Q = Some ([], Q)"
| "tl_spec_run T (c # cs) Q = do { (r, Q) \<leftarrow> tl_spec T c Q; (rs, Q) \<leftarrow> tl_spec_run T cs Q; Some (r # rs, Q) }"

lemma upto_from: "u \<in> set ts \<Longrightarrow> ts = upto_before u ts @ u # from_after u ts"
  unfolding upto_before_def from_after_def by (induction ts) auto

lemma tl_exec_refines:
  assumes "tl_rep h T Q" "tl_spec T c Q = Some (r, Q')"
  shows "\<exists>h'. tl_exec c h = Some (r, h') \<and> tl_rep h' T Q'"
proof (cases c)
  case (AddHead l t)
  then show ?thesis using assms threadlist_insert_spec(1) by (fastforce elim!: bindE)
next
  case (AddTail l t)
  then show ?thesis using assms threadlist_insert_spec(2) by (fastforce elim!: bindE)
next
  case (RemHead l)
  with assms(2) obtain ts where ts: "Q l = Some ts" by (auto elim: bindE)
  with RemHead assms show ?thesis
    using threadlist_remove_spec(1,2) [OF assms(1) ts] by (cases ts) auto
next
  case (RemTail l)
  with assms(2) obtain ts where ts: "Q l = Some ts" by (auto elim: bindE)
  with RemTail assms show ?thesis
    using threadlist_remove_spec(3,4) [OF assms(1) ts] by (cases ts rule: rev_cases) auto
next
  case (InsertAfter l u t)
  with assms(2) obtain ts where ts: "Q l = Some ts" "u \<in> set ts" "t \<in> T" "unlisted t Q" by (auto elim!: bindE)
  with InsertAfter assms(2) show ?thesis
    using threadlist_insert_spec(3) [OF assms(1) ts(1,3,4) upto_from [OF ts(2)]] by auto
next
  case (InsertBefore l t u)
  with assms(2) obtain ts where ts: "Q l = Some ts" "u \<in> set ts" "t \<in> T" "unlisted t Q" by (auto elim!: bindE)
  with InsertBefore assms(2) show ?thesis
    using threadlist_insert_spec(4) [OF assms(1) ts(1,3,4) upto_from [OF ts(2)]] by auto
next
  case (Remove l t)
  with assms(2) obtain ts where ts: "Q l = Some ts" "t \<in> set ts" by (auto elim!: bindE)
  with Remove assms(2) show ?thesis
    using threadlist_remove_spec(5) [OF assms(1) ts(1) upto_from [OF ts(2)]] by auto
qed

text \<open>
  C21. The linked lists implement lists: any sequence of operations that the lists allow runs
  through on the linked nodes, gives the same results, leaves nodes that represent the lists the
  operations make, and walking a list then visits exactly its threads in order.
\<close>

theorem threadlist_refines:
  assumes "tl_rep h T Q" "tl_spec_run T cs Q = Some (rs, Q')"
  shows "\<exists>h'. tl_run cs h = Some (rs, h') \<and> tl_rep h' T Q' \<and> (\<forall>l ts. Q' l = Some ts \<longrightarrow> THREADLIST_FORALL l h' = Some ts)"
  using assms
proof (induction cs arbitrary: h Q rs)
  case Nil
  then show ?case using THREADLIST_FORALL_spec by auto
next
  case (Cons c cs)
  from Cons.prems(2) obtain r Q1 rs1 where s: "tl_spec T c Q = Some (r, Q1)" "tl_spec_run T cs Q1 = Some (rs1, Q')" "rs = r # rs1"
    by (auto elim!: bindE)
  from tl_exec_refines [OF Cons.prems(1) s(1)] obtain h1 where h1: "tl_exec c h = Some (r, h1)" "tl_rep h1 T Q1" by blast
  from Cons.IH [OF h1(2) s(2)] h1(1) s(3) show ?case by auto
qed

definition ex_heap :: "unit tlheap" where
  "ex_heap = threadlist_init () \<lparr>tln_prev = Map.empty, tln_next = Map.empty,
     tln_self = (\<lambda>n. case n of Node t \<Rightarrow> Some t | _ \<Rightarrow> None), tl_count = (\<lambda>_. 0)\<rparr>"

lemma ex_heap_rep: "tl_rep ex_heap {8, 16, 24} [() \<mapsto> []]"
  unfolding ex_heap_def by (rule threadlist_init_spec) (simp_all add: tl_rep_def)

theorem threadlist_refines_witness:
  "\<exists>h'. tl_run [AddTail () 8, AddHead () 16, InsertAfter () 8 24, RemHead ()] ex_heap = Some ([None, None, None, Some 16], h') \<and>
     THREADLIST_FORALL () h' = Some [8, 24]"
proof -
  have "tl_spec_run {8, 16, 24} [AddTail () 8, AddHead () 16, InsertAfter () 8 24, RemHead ()] [() \<mapsto> []] =
      Some ([None, None, None, Some 16], [() \<mapsto> [8, 24]])"
    by (simp add: unlisted_def upto_before_def from_after_def)
  from threadlist_refines [OF ex_heap_rep this] show ?thesis by auto
qed

end
