(* ===== verification/Spinlock.thy ===== *)
theory Spinlock
  imports Threadlist
begin

text \<open>
  The state of the thread system (thread.h, cpu.h, proc.h), and kern/thread/spl.c and
  kern/thread/spinlock.c on it: interrupt levels and spinlocks. The processor that executes an
  operation is its first argument. An operation that would spin for a lock another processor
  holds does not return, and is tried again by the steps of the machine.
\<close>

section \<open>State\<close>

type_synonym cpuid = nat
type_synonym procid = nat
type_synonym wcid = nat

datatype threadstate = S_RUN | S_READY | S_SLEEP | S_ZOMBIE

text \<open>
  \<open>t_stack\<close> has the words of the stack, \<open>t_context\<close> the arguments of \<^verbatim>\<open>thread_startup\<close> of a thread
  that has not run yet, and \<open>t_spl\<close> the local variable \<^verbatim>\<open>spl\<close> of the call of \<^verbatim>\<open>thread_switch\<close> the
  thread is in.
\<close>

record thread =
  t_name :: string
  t_wchan_name :: "string option"
  t_state :: threadstate
  t_stack :: "u32 list option"
  t_context :: "(u32 \<times> u32 \<times> u32) option"
  t_cpu :: "cpuid option"
  t_proc :: "procid option"
  t_in_interrupt :: bool
  t_curspl :: int
  t_iplhigh_count :: int
  t_spl :: int

type_synonym tlbshootdown = "u32 \<times> u32"

text \<open>\<open>c_irq\<close> says whether the processor takes interrupts, \<open>c_halted\<close> that it has stopped.\<close>

record cpu =
  c_hardware_number :: u32
  c_curthread :: "tid option"
  c_hardclocks :: u32
  c_spinlocks :: nat
  c_isidle :: bool
  c_ipi_pending :: u32
  c_shootdown :: "tlbshootdown list"
  c_irq :: bool
  c_halted :: bool

text \<open>The lists of threads and the spinlocks, by the structure they are in.\<close>

datatype tlist = Runqueue cpuid | Zombies cpuid | WcThreads wcid | Victims cpuid | WakeList cpuid

datatype splk = RunqueueLock cpuid | IpiLock cpuid | PLock procid | OtherLock nat

text \<open>
  \<open>lk\<close> has the holder of each spinlock; the lock word is set exactly when there is one.
  \<open>wch\<close> has the names of the wait channels and \<open>p_numthreads\<close> the thread counts of the
  processes.
\<close>

record sched =
  thr :: "tid \<Rightarrow> thread option"
  cpus :: "cpu list"
  lk :: "splk \<Rightarrow> cpuid option"
  nodes :: "tlist tlheap"
  wch :: "wcid \<Rightarrow> string option"
  p_numthreads :: "procid \<Rightarrow> nat option"

type_synonym 'a sched_op = "sched \<Rightarrow> ('a \<times> sched) option"

definition on_thr :: "tid \<Rightarrow> (thread \<Rightarrow> thread) \<Rightarrow> sched \<Rightarrow> sched option" where
  "on_thr t f s = do { th \<leftarrow> thr s t; Some (s\<lparr>thr := (thr s)(t \<mapsto> f th)\<rparr>) }"

definition on_cpu :: "cpuid \<Rightarrow> (cpu \<Rightarrow> cpu) \<Rightarrow> sched \<Rightarrow> sched option" where
  "on_cpu c f s = (if c < length (cpus s) then Some (s\<lparr>cpus := (cpus s)[c := f (cpus s ! c)]\<rparr>) else None)"

definition curthread :: "cpuid \<Rightarrow> sched \<Rightarrow> tid option" where
  "curthread c s = (if c < length (cpus s) then c_curthread (cpus s ! c) else None)"

section \<open>Interrupt levels (spl.c)\<close>

definition IPL_NONE :: int where "IPL_NONE = 0"
definition IPL_HIGH :: int where "IPL_HIGH = 1"

definition splraise :: "cpuid \<Rightarrow> int \<Rightarrow> int \<Rightarrow> sched \<Rightarrow> sched option" where
  "splraise c oldspl newspl s =
     do { cur \<leftarrow> curthread c s;
          kassert (oldspl = IPL_NONE);
          kassert (newspl = IPL_HIGH);
          th \<leftarrow> thr s cur;
          s \<leftarrow> (if t_iplhigh_count th = 0 then on_cpu c (\<lambda>p. p\<lparr>c_irq := False\<rparr>) s else Some s);
          on_thr cur (\<lambda>th. th\<lparr>t_iplhigh_count := t_iplhigh_count th + 1\<rparr>) s }"

definition spllower :: "cpuid \<Rightarrow> int \<Rightarrow> int \<Rightarrow> sched \<Rightarrow> sched option" where
  "spllower c oldspl newspl s =
     do { cur \<leftarrow> curthread c s;
          kassert (oldspl = IPL_HIGH);
          kassert (newspl = IPL_NONE);
          s \<leftarrow> on_thr cur (\<lambda>th. th\<lparr>t_iplhigh_count := t_iplhigh_count th - 1\<rparr>) s;
          th \<leftarrow> thr s cur;
          if t_iplhigh_count th = 0 then on_cpu c (\<lambda>p. p\<lparr>c_irq := True\<rparr>) s else Some s }"

definition splx :: "cpuid \<Rightarrow> int \<Rightarrow> int sched_op" where
  "splx c spl s =
     do { cur \<leftarrow> curthread c s;
          th \<leftarrow> thr s cur;
          if t_curspl th < spl
          then do { s \<leftarrow> splraise c (t_curspl th) spl s;
                    s \<leftarrow> on_thr cur (\<lambda>th. th\<lparr>t_curspl := spl\<rparr>) s;
                    Some (t_curspl th, s) }
          else if t_curspl th > spl
          then do { s \<leftarrow> on_thr cur (\<lambda>th. th\<lparr>t_curspl := spl\<rparr>) s;
                    s \<leftarrow> spllower c (t_curspl th) spl s;
                    Some (t_curspl th, s) }
          else Some (spl, s) }"

definition spl0 :: "cpuid \<Rightarrow> int sched_op" where "spl0 c = splx c IPL_NONE"
definition splhigh :: "cpuid \<Rightarrow> int sched_op" where "splhigh c = splx c IPL_HIGH"

section \<open>Spinlocks (spinlock.c)\<close>

definition spinlock_init :: "splk \<Rightarrow> sched \<Rightarrow> sched" where
  "spinlock_init l s = s\<lparr>lk := (lk s)(l := None)\<rparr>"

definition spinlock_cleanup :: "splk \<Rightarrow> sched \<Rightarrow> unit option" where
  "spinlock_cleanup l s = kassert (lk s l = None)"

definition spinlock_acquire :: "cpuid \<Rightarrow> splk \<Rightarrow> sched \<Rightarrow> sched option" where
  "spinlock_acquire c l s =
     do { s \<leftarrow> splraise c IPL_NONE IPL_HIGH s;
          kassert (lk s l \<noteq> Some c);
          s \<leftarrow> on_cpu c (\<lambda>p. p\<lparr>c_spinlocks := c_spinlocks p + 1\<rparr>) s;
          if lk s l \<noteq> None then None
          else Some (s\<lparr>lk := (lk s)(l \<mapsto> c)\<rparr>) }"

definition spinlock_release :: "cpuid \<Rightarrow> splk \<Rightarrow> sched \<Rightarrow> sched option" where
  "spinlock_release c l s =
     do { kassert (lk s l = Some c);
          kassert (c < length (cpus s) \<and> c_spinlocks (cpus s ! c) > 0);
          s \<leftarrow> on_cpu c (\<lambda>p. p\<lparr>c_spinlocks := c_spinlocks p - 1\<rparr>) s;
          spllower c IPL_HIGH IPL_NONE (s\<lparr>lk := (lk s)(l := None)\<rparr>) }"

definition spinlock_do_i_hold :: "cpuid \<Rightarrow> splk \<Rightarrow> sched \<Rightarrow> bool" where
  "spinlock_do_i_hold c l s \<longleftrightarrow> lk s l = Some c"

end
