(* ===== verification/Thread.thy ===== *)
theory Thread
  imports Spinlock
begin

text \<open>
  kern/thread/thread.c and clock.c: threads, the context switch, wait channels, migration between
  processors and interprocessor interrupts.

  A call of \<^verbatim>\<open>thread_switch\<close> is cut where the processor stops working for the thread that
  called it: \<open>thread_switch_leave\<close> queues that thread, \<open>thread_switch_pick\<close> is a round of the loop
  that looks for the next one, and \<open>thread_switch_arrive\<close> is what the next thread does when it gets
  the processor, at the end of its own call or in \<^verbatim>\<open>thread_startup\<close>. Saving and loading the
  registers is assembler, and the address space of the new thread is activated in the
  model of the virtual memory system.
\<close>

unbundle bit_operations_syntax

section \<open>Threads\<close>

definition THREAD_STACK_MAGIC :: u32 where "THREAD_STACK_MAGIC = 0xbaadf00d"
definition STACK_SIZE :: nat where "STACK_SIZE = 4096"

definition thread_checkstack_init :: "tid \<Rightarrow> sched \<Rightarrow> sched option" where
  "thread_checkstack_init t s =
     do { th \<leftarrow> thr s t;
          stk \<leftarrow> t_stack th;
          on_thr t (\<lambda>th. th\<lparr>t_stack := Some (stk[0 := THREAD_STACK_MAGIC, 1 := THREAD_STACK_MAGIC,
            2 := THREAD_STACK_MAGIC, 3 := THREAD_STACK_MAGIC])\<rparr>) s }"

definition thread_checkstack :: "tid \<Rightarrow> sched \<Rightarrow> unit option" where
  "thread_checkstack t s =
     do { th \<leftarrow> thr s t;
          case t_stack th of
            None \<Rightarrow> Some ()
          | Some stk \<Rightarrow>
              do { kassert (stk ! 0 = THREAD_STACK_MAGIC);
                   kassert (stk ! 1 = THREAD_STACK_MAGIC);
                   kassert (stk ! 2 = THREAD_STACK_MAGIC);
                   kassert (stk ! 3 = THREAD_STACK_MAGIC) } }"

text \<open>
  \<open>t\<close> is the address \<^verbatim>\<open>kmalloc\<close> gives the new thread, \<open>None\<close> when there is no memory, and
  \<open>name_ok\<close> says whether there is memory for the name.
\<close>

definition thread_create :: "tid option \<Rightarrow> bool \<Rightarrow> string \<Rightarrow> tid option sched_op" where
  "thread_create mem name_ok name s =
     (case mem of
        None \<Rightarrow> Some (None, s)
      | Some t \<Rightarrow>
          if \<not> name_ok then Some (None, s)
          else do { h \<leftarrow> threadlistnode_init t (nodes s);
                    Some (Some t, s\<lparr>nodes := h, thr := (thr s)(t \<mapsto>
                      \<lparr>t_name = name, t_wchan_name = Some ''NEW'', t_state = S_READY, t_stack = None,
                       t_context = None, t_cpu = None, t_proc = None, t_in_interrupt = False,
                       t_curspl = IPL_HIGH, t_iplhigh_count = 1, t_spl = 0\<rparr>)\<rparr>) })"

definition thread_destroy :: "cpuid \<Rightarrow> tid \<Rightarrow> sched \<Rightarrow> sched option" where
  "thread_destroy c t s =
     do { kassert (curthread c s \<noteq> Some t);
          th \<leftarrow> thr s t;
          kassert (t_state th \<noteq> S_RUN);
          kassert (t_proc th = None);
          threadlistnode_cleanup t (nodes s);
          Some (s\<lparr>thr := (thr s)(t := None)\<rparr>) }"

partial_function (option) exorcise :: "cpuid \<Rightarrow> sched \<Rightarrow> sched option" where
  "exorcise c s =
     do { (z, h) \<leftarrow> threadlist_remhead (Zombies c) (nodes s);
          case z of
            None \<Rightarrow> Some (s\<lparr>nodes := h\<rparr>)
          | Some z \<Rightarrow>
              do { let s = s\<lparr>nodes := h\<rparr>;
                   kassert (curthread c s \<noteq> Some z);
                   th \<leftarrow> thr s z;
                   kassert (t_state th = S_ZOMBIE);
                   s \<leftarrow> thread_destroy c z s;
                   exorcise c s } }"

section \<open>Interprocessor interrupts\<close>

definition IPI_PANIC :: nat where "IPI_PANIC = 0"
definition IPI_OFFLINE :: nat where "IPI_OFFLINE = 1"
definition IPI_UNIDLE :: nat where "IPI_UNIDLE = 2"
definition IPI_TLBSHOOTDOWN :: nat where "IPI_TLBSHOOTDOWN = 3"
definition TLBSHOOTDOWN_MAX :: nat where "TLBSHOOTDOWN_MAX = 16"

definition ipi_send :: "cpuid \<Rightarrow> cpuid \<Rightarrow> nat \<Rightarrow> sched \<Rightarrow> sched option" where
  "ipi_send c target code s =
     do { kassert (code < 32);
          s \<leftarrow> spinlock_acquire c (IpiLock target) s;
          s \<leftarrow> on_cpu target (\<lambda>p. p\<lparr>c_ipi_pending := c_ipi_pending p OR push_bit code 1\<rparr>) s;
          spinlock_release c (IpiLock target) s }"

fun ipi_broadcast_from :: "cpuid \<Rightarrow> nat \<Rightarrow> cpuid list \<Rightarrow> sched \<Rightarrow> sched option" where
  "ipi_broadcast_from c code [] s = Some s"
| "ipi_broadcast_from c code (i # is) s =
     do { s \<leftarrow> (if i \<noteq> c then ipi_send c i code s else Some s); ipi_broadcast_from c code is s }"

definition ipi_broadcast :: "cpuid \<Rightarrow> nat \<Rightarrow> sched \<Rightarrow> sched option" where
  "ipi_broadcast c code s = ipi_broadcast_from c code [0..<length (cpus s)] s"

definition ipi_tlbshootdown :: "cpuid \<Rightarrow> cpuid \<Rightarrow> tlbshootdown \<Rightarrow> sched \<Rightarrow> sched option" where
  "ipi_tlbshootdown c target mapping s =
     do { s \<leftarrow> spinlock_acquire c (IpiLock target) s;
          kassert (target < length (cpus s) \<and> length (c_shootdown (cpus s ! target)) \<noteq> TLBSHOOTDOWN_MAX);
          s \<leftarrow> on_cpu target (\<lambda>p. p\<lparr>c_shootdown := c_shootdown p @ [mapping],
                 c_ipi_pending := c_ipi_pending p OR push_bit IPI_TLBSHOOTDOWN 1\<rparr>) s;
          spinlock_release c (IpiLock target) s }"

text \<open>\<open>vm_tlbshootdown\<close> of dumbvm.c panics, so any request stops the processor for good.\<close>

definition interprocessor_interrupt :: "cpuid \<Rightarrow> sched \<Rightarrow> sched option" where
  "interprocessor_interrupt c s =
     do { s \<leftarrow> spinlock_acquire c (IpiLock c) s;
          let bits = c_ipi_pending (cpus s ! c);
          if bit bits IPI_PANIC
          then do { s \<leftarrow> spinlock_release c (IpiLock c) s; on_cpu c (\<lambda>p. p\<lparr>c_halted := True\<rparr>) s }
          else if bit bits IPI_OFFLINE
          then do { s \<leftarrow> spinlock_release c (IpiLock c) s;
                    s \<leftarrow> spinlock_acquire c (RunqueueLock c) s;
                    s \<leftarrow> spinlock_release c (RunqueueLock c) s;
                    on_cpu c (\<lambda>p. p\<lparr>c_halted := True\<rparr>) s }
          else do { kassert (\<not> (bit bits IPI_TLBSHOOTDOWN \<and> c_shootdown (cpus s ! c) \<noteq> []));
                    s \<leftarrow> on_cpu c (\<lambda>p. p\<lparr>c_ipi_pending := 0\<rparr>) s;
                    spinlock_release c (IpiLock c) s } }"

section \<open>Making threads run\<close>

definition thread_make_runnable :: "cpuid \<Rightarrow> tid \<Rightarrow> bool \<Rightarrow> sched \<Rightarrow> sched option" where
  "thread_make_runnable c target already_have_lock s =
     do { th \<leftarrow> thr s target;
          targetcpu \<leftarrow> t_cpu th;
          s \<leftarrow> (if already_have_lock
                then do { kassert (spinlock_do_i_hold c (RunqueueLock targetcpu) s); Some s }
                else spinlock_acquire c (RunqueueLock targetcpu) s);
          s \<leftarrow> on_thr target (\<lambda>th. th\<lparr>t_state := S_READY\<rparr>) s;
          h \<leftarrow> threadlist_addtail (Runqueue targetcpu) target (nodes s);
          let s = s\<lparr>nodes := h\<rparr>;
          kassert (targetcpu < length (cpus s));
          s \<leftarrow> (if c_isidle (cpus s ! targetcpu) \<and> targetcpu \<noteq> c then ipi_send c targetcpu IPI_UNIDLE s else Some s);
          if already_have_lock then Some s else spinlock_release c (RunqueueLock targetcpu) s }"

definition proc_addthread :: "cpuid \<Rightarrow> procid \<Rightarrow> tid \<Rightarrow> sched \<Rightarrow> sched option" where
  "proc_addthread c p t s =
     do { th \<leftarrow> thr s t;
          kassert (t_proc th = None);
          s \<leftarrow> spinlock_acquire c (PLock p) s;
          n \<leftarrow> p_numthreads s p;
          s \<leftarrow> spinlock_release c (PLock p) (s\<lparr>p_numthreads := (p_numthreads s)(p \<mapsto> n + 1)\<rparr>);
          (spl, s) \<leftarrow> splhigh c s;
          s \<leftarrow> on_thr t (\<lambda>th. th\<lparr>t_proc := Some p\<rparr>) s;
          (_, s) \<leftarrow> splx c spl s;
          Some s }"

definition proc_remthread :: "cpuid \<Rightarrow> tid \<Rightarrow> sched \<Rightarrow> sched option" where
  "proc_remthread c t s =
     do { th \<leftarrow> thr s t;
          p \<leftarrow> t_proc th;
          s \<leftarrow> spinlock_acquire c (PLock p) s;
          n \<leftarrow> p_numthreads s p;
          kassert (n > 0);
          s \<leftarrow> spinlock_release c (PLock p) (s\<lparr>p_numthreads := (p_numthreads s)(p \<mapsto> n - 1)\<rparr>);
          (spl, s) \<leftarrow> splhigh c s;
          s \<leftarrow> on_thr t (\<lambda>th. th\<lparr>t_proc := None\<rparr>) s;
          (_, s) \<leftarrow> splx c spl s;
          Some s }"

text \<open>\<open>stack\<close> is the memory \<^verbatim>\<open>kmalloc\<close> gives for the stack, \<open>start\<close> the entry point and its data.\<close>

definition thread_fork :: "cpuid \<Rightarrow> tid option \<Rightarrow> bool \<Rightarrow> u32 list option \<Rightarrow> string \<Rightarrow> procid option \<Rightarrow>
    (u32 \<times> u32 \<times> u32) \<Rightarrow> (errno + tid) sched_op" where
  "thread_fork c mem name_ok stack name proc start s =
     do { (new, s) \<leftarrow> thread_create mem name_ok name s;
          case new of
            None \<Rightarrow> Some (Inl ENOMEM, s)
          | Some t \<Rightarrow>
              (case stack of
                 None \<Rightarrow> do { s \<leftarrow> thread_destroy c t s; Some (Inl ENOMEM, s) }
               | Some stk \<Rightarrow>
                   do { s \<leftarrow> on_thr t (\<lambda>th. th\<lparr>t_stack := Some stk\<rparr>) s;
                        s \<leftarrow> thread_checkstack_init t s;
                        cur \<leftarrow> curthread c s;
                        cth \<leftarrow> thr s cur;
                        s \<leftarrow> on_thr t (\<lambda>th. th\<lparr>t_cpu := t_cpu cth\<rparr>) s;
                        p \<leftarrow> (case proc of None \<Rightarrow> t_proc cth | Some p \<Rightarrow> Some p);
                        s \<leftarrow> proc_addthread c p t s;
                        s \<leftarrow> on_thr t (\<lambda>th. th\<lparr>t_iplhigh_count := t_iplhigh_count th + 1\<rparr>) s;
                        s \<leftarrow> on_thr t (\<lambda>th. th\<lparr>t_context := Some start\<rparr>) s;
                        s \<leftarrow> thread_make_runnable c t False s;
                        Some (Inr t, s) }) }"

section \<open>The context switch\<close>

text \<open>Returns whether the processor has to look for another thread.\<close>

definition thread_switch_leave :: "cpuid \<Rightarrow> threadstate \<Rightarrow> (wcid \<times> splk) option \<Rightarrow> bool sched_op" where
  "thread_switch_leave c newstate wc s =
     do { (spl, s) \<leftarrow> splhigh c s;
          cur \<leftarrow> curthread c s;
          if c_isidle (cpus s ! c) then do { (_, s) \<leftarrow> splx c spl s; Some (False, s) }
          else do {
            thread_checkstack cur s;
            s \<leftarrow> spinlock_acquire c (RunqueueLock c) s;
            if newstate = S_READY \<and> threadlist_isempty (Runqueue c) (nodes s)
            then do { s \<leftarrow> spinlock_release c (RunqueueLock c) s; (_, s) \<leftarrow> splx c spl s; Some (False, s) }
            else do {
              s \<leftarrow> on_thr cur (\<lambda>th. th\<lparr>t_spl := spl\<rparr>) s;
              s \<leftarrow> (case newstate of
                      S_RUN \<Rightarrow> None
                    | S_READY \<Rightarrow> thread_make_runnable c cur True s
                    | S_SLEEP \<Rightarrow>
                        do { (w, l) \<leftarrow> wc;
                             name \<leftarrow> wch s w;
                             s \<leftarrow> on_thr cur (\<lambda>th. th\<lparr>t_wchan_name := Some name\<rparr>) s;
                             h \<leftarrow> threadlist_addtail (WcThreads w) cur (nodes s);
                             spinlock_release c l (s\<lparr>nodes := h\<rparr>) }
                    | S_ZOMBIE \<Rightarrow>
                        do { s \<leftarrow> on_thr cur (\<lambda>th. th\<lparr>t_wchan_name := Some ''ZOMBIE''\<rparr>) s;
                             h \<leftarrow> threadlist_addtail (Zombies c) cur (nodes s);
                             Some (s\<lparr>nodes := h\<rparr>) });
              s \<leftarrow> on_thr cur (\<lambda>th. th\<lparr>t_state := newstate\<rparr>) s;
              s \<leftarrow> on_cpu c (\<lambda>p. p\<lparr>c_isidle := True\<rparr>) s;
              Some (True, s) } } }"

text \<open>A round of the loop: whether there was a thread. Without one, the processor idles.\<close>

definition thread_switch_pick :: "cpuid \<Rightarrow> bool sched_op" where
  "thread_switch_pick c s =
     do { (nxt, h) \<leftarrow> threadlist_remhead (Runqueue c) (nodes s);
          let s = s\<lparr>nodes := h\<rparr>;
          case nxt of
            None \<Rightarrow> do { s \<leftarrow> spinlock_release c (RunqueueLock c) s; Some (False, s) }
          | Some t \<Rightarrow>
              do { s \<leftarrow> on_cpu c (\<lambda>p. p\<lparr>c_isidle := False, c_curthread := Some t\<rparr>) s;
                   Some (True, s) } }"

definition thread_switch_arrive :: "cpuid \<Rightarrow> sched \<Rightarrow> sched option" where
  "thread_switch_arrive c s =
     do { cur \<leftarrow> curthread c s;
          s \<leftarrow> on_thr cur (\<lambda>th. th\<lparr>t_wchan_name := None, t_state := S_RUN\<rparr>) s;
          s \<leftarrow> spinlock_release c (RunqueueLock c) s;
          s \<leftarrow> exorcise c s;
          th \<leftarrow> thr s cur;
          case t_context th of
            None \<Rightarrow> do { (_, s) \<leftarrow> splx c (t_spl th) s; Some s }
          | Some start \<Rightarrow>
              do { (_, s) \<leftarrow> spl0 c s;
                   on_thr cur (\<lambda>th. th\<lparr>t_context := None\<rparr>) s } }"

definition thread_switch_next :: "cpuid \<Rightarrow> sched \<Rightarrow> sched option" where
  "thread_switch_next c s =
     do { (found, s) \<leftarrow> thread_switch_pick c s; if found then thread_switch_arrive c s else Some s }"

definition thread_switch :: "cpuid \<Rightarrow> threadstate \<Rightarrow> (wcid \<times> splk) option \<Rightarrow> sched \<Rightarrow> sched option" where
  "thread_switch c newstate wc s =
     do { (go, s) \<leftarrow> thread_switch_leave c newstate wc s; if go then thread_switch_next c s else Some s }"

text \<open>The loop goes on after \<^verbatim>\<open>cpu_idle\<close>.\<close>

definition thread_switch_unidle :: "cpuid \<Rightarrow> sched \<Rightarrow> sched option" where
  "thread_switch_unidle c s = do { s \<leftarrow> spinlock_acquire c (RunqueueLock c) s; thread_switch_next c s }"

definition thread_exit :: "cpuid \<Rightarrow> sched \<Rightarrow> sched option" where
  "thread_exit c s =
     do { cur \<leftarrow> curthread c s;
          th \<leftarrow> thr s cur;
          kassert (t_proc th = None);
          thread_checkstack cur s;
          (_, s) \<leftarrow> splhigh c s;
          thread_switch c S_ZOMBIE None s }"

definition thread_yield :: "cpuid \<Rightarrow> sched \<Rightarrow> sched option" where
  "thread_yield c s = thread_switch c S_READY None s"

section \<open>Wait channels\<close>

text \<open>\<open>mem\<close> is the address of the new channel, \<open>None\<close> when there is no memory.\<close>

definition wchan_create :: "wcid option \<Rightarrow> string \<Rightarrow> sched \<Rightarrow> wcid option \<times> sched" where
  "wchan_create mem name s =
     (case mem of
        None \<Rightarrow> (None, s)
      | Some w \<Rightarrow> (Some w, s\<lparr>nodes := threadlist_init (WcThreads w) (nodes s), wch := (wch s)(w \<mapsto> name)\<rparr>))"

definition wchan_destroy :: "wcid \<Rightarrow> sched \<Rightarrow> sched option" where
  "wchan_destroy w s = do { threadlist_cleanup (WcThreads w) (nodes s); Some (s\<lparr>wch := (wch s)(w := None)\<rparr>) }"

text \<open>
  Going to sleep; \<open>wchan_sleep_return\<close> is what the thread does once it is running again.
\<close>

definition wchan_sleep :: "cpuid \<Rightarrow> wcid \<Rightarrow> splk \<Rightarrow> sched \<Rightarrow> sched option" where
  "wchan_sleep c w l s =
     do { cur \<leftarrow> curthread c s;
          th \<leftarrow> thr s cur;
          kassert (\<not> t_in_interrupt th);
          kassert (spinlock_do_i_hold c l s);
          kassert (c_spinlocks (cpus s ! c) = 1);
          thread_switch c S_SLEEP (Some (w, l)) s }"

definition wchan_sleep_return :: "cpuid \<Rightarrow> splk \<Rightarrow> sched \<Rightarrow> sched option" where
  "wchan_sleep_return c l s = spinlock_acquire c l s"

definition wchan_wakeone :: "cpuid \<Rightarrow> wcid \<Rightarrow> splk \<Rightarrow> sched \<Rightarrow> sched option" where
  "wchan_wakeone c w l s =
     do { kassert (spinlock_do_i_hold c l s);
          (target, h) \<leftarrow> threadlist_remhead (WcThreads w) (nodes s);
          let s = s\<lparr>nodes := h\<rparr>;
          case target of None \<Rightarrow> Some s | Some t \<Rightarrow> thread_make_runnable c t False s }"

text \<open>The two loops of \<^verbatim>\<open>wchan_wakeall\<close>; its private list is on the stack of the caller.\<close>

partial_function (option) wakeall_grab :: "cpuid \<Rightarrow> wcid \<Rightarrow> sched \<Rightarrow> sched option" where
  "wakeall_grab c w s =
     do { (target, h) \<leftarrow> threadlist_remhead (WcThreads w) (nodes s);
          case target of
            None \<Rightarrow> Some (s\<lparr>nodes := h\<rparr>)
          | Some t \<Rightarrow> do { h \<leftarrow> threadlist_addtail (WakeList c) t h; wakeall_grab c w (s\<lparr>nodes := h\<rparr>) } }"

partial_function (option) wakeall_run :: "cpuid \<Rightarrow> sched \<Rightarrow> sched option" where
  "wakeall_run c s =
     do { (target, h) \<leftarrow> threadlist_remhead (WakeList c) (nodes s);
          let s = s\<lparr>nodes := h\<rparr>;
          case target of
            None \<Rightarrow> Some s
          | Some t \<Rightarrow> do { s \<leftarrow> thread_make_runnable c t False s; wakeall_run c s } }"

definition wchan_wakeall :: "cpuid \<Rightarrow> wcid \<Rightarrow> splk \<Rightarrow> sched \<Rightarrow> sched option" where
  "wchan_wakeall c w l s =
     do { kassert (spinlock_do_i_hold c l s);
          let s = s\<lparr>nodes := threadlist_init (WakeList c) (nodes s)\<rparr>;
          s \<leftarrow> wakeall_grab c w s;
          s \<leftarrow> wakeall_run c s;
          threadlist_cleanup (WakeList c) (nodes s);
          Some s }"

definition wchan_isempty :: "cpuid \<Rightarrow> wcid \<Rightarrow> splk \<Rightarrow> bool sched_op" where
  "wchan_isempty c w l s =
     do { kassert (spinlock_do_i_hold c l s); Some (threadlist_isempty (WcThreads w) (nodes s), s) }"

section \<open>Migration\<close>

definition DIVROUNDUP :: "u32 \<Rightarrow> u32 \<Rightarrow> u32" where
  "DIVROUNDUP a b = (a + b - 1) div b"

text \<open>Counting the threads: those of the current processor and all of them.\<close>

fun mig_count :: "cpuid \<Rightarrow> cpuid list \<Rightarrow> u32 \<Rightarrow> u32 \<Rightarrow> sched \<Rightarrow> ((u32 \<times> u32) \<times> sched) option" where
  "mig_count c [] my_count total_count s = Some ((my_count, total_count), s)"
| "mig_count c (i # is) my_count total_count s =
     do { s \<leftarrow> spinlock_acquire c (RunqueueLock i) s;
          let n = tl_count (nodes s) (Runqueue i);
          let my = (if i = c then n else my_count);
          s \<leftarrow> spinlock_release c (RunqueueLock i) s;
          mig_count c is my (total_count + n) s }"

text \<open>Taking \<open>n\<close> threads off the end of the run queue.\<close>

fun mig_take :: "cpuid \<Rightarrow> nat \<Rightarrow> sched \<Rightarrow> sched option" where
  "mig_take c 0 s = Some s"
| "mig_take c (Suc n) s =
     do { (t, h) \<leftarrow> threadlist_remtail (Runqueue c) (nodes s);
          t \<leftarrow> t;
          h \<leftarrow> threadlist_addhead (Victims c) t h;
          mig_take c n (s\<lparr>nodes := h\<rparr>) }"

text \<open>Giving threads to processor \<open>i\<close> while it has less than a share; returns what is left to send.\<close>

fun mig_give :: "cpuid \<Rightarrow> cpuid \<Rightarrow> u32 \<Rightarrow> nat \<Rightarrow> nat sched_op" where
  "mig_give c i one_share 0 s = Some (0, s)"
| "mig_give c i one_share (Suc n) s =
     (if tl_count (nodes s) (Runqueue i) < one_share
      then do { (t, h) \<leftarrow> threadlist_remhead (Victims c) (nodes s);
                t \<leftarrow> t;
                if curthread c s = Some t
                then do { h \<leftarrow> threadlist_addtail (Victims c) t h;
                          mig_give c i one_share n (s\<lparr>nodes := h\<rparr>) }
                else do { s \<leftarrow> on_thr t (\<lambda>th. th\<lparr>t_cpu := Some i\<rparr>) s;
                          h \<leftarrow> threadlist_addtail (Runqueue i) t h;
                          let s = s\<lparr>nodes := h\<rparr>;
                          s \<leftarrow> (if c_isidle (cpus s ! i) then ipi_send c i IPI_UNIDLE s else Some s);
                          mig_give c i one_share n s } }
      else Some (Suc n, s))"

fun mig_give_all :: "cpuid \<Rightarrow> cpuid list \<Rightarrow> u32 \<Rightarrow> nat \<Rightarrow> sched \<Rightarrow> sched option" where
  "mig_give_all c [] one_share n s = Some s"
| "mig_give_all c (i # is) one_share n s =
     (if n = 0 then Some s
      else if i = c then mig_give_all c is one_share n s
      else do { s \<leftarrow> spinlock_acquire c (RunqueueLock i) s;
                (n, s) \<leftarrow> mig_give c i one_share n s;
                s \<leftarrow> spinlock_release c (RunqueueLock i) s;
                mig_give_all c is one_share n s })"

text \<open>Putting back what is left.\<close>

partial_function (option) mig_return :: "cpuid \<Rightarrow> sched \<Rightarrow> sched option" where
  "mig_return c s =
     do { (t, h) \<leftarrow> threadlist_remhead (Victims c) (nodes s);
          case t of
            None \<Rightarrow> Some (s\<lparr>nodes := h\<rparr>)
          | Some t \<Rightarrow> do { h \<leftarrow> threadlist_addtail (Runqueue c) t h; mig_return c (s\<lparr>nodes := h\<rparr>) } }"

definition thread_consider_migration :: "cpuid \<Rightarrow> sched \<Rightarrow> sched option" where
  "thread_consider_migration c s =
     do { let numcpus = length (cpus s);
          ((my_count, total_count), s) \<leftarrow> mig_count c [0..<numcpus] 0 0 s;
          let one_share = DIVROUNDUP total_count (of_nat numcpus);
          if my_count < one_share then Some s
          else do {
            let to_send = unat (my_count - one_share);
            let s = s\<lparr>nodes := threadlist_init (Victims c) (nodes s)\<rparr>;
            s \<leftarrow> spinlock_acquire c (RunqueueLock c) s;
            s \<leftarrow> mig_take c to_send s;
            s \<leftarrow> spinlock_release c (RunqueueLock c) s;
            s \<leftarrow> mig_give_all c [0..<numcpus] one_share to_send s;
            s \<leftarrow> (if \<not> threadlist_isempty (Victims c) (nodes s)
                  then do { s \<leftarrow> spinlock_acquire c (RunqueueLock c) s;
                            s \<leftarrow> mig_return c s;
                            spinlock_release c (RunqueueLock c) s }
                  else Some s);
            kassert (threadlist_isempty (Victims c) (nodes s));
            threadlist_cleanup (Victims c) (nodes s);
            Some s } }"

definition schedule :: "sched \<Rightarrow> sched" where
  "schedule s = s"

section \<open>Clock interrupts (clock.c)\<close>

definition SCHEDULE_HARDCLOCKS :: u32 where "SCHEDULE_HARDCLOCKS = 4"
definition MIGRATE_HARDCLOCKS :: u32 where "MIGRATE_HARDCLOCKS = 16"

definition hardclock :: "cpuid \<Rightarrow> sched \<Rightarrow> sched option" where
  "hardclock c s =
     do { s \<leftarrow> on_cpu c (\<lambda>p. p\<lparr>c_hardclocks := c_hardclocks p + 1\<rparr>) s;
          let n = c_hardclocks (cpus s ! c);
          s \<leftarrow> (if n mod MIGRATE_HARDCLOCKS = 0 then thread_consider_migration c s else Some s);
          let s = (if n mod SCHEDULE_HARDCLOCKS = 0 then schedule s else s);
          thread_yield c s }"

text \<open>\<open>w\<close> and \<open>l\<close> are the wait channel \<^verbatim>\<open>lbolt\<close> and its spinlock.\<close>

definition timerclock :: "cpuid \<Rightarrow> wcid \<Rightarrow> splk \<Rightarrow> sched \<Rightarrow> sched option" where
  "timerclock c w l s =
     do { s \<leftarrow> spinlock_acquire c l s; s \<leftarrow> wchan_wakeall c w l s; spinlock_release c l s }"

section \<open>Interrupts (trap.c)\<close>

text \<open>
  What \<^verbatim>\<open>mips_trap\<close> does around \<^verbatim>\<open>mainbus_interrupt\<close>. The processor has turned interrupts off,
  and turns them on again when it returns to code that had them on. Returns the local variables
  \<^verbatim>\<open>old_in\<close> and \<^verbatim>\<open>doadjust\<close>.
\<close>

definition irq_enter :: "cpuid \<Rightarrow> (bool \<times> bool) sched_op" where
  "irq_enter c s =
     do { s \<leftarrow> on_cpu c (\<lambda>p. p\<lparr>c_irq := False\<rparr>) s;
          cur \<leftarrow> curthread c s;
          th \<leftarrow> thr s cur;
          s \<leftarrow> on_thr cur (\<lambda>th. th\<lparr>t_in_interrupt := True\<rparr>) s;
          if t_curspl th = 0
          then do { kassert (t_iplhigh_count th = 0);
                    s \<leftarrow> on_thr cur (\<lambda>th. th\<lparr>t_curspl := IPL_HIGH, t_iplhigh_count := t_iplhigh_count th + 1\<rparr>) s;
                    Some ((t_in_interrupt th, True), s) }
          else Some ((t_in_interrupt th, False), s) }"

definition irq_exit :: "cpuid \<Rightarrow> bool \<Rightarrow> bool \<Rightarrow> sched \<Rightarrow> sched option" where
  "irq_exit c old_in doadjust s =
     do { cur \<leftarrow> curthread c s;
          th \<leftarrow> thr s cur;
          s \<leftarrow> (if doadjust
                then do { kassert (t_curspl th = IPL_HIGH);
                          kassert (t_iplhigh_count th = 1);
                          s \<leftarrow> on_thr cur (\<lambda>th. th\<lparr>t_iplhigh_count := t_iplhigh_count th - 1, t_curspl := 0\<rparr>) s;
                          on_cpu c (\<lambda>p. p\<lparr>c_irq := True\<rparr>) s }
                else Some s);
          on_thr cur (\<lambda>th. th\<lparr>t_in_interrupt := old_in\<rparr>) s }"

section \<open>Processors\<close>

definition MAXCPUS :: nat where "MAXCPUS = 32"

text \<open>The output of \<^verbatim>\<open>%d\<close> and the name of the first thread of a processor, in a buffer of 16 bytes.\<close>

fun decimal :: "nat \<Rightarrow> string" where
  "decimal n = (if n < 10 then [char_of (n + 48)] else decimal (n div 10) @ [char_of (n mod 10 + 48)])"

definition boot_name :: "nat \<Rightarrow> string" where
  "boot_name c = take 15 (''<boot #'' @ decimal c @ ''>'')"

text \<open>
  Processor \<open>me\<close> creates another one, or itself when there is none yet. \<open>mem\<close> and \<open>stack\<close> are what
  \<^verbatim>\<open>kmalloc\<close> gives for the first thread.
\<close>

definition cpu_create :: "cpuid \<Rightarrow> u32 \<Rightarrow> tid option \<Rightarrow> u32 list option \<Rightarrow> procid \<Rightarrow> cpuid sched_op" where
  "cpu_create me hardware_number mem stack kproc s =
     do { let c = length (cpus s);
          let p = \<lparr>c_hardware_number = hardware_number, c_curthread = None, c_hardclocks = 0, c_spinlocks = 0,
                   c_isidle = False, c_ipi_pending = 0, c_shootdown = [], c_irq = False, c_halted = False\<rparr>;
          let s = s\<lparr>nodes := threadlist_init (Runqueue c) (threadlist_init (Zombies c) (nodes s))\<rparr>;
          let s = spinlock_init (IpiLock c) (spinlock_init (RunqueueLock c) s);
          let s = s\<lparr>cpus := cpus s @ [p]\<rparr>;
          (t, s) \<leftarrow> thread_create mem True (boot_name c) s;
          t \<leftarrow> t;
          s \<leftarrow> on_cpu c (\<lambda>p. p\<lparr>c_curthread := Some t\<rparr>) s;
          s \<leftarrow> on_thr t (\<lambda>th. th\<lparr>t_cpu := Some c\<rparr>) s;
          s \<leftarrow> (if c = 0 then Some s
                else do { stk \<leftarrow> stack;
                          s \<leftarrow> on_thr t (\<lambda>th. th\<lparr>t_stack := Some stk\<rparr>) s;
                          thread_checkstack_init t s });
          s \<leftarrow> proc_addthread me kproc t s;
          kassert (c < MAXCPUS);
          Some (c, s) }"

text \<open>The processor that starts the system, with the kernel process \<open>kproc\<close>.\<close>

definition thread_bootstrap :: "tid option \<Rightarrow> procid \<Rightarrow> sched \<Rightarrow> sched option" where
  "thread_bootstrap mem kproc s =
     do { let s = s\<lparr>cpus := []\<rparr>;
          (_, s) \<leftarrow> cpu_create 0 0 mem None kproc s;
          cur \<leftarrow> curthread 0 s;
          th \<leftarrow> thr s cur;
          kassert (t_proc th = Some kproc);
          Some s }"

definition thread_panic :: "cpuid \<Rightarrow> sched \<Rightarrow> sched option" where
  "thread_panic c s =
     do { s \<leftarrow> ipi_broadcast c IPI_PANIC s;
          let h = set_count (Runqueue c) 0 (nodes s);
          let h = set_next (Head (Runqueue c)) (Some (Tail (Runqueue c))) h;
          let h = set_prev (Tail (Runqueue c)) (Some (Head (Runqueue c))) h;
          Some (s\<lparr>nodes := h\<rparr>) }"

end
