(* ===== verification/Thread_Inv.thy ===== *)
theory Thread_Inv
  imports Thread
begin

text \<open>
  The invariant of the thread system: where each thread is, and when a processor takes
  interrupts. Every operation keeps it.
\<close>

section \<open>Interrupt levels and spinlocks\<close>

text \<open>Updates in the order of the fields, so that equal states have equal terms.\<close>

lemma sched_order:
  fixes s :: sched
  shows
  "s\<lparr>cpus := v_cpus, thr := v_thr\<rparr> = s\<lparr>thr := v_thr, cpus := v_cpus\<rparr>" "s\<lparr>lk := v_lk, thr := v_thr\<rparr> = s\<lparr>thr := v_thr, lk := v_lk\<rparr>"
  "s\<lparr>nodes := v_nodes, thr := v_thr\<rparr> = s\<lparr>thr := v_thr, nodes := v_nodes\<rparr>" "s\<lparr>wch := v_wch, thr := v_thr\<rparr> = s\<lparr>thr := v_thr, wch := v_wch\<rparr>"
  "s\<lparr>p_numthreads := v_p_numthreads, thr := v_thr\<rparr> = s\<lparr>thr := v_thr, p_numthreads := v_p_numthreads\<rparr>" "s\<lparr>lk := v_lk, cpus := v_cpus\<rparr> = s\<lparr>cpus := v_cpus, lk := v_lk\<rparr>"
  "s\<lparr>nodes := v_nodes, cpus := v_cpus\<rparr> = s\<lparr>cpus := v_cpus, nodes := v_nodes\<rparr>" "s\<lparr>wch := v_wch, cpus := v_cpus\<rparr> = s\<lparr>cpus := v_cpus, wch := v_wch\<rparr>"
  "s\<lparr>p_numthreads := v_p_numthreads, cpus := v_cpus\<rparr> = s\<lparr>cpus := v_cpus, p_numthreads := v_p_numthreads\<rparr>" "s\<lparr>nodes := v_nodes, lk := v_lk\<rparr> = s\<lparr>lk := v_lk, nodes := v_nodes\<rparr>"
  "s\<lparr>wch := v_wch, lk := v_lk\<rparr> = s\<lparr>lk := v_lk, wch := v_wch\<rparr>" "s\<lparr>p_numthreads := v_p_numthreads, lk := v_lk\<rparr> = s\<lparr>lk := v_lk, p_numthreads := v_p_numthreads\<rparr>"
  "s\<lparr>wch := v_wch, nodes := v_nodes\<rparr> = s\<lparr>nodes := v_nodes, wch := v_wch\<rparr>" "s\<lparr>p_numthreads := v_p_numthreads, nodes := v_nodes\<rparr> = s\<lparr>nodes := v_nodes, p_numthreads := v_p_numthreads\<rparr>"
  "s\<lparr>p_numthreads := v_p_numthreads, wch := v_wch\<rparr> = s\<lparr>wch := v_wch, p_numthreads := v_p_numthreads\<rparr>"
  by simp_all

lemma thread_order:
  fixes s :: thread
  shows
  "s\<lparr>t_state := v_t_state, t_wchan_name := v_t_wchan_name\<rparr> = s\<lparr>t_wchan_name := v_t_wchan_name, t_state := v_t_state\<rparr>" "s\<lparr>t_context := v_t_context, t_wchan_name := v_t_wchan_name\<rparr> = s\<lparr>t_wchan_name := v_t_wchan_name, t_context := v_t_context\<rparr>"
  "s\<lparr>t_cpu := v_t_cpu, t_wchan_name := v_t_wchan_name\<rparr> = s\<lparr>t_wchan_name := v_t_wchan_name, t_cpu := v_t_cpu\<rparr>" "s\<lparr>t_proc := v_t_proc, t_wchan_name := v_t_wchan_name\<rparr> = s\<lparr>t_wchan_name := v_t_wchan_name, t_proc := v_t_proc\<rparr>"
  "s\<lparr>t_curspl := v_t_curspl, t_wchan_name := v_t_wchan_name\<rparr> = s\<lparr>t_wchan_name := v_t_wchan_name, t_curspl := v_t_curspl\<rparr>" "s\<lparr>t_iplhigh_count := v_t_iplhigh_count, t_wchan_name := v_t_wchan_name\<rparr> = s\<lparr>t_wchan_name := v_t_wchan_name, t_iplhigh_count := v_t_iplhigh_count\<rparr>"
  "s\<lparr>t_spl := v_t_spl, t_wchan_name := v_t_wchan_name\<rparr> = s\<lparr>t_wchan_name := v_t_wchan_name, t_spl := v_t_spl\<rparr>" "s\<lparr>t_context := v_t_context, t_state := v_t_state\<rparr> = s\<lparr>t_state := v_t_state, t_context := v_t_context\<rparr>"
  "s\<lparr>t_cpu := v_t_cpu, t_state := v_t_state\<rparr> = s\<lparr>t_state := v_t_state, t_cpu := v_t_cpu\<rparr>" "s\<lparr>t_proc := v_t_proc, t_state := v_t_state\<rparr> = s\<lparr>t_state := v_t_state, t_proc := v_t_proc\<rparr>"
  "s\<lparr>t_curspl := v_t_curspl, t_state := v_t_state\<rparr> = s\<lparr>t_state := v_t_state, t_curspl := v_t_curspl\<rparr>" "s\<lparr>t_iplhigh_count := v_t_iplhigh_count, t_state := v_t_state\<rparr> = s\<lparr>t_state := v_t_state, t_iplhigh_count := v_t_iplhigh_count\<rparr>"
  "s\<lparr>t_spl := v_t_spl, t_state := v_t_state\<rparr> = s\<lparr>t_state := v_t_state, t_spl := v_t_spl\<rparr>" "s\<lparr>t_cpu := v_t_cpu, t_context := v_t_context\<rparr> = s\<lparr>t_context := v_t_context, t_cpu := v_t_cpu\<rparr>"
  "s\<lparr>t_proc := v_t_proc, t_context := v_t_context\<rparr> = s\<lparr>t_context := v_t_context, t_proc := v_t_proc\<rparr>" "s\<lparr>t_curspl := v_t_curspl, t_context := v_t_context\<rparr> = s\<lparr>t_context := v_t_context, t_curspl := v_t_curspl\<rparr>"
  "s\<lparr>t_iplhigh_count := v_t_iplhigh_count, t_context := v_t_context\<rparr> = s\<lparr>t_context := v_t_context, t_iplhigh_count := v_t_iplhigh_count\<rparr>" "s\<lparr>t_spl := v_t_spl, t_context := v_t_context\<rparr> = s\<lparr>t_context := v_t_context, t_spl := v_t_spl\<rparr>"
  "s\<lparr>t_proc := v_t_proc, t_cpu := v_t_cpu\<rparr> = s\<lparr>t_cpu := v_t_cpu, t_proc := v_t_proc\<rparr>" "s\<lparr>t_curspl := v_t_curspl, t_cpu := v_t_cpu\<rparr> = s\<lparr>t_cpu := v_t_cpu, t_curspl := v_t_curspl\<rparr>"
  "s\<lparr>t_iplhigh_count := v_t_iplhigh_count, t_cpu := v_t_cpu\<rparr> = s\<lparr>t_cpu := v_t_cpu, t_iplhigh_count := v_t_iplhigh_count\<rparr>" "s\<lparr>t_spl := v_t_spl, t_cpu := v_t_cpu\<rparr> = s\<lparr>t_cpu := v_t_cpu, t_spl := v_t_spl\<rparr>"
  "s\<lparr>t_curspl := v_t_curspl, t_proc := v_t_proc\<rparr> = s\<lparr>t_proc := v_t_proc, t_curspl := v_t_curspl\<rparr>" "s\<lparr>t_iplhigh_count := v_t_iplhigh_count, t_proc := v_t_proc\<rparr> = s\<lparr>t_proc := v_t_proc, t_iplhigh_count := v_t_iplhigh_count\<rparr>"
  "s\<lparr>t_spl := v_t_spl, t_proc := v_t_proc\<rparr> = s\<lparr>t_proc := v_t_proc, t_spl := v_t_spl\<rparr>" "s\<lparr>t_iplhigh_count := v_t_iplhigh_count, t_curspl := v_t_curspl\<rparr> = s\<lparr>t_curspl := v_t_curspl, t_iplhigh_count := v_t_iplhigh_count\<rparr>"
  "s\<lparr>t_spl := v_t_spl, t_curspl := v_t_curspl\<rparr> = s\<lparr>t_curspl := v_t_curspl, t_spl := v_t_spl\<rparr>" "s\<lparr>t_spl := v_t_spl, t_iplhigh_count := v_t_iplhigh_count\<rparr> = s\<lparr>t_iplhigh_count := v_t_iplhigh_count, t_spl := v_t_spl\<rparr>"
  by simp_all

lemma cpu_order:
  fixes s :: cpu
  shows
  "s\<lparr>c_spinlocks := v_c_spinlocks, c_curthread := v_c_curthread\<rparr> = s\<lparr>c_curthread := v_c_curthread, c_spinlocks := v_c_spinlocks\<rparr>" "s\<lparr>c_isidle := v_c_isidle, c_curthread := v_c_curthread\<rparr> = s\<lparr>c_curthread := v_c_curthread, c_isidle := v_c_isidle\<rparr>"
  "s\<lparr>c_ipi_pending := v_c_ipi_pending, c_curthread := v_c_curthread\<rparr> = s\<lparr>c_curthread := v_c_curthread, c_ipi_pending := v_c_ipi_pending\<rparr>" "s\<lparr>c_irq := v_c_irq, c_curthread := v_c_curthread\<rparr> = s\<lparr>c_curthread := v_c_curthread, c_irq := v_c_irq\<rparr>"
  "s\<lparr>c_isidle := v_c_isidle, c_spinlocks := v_c_spinlocks\<rparr> = s\<lparr>c_spinlocks := v_c_spinlocks, c_isidle := v_c_isidle\<rparr>" "s\<lparr>c_ipi_pending := v_c_ipi_pending, c_spinlocks := v_c_spinlocks\<rparr> = s\<lparr>c_spinlocks := v_c_spinlocks, c_ipi_pending := v_c_ipi_pending\<rparr>"
  "s\<lparr>c_irq := v_c_irq, c_spinlocks := v_c_spinlocks\<rparr> = s\<lparr>c_spinlocks := v_c_spinlocks, c_irq := v_c_irq\<rparr>" "s\<lparr>c_ipi_pending := v_c_ipi_pending, c_isidle := v_c_isidle\<rparr> = s\<lparr>c_isidle := v_c_isidle, c_ipi_pending := v_c_ipi_pending\<rparr>"
  "s\<lparr>c_irq := v_c_irq, c_isidle := v_c_isidle\<rparr> = s\<lparr>c_isidle := v_c_isidle, c_irq := v_c_irq\<rparr>" "s\<lparr>c_irq := v_c_irq, c_ipi_pending := v_c_ipi_pending\<rparr> = s\<lparr>c_ipi_pending := v_c_ipi_pending, c_irq := v_c_irq\<rparr>"
  by simp_all

lemmas rec_order = sched_order thread_order cpu_order

text \<open>
  \<open>spl_at c t cs n s\<close>: processor \<open>c\<close> runs thread \<open>t\<close> at level \<open>cs\<close> and holds \<open>n\<close> spinlocks. The
  level was raised once for each lock and once for \<open>cs\<close>, and interrupts are on when it was not
  raised at all.
\<close>

definition spl_at :: "cpuid \<Rightarrow> tid \<Rightarrow> int \<Rightarrow> nat \<Rightarrow> sched \<Rightarrow> bool" where
  "spl_at c t cs n s \<longleftrightarrow>
     c < length (cpus s) \<and> c_curthread (cpus s ! c) = Some t \<and>
     (\<exists>th. thr s t = Some th \<and> t_curspl th = cs \<and> t_iplhigh_count th = cs + int n) \<and>
     c_spinlocks (cpus s ! c) = n \<and> c_irq (cpus s ! c) = (cs = 0 \<and> n = 0) \<and> (cs = 0 \<or> cs = 1)"

definition spl_thr :: "int \<Rightarrow> nat \<Rightarrow> thread \<Rightarrow> thread" where
  "spl_thr cs n th = th\<lparr>t_curspl := cs, t_iplhigh_count := cs + int n\<rparr>"

definition spl_cpu :: "int \<Rightarrow> nat \<Rightarrow> cpu \<Rightarrow> cpu" where
  "spl_cpu cs n p = p\<lparr>c_spinlocks := n, c_irq := (cs = 0 \<and> n = 0)\<rparr>"

definition spl_put :: "cpuid \<Rightarrow> tid \<Rightarrow> int \<Rightarrow> nat \<Rightarrow> sched \<Rightarrow> sched" where
  "spl_put c t cs n s =
     s\<lparr>thr := (thr s)(t := map_option (spl_thr cs n) (thr s t)), cpus := (cpus s)[c := spl_cpu cs n (cpus s ! c)]\<rparr>"

lemma spl_atE:
  assumes "spl_at c t cs n s"
  obtains th where "c < length (cpus s)" "c_curthread (cpus s ! c) = Some t" "curthread c s = Some t" "thr s t = Some th"
    "t_curspl th = cs" "t_iplhigh_count th = cs + int n" "c_spinlocks (cpus s ! c) = n"
    "c_irq (cpus s ! c) = (cs = 0 \<and> n = 0)" "cs = 0 \<or> cs = 1"
  using assms by (auto simp: spl_at_def curthread_def)

lemma spl_thr_spl [simp]: "spl_thr a b (spl_thr d e th) = spl_thr a b th" "spl_cpu a b (spl_cpu d e p) = spl_cpu a b p"
  by (simp_all add: spl_thr_def spl_cpu_def)

lemma spl_thr_same: "t_curspl th = cs \<Longrightarrow> t_iplhigh_count th = cs + int n \<Longrightarrow> spl_thr cs n th = th"
  by (simp add: spl_thr_def)

lemma spl_cpu_same: "c_spinlocks p = n \<Longrightarrow> c_irq p = (cs = 0 \<and> n = 0) \<Longrightarrow> spl_cpu cs n p = p"
  by (simp add: spl_cpu_def)

lemma spl_put_same: "spl_at c t cs n s \<Longrightarrow> spl_put c t cs n s = s"
  by (erule spl_atE) (simp add: spl_put_def spl_thr_same spl_cpu_same fun_upd_idem)

lemma spl_put_put [simp]: "c < length (cpus s) \<Longrightarrow> spl_put c t a b (spl_put c t d e s) = spl_put c t a b s"
  by (cases "thr s t") (simp_all add: spl_put_def)

lemma spl_at_put: "spl_at c t cs n s \<Longrightarrow> k = 0 \<or> k = 1 \<Longrightarrow> spl_at c t k m (spl_put c t k m s)"
  by (auto simp: spl_at_def spl_put_def spl_thr_def spl_cpu_def)

lemma splx_eq:
  assumes "spl_at c t cs n s" "k = 0 \<or> k = 1"
  shows "splx c k s = Some (cs, spl_put c t k n s)"
  using assms(1)
proof (rule spl_atE)
  fix th assume a: "c < length (cpus s)" "c_curthread (cpus s ! c) = Some t" "curthread c s = Some t" "thr s t = Some th"
    "t_curspl th = cs" "t_iplhigh_count th = cs + int n" "c_spinlocks (cpus s ! c) = n"
    "c_irq (cpus s ! c) = (cs = 0 \<and> n = 0)" "cs = 0 \<or> cs = 1"
  have p: "(cpus s ! c)\<lparr>c_irq := False\<rparr> = spl_cpu 1 n (cpus s ! c)" "n = 0 \<Longrightarrow> (cpus s ! c)\<lparr>c_irq := True\<rparr> = spl_cpu 0 n (cpus s ! c)"
    using a by (simp_all add: spl_cpu_def)
  show ?thesis
  proof (cases "k = cs")
    case True
    then show ?thesis using a spl_put_same [OF assms(1)] by (simp add: splx_def)
  next
    case False
    then consider "cs = 0" "k = 1" | "cs = 1" "k = 0" using a(9) assms(2) by auto
    then show ?thesis
    proof cases
      case 1
      then show ?thesis using a p by (simp add: splx_def splraise_def on_thr_def on_cpu_def IPL_NONE_def IPL_HIGH_def spl_put_def spl_thr_def spl_cpu_same curthread_def rec_order add.commute)
    next
      case 2
      then show ?thesis using a p by (auto simp: splx_def spllower_def on_thr_def on_cpu_def IPL_NONE_def IPL_HIGH_def spl_put_def spl_thr_def spl_cpu_same curthread_def rec_order add.commute)
    qed
  qed
qed

lemma spl_put_fields [simp]:
  "lk (spl_put c t k m s) = lk s" "nodes (spl_put c t k m s) = nodes s" "wch (spl_put c t k m s) = wch s"
  "p_numthreads (spl_put c t k m s) = p_numthreads s" "length (cpus (spl_put c t k m s)) = length (cpus s)"
  "thr (spl_put c t k m s) u = (if u = t then map_option (spl_thr k m) (thr s t) else thr s u)"
  "d < length (cpus s) \<Longrightarrow> cpus (spl_put c t k m s) ! d = (if d = c then spl_cpu k m (cpus s ! d) else cpus s ! d)"
  by (auto simp: spl_put_def)

lemma spl_put_upd:
  "spl_put c t k m (s\<lparr>lk := a\<rparr>) = (spl_put c t k m s)\<lparr>lk := a\<rparr>"
  "spl_put c t k m (s\<lparr>nodes := b\<rparr>) = (spl_put c t k m s)\<lparr>nodes := b\<rparr>"
  by (simp_all add: spl_put_def)

lemma spl_at_upd [simp]:
  "spl_at c t k m (s\<lparr>lk := a\<rparr>) = spl_at c t k m s" "spl_at c t k m (s\<lparr>nodes := b\<rparr>) = spl_at c t k m s"
  "spl_at c t k m (s\<lparr>wch := d\<rparr>) = spl_at c t k m s" "spl_at c t k m (s\<lparr>p_numthreads := e\<rparr>) = spl_at c t k m s"
  by (simp_all add: spl_at_def)

lemma spl_at_cong: "spl_at c t k m s \<Longrightarrow> cpus s' = cpus s \<Longrightarrow> thr s' t = thr s t \<Longrightarrow> spl_at c t k m s'"
  by (simp add: spl_at_def)

lemma spinlock_acquire_eq:
  assumes "spl_at c t cs n s"
  shows "spinlock_acquire c l s = (if lk s l = None then Some ((spl_put c t cs (Suc n) s)\<lparr>lk := (lk s)(l \<mapsto> c)\<rparr>) else None)"
  using assms
proof (rule spl_atE)
  fix th assume a: "c < length (cpus s)" "c_curthread (cpus s ! c) = Some t" "curthread c s = Some t" "thr s t = Some th"
    "t_curspl th = cs" "t_iplhigh_count th = cs + int n" "c_spinlocks (cpus s ! c) = n"
    "c_irq (cpus s ! c) = (cs = 0 \<and> n = 0)" "cs = 0 \<or> cs = 1"
  have th: "th\<lparr>t_iplhigh_count := cs + int n + 1\<rparr> = spl_thr cs (Suc n) th" using a(5) by (simp add: spl_thr_def add.commute)
  have th0: "cs + int n = 0 \<Longrightarrow> th\<lparr>t_iplhigh_count := 1\<rparr> = spl_thr cs (Suc n) th" using a(5) by (simp add: spl_thr_def)
  have p: "(cpus s ! c)\<lparr>c_spinlocks := Suc n, c_irq := False\<rparr> = spl_cpu cs (Suc n) (cpus s ! c)" by (simp add: spl_cpu_def)
  have q: "cs + int n \<noteq> 0 \<Longrightarrow> (cpus s ! c)\<lparr>c_spinlocks := Suc n\<rparr> = spl_cpu cs (Suc n) (cpus s ! c)" using a(8,9) by (auto simp: spl_cpu_def)
  show ?thesis
    using a th th0 p q by (simp add: spinlock_acquire_def splraise_def on_thr_def on_cpu_def IPL_NONE_def IPL_HIGH_def spl_put_def rec_order curthread_def)
qed

lemma spinlock_release_eq:
  assumes "spl_at c t cs n s"
  shows "spinlock_release c l s =
    (if lk s l = Some c \<and> 0 < n then Some ((spl_put c t cs (n - 1) s)\<lparr>lk := (lk s)(l := None)\<rparr>) else None)"
  using assms
proof (rule spl_atE)
  fix th assume a: "c < length (cpus s)" "c_curthread (cpus s ! c) = Some t" "curthread c s = Some t" "thr s t = Some th"
    "t_curspl th = cs" "t_iplhigh_count th = cs + int n" "c_spinlocks (cpus s ! c) = n"
    "c_irq (cpus s ! c) = (cs = 0 \<and> n = 0)" "cs = 0 \<or> cs = 1"
  have th: "0 < n \<Longrightarrow> th\<lparr>t_iplhigh_count := cs + int n - 1\<rparr> = spl_thr cs (n - 1) th" using a(5) by (simp add: spl_thr_def)
  have p: "cs + int n - 1 = 0 \<Longrightarrow> 0 < n \<Longrightarrow> (cpus s ! c)\<lparr>c_spinlocks := n - 1, c_irq := True\<rparr> = spl_cpu cs (n - 1) (cpus s ! c)"
    using a(9) by (auto simp: spl_cpu_def)
  have q: "cs + int n - 1 \<noteq> 0 \<Longrightarrow> 0 < n \<Longrightarrow> (cpus s ! c)\<lparr>c_spinlocks := n - 1\<rparr> = spl_cpu cs (n - 1) (cpus s ! c)"
    using a(8,9) by (auto simp: spl_cpu_def)
  show ?thesis
    using a th p q by (auto simp: spinlock_release_def spllower_def on_thr_def on_cpu_def IPL_NONE_def IPL_HIGH_def spl_put_def rec_order curthread_def)
qed

text \<open>Updates of one thread and one processor, and how they pass the interrupt level.\<close>

definition upd_thr :: "tid \<Rightarrow> (thread \<Rightarrow> thread) \<Rightarrow> sched \<Rightarrow> sched" where
  "upd_thr u f s = s\<lparr>thr := (thr s)(u := map_option f (thr s u))\<rparr>"

definition upd_cpu :: "cpuid \<Rightarrow> (cpu \<Rightarrow> cpu) \<Rightarrow> sched \<Rightarrow> sched" where
  "upd_cpu d f s = s\<lparr>cpus := (cpus s)[d := f (cpus s ! d)]\<rparr>"

lemma on_thr_upd: "on_thr u f s = (if thr s u = None then None else Some (upd_thr u f s))"
  by (cases "thr s u") (simp_all add: on_thr_def upd_thr_def)

lemma on_cpu_upd: "on_cpu d f s = (if d < length (cpus s) then Some (upd_cpu d f s) else None)"
  by (simp add: on_cpu_def upd_cpu_def)

lemma upd_fields [simp]:
  "lk (upd_thr u f s) = lk s" "nodes (upd_thr u f s) = nodes s" "wch (upd_thr u f s) = wch s"
  "p_numthreads (upd_thr u f s) = p_numthreads s" "cpus (upd_thr u f s) = cpus s"
  "thr (upd_thr u f s) = (thr s)(u := map_option f (thr s u))"
  "lk (upd_cpu d g s) = lk s" "nodes (upd_cpu d g s) = nodes s" "wch (upd_cpu d g s) = wch s"
  "p_numthreads (upd_cpu d g s) = p_numthreads s" "thr (upd_cpu d g s) = thr s" "cpus (upd_cpu d g s) = (cpus s)[d := g (cpus s ! d)]"
  by (simp_all add: upd_thr_def upd_cpu_def)

lemma spl_put_eq: "spl_put c t k m s = upd_thr t (spl_thr k m) (upd_cpu c (spl_cpu k m) s)"
  by (simp add: spl_put_def upd_thr_def upd_cpu_def)

text \<open>Changes that do not look at or touch the interrupt level.\<close>

definition spl_free :: "(sched \<Rightarrow> sched) \<Rightarrow> bool" where
  "spl_free U \<longleftrightarrow>
     (\<forall>c t k m x s. c < length (cpus s) \<longrightarrow>
        c < length (cpus (U s)) \<and> U ((spl_put c t k m s)\<lparr>lk := x\<rparr>) = (spl_put c t k m (U s))\<lparr>lk := x\<rparr> \<and> lk (U s) = lk s) \<and>
     (\<forall>c t k m s. spl_at c t k m s \<longrightarrow> spl_at c t k m (U s))"

lemma spl_freeD:
  assumes "spl_free U"
  shows "c < length (cpus s) \<Longrightarrow> U ((spl_put c t k m s)\<lparr>lk := x\<rparr>) = (spl_put c t k m (U s))\<lparr>lk := x\<rparr>"
    "c < length (cpus s) \<Longrightarrow> c < length (cpus (U s))" "c < length (cpus s) \<Longrightarrow> lk (U s) = lk s" "spl_at c t k m s \<Longrightarrow> spl_at c t k m (U s)"
  using assms unfolding spl_free_def by blast+

lemma spl_free_id: "spl_free (\<lambda>s. s)"
  by (simp add: spl_free_def)

lemma spl_free_comp: "spl_free U \<Longrightarrow> spl_free V \<Longrightarrow> spl_free (\<lambda>s. U (V s))"
  unfolding spl_free_def [of "\<lambda>s. U (V s)"]
  by (intro conjI allI impI) (metis spl_freeD)+

lemma spl_free_nodes: "spl_free (\<lambda>s. s\<lparr>nodes := h\<rparr>)"
  by (simp add: spl_free_def spl_put_def rec_order)

lemma spl_free_thr:
  assumes "\<And>k m th. spl_thr k m (f th) = f (spl_thr k m th)"
    "\<And>th. t_curspl (f th) = t_curspl th" "\<And>th. t_iplhigh_count (f th) = t_iplhigh_count th"
  shows "spl_free (upd_thr u f)"
proof -
  have "map_option f (map_option (spl_thr k m) x) = map_option (spl_thr k m) (map_option f x)" for k m x
    using assms(1) by (cases x) simp_all
  then show ?thesis
    unfolding spl_free_def
    by (auto simp: spl_put_def upd_thr_def rec_order fun_upd_twist spl_at_def assms(2,3) map_option_case split: if_splits option.splits)
qed

lemma spl_free_cpu:
  assumes "\<And>k m p. spl_cpu k m (f p) = f (spl_cpu k m p)"
    "\<And>p. c_curthread (f p) = c_curthread p" "\<And>p. c_spinlocks (f p) = c_spinlocks p" "\<And>p. c_irq (f p) = c_irq p"
  shows "spl_free (upd_cpu d f)"
  unfolding spl_free_def
proof (intro conjI allI impI)
  fix c t k m x and s :: sched assume c: "c < length (cpus s)"
  show "c < length (cpus (upd_cpu d f s))" "lk (upd_cpu d f s) = lk s" using c by simp_all
  show "upd_cpu d f ((spl_put c t k m s)\<lparr>lk := x\<rparr>) = (spl_put c t k m (upd_cpu d f s))\<lparr>lk := x\<rparr>"
    using c by (cases "d = c") (simp_all add: spl_put_def upd_cpu_def rec_order assms(1) list_update_swap)
next
  fix c t k m s assume "spl_at c t k m s"
  then show "spl_at c t k m (upd_cpu d f s)"
    using assms(2-4) by (cases "d = c") (auto simp: spl_at_def)
qed

text \<open>A lock that is taken and given back around such a change.\<close>

lemma lock_bracket:
  assumes "spl_at c t cs n s" "lk s l = None" "spl_free U"
  shows "spinlock_acquire c l s = Some ((spl_put c t cs (Suc n) s)\<lparr>lk := (lk s)(l \<mapsto> c)\<rparr>)"
    "spinlock_release c l (U ((spl_put c t cs (Suc n) s)\<lparr>lk := (lk s)(l \<mapsto> c)\<rparr>)) = Some (U s)"
proof -
  note U = spl_freeD [OF assms(3)]
  have c: "c < length (cpus s)" and cs: "cs = 0 \<or> cs = 1" using assms(1) by (auto simp: spl_at_def)
  show "spinlock_acquire c l s = Some ((spl_put c t cs (Suc n) s)\<lparr>lk := (lk s)(l \<mapsto> c)\<rparr>)"
    using spinlock_acquire_eq [OF assms(1)] assms(2) by simp
  let ?s2 = "U ((spl_put c t cs (Suc n) s)\<lparr>lk := (lk s)(l \<mapsto> c)\<rparr>)"
  have s2: "?s2 = (spl_put c t cs (Suc n) (U s))\<lparr>lk := (lk s)(l \<mapsto> c)\<rparr>" using U(1) [OF c] .
  have a2: "spl_at c t cs (Suc n) ?s2" unfolding s2 using spl_at_put [OF U(4) [OF assms(1)] cs] by simp
  have "(lk s)(l := None) = lk (U s)" using assms(2) U(3) [OF c] by auto
  then have "(spl_put c t cs n ?s2)\<lparr>lk := (lk ?s2)(l := None)\<rparr> = U s"
    using spl_put_same [OF U(4) [OF assms(1)]] U(2) [OF c] unfolding s2 by (simp add: spl_put_upd)
  moreover have "lk ?s2 l = Some c" unfolding s2 by simp
  ultimately show "spinlock_release c l ?s2 = Some (U s)" using spinlock_release_eq [OF a2, of l] by simp
qed

lemma ipi_send_eq:
  assumes "spl_at c t cs n s" "d < length (cpus s)" "lk s (IpiLock d) = None" "code < 32"
  shows "ipi_send c d code s = Some (upd_cpu d (\<lambda>p. p\<lparr>c_ipi_pending := c_ipi_pending p OR push_bit code 1\<rparr>) s)"
proof -
  have "spl_free (upd_cpu d (\<lambda>p. p\<lparr>c_ipi_pending := c_ipi_pending p OR push_bit code 1\<rparr>))"
    by (rule spl_free_cpu) (simp_all add: spl_cpu_def rec_order)
  from lock_bracket [OF assms(1,3) this] assms(2,4) show ?thesis
    by (simp add: ipi_send_def on_cpu_upd)
qed

section \<open>Net effects\<close>

lemma spl_free_state: "spl_free (upd_thr t (\<lambda>th. th\<lparr>t_state := x\<rparr>))"
  by (rule spl_free_thr) (simp_all add: spl_thr_def rec_order)

lemma spl_free_pending: "spl_free (upd_cpu d (\<lambda>p. p\<lparr>c_ipi_pending := b\<rparr>))"
  by (rule spl_free_cpu) (simp_all add: spl_cpu_def rec_order)

lemma pending_same: "d < length (cpus s) \<Longrightarrow> upd_cpu d (\<lambda>p. p\<lparr>c_ipi_pending := c_ipi_pending (cpus s ! d)\<rparr>) s = s"
  by (simp add: upd_cpu_def)

lemma upd_cpu_const: "upd_cpu d f s = upd_cpu d (\<lambda>p. f (cpus s ! d)) s"
  by (simp add: upd_cpu_def)

lemma make_runnable_eq:
  assumes "spl_at c cur cs n s" "thr s t = Some th" "t_cpu th = Some d" "d < length (cpus s)"
    and "tl_rep (nodes s) T Q" "Q (Runqueue d) = Some ts" "t \<in> T" "unlisted t Q"
    and "lk s (RunqueueLock d) = None" "lk s (IpiLock d) = None"
  obtains h b where "thread_make_runnable c t False s =
      Some (upd_cpu d (\<lambda>p. p\<lparr>c_ipi_pending := b\<rparr>) ((upd_thr t (\<lambda>th. th\<lparr>t_state := S_READY\<rparr>) s)\<lparr>nodes := h\<rparr>))"
    "tl_rep h T (Q(Runqueue d \<mapsto> ts @ [t]))"
proof -
  have c: "c < length (cpus s)" and cs: "cs = 0 \<or> cs = 1" using assms(1) by (auto simp: spl_at_def)
  obtain h where h: "threadlist_addtail (Runqueue d) t (nodes s) = Some h" "tl_rep h T (Q(Runqueue d \<mapsto> ts @ [t]))"
    using threadlist_insert_spec(2) [OF assms(5-8)] by blast
  define b where "b = (if c_isidle (cpus s ! d) \<and> d \<noteq> c then c_ipi_pending (cpus s ! d) OR push_bit IPI_UNIDLE 1 else c_ipi_pending (cpus s ! d))"
  let ?V = "\<lambda>s. (upd_thr t (\<lambda>th. th\<lparr>t_state := S_READY\<rparr>) s)\<lparr>nodes := h\<rparr>"
  let ?U = "\<lambda>s. upd_cpu d (\<lambda>p. p\<lparr>c_ipi_pending := b\<rparr>) (?V s)"
  have V: "spl_free ?V" by (intro spl_free_comp [OF spl_free_nodes spl_free_state])
  have U: "spl_free ?U" by (rule spl_free_comp [OF spl_free_pending V])
  note B = lock_bracket [OF assms(1,9) U]
  let ?s1 = "(spl_put c cur cs (Suc n) s)\<lparr>lk := (lk s)(RunqueueLock d \<mapsto> c)\<rparr>"
  have a1: "spl_at c cur cs (Suc n) (?V ?s1)" using spl_freeD(4) [OF V] spl_at_put [OF assms(1) cs] by simp
  have id: "cpus ?s1 ! d = (if d = c then spl_cpu cs (Suc n) (cpus s ! d) else cpus s ! d)" using assms(4) by simp
  have send: "(if c_isidle (cpus ?s1 ! d) \<and> d \<noteq> c then ipi_send c d IPI_UNIDLE (?V ?s1) else Some (?V ?s1)) = Some (?U ?s1)"
  proof (cases "c_isidle (cpus s ! d) \<and> d \<noteq> c")
    case True
    have "ipi_send c d IPI_UNIDLE (?V ?s1) = Some (?U ?s1)"
      using True assms(4,10) by (subst ipi_send_eq [OF a1]) (simp_all add: IPI_UNIDLE_def b_def upd_cpu_def)
    with True id show ?thesis by simp
  next
    case False
    then have "b = c_ipi_pending (cpus (?V ?s1) ! d)" using assms(4) by (auto simp: b_def spl_cpu_def)
    then have "?U ?s1 = ?V ?s1" using pending_same [of d "?V ?s1"] assms(4) by simp
    with False id show ?thesis by (auto simp: spl_cpu_def)
  qed
  have o: "on_thr t (\<lambda>th. th\<lparr>t_state := S_READY\<rparr>) ?s1 = Some (upd_thr t (\<lambda>th. th\<lparr>t_state := S_READY\<rparr>) ?s1)"
    using assms(2) by (auto simp: on_thr_upd)
  have "thread_make_runnable c t False s = Some (?U s)"
    using assms(2-4) B send h(1) id by (simp add: thread_make_runnable_def o Let_def split del: if_split)
  from this h(2) show thesis by (rule that)
qed

text \<open>Zombies are taken away.\<close>

lemma tl_rep_drop: "tl_rep h T Q \<Longrightarrow> unlisted t Q \<Longrightarrow> tl_rep h (T - {t}) Q"
  unfolding tl_rep_def unlisted_def by (auto 0 3)

lemma exorcise_eq:
  assumes "tl_rep (nodes s) (dom (thr s)) Q" "Q (Zombies c) = Some zs" "curthread c s = Some cur" "cur \<notin> set zs"
    and "\<And>z. z \<in> set zs \<Longrightarrow> \<exists>th. thr s z = Some th \<and> t_state th = S_ZOMBIE \<and> t_proc th = None"
  shows "\<exists>h. exorcise c s = Some (s\<lparr>thr := (thr s) |` (- set zs), nodes := h\<rparr>) \<and>
    tl_rep h (dom (thr s) - set zs) (Q(Zombies c \<mapsto> []))"
  using assms
proof (induction zs arbitrary: s Q)
  case Nil
  have "Q(Zombies c \<mapsto> []) = Q" using Nil.prems(2) by auto
  moreover have "s\<lparr>thr := thr s |` (- {}), nodes := nodes s\<rparr> = s" by (simp add: restrict_map_def)
  ultimately show ?case
    using threadlist_remove_spec(1) [OF Nil.prems(1,2) refl] Nil.prems(1)
    by (intro exI [of _ "nodes s"]) (simp add: exorcise.simps [of c s])
next
  case (Cons z zs)
  obtain h where h: "threadlist_remhead (Zombies c) (nodes s) = Some (Some z, h)" "tl_rep h (dom (thr s)) (Q(Zombies c \<mapsto> zs))"
    using threadlist_remove_spec(2) [OF Cons.prems(1,2) refl] by blast
  have zn: "z \<notin> set zs" "z \<noteq> cur" using tl_repD(3) [OF Cons.prems(1,2)] Cons.prems(4) by auto
  have ul: "unlisted z (Q(Zombies c \<mapsto> zs))" "z \<in> dom (thr s)"
    using tq.taken_unlisted [OF Cons.prems(1,2), of z zs] zn by auto
  obtain th where th: "thr s z = Some th" "t_state th = S_ZOMBIE" "t_proc th = None" using Cons.prems(5) [of z] by auto
  let ?s = "s\<lparr>nodes := h, thr := (thr s)(z := None)\<rparr>"
  have cur: "curthread c ?s = Some cur" "curthread c (s\<lparr>nodes := h\<rparr>) = Some cur" using Cons.prems(3) by (simp_all add: curthread_def split: if_splits)
  have "threadlistnode_cleanup z h = Some ()" using threadlistnode_cleanup_spec [OF h(2) ul(2)] ul(1) by simp
  then have d: "thread_destroy c z (s\<lparr>nodes := h\<rparr>) = Some ?s" using th zn(2) cur by (simp add: thread_destroy_def)
  have dom: "dom (thr ?s) = dom (thr s) - {z}" by auto
  have "tl_rep (nodes ?s) (dom (thr ?s)) (Q(Zombies c \<mapsto> zs))" using tl_rep_drop [OF h(2) ul(1)] dom by simp
  from Cons.IH [OF this _ cur(1)] Cons.prems(4,5) zn(1) obtain h' where
    h': "exorcise c ?s = Some (?s\<lparr>thr := thr ?s |` (- set zs), nodes := h'\<rparr>)"
      "tl_rep h' (dom (thr ?s) - set zs) (Q(Zombies c \<mapsto> []))" by fastforce
  have "thr ?s |` (- set zs) = thr s |` (- set (z # zs))" by (auto simp: restrict_map_def)
  moreover have "dom (thr s) - set (z # zs) = dom (thr ?s) - set zs" using dom by auto
  moreover have "exorcise c s = exorcise c ?s"
    using h(1) d th zn(2) cur by (simp add: exorcise.simps [of c s])
  ultimately have "exorcise c s = Some (s\<lparr>thr := thr s |` (- set (z # zs)), nodes := h'\<rparr>)"
    "tl_rep h' (dom (thr s) - set (z # zs)) (Q(Zombies c \<mapsto> []))" using h' by (simp_all add: rec_order)
  then show ?case by blast
qed

section \<open>The context switch\<close>

lemma checkstack_put [simp]: "thread_checkstack u (spl_put c t k m s) = thread_checkstack u s"
  by (cases "u = t"; cases "thr s u") (simp_all add: thread_checkstack_def spl_thr_def)

text \<open>The state a thread leaves behind: queued, at the level it will continue at, and the processor idle.\<close>

definition left :: "cpuid \<Rightarrow> tid \<Rightarrow> int \<Rightarrow> threadstate \<Rightarrow> string option \<Rightarrow> (splk \<Rightarrow> cpuid option) \<Rightarrow> tlist tlheap \<Rightarrow> sched \<Rightarrow> sched" where
  "left c t cs st name L h s =
     (upd_cpu c (\<lambda>p. (spl_cpu 1 1 p)\<lparr>c_isidle := True\<rparr>)
       (upd_thr t (\<lambda>th. (spl_thr 1 1 th)\<lparr>t_wchan_name := name, t_state := st, t_spl := cs\<rparr>) s))
     \<lparr>lk := L(RunqueueLock c \<mapsto> c), nodes := h\<rparr>"

lemma leave_prefix:
  assumes "spl_at c t cs n s" "\<not> c_isidle (cpus s ! c)" "thread_checkstack t s = Some ()" "lk s (RunqueueLock c) = None"
    and "ns = S_READY \<Longrightarrow> \<not> threadlist_isempty (Runqueue c) (nodes s)"
  defines "s2 \<equiv> upd_thr t (\<lambda>th. th\<lparr>t_spl := cs\<rparr>) ((spl_put c t 1 (Suc n) s)\<lparr>lk := (lk s)(RunqueueLock c \<mapsto> c)\<rparr>)"
  shows "thread_switch_leave c ns wc s =
    do { s \<leftarrow> (case ns of
              S_RUN \<Rightarrow> None
            | S_READY \<Rightarrow> thread_make_runnable c t True s2
            | S_SLEEP \<Rightarrow>
                do { (w, l) \<leftarrow> wc;
                     name \<leftarrow> wch s2 w;
                     s \<leftarrow> on_thr t (\<lambda>th. th\<lparr>t_wchan_name := Some name\<rparr>) s2;
                     h \<leftarrow> threadlist_addtail (WcThreads w) t (nodes s);
                     spinlock_release c l (s\<lparr>nodes := h\<rparr>) }
            | S_ZOMBIE \<Rightarrow>
                do { s \<leftarrow> on_thr t (\<lambda>th. th\<lparr>t_wchan_name := Some ''ZOMBIE''\<rparr>) s2;
                     h \<leftarrow> threadlist_addtail (Zombies c) t (nodes s);
                     Some (s\<lparr>nodes := h\<rparr>) });
         s \<leftarrow> on_thr t (\<lambda>th. th\<lparr>t_state := ns\<rparr>) s;
         s \<leftarrow> on_cpu c (\<lambda>p. p\<lparr>c_isidle := True\<rparr>) s;
         Some (True, s) }"
proof -
  have c: "c < length (cpus s)" "thr s t \<noteq> None" using assms(1) by (auto simp: spl_at_def)
  have sp: "splhigh c s = Some (cs, spl_put c t 1 n s)" using splx_eq [OF assms(1)] by (simp add: splhigh_def IPL_HIGH_def)
  have a1: "spl_at c t 1 n (spl_put c t 1 n s)" using spl_at_put [OF assms(1)] by simp
  have cur: "curthread c (spl_put c t 1 n s) = Some t" using a1 by (auto elim: spl_atE)
  have ac: "spinlock_acquire c (RunqueueLock c) (spl_put c t 1 n s) = Some ((spl_put c t 1 (Suc n) s)\<lparr>lk := (lk s)(RunqueueLock c \<mapsto> c)\<rparr>)"
    using spinlock_acquire_eq [OF a1] assms(4) c by simp
  have idle: "\<not> c_isidle (cpus (spl_put c t 1 n s) ! c)" using assms(2) c by (simp add: spl_cpu_def)
  have "on_thr t (\<lambda>th. th\<lparr>t_spl := cs\<rparr>) ((spl_put c t 1 (Suc n) s)\<lparr>lk := (lk s)(RunqueueLock c \<mapsto> c)\<rparr>) = Some s2"
    using c by (simp add: on_thr_upd s2_def)
  moreover have "\<not> (ns = S_READY \<and> threadlist_isempty (Runqueue c) (nodes s))" using assms(5) by blast
  ultimately show ?thesis
    using assms(3) sp cur ac idle unfolding thread_switch_leave_def by (cases "ns = S_READY") simp_all
qed

lemma leave_rest:
  assumes "spl_at c t cs n s"
  shows "upd_cpu c (\<lambda>p. p\<lparr>c_isidle := True\<rparr>) (upd_thr t (\<lambda>th. th\<lparr>t_state := st\<rparr>)
      ((upd_thr t (\<lambda>th. th\<lparr>t_wchan_name := name\<rparr>) (upd_thr t (\<lambda>th. th\<lparr>t_spl := cs\<rparr>)
        ((spl_put c t 1 1 s)\<lparr>lk := L(RunqueueLock c \<mapsto> c)\<rparr>)))\<lparr>nodes := h\<rparr>)) = left c t cs st name L h s"
proof -
  obtain th where "thr s t = Some th" "c < length (cpus s)" using assms by (auto simp: spl_at_def)
  then show ?thesis
    by (simp add: left_def upd_cpu_def upd_thr_def spl_put_def rec_order spl_thr_def spl_cpu_def)
qed

lemma leave_zombie:
  assumes "spl_at c t cs 0 s" "\<not> c_isidle (cpus s ! c)" "thread_checkstack t s = Some ()" "lk s (RunqueueLock c) = None"
    and "tl_rep (nodes s) T Q" "Q (Zombies c) = Some ts" "t \<in> T" "unlisted t Q"
  obtains h where "thread_switch_leave c S_ZOMBIE None s = Some (True, left c t cs S_ZOMBIE (Some ''ZOMBIE'') (lk s) h s)"
    "tl_rep h T (Q(Zombies c \<mapsto> ts @ [t]))"
proof -
  have c: "c < length (cpus s)" "thr s t \<noteq> None" using assms(1) by (auto simp: spl_at_def)
  obtain h where h: "threadlist_addtail (Zombies c) t (nodes s) = Some h" "tl_rep h T (Q(Zombies c \<mapsto> ts @ [t]))"
    using threadlist_insert_spec(2) [OF assms(5-8)] by blast
  have "thread_switch_leave c S_ZOMBIE None s = Some (True, left c t cs S_ZOMBIE (Some ''ZOMBIE'') (lk s) h s)"
    using leave_prefix [OF assms(1-4), of S_ZOMBIE None] c h(1) leave_rest [OF assms(1), where st = S_ZOMBIE and name = "Some ''ZOMBIE''" and L = "lk s" and h = h]
    by (simp add: on_thr_upd on_cpu_upd)
  from this h(2) show thesis by (rule that)
qed

lemma leave_ready:
  assumes "spl_at c t cs 0 s" "\<not> c_isidle (cpus s ! c)" "thread_checkstack t s = Some ()" "lk s (RunqueueLock c) = None"
    and "tl_rep (nodes s) T Q" "Q (Runqueue c) = Some ts" "t \<in> T" "unlisted t Q" "ts \<noteq> []" "thr s t = Some th" "t_cpu th = Some c"
  obtains h where "thread_switch_leave c S_READY None s = Some (True, left c t cs S_READY (t_wchan_name th) (lk s) h s)"
    "tl_rep h T (Q(Runqueue c \<mapsto> ts @ [t]))"
proof -
  have c: "c < length (cpus s)" "thr s t \<noteq> None" using assms(1) by (auto simp: spl_at_def)
  have ne: "\<not> threadlist_isempty (Runqueue c) (nodes s)" using threadlist_cleanup_spec(1) [OF assms(5,6)] assms(9) by simp
  obtain h where h: "threadlist_addtail (Runqueue c) t (nodes s) = Some h" "tl_rep h T (Q(Runqueue c \<mapsto> ts @ [t]))"
    using threadlist_insert_spec(2) [OF assms(5-8)] by blast
  let ?s2 = "upd_thr t (\<lambda>th. th\<lparr>t_spl := cs\<rparr>) ((spl_put c t 1 (Suc 0) s)\<lparr>lk := (lk s)(RunqueueLock c \<mapsto> c)\<rparr>)"
  have "thread_make_runnable c t True ?s2 = Some ((upd_thr t (\<lambda>th. th\<lparr>t_state := S_READY\<rparr>) ?s2)\<lparr>nodes := h\<rparr>)"
    using h(1) c(1) assms(10,11) by (simp add: thread_make_runnable_def on_thr_upd spinlock_do_i_hold_def spl_thr_def)
  then have "thread_switch_leave c S_READY None s = Some (True, left c t cs S_READY (t_wchan_name th) (lk s) h s)"
    using leave_prefix [OF assms(1-4), of S_READY None] ne c assms(10)
    by (simp add: on_thr_upd on_cpu_upd) (simp add: left_def upd_cpu_def upd_thr_def spl_put_def rec_order spl_thr_def spl_cpu_def)
  from this h(2) show thesis by (rule that)
qed

lemma leave_sleep:
  assumes "spl_at c t cs (Suc 0) s" "\<not> c_isidle (cpus s ! c)" "thread_checkstack t s = Some ()" "lk s (RunqueueLock c) = None"
    and "tl_rep (nodes s) T Q" "Q (WcThreads w) = Some ts" "t \<in> T" "unlisted t Q" "wch s w = Some name" "lk s l = Some c"
  obtains h where "thread_switch_leave c S_SLEEP (Some (w, l)) s = Some (True, left c t cs S_SLEEP (Some name) ((lk s)(l := None)) h s)"
    "tl_rep h T (Q(WcThreads w \<mapsto> ts @ [t]))"
proof -
  have c: "c < length (cpus s)" "thr s t \<noteq> None" using assms(1) by (auto simp: spl_at_def)
  obtain h where h: "threadlist_addtail (WcThreads w) t (nodes s) = Some h" "tl_rep h T (Q(WcThreads w \<mapsto> ts @ [t]))"
    using threadlist_insert_spec(2) [OF assms(5-8)] by blast
  have ln: "l \<noteq> RunqueueLock c" using assms(4,10) by auto
  let ?V = "\<lambda>s. (upd_thr t (\<lambda>th. th\<lparr>t_wchan_name := Some name\<rparr>) (upd_thr t (\<lambda>th. th\<lparr>t_spl := cs\<rparr>) s))\<lparr>nodes := h\<rparr>"
  have "spl_free (upd_thr t (\<lambda>th. th\<lparr>t_wchan_name := Some name\<rparr>))" "spl_free (upd_thr t (\<lambda>th. th\<lparr>t_spl := cs\<rparr>))"
    by (rule spl_free_thr; simp add: spl_thr_def rec_order)+
  from spl_free_comp [OF spl_free_nodes spl_free_comp [OF this]] have V: "spl_free ?V" .
  let ?s1 = "(spl_put c t 1 (Suc (Suc 0)) s)\<lparr>lk := (lk s)(RunqueueLock c \<mapsto> c)\<rparr>"
  have a: "spl_at c t 1 (Suc (Suc 0)) (?V ?s1)" using spl_freeD(4) [OF V] spl_at_put [OF assms(1)] by simp
  have rel: "spinlock_release c l (?V ?s1) = Some (?V ((spl_put c t 1 1 s)\<lparr>lk := ((lk s)(l := None))(RunqueueLock c \<mapsto> c)\<rparr>))"
  proof -
    have v: "?V ?s1 = (spl_put c t 1 (Suc (Suc 0)) (?V s))\<lparr>lk := (lk s)(RunqueueLock c \<mapsto> c)\<rparr>" by (rule spl_freeD(1) [OF V c(1)])
    have L: "((lk s)(RunqueueLock c \<mapsto> c))(l := None) = ((lk s)(l := None))(RunqueueLock c \<mapsto> c)" using ln by auto
    have "c < length (cpus (?V s))" by (rule spl_freeD(2) [OF V c(1)])
    then have p: "spl_put c t 1 1 (?V ?s1) = (spl_put c t 1 1 (?V s))\<lparr>lk := (lk s)(RunqueueLock c \<mapsto> c)\<rparr>"
      unfolding v by (simp add: spl_put_upd)
    have "lk (?V ?s1) = (lk s)(RunqueueLock c \<mapsto> c)" by simp
    then have "spinlock_release c l (?V ?s1) = Some ((spl_put c t 1 1 (?V s))\<lparr>lk := ((lk s)(l := None))(RunqueueLock c \<mapsto> c)\<rparr>)"
      using spinlock_release_eq [OF a, of l] assms(10) ln p L by simp
    then show ?thesis unfolding spl_freeD(1) [OF V c(1)] .
  qed
  have "thread_switch_leave c S_SLEEP (Some (w, l)) s = Some (True, left c t cs S_SLEEP (Some name) ((lk s)(l := None)) h s)"
    using leave_prefix [OF assms(1-4), of S_SLEEP "Some (w, l)"] c h(1) rel assms(9) leave_rest [OF assms(1), where st = S_SLEEP and name = "Some name" and L = "(lk s)(l := None)" and h = h]
    by (simp add: on_thr_upd on_cpu_upd)
  from this h(2) show thesis by (rule that)
qed

text \<open>A thread that gets the processor finds the run queue locked and leaves it unlocked.\<close>

definition arrived :: "cpuid \<Rightarrow> tid \<Rightarrow> int \<Rightarrow> tid list \<Rightarrow> tlist tlheap \<Rightarrow> sched \<Rightarrow> sched" where
  "arrived c u k zs h s =
     (let s1 = spl_put c u k 0 (upd_thr u (\<lambda>th. th\<lparr>t_wchan_name := None, t_state := S_RUN, t_context := None\<rparr>) s)
      in s1\<lparr>thr := thr s1 |` (- set zs), lk := (lk s)(RunqueueLock c := None), nodes := h\<rparr>)"

lemma arrive_eq:
  assumes "spl_at c u 1 (Suc 0) s" "lk s (RunqueueLock c) = Some c" "thr s u = Some th" "t_spl th = 0 \<or> t_spl th = 1"
    and "tl_rep (nodes s) (dom (thr s)) Q" "Q (Zombies c) = Some zs" "u \<notin> set zs"
    and "\<And>z. z \<in> set zs \<Longrightarrow> \<exists>th. thr s z = Some th \<and> t_state th = S_ZOMBIE \<and> t_proc th = None"
  obtains h where "thread_switch_arrive c s = Some (arrived c u (if t_context th = None then t_spl th else 0) zs h s)"
    "tl_rep h (dom (thr s) - set zs) (Q(Zombies c \<mapsto> []))"
proof -
  have c: "c < length (cpus s)" "curthread c s = Some u" using assms(1) by (auto elim: spl_atE)
  let ?f = "\<lambda>th. th\<lparr>t_wchan_name := None, t_state := S_RUN\<rparr>"
  have V: "spl_free (upd_thr u ?f)" by (rule spl_free_thr) (simp_all add: spl_thr_def rec_order)
  let ?s1 = "upd_thr u ?f s"
  have a1: "spl_at c u 1 (Suc 0) ?s1" using spl_freeD(4) [OF V assms(1)] .
  let ?s2 = "(spl_put c u 1 0 ?s1)\<lparr>lk := (lk s)(RunqueueLock c := None)\<rparr>"
  have rel: "spinlock_release c (RunqueueLock c) ?s1 = Some ?s2" using spinlock_release_eq [OF a1] assms(2) by simp
  have a2: "spl_at c u 1 0 ?s2" using spl_at_put [OF a1] by simp
  have cur2: "curthread c ?s2 = Some u" by (rule spl_atE [OF a2])
  have dom: "dom (thr ?s2) = dom (thr s)" using assms(3) by (auto simp: dom_def)
  have z2: "\<exists>th. thr ?s2 z = Some th \<and> t_state th = S_ZOMBIE \<and> t_proc th = None" if "z \<in> set zs" for z
    using assms(8) [OF that] that assms(7) by (cases "z = u") auto
  have rep2: "tl_rep (nodes ?s2) (dom (thr ?s2)) Q" using assms(5) dom by simp
  obtain h where h: "exorcise c ?s2 = Some (?s2\<lparr>thr := thr ?s2 |` (- set zs), nodes := h\<rparr>)" "tl_rep h (dom (thr s) - set zs) (Q(Zombies c \<mapsto> []))"
    using exorcise_eq [OF rep2 assms(6) cur2 assms(7) z2] dom by auto
  let ?s3 = "?s2\<lparr>thr := thr ?s2 |` (- set zs), nodes := h\<rparr>"
  have a3: "spl_at c u 1 0 ?s3" by (rule spl_at_cong [OF a2]) (use assms(7) in simp_all)
  have th3: "thr ?s3 u = Some (spl_thr 1 0 (?f th))" using assms(3,7) by simp
  have "thread_switch_arrive c s = Some (arrived c u (if t_context th = None then t_spl th else 0) zs h s)"
  proof (cases "t_context th")
    case None
    have e: "th\<lparr>t_wchan_name := None, t_state := S_RUN, t_context := None, t_curspl := a, t_iplhigh_count := b\<rparr> =
      th\<lparr>t_wchan_name := None, t_state := S_RUN, t_curspl := a, t_iplhigh_count := b\<rparr>" for a b using None by simp
    have "spl_put c u (t_spl th) 0 ?s3 = arrived c u (t_spl th) zs h s"
      using assms(3,7) c None by (simp add: e arrived_def Let_def spl_put_def upd_thr_def rec_order spl_thr_def)
    with splx_eq [OF a3 assms(4)] show ?thesis
      using c rel h(1) th3 None assms(3) by (simp add: thread_switch_arrive_def on_thr_upd spl_thr_def)
  next
    case (Some x)
    have "upd_thr u (\<lambda>th. th\<lparr>t_context := None\<rparr>) (spl_put c u 0 0 ?s3) = arrived c u 0 zs h s"
      using assms(3,7) c by (simp add: arrived_def Let_def spl_put_def upd_thr_def rec_order spl_thr_def)
    with splx_eq [OF a3, of 0] show ?thesis
      using c rel h(1) th3 Some assms(3) by (simp add: thread_switch_arrive_def on_thr_upd spl0_def IPL_NONE_def spl_thr_def)
  qed
  from this h(2) show thesis by (rule that)
qed

end
