(* ===== verification/Sched_Inv.thy ===== *)
theory Sched_Inv
  imports Thread_Inv
begin

text \<open>
  Where every thread is. The invariant is stated on the fields of the state that the placement of
  threads depends on, so that interrupt levels and locks do not disturb it.
\<close>

section \<open>Placement\<close>

type_synonym placing = "tid \<Rightarrow> (threadstate \<times> cpuid option \<times> procid option) option"
type_synonym tqueues = "tlist \<Rightarrow> tid list option"

definition pt :: "sched \<Rightarrow> placing" where
  "pt s t = map_option (\<lambda>th. (t_state th, t_cpu th, t_proc th)) (thr s t)"

definition ci :: "sched \<Rightarrow> (tid option \<times> bool) list" where
  "ci s = map (\<lambda>p. (c_curthread p, c_isidle p)) (cpus s)"

text \<open>What holds of a thread on a list, \<open>n\<close> being the number of processors.\<close>

fun list_ok :: "placing \<Rightarrow> nat \<Rightarrow> tlist \<Rightarrow> tid \<Rightarrow> bool" where
  "list_ok P n (Runqueue c) t \<longleftrightarrow> (\<exists>p. P t = Some (S_READY, Some c, p))"
| "list_ok P n (Victims c) t \<longleftrightarrow> (\<exists>p. P t = Some (S_READY, Some c, p))"
| "list_ok P n (Zombies c) t \<longleftrightarrow> P t = Some (S_ZOMBIE, Some c, None)"
| "list_ok P n (WcThreads w) t \<longleftrightarrow> (\<exists>c p. c < n \<and> P t = Some (S_SLEEP, Some c, p))"
| "list_ok P n (WakeList d) t \<longleftrightarrow> (\<exists>c p. c < n \<and> P t = Some (S_SLEEP, Some c, p))"

text \<open>
  What holds of a processor: its thread belongs to it, and is on no list unless the processor is
  idle.
\<close>

definition cpu_ok :: "placing \<Rightarrow> (tid option \<times> bool) list \<Rightarrow> tqueues \<Rightarrow> cpuid \<Rightarrow> bool" where
  "cpu_ok P C Q c \<longleftrightarrow>
     (\<exists>t st p. fst (C ! c) = Some t \<and> P t = Some (st, Some c, p) \<and>
        (\<not> snd (C ! c) \<longrightarrow> unlisted t Q \<and> (st = S_RUN \<or> st = S_READY)))"

text \<open>
  A thread is on exactly one list, or it is running. \<open>M\<close> has the processors that are in the middle
  of a migration, \<open>K\<close> those that are in the middle of waking threads up, \<open>X\<close> the threads that are
  on their way from one place to another, and \<open>W\<close> the wait channels.
\<close>

definition lists_ok :: "cpuid set \<Rightarrow> cpuid set \<Rightarrow> nat \<Rightarrow> (wcid \<Rightarrow> 'n option) \<Rightarrow> tqueues \<Rightarrow> bool" where
  "lists_ok M K n W Q \<longleftrightarrow>
     (\<forall>c. Q (Runqueue c) \<noteq> None \<longleftrightarrow> c < n) \<and> (\<forall>c. Q (Zombies c) \<noteq> None \<longleftrightarrow> c < n) \<and>
     (\<forall>w. Q (WcThreads w) \<noteq> None \<longleftrightarrow> W w \<noteq> None) \<and> (\<forall>c. Q (Victims c) \<noteq> None \<longleftrightarrow> c \<in> M) \<and> (\<forall>c. Q (WakeList c) \<noteq> None \<longleftrightarrow> c \<in> K)"

definition q_inv :: "tid set \<Rightarrow> cpuid set \<Rightarrow> cpuid set \<Rightarrow> placing \<Rightarrow> (tid option \<times> bool) list \<Rightarrow> tlist tlheap \<Rightarrow>
    (wcid \<Rightarrow> 'n option) \<Rightarrow> tqueues \<Rightarrow> bool" where
  "q_inv X M K P C h W Q \<longleftrightarrow>
     tl_rep h (dom P) Q \<and> lists_ok M K (length C) W Q \<and>
     (\<forall>l ts t. Q l = Some ts \<longrightarrow> t \<in> set ts \<longrightarrow> list_ok P (length C) l t) \<and>
     (\<forall>t\<in>dom P. t \<notin> X \<longrightarrow> unlisted t Q \<longrightarrow> (\<exists>c<length C. C ! c = (Some t, False))) \<and>
     (\<forall>c<length C. cpu_ok P C Q c)"

lemma q_invD:
  assumes "q_inv X M K P C h W Q"
  shows "tl_rep h (dom P) Q" "lists_ok M K (length C) W Q" "Q l = Some ts \<Longrightarrow> t \<in> set ts \<Longrightarrow> list_ok P (length C) l t"
    "t \<in> dom P \<Longrightarrow> t \<notin> X \<Longrightarrow> unlisted t Q \<Longrightarrow> \<exists>c<length C. C ! c = (Some t, False)" "c < length C \<Longrightarrow> cpu_ok P C Q c"
  using assms unfolding q_inv_def by blast+

lemma lists_okD:
  assumes "lists_ok M K n W Q"
  shows "Q (Runqueue c) \<noteq> None \<longleftrightarrow> c < n" "Q (Zombies c) \<noteq> None \<longleftrightarrow> c < n" "Q (WcThreads w) \<noteq> None \<longleftrightarrow> W w \<noteq> None"
    "Q (Victims c) \<noteq> None \<longleftrightarrow> c \<in> M" "Q (WakeList c) \<noteq> None \<longleftrightarrow> c \<in> K"
  using assms unfolding lists_ok_def by blast+

lemma lists_ok_cong: "lists_ok M K n W Q \<Longrightarrow> (\<And>l. Q' l \<noteq> None \<longleftrightarrow> Q l \<noteq> None) \<Longrightarrow> lists_ok M K n W Q'"
  unfolding lists_ok_def by simp

text \<open>Two processors never run the same thread.\<close>

lemma cpu_ok_unique: "cpu_ok P C Q c \<Longrightarrow> cpu_ok P C Q d \<Longrightarrow> fst (C ! c) = fst (C ! d) \<Longrightarrow> c = d"
  by (auto simp: cpu_ok_def)

text \<open>One thread \<open>t\<close> changes its place.\<close>

lemma q_inv_change:
  assumes "q_inv X M K P C h W Q" "tl_rep h' (dom P') Q'" "\<And>x. x \<noteq> t \<Longrightarrow> P' x = P x" "length C' = length C"
    and lists: "\<And>l. Q' l \<noteq> None \<longleftrightarrow> Q l \<noteq> None" "\<And>l ts ts'. Q l = Some ts \<Longrightarrow> Q' l = Some ts' \<Longrightarrow> set ts' - {t} = set ts - {t}"
    and tok: "\<And>l ts'. Q' l = Some ts' \<Longrightarrow> t \<in> set ts' \<Longrightarrow> list_ok P' (length C) l t"
    and place: "t \<in> dom P' \<Longrightarrow> t \<notin> Y \<Longrightarrow> unlisted t Q' \<Longrightarrow> \<exists>c<length C. C' ! c = (Some t, False)"
    and others: "\<And>c x. c < length C \<Longrightarrow> C ! c = (Some x, False) \<Longrightarrow> x \<noteq> t \<Longrightarrow> C' ! c = (Some x, False)"
    and cpus: "\<And>c. c < length C \<Longrightarrow> C' ! c \<noteq> C ! c \<or> fst (C ! c) = Some t \<Longrightarrow> cpu_ok P' C' Q' c"
    and X: "X \<subseteq> insert t Y"
  shows "q_inv Y M K P' C' h' W Q'"
proof -
  note D = q_invD [OF assms(1)]
  have mem: "x \<in> set ts' \<longleftrightarrow> x \<in> set ts" if "Q l = Some ts" "Q' l = Some ts'" "x \<noteq> t" for x l ts ts'
    using lists(2) [OF that(1,2)] that(3) by blast
  have ul: "unlisted x Q' \<longleftrightarrow> unlisted x Q" if "x \<noteq> t" for x
  proof
    assume u: "unlisted x Q'"
    show "unlisted x Q" unfolding unlisted_def
    proof (intro allI impI)
      fix l ts assume ts: "Q l = Some ts"
      then obtain ts' where "Q' l = Some ts'" using lists(1) [of l] by auto
      with mem [OF ts this that] u show "x \<notin> set ts" by (auto simp: unlisted_def)
    qed
  next
    assume u: "unlisted x Q"
    show "unlisted x Q'" unfolding unlisted_def
    proof (intro allI impI)
      fix l ts' assume ts': "Q' l = Some ts'"
      then obtain ts where "Q l = Some ts" using lists(1) [of l] by auto
      with mem [OF this ts' that] u show "x \<notin> set ts'" by (auto simp: unlisted_def)
    qed
  qed
  have lok: "list_ok P' n l x \<longleftrightarrow> list_ok P n l x" if "x \<noteq> t" for n l x
    using assms(3) [OF that] by (cases l) simp_all
  have "list_ok P' (length C') l x" if q: "Q' l = Some ts'" "x \<in> set ts'" for l ts' x
  proof (cases "x = t")
    case True
    with tok [OF q(1)] q(2) assms(4) show ?thesis by simp
  next
    case False
    obtain ts where ts: "Q l = Some ts" using lists(1) [of l] q(1) by auto
    with mem [OF ts q(1) False] q(2) D(3) [OF ts] lok [OF False] assms(4) show ?thesis by simp
  qed
  moreover have "\<exists>c<length C'. C' ! c = (Some x, False)" if "x \<in> dom P'" "x \<notin> Y" "unlisted x Q'" for x
  proof (cases "x = t")
    case True
    with that place assms(4) show ?thesis by simp
  next
    case False
    then have "x \<in> dom P" "x \<notin> X" "unlisted x Q"
      using that ul [OF False] assms(3) [OF False] X by (simp_all add: domIff) blast
    with D(4) obtain c where "c < length C" "C ! c = (Some x, False)" by blast
    with others [OF _ _ False] assms(4) show ?thesis by auto
  qed
  moreover have "cpu_ok P' C' Q' c" if c: "c < length C'" for c
  proof (cases "C' ! c \<noteq> C ! c \<or> fst (C ! c) = Some t")
    case True
    with cpus c assms(4) show ?thesis by simp
  next
    case False
    with D(5) [of c] c assms(4) obtain u st p where u: "fst (C ! c) = Some u" "P u = Some (st, Some c, p)"
      "\<not> snd (C ! c) \<longrightarrow> unlisted u Q \<and> (st = S_RUN \<or> st = S_READY)" by (auto simp: cpu_ok_def)
    with False have "u \<noteq> t" by auto
    with u False ul [OF \<open>u \<noteq> t\<close>] assms(3) [OF \<open>u \<noteq> t\<close>] show ?thesis unfolding cpu_ok_def by auto
  qed
  moreover have "lists_ok M K (length C') W Q'" using lists_ok_cong [OF D(2) lists(1)] assms(4) by simp
  ultimately show ?thesis using assms(2) unfolding q_inv_def by blast
qed

lemma listed_not_running:
  assumes "q_inv X M K P C h W Q" "Q l = Some ts" "t \<in> set ts" "c < length C"
  shows "C ! c \<noteq> (Some t, False)"
  using q_invD(5) [OF assms(1,4)] assms(2,3) by (auto simp: cpu_ok_def unlisted_def)

lemma own_cpu:
  assumes "q_inv X M K P C h W Q" "c < length C" "fst (C ! c) = Some t" "P t = Some (st, d, p)"
  shows "d = Some c"
  using q_invD(5) [OF assms(1,2)] assms(3,4) by (auto simp: cpu_ok_def)

text \<open>The running thread of a processor is queued and the processor becomes idle.\<close>

lemma q_inv_leave:
  assumes "q_inv {} M K P C h W Q" "c < length C" "C ! c = (Some t, False)" "P t = Some (st, Some c, p)"
    and "Q l = Some ts" "tl_rep h' (dom P) (Q(l \<mapsto> ts @ [t]))" "list_ok (P(t \<mapsto> (ns, Some c, p))) (length C) l t"
  shows "q_inv {} M K (P(t \<mapsto> (ns, Some c, p))) (C[c := (Some t, True)]) h' W (Q(l \<mapsto> ts @ [t]))"
proof (rule q_inv_change [OF assms(1), where t = t])
  have un: "unlisted t Q" using q_invD(5) [OF assms(1,2)] assms(3) by (auto simp: cpu_ok_def)
  have "dom (P(t \<mapsto> (ns, Some c, p))) = dom P" using assms(4) by auto
  then show "tl_rep h' (dom (P(t \<mapsto> (ns, Some c, p)))) (Q(l \<mapsto> ts @ [t]))" using assms(6) by simp
  show "list_ok (P(t \<mapsto> (ns, Some c, p))) (length C) m t" if "(Q(l \<mapsto> ts @ [t])) m = Some us" "t \<in> set us" for m us
    using that un assms(7) by (cases "m = l") (auto simp: unlisted_def)
  show "\<exists>c'<length C. (C[c := (Some t, True)]) ! c' = (Some t, False)" if "unlisted t (Q(l \<mapsto> ts @ [t]))"
    using that by (simp add: unlisted_upd)
  show "(C[c := (Some t, True)]) ! d = (Some x, False)" if "d < length C" "C ! d = (Some x, False)" "x \<noteq> t" for d x
    using that assms(3) by (cases "d = c") auto
  show "cpu_ok (P(t \<mapsto> (ns, Some c, p))) (C[c := (Some t, True)]) (Q(l \<mapsto> ts @ [t])) d"
    if "d < length C" "(C[c := (Some t, True)]) ! d \<noteq> C ! d \<or> fst (C ! d) = Some t" for d
  proof -
    have "d = c" using that own_cpu [OF assms(1) that(1) _ assms(4)] by (cases "d = c") auto
    with assms(2) show ?thesis by (simp add: cpu_ok_def)
  qed
qed (use assms(5) in \<open>auto split: if_splits\<close>)

text \<open>An idle processor takes the first thread of its run queue.\<close>

lemma q_inv_arrive:
  assumes "q_inv {} M K P C h W Q" "c < length C" "snd (C ! c)" "Q (Runqueue c) = Some (u # us)"
    and "tl_rep h' (dom P) (Q(Runqueue c \<mapsto> us))" "P u = Some (st, Some c, p)"
  shows "q_inv {} M K (P(u \<mapsto> (S_RUN, Some c, p))) (C[c := (Some u, False)]) h' W (Q(Runqueue c \<mapsto> us))"
proof (rule q_inv_change [OF assms(1), where t = u])
  have "u \<notin> set us" using tl_repD(3) [OF q_invD(1) [OF assms(1)] assms(4)] by simp
  then have un: "unlisted u (Q(Runqueue c \<mapsto> us))"
    using tq.taken_unlisted [OF q_invD(1) [OF assms(1)] assms(4), of u us] by simp
  have "dom (P(u \<mapsto> (S_RUN, Some c, p))) = dom P" using assms(6) by auto
  then show "tl_rep h' (dom (P(u \<mapsto> (S_RUN, Some c, p)))) (Q(Runqueue c \<mapsto> us))" using assms(5) by simp
  show "list_ok (P(u \<mapsto> (S_RUN, Some c, p))) (length C) m u" if "(Q(Runqueue c \<mapsto> us)) m = Some ts" "u \<in> set ts" for m ts
    using that un by (metis unlisted_def)
  show "\<exists>c'<length C. (C[c := (Some u, False)]) ! c' = (Some u, False)" using assms(2) by (intro exI [of _ c]) simp
  show "(C[c := (Some u, False)]) ! d = (Some x, False)" if "d < length C" "C ! d = (Some x, False)" "x \<noteq> u" for d x
    using that assms(3) by (cases "d = c") auto
  show "cpu_ok (P(u \<mapsto> (S_RUN, Some c, p))) (C[c := (Some u, False)]) (Q(Runqueue c \<mapsto> us)) d"
    if "d < length C" "(C[c := (Some u, False)]) ! d \<noteq> C ! d \<or> fst (C ! d) = Some u" for d
  proof -
    have "d = c" using that own_cpu [OF assms(1) that(1) _ assms(6)] by (cases "d = c") auto
    with assms(2) un show ?thesis by (simp add: cpu_ok_def)
  qed
qed (use assms(4) in \<open>auto split: if_splits\<close>)

text \<open>A thread goes from one list to another.\<close>

lemma q_inv_move:
  assumes "q_inv {} M K P C h W Q" "Q l = Some ts" "set ts = insert t (set ts')" "t \<notin> set ts'" "l \<noteq> m"
    and "Q m = Some us" "set us' = insert t (set us)" "tl_rep h' (dom P) (Q(l \<mapsto> ts', m \<mapsto> us'))"
    and "P t = Some (st, Some d, p)" "list_ok (P(t \<mapsto> (st', Some d', p))) (length C) m t"
    and "d' = d \<or> (\<forall>c<length C. fst (C ! c) \<noteq> Some t)"
  shows "q_inv {} M K (P(t \<mapsto> (st', Some d', p))) C h' W (Q(l \<mapsto> ts', m \<mapsto> us'))"
proof (rule q_inv_change [OF assms(1), where t = t])
  have "t \<in> set ts" using assms(3) by simp
  have only: "k = l" if "Q k = Some vs" "t \<in> set vs" for k vs
    using tl_repD(5) [OF q_invD(1) [OF assms(1)] that(1) assms(2)] that(2) \<open>t \<in> set ts\<close> by blast
  have "dom (P(t \<mapsto> (st', Some d', p))) = dom P" using assms(9) by auto
  then show "tl_rep h' (dom (P(t \<mapsto> (st', Some d', p)))) (Q(l \<mapsto> ts', m \<mapsto> us'))" using assms(8) by simp
  show "list_ok (P(t \<mapsto> (st', Some d', p))) (length C) k t" if "(Q(l \<mapsto> ts', m \<mapsto> us')) k = Some vs" "t \<in> set vs" for k vs
  proof -
    have "k = m" using that only [of k vs] assms(4) by (auto split: if_splits)
    with assms(10) show ?thesis by simp
  qed
  show "\<exists>c<length C. C ! c = (Some t, False)" if "unlisted t (Q(l \<mapsto> ts', m \<mapsto> us'))"
    using that assms(7) by (simp add: unlisted_upd)
  show "cpu_ok (P(t \<mapsto> (st', Some d', p))) C (Q(l \<mapsto> ts', m \<mapsto> us')) c"
    if "c < length C" "C ! c \<noteq> C ! c \<or> fst (C ! c) = Some t" for c
  proof -
    have c: "fst (C ! c) = Some t" using that(2) by simp
    then have "d = c" "d' = d" using own_cpu [OF assms(1) that(1) c assms(9)] assms(11) that(1) by auto
    moreover have "snd (C ! c)" using listed_not_running [OF assms(1,2) \<open>t \<in> set ts\<close> that(1)] c by (cases "C ! c") auto
    ultimately show ?thesis using c by (auto simp: cpu_ok_def)
  qed
  show "set vs' - {t} = set vs - {t}" if "Q k = Some vs" "(Q(l \<mapsto> ts', m \<mapsto> us')) k = Some vs'" for k vs vs'
    using that assms(2-7) by (auto split: if_splits)
  show "(Q(l \<mapsto> ts', m \<mapsto> us')) k \<noteq> None \<longleftrightarrow> Q k \<noteq> None" for k using assms(2,6) by auto
qed auto

text \<open>The zombies of a processor are destroyed.\<close>

lemma q_inv_exorcise:
  assumes "q_inv {} M K P C h W Q" "c < length C" "Q (Zombies c) = Some zs" "\<And>t. C ! c = (Some t, False) \<Longrightarrow> t \<notin> set zs" "\<not> snd (C ! c)"
    and "tl_rep h' (dom P - set zs) (Q(Zombies c \<mapsto> []))"
  shows "q_inv {} M K (P |` (- set zs)) C h' W (Q(Zombies c \<mapsto> []))"
proof -
  note D = q_invD [OF assms(1)]
  have z: "P t = Some (S_ZOMBIE, Some c, None)" if "t \<in> set zs" for t using D(3) [OF assms(3) that] by simp
  have cur: "t \<notin> set zs" if "d < length C" "fst (C ! d) = Some t" for d t
  proof
    assume t: "t \<in> set zs"
    then have "d = c" using own_cpu [OF assms(1) that z [OF t]] by simp
    with assms(4,5) that(2) t show False by (cases "C ! c") auto
  qed
  have ul: "unlisted t (Q(Zombies c \<mapsto> [])) \<longleftrightarrow> unlisted t Q" if "t \<notin> set zs" for t
  proof
    assume u: "unlisted t (Q(Zombies c \<mapsto> []))"
    have "t \<notin> set ts" if "Q l = Some ts" for l ts
      using u that \<open>t \<notin> set zs\<close> assms(3) by (cases "l = Zombies c") (auto simp: unlisted_upd)
    then show "unlisted t Q" by (auto simp: unlisted_def)
  qed (auto simp: unlisted_def)
  show ?thesis
    unfolding q_inv_def
  proof (intro conjI allI ballI impI)
    have "dom (P |` (- set zs)) = dom P - set zs" by auto
    then show "tl_rep h' (dom (P |` (- set zs))) (Q(Zombies c \<mapsto> []))" using assms(6) by simp
    show "lists_ok M K (length C) W (Q(Zombies c \<mapsto> []))" by (rule lists_ok_cong [OF D(2)]) (use assms(3) in auto)
  next
    fix l ts t assume l: "(Q(Zombies c \<mapsto> [])) l = Some ts" "t \<in> set ts"
    then have q: "Q l = Some ts" "l \<noteq> Zombies c" by (auto split: if_splits)
    then have "t \<notin> set zs" using tl_repD(5) [OF D(1) q(1) assms(3) q(2)] l(2) by blast
    with D(3) [OF q(1) l(2)] show "list_ok (P |` (- set zs)) (length C) l t" by (cases l) auto
  next
    fix t assume "t \<in> dom (P |` (- set zs))" "unlisted t (Q(Zombies c \<mapsto> []))"
    then show "\<exists>d<length C. C ! d = (Some t, False)" using D(4) [of t] ul [of t] by auto
  next
    fix d assume d: "d < length C"
    from D(5) [OF d] cur [OF d] ul show "cpu_ok (P |` (- set zs)) C (Q(Zombies c \<mapsto> [])) d"
      unfolding cpu_ok_def by fastforce
  qed
qed

section \<open>Interrupt levels\<close>

definition held :: "sched \<Rightarrow> cpuid \<Rightarrow> splk set" where
  "held s c = {l. lk s l = Some c}"

definition guarded :: "thread \<Rightarrow> bool" where
  "guarded th \<longleftrightarrow> (\<forall>stk. t_stack th = Some stk \<longrightarrow> (\<forall>i<4. stk ! i = THREAD_STACK_MAGIC))"

text \<open>
  A thread that is not on a processor comes back at the high level and holding the run queue, so
  its level has been raised twice. Between operations only locks that are not those of the thread
  system itself are held.
\<close>

definition level_inv :: "sched \<Rightarrow> bool" where
  "level_inv s \<longleftrightarrow>
     (\<forall>c<length (cpus s). finite (held s c) \<and>
        (\<exists>t cs. spl_at c t cs (card (held s c)) s \<and> (c_isidle (cpus s ! c) \<longrightarrow> cs = 1))) \<and>
     (\<forall>t th. thr s t = Some th \<longrightarrow> (t_spl th = 0 \<or> t_spl th = 1) \<and> guarded th \<and>
        ((\<forall>c<length (cpus s). c_curthread (cpus s ! c) \<noteq> Some t) \<longrightarrow> t_curspl th = 1 \<and> t_iplhigh_count th = 2)) \<and>
     (\<forall>l. (\<forall>k. l \<noteq> OtherLock k) \<longrightarrow> lk s l = None)"

lemma level_invE:
  assumes "level_inv s" "c < length (cpus s)"
  obtains t cs where "spl_at c t cs (card (held s c)) s" "c_isidle (cpus s ! c) \<Longrightarrow> cs = 1" "finite (held s c)"
  using assms unfolding level_inv_def by blast

lemma level_invD:
  assumes "level_inv s"
  shows "thr s t = Some th \<Longrightarrow> t_spl th = 0 \<or> t_spl th = 1" "thr s t = Some th \<Longrightarrow> guarded th"
    "thr s t = Some th \<Longrightarrow> (\<And>c. c < length (cpus s) \<Longrightarrow> c_curthread (cpus s ! c) \<noteq> Some t) \<Longrightarrow> t_curspl th = 1 \<and> t_iplhigh_count th = 2"
    "lk s (RunqueueLock d) = None" "lk s (IpiLock d) = None" "lk s (PLock p) = None"
  using assms unfolding level_inv_def by blast+

lemma checkstack_guarded: "thr s t = Some th \<Longrightarrow> guarded th \<Longrightarrow> thread_checkstack t s = Some ()"
  by (simp add: thread_checkstack_def guarded_def split: option.split)

text \<open>Changes of a thread and of a processor that keep the level.\<close>

lemma level_inv_cong:
  assumes "level_inv s" "lk s' = lk s" "length (cpus s') = length (cpus s)"
    and "\<And>c. c < length (cpus s) \<Longrightarrow> c_curthread (cpus s' ! c) = c_curthread (cpus s ! c) \<and> c_spinlocks (cpus s' ! c) = c_spinlocks (cpus s ! c) \<and>
      c_irq (cpus s' ! c) = c_irq (cpus s ! c) \<and> c_isidle (cpus s' ! c) = c_isidle (cpus s ! c)"
    and "\<And>t. rel_option (\<lambda>x y. t_curspl x = t_curspl y \<and> t_iplhigh_count x = t_iplhigh_count y \<and> t_spl x = t_spl y \<and> t_stack x = t_stack y) (thr s' t) (thr s t)"
  shows "level_inv s'"
proof -
  have th: "\<exists>x. thr s t = Some x \<and> t_curspl x = t_curspl y \<and> t_iplhigh_count x = t_iplhigh_count y \<and> t_spl x = t_spl y \<and> t_stack x = t_stack y"
    if "thr s' t = Some y" for t y using assms(5) [of t] that by (cases "thr s t") auto
  have th': "\<exists>y. thr s' t = Some y \<and> t_curspl x = t_curspl y \<and> t_iplhigh_count x = t_iplhigh_count y"
    if "thr s t = Some x" for t x using assms(5) [of t] that by (cases "thr s' t") auto
  have sp: "spl_at c t cs n s'" if "spl_at c t cs n s" for c t cs n
    using that assms(3,4) th' unfolding spl_at_def by fastforce
  have he: "held s' = held s" using assms(2) by (simp add: held_def fun_eq_iff)
  show ?thesis
    unfolding level_inv_def
  proof (intro conjI allI impI)
    fix c assume "c < length (cpus s')"
    then have c: "c < length (cpus s)" using assms(3) by simp
    then obtain t cs where "spl_at c t cs (card (held s c)) s" "c_isidle (cpus s ! c) \<longrightarrow> cs = 1" "finite (held s c)"
      using level_invE [OF assms(1)] by metis
    then show "finite (held s' c)" "\<exists>t cs. spl_at c t cs (card (held s' c)) s' \<and> (c_isidle (cpus s' ! c) \<longrightarrow> cs = 1)"
      using he assms(4) [OF c] by (auto dest!: sp)
  next
    fix t y assume "thr s' t = Some y"
    from th [OF this] obtain x where x: "thr s t = Some x" "t_curspl x = t_curspl y" "t_iplhigh_count x = t_iplhigh_count y"
      "t_spl x = t_spl y" "t_stack x = t_stack y" by blast
    show "t_spl y = 0 \<or> t_spl y = 1" "guarded y" using level_invD(1,2) [OF assms(1) x(1)] x by (simp_all add: guarded_def)
    assume "\<forall>c<length (cpus s'). c_curthread (cpus s' ! c) \<noteq> Some t"
    then show "t_curspl y = 1" "t_iplhigh_count y = 2" using level_invD(3) [OF assms(1) x(1)] x assms(3,4) by simp_all
  next
    fix l assume "\<forall>k. l \<noteq> OtherLock k"
    then show "lk s' l = None" using assms(1,2) by (simp add: level_inv_def)
  qed
qed

section \<open>The invariant\<close>

definition sched_inv :: "cpuid set \<Rightarrow> cpuid set \<Rightarrow> sched \<Rightarrow> tqueues \<Rightarrow> bool" where
  "sched_inv M K s Q \<longleftrightarrow> level_inv s \<and> q_inv {} M K (pt s) (ci s) (nodes s) (wch s) Q"

lemma dom_pt [simp]: "dom (pt s) = dom (thr s)"
  by (auto simp: pt_def dom_def)

lemma length_ci [simp]: "length (ci s) = length (cpus s)"
  by (simp add: ci_def)

lemma ci_nth [simp]: "c < length (cpus s) \<Longrightarrow> ci s ! c = (c_curthread (cpus s ! c), c_isidle (cpus s ! c))"
  by (simp add: ci_def)

lemma pt_upd:
  "pt (upd_thr t f s) = (pt s)(t := map_option (\<lambda>th. (t_state (f th), t_cpu (f th), t_proc (f th))) (thr s t))"
  "pt (upd_cpu c g s) = pt s" "pt (s\<lparr>nodes := h\<rparr>) = pt s" "pt (s\<lparr>lk := L\<rparr>) = pt s"
  by (auto simp: pt_def fun_eq_iff option.map_comp comp_def)

lemma ci_upd:
  "ci (upd_thr t f s) = ci s" "ci (s\<lparr>nodes := h\<rparr>) = ci s" "ci (s\<lparr>lk := L\<rparr>) = ci s"
  "ci (upd_cpu c g s) = (ci s)[c := (c_curthread (g (cpus s ! c)), c_isidle (g (cpus s ! c)))]"
  by (simp_all add: ci_def map_update)

lemma nth_upd: "c < length xs \<Longrightarrow> xs[d := x] ! c = (if d = c then x else xs ! c)"
  by (cases "d = c") simp_all

lemma ci_same:
  assumes "\<And>p. c_curthread (g p) = c_curthread p" "\<And>p. c_isidle (g p) = c_isidle p"
  shows "ci (upd_cpu c g s) = ci s"
  by (rule nth_equalityI) (simp_all add: ci_upd nth_upd assms)

lemma pt_put [simp]: "pt (spl_put c t k m s) = pt s" "ci (spl_put c t k m s) = ci s"
proof -
  show "pt (spl_put c t k m s) = pt s"
    unfolding spl_put_eq pt_upd by (cases "thr s t") (auto simp: pt_def spl_thr_def fun_eq_iff)
  show "ci (spl_put c t k m s) = ci s"
    unfolding spl_put_eq ci_upd(1) by (rule ci_same) (simp_all add: spl_cpu_def)
qed

lemma pt_Some: "pt s t = Some (st, d, p) \<longleftrightarrow> (\<exists>th. thr s t = Some th \<and> t_state th = st \<and> t_cpu th = d \<and> t_proc th = p)"
  by (auto simp: pt_def)

lemma ci_pending: "ci (upd_cpu d (\<lambda>p. p\<lparr>c_ipi_pending := b\<rparr>) s) = ci s"
  by (rule ci_same) simp_all

lemma level_inv_nodes: "level_inv s \<Longrightarrow> level_inv (s\<lparr>nodes := h\<rparr>)"
  by (simp add: level_inv_def held_def)

lemma level_inv_wake:
  assumes "level_inv s"
  shows "level_inv (upd_cpu d (\<lambda>p. p\<lparr>c_ipi_pending := b\<rparr>) ((upd_thr t (\<lambda>th. th\<lparr>t_state := x\<rparr>) s)\<lparr>nodes := h\<rparr>))"
  by (rule level_inv_cong [OF assms]) (auto simp: nth_upd option.rel_map intro: rel_option_reflI)

text \<open>Which threads are in an interrupt handler.\<close>

definition intr :: "sched \<Rightarrow> tid \<Rightarrow> bool option" where
  "intr s t = map_option t_in_interrupt (thr s t)"

text \<open>A sleeping thread is taken off a list and made runnable.\<close>

lemma wake_one:
  assumes "sched_inv M K s Q" "c < length (cpus s)" "Q l = Some (t # ts)" "\<exists>d p. d < length (cpus s) \<and> pt s t = Some (S_SLEEP, Some d, p)" "\<And>d. l \<noteq> Runqueue d"
  obtains h s' d rq where "threadlist_remhead l (nodes s) = Some (Some t, h)" "thread_make_runnable c t False (s\<lparr>nodes := h\<rparr>) = Some s'"
    "d < length (cpus s)" "Q (Runqueue d) = Some rq" "sched_inv M K s' (Q(l \<mapsto> ts, Runqueue d \<mapsto> rq @ [t]))"
    "pt s' = (pt s)(t := map_option (\<lambda>(st, d, p). (S_READY, d, p)) (pt s t))" "ci s' = ci s" "map_option t_cpu (thr s t) = Some (Some d)" "lk s' = lk s" "wch s' = wch s" "intr s' = intr s"
proof -
  have lv: "level_inv s" and q: "q_inv {} M K (pt s) (ci s) (nodes s) (wch s) Q" using assms(1) by (simp_all add: sched_inv_def)
  note D = q_invD [OF q]
  obtain d p where dp: "d < length (cpus s)" "pt s t = Some (S_SLEEP, Some d, p)" using assms(4) by blast
  obtain th where th: "thr s t = Some th" "t_state th = S_SLEEP" "t_cpu th = Some d" "t_proc th = p" using dp(2) by (auto simp: pt_Some)
  obtain rq where rq: "Q (Runqueue d) = Some rq" using lists_okD(1) [OF D(2), of d] dp(1) by auto
  obtain h where h: "threadlist_remhead l (nodes s) = Some (Some t, h)" "tl_rep h (dom (thr s)) (Q(l \<mapsto> ts))"
    using threadlist_remove_spec(2) [OF D(1) assms(3) refl] by auto
  have tn: "t \<notin> set ts" using tl_repD(3) [OF D(1) assms(3)] by simp
  have ul: "unlisted t (Q(l \<mapsto> ts))" "t \<in> dom (thr s)" using tq.taken_unlisted [OF D(1) assms(3), of t ts] tn by auto
  obtain cur cs where sp: "spl_at c cur cs (card (held s c)) s" by (rule level_invE [OF lv assms(2)]) blast
  let ?s1 = "s\<lparr>nodes := h\<rparr>"
  have sp1: "spl_at c cur cs (card (held s c)) ?s1" using sp by simp
  have rq1: "(Q(l \<mapsto> ts)) (Runqueue d) = Some rq" using rq assms(5) by (auto simp: eq_commute)
  obtain h' b where mr: "thread_make_runnable c t False ?s1 =
      Some (upd_cpu d (\<lambda>p. p\<lparr>c_ipi_pending := b\<rparr>) ((upd_thr t (\<lambda>th. th\<lparr>t_state := S_READY\<rparr>) ?s1)\<lparr>nodes := h'\<rparr>))"
    and h': "tl_rep h' (dom (thr s)) (Q(l \<mapsto> ts, Runqueue d \<mapsto> rq @ [t]))"
    by (rule make_runnable_eq [OF sp1, of t th d "dom (thr s)" "Q(l \<mapsto> ts)" rq]) (use th dp(1) h(2) rq1 ul level_invD(4,5) [OF lv] in simp_all)
  let ?s2 = "upd_cpu d (\<lambda>p. p\<lparr>c_ipi_pending := b\<rparr>) ((upd_thr t (\<lambda>th. th\<lparr>t_state := S_READY\<rparr>) ?s1)\<lparr>nodes := h'\<rparr>)"
  have pt2: "pt ?s2 = (pt s)(t \<mapsto> (S_READY, Some d, p))" and ci2: "ci ?s2 = ci s"
    unfolding ci_pending pt_upd using th by (simp_all add: ci_upd)
  have "q_inv {} M K ((pt s)(t \<mapsto> (S_READY, Some d, p))) (ci s) h' (wch s) (Q(l \<mapsto> ts, Runqueue d \<mapsto> rq @ [t]))"
    by (rule q_inv_move [OF q assms(3)]) (use tn assms(5) rq h' dp in auto)
  then have "sched_inv M K ?s2 (Q(l \<mapsto> ts, Runqueue d \<mapsto> rq @ [t]))"
    unfolding sched_inv_def pt2 ci2 using level_inv_wake [OF level_inv_nodes [OF lv]] by simp
  moreover have "intr ?s2 = intr s" by (auto simp: intr_def fun_eq_iff th)
  ultimately show thesis using that [OF h(1) mr dp(1) rq] pt2 ci2 dp(2) th by simp
qed

section \<open>Switching\<close>

text \<open>An idle processor that has locked its run queue.\<close>

definition locked :: "cpuid \<Rightarrow> tid \<Rightarrow> sched \<Rightarrow> sched" where
  "locked c t s = (spl_put c t 1 (Suc 0) s)\<lparr>lk := (lk s)(RunqueueLock c \<mapsto> c)\<rparr>"

definition taken :: "cpuid \<Rightarrow> tid \<Rightarrow> tid \<Rightarrow> tlist tlheap \<Rightarrow> sched \<Rightarrow> sched" where
  "taken c t u h s = upd_cpu c (\<lambda>p. p\<lparr>c_curthread := Some u, c_isidle := False\<rparr>) ((locked c t s)\<lparr>nodes := h\<rparr>)"

lemma arrived_fields:
  "lk (arrived c u k zs h s) = (lk s)(RunqueueLock c := None)" "nodes (arrived c u k zs h s) = h" "wch (arrived c u k zs h s) = wch s"
  "length (cpus (arrived c u k zs h s)) = length (cpus s)"
  "d < length (cpus s) \<Longrightarrow> cpus (arrived c u k zs h s) ! d = (if d = c then spl_cpu k 0 (cpus s ! d) else cpus s ! d)"
  "thr (arrived c u k zs h s) x = (if x \<in> set zs then None else if x = u
     then map_option (\<lambda>th. spl_thr k 0 (th\<lparr>t_wchan_name := None, t_state := S_RUN, t_context := None\<rparr>)) (thr s u) else thr s x)"
  by (auto simp: arrived_def Let_def restrict_map_def option.map_comp comp_def)

lemma taken_fields:
  "nodes (taken c t u h s) = h" "wch (taken c t u h s) = wch s" "length (cpus (taken c t u h s)) = length (cpus s)"
  "lk (taken c t u h s) = (lk s)(RunqueueLock c \<mapsto> c)"
  "thr (taken c t u h s) x = (if x = t then map_option (spl_thr 1 1) (thr s t) else thr s x)"
  "d < length (cpus s) \<Longrightarrow> cpus (taken c t u h s) ! d =
     (if d = c then (spl_cpu 1 1 (cpus s ! d))\<lparr>c_curthread := Some u, c_isidle := False\<rparr> else cpus s ! d)"
  by (auto simp: taken_def locked_def nth_upd)

lemma other_current:
  assumes "q_inv X M K (pt s) (ci s) h W Q" "d < length (cpus s)" "c_curthread (cpus s ! d) = Some t" "thr s t = Some th"
  shows "t_cpu th = Some d"
  using own_cpu [OF assms(1), of d t] assms(2-4) by (simp add: pt_def)

lemma taken_level:
  assumes "level_inv s" "q_inv X M K (pt s) (ci s) h0 W Q" "c < length (cpus s)" "spl_at c t 1 0 s" "thr s u = Some th" "t_cpu th = Some c"
  shows "spl_at c u 1 (Suc 0) (taken c t u h s)"
proof -
  have "t_curspl th = 1 \<and> t_iplhigh_count th = 2" if "u \<noteq> t"
    by (rule level_invD(3) [OF assms(1,5)])
      (use other_current [OF assms(2) _ _ assms(5)] assms(4,6) that in \<open>auto simp: spl_at_def\<close>)
  then show ?thesis
    unfolding spl_at_def using assms(3,4,5) by (cases "u = t") (auto simp: taken_fields spl_thr_def spl_cpu_def spl_at_def)
qed

lemma arrived_level:
  assumes "level_inv s" "q_inv X M K (pt s) (ci s) h0 W Q" "c < length (cpus s)" "spl_at c t 1 0 s" "held s c = {}"
    and "thr s u = Some th" "t_cpu th = Some c" "k = 0 \<or> k = 1" "\<And>d x. d < length (cpus s) \<Longrightarrow> d \<noteq> c \<Longrightarrow> c_curthread (cpus s ! d) = Some x \<Longrightarrow> x \<notin> set zs"
    and "u \<notin> set zs"
  shows "level_inv (arrived c u k zs h (taken c t u h1 s))" (is "level_inv ?s'")
proof -
  have L: "lk ?s' = lk s" using level_invD(4) [OF assms(1), of c] by (auto simp: arrived_fields taken_fields)
  have N: "length (cpus ?s') = length (cpus s)" by (simp add: arrived_fields taken_fields)
  have C: "cpus ?s' ! d = (if d = c then spl_cpu k 0 ((cpus s ! c)\<lparr>c_curthread := Some u, c_isidle := False\<rparr>) else cpus s ! d)"
    if "d < length (cpus s)" for d
    using that by (simp add: arrived_fields taken_fields) (simp add: spl_cpu_def)
  have T: "thr ?s' x = (if x \<in> set zs then None else if x = u then Some (spl_thr k 0 (th\<lparr>t_wchan_name := None, t_state := S_RUN, t_context := None\<rparr>))
      else if x = t then map_option (spl_thr 1 1) (thr s t) else thr s x)" for x
    using assms(6) by (auto simp: arrived_fields taken_fields) (auto simp: spl_thr_def)
  have he: "held ?s' = held s" using L by (simp add: held_def fun_eq_iff)
  have oth: "x \<noteq> u" if "d < length (cpus s)" "d \<noteq> c" "c_curthread (cpus s ! d) = Some x" for d x
    using other_current [OF assms(2) that(1,3)] assms(6,7) that(2) by auto
  have tcur: "c_curthread (cpus s ! c) = Some t" using assms(4) by (simp add: spl_at_def)
  have ott: "x \<noteq> t" if "d < length (cpus s)" "d \<noteq> c" "c_curthread (cpus s ! d) = Some x" for d x
    using assms(4) other_current [OF assms(2) that(1,3)] other_current [OF assms(2,3) tcur] that(2) by (auto simp: spl_at_def)
  show ?thesis
    unfolding level_inv_def N
  proof (intro conjI allI impI)
    fix d assume d: "d < length (cpus s)"
    show "finite (held ?s' d)" using he level_invE [OF assms(1) d] by metis
    show "\<exists>x cs. spl_at d x cs (card (held ?s' d)) ?s' \<and> (c_isidle (cpus ?s' ! d) \<longrightarrow> cs = 1)"
    proof (cases "d = c")
      case True
      have "spl_at c u k 0 ?s'" unfolding spl_at_def N
        using assms(3,8,10) C [OF assms(3)] T [of u] by (auto simp: spl_cpu_def spl_thr_def)
      then show ?thesis using True assms(3,5) he C [OF assms(3)] by (auto simp: spl_cpu_def)
    next
      case False
      obtain x cs where x: "spl_at d x cs (card (held s d)) s" "c_isidle (cpus s ! d) \<Longrightarrow> cs = 1" by (rule level_invE [OF assms(1) d]) blast
      have "c_curthread (cpus s ! d) = Some x" using x(1) by (simp add: spl_at_def)
      then have "thr ?s' x = thr s x" using T [of x] oth [OF d False] ott [OF d False] assms(9) [OF d False] by simp
      with x C [OF d] False d have "spl_at d x cs (card (held s d)) ?s'" by (simp add: spl_at_def N)
      with x(2) he C [OF d] False show ?thesis by auto
    qed
  next
    fix x y assume xy: "thr ?s' x = Some y"
    have "\<exists>z. thr s x = Some z \<and> t_spl z = t_spl y \<and> t_stack z = t_stack y"
      using xy T [of x] assms(6) by (auto simp: spl_thr_def split: if_splits)
    then obtain z where "thr s x = Some z" "t_spl z = t_spl y" "t_stack z = t_stack y" by blast
    then show "t_spl y = 0 \<or> t_spl y = 1" "guarded y"
      using level_invD(1,2) [OF assms(1), of x z] by (simp_all add: guarded_def)
    assume nc: "\<forall>d<length (cpus s). c_curthread (cpus ?s' ! d) \<noteq> Some x"
    then have xu: "x \<noteq> u" using C [OF assms(3)] assms(3) by (auto simp: spl_cpu_def)
    have "t_curspl y = 1 \<and> t_iplhigh_count y = 2"
    proof (cases "x = t")
      case True
      then show ?thesis using xy T [of x] xu by (cases "thr s t") (auto simp: spl_thr_def split: if_splits)
    next
      case False
      then have e: "thr s x = Some y" using xy T [of x] xu by (auto split: if_splits)
      show ?thesis
      proof (rule level_invD(3) [OF assms(1) e])
        fix d assume d: "d < length (cpus s)"
        show "c_curthread (cpus s ! d) \<noteq> Some x" using nc d C [OF d] False tcur by (cases "d = c") auto
      qed
    qed
    then show "t_curspl y = 1" "t_iplhigh_count y = 2" by simp_all
  next
    fix l assume "\<forall>k. l \<noteq> OtherLock k"
    then show "lk ?s' l = None" using L assms(1) by (simp add: level_inv_def)
  qed
qed

lemma pt_arrived:
  assumes "thr s u = Some th" "u \<notin> set zs"
  shows "pt (arrived c u k zs h (taken c t u h1 s)) = ((pt s)(u \<mapsto> (S_RUN, t_cpu th, t_proc th))) |` (- set zs)"
proof
  fix x show "pt (arrived c u k zs h (taken c t u h1 s)) x = (((pt s)(u \<mapsto> (S_RUN, t_cpu th, t_proc th))) |` (- set zs)) x"
    using assms by (cases "thr s t") (auto simp: pt_def arrived_fields taken_fields restrict_map_def spl_thr_def)
qed

lemma ci_arrived:
  assumes "c < length (cpus s)"
  shows "ci (arrived c u k zs h (taken c t u h1 s)) = (ci s)[c := (Some u, False)]"
  by (rule nth_equalityI) (use assms in \<open>auto simp: nth_upd ci_def arrived_fields taken_fields spl_cpu_def\<close>)

lemma switch_next_ok:
  assumes "sched_inv M K s Q" "c < length (cpus s)" "c_isidle (cpus s ! c)" "spl_at c t 1 0 s" "held s c = {}" "Q (Runqueue c) = Some rq"
  shows "rq = [] \<Longrightarrow> thread_switch_next c (locked c t s) = Some s"
    "rq = u # us \<Longrightarrow> \<exists>s'. thread_switch_next c (locked c t s) = Some s' \<and> sched_inv M K s' (Q(Runqueue c \<mapsto> us, Zombies c \<mapsto> [])) \<and>
       lk s' = lk s \<and> wch s' = wch s \<and> ci s' = (ci s)[c := (Some u, False)] \<and>
       (\<exists>st p. pt s u = Some (st, Some c, p) \<and> pt s' = ((pt s)(u \<mapsto> (S_RUN, Some c, p))) |` (- set (the (Q (Zombies c)))))"
proof -
  have lv: "level_inv s" and q: "q_inv {} M K (pt s) (ci s) (nodes s) (wch s) Q" using assms(1) by (simp_all add: sched_inv_def)
  note D = q_invD [OF q]
  have a1: "spl_at c t 1 (Suc 0) (locked c t s)" unfolding locked_def using spl_at_put [OF assms(4)] by simp
  have nd: "nodes (locked c t s) = nodes s" by (simp add: locked_def)
  show "thread_switch_next c (locked c t s) = Some s" if "rq = []"
  proof -
    have "(lk s)(RunqueueLock c := None) = lk s" using level_invD(4) [OF lv, of c] by auto
    then have "(spl_put c t 1 0 (locked c t s))\<lparr>lk := (lk (locked c t s))(RunqueueLock c := None)\<rparr> = s"
      using spl_put_same [OF assms(4)] assms(2) unfolding locked_def by (simp add: spl_put_upd)
    then have "spinlock_release c (RunqueueLock c) (locked c t s) = Some s"
      using spinlock_release_eq [OF a1, of "RunqueueLock c"] by (simp add: locked_def)
    moreover have "threadlist_remhead (Runqueue c) (nodes (locked c t s)) = Some (None, nodes s)"
      using threadlist_remove_spec(1) [OF D(1) assms(6)] that nd by simp
    moreover have "(locked c t s)\<lparr>nodes := nodes s\<rparr> = locked c t s" using nd by simp
    ultimately show ?thesis by (simp add: thread_switch_next_def thread_switch_pick_def)
  qed
  assume rq: "rq = u # us"
  obtain h1 where h1: "threadlist_remhead (Runqueue c) (nodes s) = Some (Some u, h1)" "tl_rep h1 (dom (thr s)) (Q(Runqueue c \<mapsto> us))"
    using threadlist_remove_spec(2) [OF D(1) assms(6) rq] by auto
  obtain p where up: "pt s u = Some (S_READY, Some c, p)" using D(3) [OF assms(6), of u] rq by auto
  then obtain th where th: "thr s u = Some th" "t_state th = S_READY" "t_cpu th = Some c" "t_proc th = p" by (auto simp: pt_Some)
  have pick: "thread_switch_pick c (locked c t s) = Some (True, taken c t u h1 s)"
    using h1(1) nd assms(2) by (simp add: thread_switch_pick_def on_cpu_upd taken_def locked_def rec_order)
  have q2: "q_inv {} M K ((pt s)(u \<mapsto> (S_RUN, Some c, p))) ((ci s)[c := (Some u, False)]) h1 (wch s) (Q(Runqueue c \<mapsto> us))"
    by (rule q_inv_arrive [OF q]) (use assms(2,3,6) rq h1(2) up in simp_all)
  obtain zs where zs: "Q (Zombies c) = Some zs" using lists_okD(2) [OF D(2), of c] assms(2) by auto
  then have zs2: "(Q(Runqueue c \<mapsto> us)) (Zombies c) = Some zs" by simp
  have z: "pt s x = Some (S_ZOMBIE, Some c, None)" if "x \<in> set zs" for x using D(3) [OF zs that] by simp
  have uz: "u \<notin> set zs" using z [of u] up by auto
  have other: "x \<notin> set zs" if "d < length (cpus s)" "d \<noteq> c" "c_curthread (cpus s ! d) = Some x" for d x
    using own_cpu [OF q, of d x] that z [of x] by auto
  have "thr (taken c t u h1 s) u = Some (if u = t then spl_thr 1 1 th else th)" using th(1) by (auto simp: taken_fields)
  then obtain th' where th': "thr (taken c t u h1 s) u = Some th'" "t_spl th' = t_spl th" "t_context th' = t_context th"
    by (auto simp: spl_thr_def split: if_splits)
  let ?k = "if t_context th' = None then t_spl th' else 0"
  have dom: "dom (thr (taken c t u h1 s)) = dom (thr s)" by (auto simp: taken_fields dom_def)
  have zt: "\<exists>y. thr (taken c t u h1 s) x = Some y \<and> t_state y = S_ZOMBIE \<and> t_proc y = None" if "x \<in> set zs" for x
    using z [OF that] by (auto simp: taken_fields pt_Some spl_thr_def)
  obtain h where h: "thread_switch_arrive c (taken c t u h1 s) = Some (arrived c u ?k zs h (taken c t u h1 s))"
    "tl_rep h (dom (thr s) - set zs) (Q(Runqueue c \<mapsto> us, Zombies c \<mapsto> []))"
    by (rule arrive_eq [OF taken_level [OF lv q assms(2,4) th(1,3)] _ th'(1), where Q = "Q(Runqueue c \<mapsto> us)" and zs = zs])
      (use th'(2,3) level_invD(1) [OF lv th(1)] h1(2) zs2 uz zt dom in \<open>auto simp: taken_fields\<close>)
  let ?s' = "arrived c u ?k zs h (taken c t u h1 s)"
  have lv': "level_inv ?s'"
    by (rule arrived_level [OF lv q assms(2,4,5) th(1,3)]) (use level_invD(1) [OF lv th(1)] th'(2) other uz in auto)
  have dm: "dom ((pt s)(u \<mapsto> (S_RUN, Some c, p))) = dom (thr s)" using th(1) by (simp add: insert_absorb domI)
  have "q_inv {} M K (((pt s)(u \<mapsto> (S_RUN, Some c, p))) |` (- set zs)) ((ci s)[c := (Some u, False)]) h (wch s) (Q(Runqueue c \<mapsto> us, Zombies c \<mapsto> []))"
    by (rule q_inv_exorcise [OF q2]) (use assms(2) zs2 uz h(2) dm in simp_all)
  then have "sched_inv M K ?s' (Q(Runqueue c \<mapsto> us, Zombies c \<mapsto> []))"
    unfolding sched_inv_def using lv' th pt_arrived [OF th(1) uz] ci_arrived [OF assms(2)] by (simp add: arrived_fields taken_fields)
  moreover have "lk ?s' = lk s" using level_invD(4) [OF lv, of c] by (auto simp: arrived_fields taken_fields)
  ultimately show "\<exists>s'. thread_switch_next c (locked c t s) = Some s' \<and> sched_inv M K s' (Q(Runqueue c \<mapsto> us, Zombies c \<mapsto> [])) \<and>
       lk s' = lk s \<and> wch s' = wch s \<and> ci s' = (ci s)[c := (Some u, False)] \<and>
       (\<exists>st p. pt s u = Some (st, Some c, p) \<and> pt s' = ((pt s)(u \<mapsto> (S_RUN, Some c, p))) |` (- set (the (Q (Zombies c)))))"
    using pick h(1) up zs th pt_arrived [OF th(1) uz] ci_arrived [OF assms(2)]
    by (intro exI [of _ ?s']) (simp add: thread_switch_next_def arrived_fields taken_fields)
qed

text \<open>The processor after its thread was queued, seen without the lock on the run queue.\<close>

definition idled :: "cpuid \<Rightarrow> tid \<Rightarrow> int \<Rightarrow> threadstate \<Rightarrow> string option \<Rightarrow> (splk \<Rightarrow> cpuid option) \<Rightarrow> tlist tlheap \<Rightarrow> sched \<Rightarrow> sched" where
  "idled c t cs st name L h s =
     (upd_cpu c (\<lambda>p. (spl_cpu 1 0 p)\<lparr>c_isidle := True\<rparr>)
       (upd_thr t (\<lambda>th. (spl_thr 1 0 th)\<lparr>t_wchan_name := name, t_state := st, t_spl := cs\<rparr>) s))
     \<lparr>lk := L, nodes := h\<rparr>"

lemma left_locked:
  assumes "c < length (cpus s)"
  shows "left c t cs st name L h s = locked c t (idled c t cs st name L h s)"
  using assms unfolding left_def idled_def locked_def spl_put_eq
  by (cases "thr s t") (simp_all add: upd_thr_def upd_cpu_def rec_order spl_thr_def spl_cpu_def)

lemma idled_fields:
  "lk (idled c t cs st name L h s) = L" "nodes (idled c t cs st name L h s) = h" "wch (idled c t cs st name L h s) = wch s"
  "length (cpus (idled c t cs st name L h s)) = length (cpus s)"
  "d < length (cpus s) \<Longrightarrow> cpus (idled c t cs st name L h s) ! d = (if d = c then (spl_cpu 1 0 (cpus s ! c))\<lparr>c_isidle := True\<rparr> else cpus s ! d)"
  "thr (idled c t cs st name L h s) x = (if x = t
     then map_option (\<lambda>th. (spl_thr 1 0 th)\<lparr>t_wchan_name := name, t_state := st, t_spl := cs\<rparr>) (thr s t) else thr s x)"
  by (auto simp: idled_def nth_upd)

lemma idled_level:
  assumes "level_inv s" "q_inv X M K (pt s) (ci s) h0 W Q" "spl_at c t cs n s"
    and "\<And>l. L l \<noteq> Some c" "\<And>l d. d \<noteq> c \<Longrightarrow> L l = Some d \<longleftrightarrow> lk s l = Some d" "\<And>l. lk s l = None \<Longrightarrow> L l = None"
  shows "level_inv (idled c t cs st name L h s)" (is "level_inv ?s'") "spl_at c t 1 0 (idled c t cs st name L h s)" "held (idled c t cs st name L h s) c = {}"
proof -
  obtain th where th: "c < length (cpus s)" "c_curthread (cpus s ! c) = Some t" "thr s t = Some th" "cs = 0 \<or> cs = 1"
    using assms(3) by (auto simp: spl_at_def)
  show s0: "spl_at c t 1 0 ?s'" using th by (simp add: spl_at_def idled_fields spl_cpu_def spl_thr_def)
  show h0: "held ?s' c = {}" using assms(4) by (simp add: held_def idled_fields)
  have he: "held ?s' d = held s d" if "d \<noteq> c" for d using assms(5) [OF that] by (simp add: held_def idled_fields)
  have oth: "x \<noteq> t" if "d < length (cpus s)" "d \<noteq> c" "c_curthread (cpus s ! d) = Some x" for d x
    using other_current [OF assms(2) that(1,3)] other_current [OF assms(2) th(1,2)] th(3) that(2) by auto
  show "level_inv ?s'"
    unfolding level_inv_def idled_fields(4)
  proof (intro conjI allI impI)
    fix d assume d: "d < length (cpus s)"
    obtain x cs' where x: "spl_at d x cs' (card (held s d)) s" "c_isidle (cpus s ! d) \<Longrightarrow> cs' = 1" "finite (held s d)" by (rule level_invE [OF assms(1) d]) blast
    show "finite (held ?s' d)" using he h0 x(3) by (cases "d = c") simp_all
    show "\<exists>x cs. spl_at d x cs (card (held ?s' d)) ?s' \<and> (c_isidle (cpus ?s' ! d) \<longrightarrow> cs = 1)"
    proof (cases "d = c")
      case True
      with s0 h0 show ?thesis by auto
    next
      case False
      have "c_curthread (cpus s ! d) = Some x" using x(1) by (simp add: spl_at_def)
      then have "spl_at d x cs' (card (held s d)) ?s'" using x(1) d False oth [OF d False] by (simp add: spl_at_def idled_fields)
      with x(2) d False he [OF False] show ?thesis by (auto simp: idled_fields)
    qed
  next
    fix x y assume xy: "thr ?s' x = Some y"
    then have "\<exists>z. thr s x = Some z \<and> (t_spl y = cs \<or> t_spl z = t_spl y) \<and> t_stack z = t_stack y"
      by (auto simp: idled_fields spl_thr_def split: if_splits)
    then obtain z where z: "thr s x = Some z" "t_spl y = cs \<or> t_spl z = t_spl y" "t_stack z = t_stack y" by blast
    then show "t_spl y = 0 \<or> t_spl y = 1" "guarded y"
      using level_invD(1,2) [OF assms(1) z(1)] th(4) by (auto simp: guarded_def)
    assume nc: "\<forall>d<length (cpus s). c_curthread (cpus ?s' ! d) \<noteq> Some x"
    have cur: "c_curthread (cpus ?s' ! d) = c_curthread (cpus s ! d)" if "d < length (cpus s)" for d
      using that by (simp add: idled_fields spl_cpu_def)
    have "x \<noteq> t" using nc th(1,2) cur by auto
    then have "thr s x = Some y" using xy by (simp add: idled_fields)
    then show "t_curspl y = 1" "t_iplhigh_count y = 2" using level_invD(3) [OF assms(1)] nc cur by auto
  next
    fix l assume "\<forall>k. l \<noteq> OtherLock k"
    then show "lk ?s' l = None" using assms(1,6) by (simp add: level_inv_def idled_fields)
  qed
qed

lemma pt_idled: "thr s t = Some th \<Longrightarrow> pt (idled c t cs st name L h s) = (pt s)(t \<mapsto> (st, t_cpu th, t_proc th))"
  by (auto simp: pt_def idled_fields fun_eq_iff spl_thr_def)

lemma ci_idled: "c < length (cpus s) \<Longrightarrow> ci (idled c t cs st name L h s) = (ci s)[c := (c_curthread (cpus s ! c), True)]"
  by (rule nth_equalityI) (auto simp: nth_upd ci_def idled_fields spl_cpu_def)

lemma idled_inv:
  assumes "sched_inv M K s Q" "c < length (cpus s)" "\<not> c_isidle (cpus s ! c)" "spl_at c t cs n s" "thr s t = Some th"
    and "\<And>l. L l \<noteq> Some c" "\<And>l d. d \<noteq> c \<Longrightarrow> L l = Some d \<longleftrightarrow> lk s l = Some d" "\<And>l. lk s l = None \<Longrightarrow> L l = None"
    and "Q m = Some ts" "tl_rep h (dom (thr s)) (Q(m \<mapsto> ts @ [t]))" "list_ok ((pt s)(t \<mapsto> (st, Some c, t_proc th))) (length (cpus s)) m t"
  shows "sched_inv M K (idled c t cs st name L h s) (Q(m \<mapsto> ts @ [t]))"
proof -
  have lv: "level_inv s" and q: "q_inv {} M K (pt s) (ci s) (nodes s) (wch s) Q" using assms(1) by (simp_all add: sched_inv_def)
  have cur: "c_curthread (cpus s ! c) = Some t" using assms(4) by (simp add: spl_at_def)
  have own: "t_cpu th = Some c" by (rule other_current [OF q assms(2) cur assms(5)])
  have "q_inv {} M K ((pt s)(t \<mapsto> (st, Some c, t_proc th))) ((ci s)[c := (Some t, True)]) h (wch s) (Q(m \<mapsto> ts @ [t]))"
    by (rule q_inv_leave [OF q]) (use assms(2,3,5,9-11) cur own in \<open>simp_all add: pt_Some\<close>)
  with idled_level(1) [OF lv q assms(4,6,7,8)] show ?thesis
    unfolding sched_inv_def using assms(2,5) cur own by (simp add: pt_idled ci_idled idled_fields)
qed

end
