(* ===== verification/Sched_Props.thy ===== *)
theory Sched_Props
  imports Sched_Inv
begin

text \<open>
  Every operation of the thread system runs through and keeps the invariant; so no sequence of
  operations by any processors loses a thread or runs it twice. What the wait channels, the
  scheduler and the migration of threads do to the queues is stated exactly.
\<close>

section \<open>Switching\<close>

lemma sched_invD:
  assumes "sched_inv M K s Q"
  shows "level_inv s" "q_inv {} M K (pt s) (ci s) (nodes s) (wch s) Q"
  using assms by (simp_all add: sched_inv_def)

lemma sched_queue:
  assumes "sched_inv M K s Q" "c < length (cpus s)"
  obtains rq where "Q (Runqueue c) = Some rq"
  using lists_okD(1) [OF q_invD(2) [OF sched_invD(2) [OF assms(1)]], of c] assms(2) by auto

lemma sched_cur:
  assumes "sched_inv M K s Q" "c < length (cpus s)"
  obtains t th cs where "spl_at c t cs (card (held s c)) s" "c_isidle (cpus s ! c) \<Longrightarrow> cs = 1" "finite (held s c)"
    "thr s t = Some th" "t_cpu th = Some c" "\<not> c_isidle (cpus s ! c) \<Longrightarrow> unlisted t Q" "thread_checkstack t s = Some ()" "t \<in> dom (thr s)"
proof -
  note lv = sched_invD(1) [OF assms(1)] and q = sched_invD(2) [OF assms(1)]
  obtain t cs where t: "spl_at c t cs (card (held s c)) s" "c_isidle (cpus s ! c) \<Longrightarrow> cs = 1" "finite (held s c)"
    by (rule level_invE [OF lv assms(2)]) blast
  then obtain th where th: "thr s t = Some th" "c_curthread (cpus s ! c) = Some t" by (auto simp: spl_at_def)
  have "\<not> c_isidle (cpus s ! c) \<Longrightarrow> unlisted t Q"
    using q_invD(5) [OF q, of c] assms(2) th(2) by (auto simp: cpu_ok_def)
  from that [OF t th(1) other_current [OF q assms(2) th(2,1)] this checkstack_guarded [OF th(1) level_invD(2) [OF lv th(1)]]] th(1)
  show thesis by blast
qed

text \<open>After a processor has become idle it looks for the next thread. The wait channels stay as they are.\<close>

definition same_chans :: "tqueues \<Rightarrow> tqueues \<Rightarrow> bool" where
  "same_chans Q Q' \<longleftrightarrow> (\<forall>w. Q' (WcThreads w) = Q (WcThreads w))"

lemma same_chans_simps [simp]:
  "same_chans Q Q" "same_chans Q (Q'(Runqueue c := x)) = same_chans Q Q'" "same_chans Q (Q'(Zombies c := x)) = same_chans Q Q'"
  "same_chans Q (Q'(Victims c := x)) = same_chans Q Q'" "same_chans Q (Q'(WakeList c := x)) = same_chans Q Q'"
  by (simp_all add: same_chans_def)

lemma idle_next_ok:
  assumes "sched_inv M K s Q" "c < length (cpus s)" "c_isidle (cpus s ! c)" "spl_at c t 1 0 s" "held s c = {}"
  shows "\<exists>s' Q'. thread_switch_next c (locked c t s) = Some s' \<and> sched_inv M K s' Q' \<and> same_chans Q Q' \<and> lk s' = lk s \<and> wch s' = wch s"
proof -
  obtain rq where rq: "Q (Runqueue c) = Some rq" by (rule sched_queue [OF assms(1,2)])
  show ?thesis
  proof (cases rq)
    case Nil
    with switch_next_ok(1) [OF assms rq] assms(1) show ?thesis by (intro exI [of _ s] exI [of _ Q]) simp
  next
    case (Cons u us)
    from switch_next_ok(2) [OF assms rq this] obtain s' where
      "thread_switch_next c (locked c t s) = Some s'" "sched_inv M K s' (Q(Runqueue c \<mapsto> us, Zombies c \<mapsto> []))" "lk s' = lk s" "wch s' = wch s" by blast
    moreover have "same_chans Q (Q(Runqueue c \<mapsto> us, Zombies c \<mapsto> []))" by simp
    ultimately show ?thesis by blast
  qed
qed

lemma unidle_ok:
  assumes "sched_inv M K s Q" "c < length (cpus s)" "c_isidle (cpus s ! c)" "held s c = {}"
  shows "\<exists>s' Q'. thread_switch_unidle c s = Some s' \<and> sched_inv M K s' Q' \<and> same_chans Q Q' \<and> lk s' = lk s \<and> wch s' = wch s"
proof -
  obtain t cs where t: "spl_at c t cs (card (held s c)) s" "c_isidle (cpus s ! c) \<Longrightarrow> cs = 1" by (rule sched_cur [OF assms(1,2)]) blast
  with assms(3,4) have sp: "spl_at c t 1 0 s" by simp
  have "thread_switch_unidle c s = thread_switch_next c (locked c t s)"
    using spinlock_acquire_eq [OF sp, of "RunqueueLock c"] level_invD(4) [OF sched_invD(1) [OF assms(1)], of c]
    by (simp add: thread_switch_unidle_def locked_def)
  with idle_next_ok [OF assms(1-3) sp assms(4)] show ?thesis by simp
qed

text \<open>Once the thread was queued, the switch runs through.\<close>

lemma switch_finish:
  assumes "sched_inv M K s Q" "c < length (cpus s)" "\<not> c_isidle (cpus s ! c)" "spl_at c t cs n s" "thr s t = Some th"
    and "\<And>l. L l \<noteq> Some c" "\<And>l d. d \<noteq> c \<Longrightarrow> L l = Some d \<longleftrightarrow> lk s l = Some d" "\<And>l. lk s l = None \<Longrightarrow> L l = None"
    and "Q m = Some ts" "tl_rep h (dom (thr s)) (Q(m \<mapsto> ts @ [t]))" "list_ok ((pt s)(t \<mapsto> (st, Some c, t_proc th))) (length (cpus s)) m t"
    and "thread_switch_leave c st wc s = Some (True, left c t cs st name L h s)"
  shows "\<exists>s' Q'. thread_switch c st wc s = Some s' \<and> sched_inv M K s' Q' \<and> same_chans (Q(m \<mapsto> ts @ [t])) Q' \<and> lk s' = L \<and> wch s' = wch s"
proof -
  let ?s0 = "idled c t cs st name L h s"
  have inv: "sched_inv M K ?s0 (Q(m \<mapsto> ts @ [t]))" by (rule idled_inv [OF assms(1-11)])
  note lev = idled_level [OF sched_invD [OF assms(1)] assms(4,6,7,8)]
  have "thread_switch c st wc s = thread_switch_next c (locked c t ?s0)"
    using assms(12) left_locked [OF assms(2)] by (simp add: thread_switch_def)
  with idle_next_ok [OF inv _ _ lev(2,3)] assms(2) show ?thesis by (simp add: idled_fields del: same_chans_simps)
qed

lemma level_set:
  assumes "sched_inv M K s Q" "spl_at c t cs (card (held s c)) s" "k = 0 \<or> k = 1" "c_isidle (cpus s ! c) \<Longrightarrow> k = 1"
    and L: "\<And>l. \<forall>k. l \<noteq> OtherLock k \<Longrightarrow> L l = None" "\<And>d. d \<noteq> c \<Longrightarrow> {l. L l = Some d} = held s d" "finite {l. L l = Some c}" "card {l. L l = Some c} = m"
  shows "sched_inv M K ((spl_put c t k m s)\<lparr>lk := L\<rparr>) Q" (is "sched_inv M K ?s' Q")
proof -
  note lv = sched_invD(1) [OF assms(1)] and q = sched_invD(2) [OF assms(1)]
  obtain th where th: "c < length (cpus s)" "c_curthread (cpus s ! c) = Some t" "thr s t = Some th" using assms(2) by (auto simp: spl_at_def)
  have he: "held ?s' d = (if d = c then {l. L l = Some c} else held s d)" for d using L(2) by (simp add: held_def)
  have "level_inv ?s'"
    unfolding level_inv_def
  proof (intro conjI allI impI)
    fix d assume "d < length (cpus ?s')"
    then have d: "d < length (cpus s)" by simp
    obtain x cs' where x: "spl_at d x cs' (card (held s d)) s" "c_isidle (cpus s ! d) \<Longrightarrow> cs' = 1" "finite (held s d)" by (rule level_invE [OF lv d]) blast
    show "finite (held ?s' d)" using he x(3) L(3) by simp
    show "\<exists>x cs. spl_at d x cs (card (held ?s' d)) ?s' \<and> (c_isidle (cpus ?s' ! d) \<longrightarrow> cs = 1)"
    proof (cases "d = c")
      case True
      with spl_at_put [OF assms(2,3), of m] assms(4) he d L(4) show ?thesis by (auto simp: spl_cpu_def)
    next
      case False
      have "c_curthread (cpus s ! d) = Some x" using x(1) by (simp add: spl_at_def)
      then have "x \<noteq> t" using other_current [OF q d _] other_current [OF q th] th(3) False by auto
      then have "spl_at d x cs' (card (held s d)) ?s'" using x(1) d False by (simp add: spl_at_def)
      with x(2) he d False show ?thesis by auto
    qed
  next
    fix x y assume xy: "thr ?s' x = Some y"
    have "\<exists>z. thr s x = Some z \<and> t_spl z = t_spl y \<and> t_stack z = t_stack y"
      using xy th(3) by (auto simp: spl_thr_def split: if_splits)
    then obtain z where z: "thr s x = Some z" "t_spl z = t_spl y" "t_stack z = t_stack y" by blast
    then show "t_spl y = 0 \<or> t_spl y = 1" "guarded y" using level_invD(1,2) [OF lv z(1)] by (simp_all add: guarded_def)
    assume "\<forall>d<length (cpus ?s'). c_curthread (cpus ?s' ! d) \<noteq> Some x"
    then have nc: "c_curthread (cpus s ! d) \<noteq> Some x" if "d < length (cpus s)" for d
      using that by (auto simp: spl_cpu_def split: if_splits)
    then have "x \<noteq> t" using th(1,2) by auto
    then show "t_curspl y = 1" "t_iplhigh_count y = 2" using level_invD(3) [OF lv, of x y] nc xy by simp_all
  next
    fix l assume "\<forall>k. l \<noteq> OtherLock k"
    then show "lk ?s' l = None" using L(1) by simp
  qed
  with q show ?thesis by (simp add: sched_inv_def pt_upd ci_upd)
qed

lemma level_put:
  assumes "sched_inv M K s Q" "spl_at c t cs (card (held s c)) s" "k = 0 \<or> k = 1" "c_isidle (cpus s ! c) \<Longrightarrow> k = 1"
  shows "sched_inv M K (spl_put c t k (card (held s c)) s) Q"
proof -
  note lv = sched_invD(1) [OF assms(1)]
  have c: "c < length (cpus s)" using assms(2) by (simp add: spl_at_def)
  obtain "finite (held s c)" by (rule level_invE [OF lv c]) blast
  then have "sched_inv M K ((spl_put c t k (card (held s c)) s)\<lparr>lk := lk s\<rparr>) Q"
    by (intro level_set [OF assms]) (use lv in \<open>simp_all add: held_def level_inv_def\<close>)
  moreover have "(spl_put c t k (card (held s c)) s)\<lparr>lk := lk s\<rparr> = spl_put c t k (card (held s c)) s" by (simp add: spl_put_def)
  ultimately show ?thesis by simp
qed

text \<open>Giving up the processor.\<close>

lemma spl_bracket:
  assumes "spl_at c t cs n s" "spl_free U"
  shows "splhigh c s = Some (cs, spl_put c t 1 n s)" "splx c cs (U (spl_put c t 1 n s)) = Some (1, U s)"
proof -
  have c: "c < length (cpus s)" "cs = 0 \<or> cs = 1" using assms(1) by (auto simp: spl_at_def)
  show "splhigh c s = Some (cs, spl_put c t 1 n s)" using splx_eq [OF assms(1)] by (simp add: splhigh_def IPL_HIGH_def)
  have e: "(spl_put c t 1 n s)\<lparr>lk := lk s\<rparr> = spl_put c t 1 n s" by (simp add: spl_put_def)
  have u: "U (spl_put c t 1 n s) = (spl_put c t 1 n (U s))\<lparr>lk := lk s\<rparr>" using spl_freeD(1) [OF assms(2) c(1), where t = t and k = 1 and m = n and x = "lk s"] e by simp
  have a: "spl_at c t 1 n (U (spl_put c t 1 n s))" by (rule spl_freeD(4) [OF assms(2)]) (use spl_at_put [OF assms(1)] in simp)
  have "spl_put c t cs n (U (spl_put c t 1 n s)) = U s"
    using spl_put_same [OF spl_freeD(4) [OF assms(2,1)]] spl_freeD(2,3) [OF assms(2) c(1)] unfolding u by (simp add: spl_put_upd)
  with splx_eq [OF a c(2)] show "splx c cs (U (spl_put c t 1 n s)) = Some (1, U s)" by simp
qed

lemma yield_ok:
  assumes "sched_inv M K s Q" "c < length (cpus s)" "held s c = {}"
  shows "\<exists>s' Q'. thread_yield c s = Some s' \<and> sched_inv M K s' Q' \<and> same_chans Q Q' \<and> lk s' = lk s \<and> wch s' = wch s"
proof -
  note lv = sched_invD(1) [OF assms(1)] and q = sched_invD(2) [OF assms(1)]
  obtain t th cs where t: "spl_at c t cs (card (held s c)) s" "thr s t = Some th" "t_cpu th = Some c"
    "\<not> c_isidle (cpus s ! c) \<Longrightarrow> unlisted t Q" "thread_checkstack t s = Some ()" "t \<in> dom (thr s)"
    by (rule sched_cur [OF assms(1,2)]) blast
  have sp: "spl_at c t cs 0 s" using t(1) assms(3) by simp
  note br = spl_bracket [OF sp spl_free_id]
  have cur: "curthread c (spl_put c t 1 0 s) = Some t" using spl_at_put [OF sp] by (auto elim: spl_atE)
  obtain rq where rq: "Q (Runqueue c) = Some rq" by (rule sched_queue [OF assms(1,2)])
  have rq0: "threadlist_isempty (Runqueue c) (nodes s) \<longleftrightarrow> rq = []" by (rule threadlist_cleanup_spec(1) [OF q_invD(1) [OF q] rq])
  show ?thesis
  proof (cases "c_isidle (cpus s ! c) \<or> rq = []")
    case True
    have "thread_switch c S_READY None s = Some s"
    proof (cases "c_isidle (cpus s ! c)")
      case True
      then show ?thesis using br cur assms(2) by (simp add: thread_switch_def thread_switch_leave_def spl_cpu_def)
    next
      case False
      have a1: "spl_at c t 1 0 (spl_put c t 1 0 s)" using spl_at_put [OF sp] by simp
      note lb = lock_bracket [OF a1 _ spl_free_id, of "RunqueueLock c"]
      show ?thesis
        using False True br cur assms(2) t(5) rq0 lb level_invD(4) [OF lv, of c]
        by (simp add: thread_switch_def thread_switch_leave_def spl_cpu_def)
    qed
    with assms(1) show ?thesis unfolding thread_yield_def by (intro exI [of _ s] exI [of _ Q]) simp
  next
    case False
    obtain h where h: "thread_switch_leave c S_READY None s = Some (True, left c t cs S_READY (t_wchan_name th) (lk s) h s)"
      "tl_rep h (dom (thr s)) (Q(Runqueue c \<mapsto> rq @ [t]))"
      by (rule leave_ready [OF sp _ t(5) level_invD(4) [OF lv] q_invD(1) [OF q] rq]) (use False t in auto)
    have "\<exists>s' Q'. thread_switch c S_READY None s = Some s' \<and> sched_inv M K s' Q' \<and> same_chans (Q(Runqueue c \<mapsto> rq @ [t])) Q' \<and> lk s' = lk s \<and> wch s' = wch s"
      by (rule switch_finish [OF assms(1,2) _ sp t(2) _ _ _ rq h(2) _ h(1)]) (use False assms(3) in \<open>auto simp: held_def\<close>)
    then show ?thesis by (simp add: thread_yield_def same_chans_def)
  qed
qed

lemma exit_ok:
  assumes "sched_inv M K s Q" "c < length (cpus s)" "held s c = {}" "\<not> c_isidle (cpus s ! c)"
    and "curthread c s = Some t" "thr s t = Some th" "t_proc th = None"
  shows "\<exists>s' Q'. thread_exit c s = Some s' \<and> sched_inv M K s' Q' \<and> same_chans Q Q' \<and> lk s' = lk s \<and> wch s' = wch s"
proof -
  obtain t' cs where t': "spl_at c t' cs (card (held s c)) s" "\<not> c_isidle (cpus s ! c) \<Longrightarrow> unlisted t' Q" "thread_checkstack t' s = Some ()"
    by (rule sched_cur [OF assms(1,2)]) blast
  then have "t' = t" using assms(5) by (auto elim: spl_atE)
  with t' assms(3,4) have t: "spl_at c t cs 0 s" "unlisted t Q" "thread_checkstack t s = Some ()" by simp_all
  let ?s = "spl_put c t 1 0 s"
  have inv: "sched_inv M K ?s Q" using level_put [OF assms(1), of c t cs 1] t(1) assms(3) by simp
  note lv = sched_invD(1) [OF inv] and q = sched_invD(2) [OF inv]
  have sp: "spl_at c t 1 0 ?s" using spl_at_put [OF t(1)] by simp
  have c: "c < length (cpus ?s)" "\<not> c_isidle (cpus ?s ! c)" using assms(2,4) by (simp_all add: spl_cpu_def)
  have th: "thr ?s t = Some (spl_thr 1 0 th)" using assms(6) by simp
  have own: "t_cpu th = Some c" using other_current [OF sched_invD(2) [OF assms(1)] assms(2) _ assms(6)] assms(2,5) by (simp add: curthread_def)
  obtain zs where zs: "Q (Zombies c) = Some zs" using lists_okD(2) [OF q_invD(2) [OF q], of c] c(1) by auto
  have st: "thread_checkstack t ?s = Some ()" using t(3) by simp
  obtain h where h: "thread_switch_leave c S_ZOMBIE None ?s = Some (True, left c t 1 S_ZOMBIE (Some ''ZOMBIE'') (lk ?s) h ?s)"
    "tl_rep h (dom (thr ?s)) (Q(Zombies c \<mapsto> zs @ [t]))"
    by (rule leave_zombie [OF sp c(2) st level_invD(4) [OF lv] q_invD(1) [OF q, unfolded dom_pt] zs]) (use th t(2) in auto)
  have "\<exists>s' Q'. thread_switch c S_ZOMBIE None ?s = Some s' \<and> sched_inv M K s' Q' \<and> same_chans (Q(Zombies c \<mapsto> zs @ [t])) Q' \<and> lk s' = lk ?s \<and> wch s' = wch ?s"
    by (rule switch_finish [OF inv c sp th _ _ _ zs h(2) _ h(1)]) (use assms(3,7) in \<open>auto simp: held_def spl_thr_def\<close>)
  moreover have "splhigh c s = Some (cs, ?s)" by (rule spl_bracket(1) [OF t(1) spl_free_id])
  ultimately show ?thesis using assms(5-7) t(3) by (simp add: thread_exit_def same_chans_def)
qed

lemma sleep_ok:
  assumes "sched_inv M K s Q" "c < length (cpus s)" "\<not> c_isidle (cpus s ! c)" "held s c = {l}" "wch s w = Some name"
    and "curthread c s = Some t" "thr s t = Some th" "\<not> t_in_interrupt th" "Q (WcThreads w) = Some ts"
  shows "\<exists>s' Q'. wchan_sleep c w l s = Some s' \<and> sched_inv M K s' Q' \<and> same_chans (Q(WcThreads w \<mapsto> ts @ [t])) Q' \<and> lk s' = (lk s)(l := None) \<and> wch s' = wch s"
proof -
  note lv = sched_invD(1) [OF assms(1)] and q = sched_invD(2) [OF assms(1)]
  obtain t' cs where t': "spl_at c t' cs (card (held s c)) s" "\<not> c_isidle (cpus s ! c) \<Longrightarrow> unlisted t' Q" "thread_checkstack t' s = Some ()"
    by (rule sched_cur [OF assms(1,2)]) blast
  then have "t' = t" using assms(6) by (auto elim: spl_atE)
  with t' assms(3,4) have t: "spl_at c t cs (Suc 0) s" "unlisted t Q" "thread_checkstack t s = Some ()" by simp_all
  note ts = assms(9)
  have lk: "lk s l = Some c" using assms(4) by (auto simp: held_def)
  obtain h where h: "thread_switch_leave c S_SLEEP (Some (w, l)) s = Some (True, left c t cs S_SLEEP (Some name) ((lk s)(l := None)) h s)"
    "tl_rep h (dom (thr s)) (Q(WcThreads w \<mapsto> ts @ [t]))"
    by (rule leave_sleep [OF t(1) assms(3) t(3) level_invD(4) [OF lv] q_invD(1) [OF q, unfolded dom_pt] ts _ t(2) assms(5) lk]) (use assms(7) in auto)
  have "\<exists>s' Q'. thread_switch c S_SLEEP (Some (w, l)) s = Some s' \<and> sched_inv M K s' Q' \<and> same_chans (Q(WcThreads w \<mapsto> ts @ [t])) Q' \<and>
      lk s' = (lk s)(l := None) \<and> wch s' = wch s"
    by (rule switch_finish [OF assms(1-3) t(1) assms(7) _ _ _ ts h(2) _ h(1)]) (use assms(2,4) lk in \<open>auto simp: held_def\<close>)
  then show ?thesis using assms(6,7,8) t(1) lk by (simp add: wchan_sleep_def spinlock_do_i_hold_def spl_at_def)
qed

section \<open>Wait channels\<close>

lemma wakeone_ok:
  assumes "sched_inv M K s Q" "c < length (cpus s)" "lk s l = Some c" "Q (WcThreads w) = Some ts"
  shows "ts = [] \<Longrightarrow> wchan_wakeone c w l s = Some s"
    "ts = t # us \<Longrightarrow> \<exists>s' d rq. wchan_wakeone c w l s = Some s' \<and> map_option t_cpu (thr s t) = Some (Some d) \<and> Q (Runqueue d) = Some rq \<and>
       sched_inv M K s' (Q(WcThreads w \<mapsto> us, Runqueue d \<mapsto> rq @ [t])) \<and> lk s' = lk s \<and> wch s' = wch s \<and> ci s' = ci s \<and> intr s' = intr s"
proof -
  note q = sched_invD(2) [OF assms(1)]
  show "wchan_wakeone c w l s = Some s" if "ts = []"
    using threadlist_remove_spec(1) [OF q_invD(1) [OF q] assms(4) that] assms(3) by (simp add: wchan_wakeone_def spinlock_do_i_hold_def)
  assume ts: "ts = t # us"
  then have "\<exists>d p. d < length (cpus s) \<and> pt s t = Some (S_SLEEP, Some d, p)" using q_invD(3) [OF q assms(4), of t] by auto
  from wake_one [OF assms(1,2) assms(4) [unfolded ts] this] obtain h s' d rq where
    "threadlist_remhead (WcThreads w) (nodes s) = Some (Some t, h)" "thread_make_runnable c t False (s\<lparr>nodes := h\<rparr>) = Some s'"
    "Q (Runqueue d) = Some rq" "sched_inv M K s' (Q(WcThreads w \<mapsto> us, Runqueue d \<mapsto> rq @ [t]))" "map_option t_cpu (thr s t) = Some (Some d)" "lk s' = lk s"
    "wch s' = wch s" "ci s' = ci s" "intr s' = intr s"
    by (metis tlist.distinct(3))
  with assms(3) show "\<exists>s' d rq. wchan_wakeone c w l s = Some s' \<and> map_option t_cpu (thr s t) = Some (Some d) \<and> Q (Runqueue d) = Some rq \<and>
       sched_inv M K s' (Q(WcThreads w \<mapsto> us, Runqueue d \<mapsto> rq @ [t])) \<and> lk s' = lk s \<and> wch s' = wch s \<and> ci s' = ci s \<and> intr s' = intr s"
    by (auto simp: wchan_wakeone_def spinlock_do_i_hold_def)
qed

text \<open>A list on the stack is initialised, and forgotten once it is empty.\<close>

lemma q_inv_new_list:
  assumes "q_inv {} M K P C h W Q" "Q l = None" "lists_ok M' K' (length C) W' (Q(l \<mapsto> []))"
  shows "q_inv {} M' K' P C (threadlist_init l h) W' (Q(l \<mapsto> []))"
proof -
  have ul: "unlisted t (Q(l \<mapsto> [])) \<longleftrightarrow> unlisted t Q" for t
  proof
    assume u: "unlisted t (Q(l \<mapsto> []))"
    have "t \<notin> set ts" if "Q m = Some ts" for m ts using u that assms(2) by (cases "m = l") (auto simp: unlisted_upd)
    then show "unlisted t Q" by (auto simp: unlisted_def)
  qed (auto simp: unlisted_def)
  then have "cpu_ok P C (Q(l \<mapsto> [])) c = cpu_ok P C Q c" for c by (simp add: cpu_ok_def)
  with assms ul threadlist_init_spec [OF q_invD(1) [OF assms(1)] assms(2)] show ?thesis
    unfolding q_inv_def by auto
qed

lemma q_inv_drop_list:
  assumes "q_inv {} M K P C h W Q" "Q l = Some []" "lists_ok M' K' (length C) W' (Q(l := None))"
  shows "q_inv {} M' K' P C h W' (Q(l := None))"
proof -
  have ul: "unlisted t (Q(l := None)) \<longleftrightarrow> unlisted t Q" for t
  proof
    assume u: "unlisted t (Q(l := None))"
    have "t \<notin> set ts" if "Q m = Some ts" for m ts using u [unfolded unlisted_def, rule_format, of m ts] that assms(2) by (cases "m = l") simp_all
    then show "unlisted t Q" by (auto simp: unlisted_def)
  qed (auto simp: unlisted_def)
  then have "cpu_ok P C (Q(l := None)) c = cpu_ok P C Q c" for c by (simp add: cpu_ok_def)
  with assms ul tl_rep_forget [OF q_invD(1) [OF assms(1)] assms(2)] show ?thesis
    unfolding q_inv_def by (auto split: if_splits)
qed

lemma sched_inv_nodes: "level_inv s \<Longrightarrow> q_inv {} M K (pt s) (ci s) h (wch s) Q \<Longrightarrow> sched_inv M K (s\<lparr>nodes := h\<rparr>) Q"
  using level_inv_nodes by (simp add: sched_inv_def pt_upd ci_upd)

lemma grab_ok:
  assumes "sched_inv M K s Q" "Q (WcThreads w) = Some ts" "Q (WakeList c) = Some ws"
  shows "\<exists>h. wakeall_grab c w s = Some (s\<lparr>nodes := h\<rparr>) \<and> sched_inv M K (s\<lparr>nodes := h\<rparr>) (Q(WcThreads w \<mapsto> [], WakeList c \<mapsto> ws @ ts))"
  using assms
proof (induction ts arbitrary: s Q ws)
  case Nil
  have e: "Q(WcThreads w \<mapsto> [], WakeList c \<mapsto> ws @ []) = Q" using Nil.prems(2,3) by (auto simp: fun_eq_iff)
  have "wakeall_grab c w s = Some (s\<lparr>nodes := nodes s\<rparr>)"
    using threadlist_remove_spec(1) [OF q_invD(1) [OF sched_invD(2) [OF Nil.prems(1)]] Nil.prems(2) refl] by (simp add: wakeall_grab.simps [of c w s])
  then show ?case unfolding e using Nil.prems(1) by (intro exI [of _ "nodes s"]) simp
next
  case (Cons t ts)
  note lv = sched_invD(1) [OF Cons.prems(1)] and q = sched_invD(2) [OF Cons.prems(1)]
  obtain h' h'' where h: "threadlist_remhead (WcThreads w) (nodes s) = Some (Some t, h')" "threadlist_addtail (WakeList c) t h' = Some h''"
    "tl_rep h'' (dom (thr s)) (Q(WcThreads w \<mapsto> ts, WakeList c \<mapsto> ws @ [t]))"
    using tq.move_head_tail [OF q_invD(1) [OF q] Cons.prems(2,3)] by auto
  obtain d p where dp: "d < length (cpus s)" "pt s t = Some (S_SLEEP, Some d, p)" using q_invD(3) [OF q Cons.prems(2), of t] by auto
  have tn: "t \<notin> set ts" using tl_repD(3) [OF q_invD(1) [OF q] Cons.prems(2)] by simp
  have same: "(pt s)(t \<mapsto> (S_SLEEP, Some d, p)) = pt s" using dp(2) by auto
  have "q_inv {} M K ((pt s)(t \<mapsto> (S_SLEEP, Some d, p))) (ci s) h'' (wch s) (Q(WcThreads w \<mapsto> ts, WakeList c \<mapsto> ws @ [t]))"
    by (rule q_inv_move [OF q Cons.prems(2)]) (use tn Cons.prems(3) h(3) dp in auto)
  then have inv: "sched_inv M K (s\<lparr>nodes := h''\<rparr>) (Q(WcThreads w \<mapsto> ts, WakeList c \<mapsto> ws @ [t]))"
    using sched_inv_nodes [OF lv] same by simp
  have e: "Q(WcThreads w \<mapsto> ts, WakeList c \<mapsto> ws @ [t], WcThreads w \<mapsto> [], WakeList c \<mapsto> (ws @ [t]) @ ts) = Q(WcThreads w \<mapsto> [], WakeList c \<mapsto> ws @ t # ts)"
    by (auto simp: fun_eq_iff)
  have q1: "(Q(WcThreads w \<mapsto> ts, WakeList c \<mapsto> ws @ [t])) (WcThreads w) = Some ts"
    "(Q(WcThreads w \<mapsto> ts, WakeList c \<mapsto> ws @ [t])) (WakeList c) = Some (ws @ [t])" by simp_all
  have g: "wakeall_grab c w s = wakeall_grab c w (s\<lparr>nodes := h''\<rparr>)" using h(1,2) by (simp add: wakeall_grab.simps [of c w s])
  have n: "s\<lparr>nodes := h'', nodes := x\<rparr> = s\<lparr>nodes := x\<rparr>" for x by simp
  show ?case unfolding g by (rule Cons.IH [OF inv q1, unfolded e n])
qed

text \<open>The processor a thread belongs to, and the run queues after all threads of a list are put on them.\<close>

definition cpu_of :: "placing \<Rightarrow> tid \<Rightarrow> cpuid" where
  "cpu_of P t = the (fst (snd (the (P t))))"

definition queue_all :: "placing \<Rightarrow> tid list \<Rightarrow> tqueues \<Rightarrow> tqueues" where
  "queue_all P ts Q l = (case l of Runqueue d \<Rightarrow> map_option (\<lambda>rq. rq @ filter (\<lambda>t. cpu_of P t = d) ts) (Q l) | _ \<Rightarrow> Q l)"

lemma queue_all_simps:
  "queue_all P [] Q = Q"
  "Q (Runqueue (cpu_of P t)) = Some rq \<Longrightarrow> queue_all P (t # ts) Q = queue_all P ts (Q(Runqueue (cpu_of P t) \<mapsto> rq @ [t]))"
  "(\<And>d. l \<noteq> Runqueue d) \<Longrightarrow> queue_all P ts Q l = Q l" "(\<And>d. l \<noteq> Runqueue d) \<Longrightarrow> queue_all P ts (Q(l := x)) = (queue_all P ts Q)(l := x)"
  by (auto simp: queue_all_def fun_eq_iff option.map_ident split: tlist.splits option.splits)

lemma run_ok:
  assumes "sched_inv M K s Q" "c < length (cpus s)" "Q (WakeList c) = Some ts"
  shows "\<exists>s'. wakeall_run c s = Some s' \<and> sched_inv M K s' (queue_all (pt s) ts (Q(WakeList c \<mapsto> []))) \<and> lk s' = lk s \<and> wch s' = wch s \<and> ci s' = ci s \<and> intr s' = intr s"
  using assms
proof (induction ts arbitrary: s Q)
  case Nil
  have e: "queue_all (pt s) [] (Q(WakeList c \<mapsto> [])) = Q" using Nil.prems(3) by (auto simp: queue_all_simps(1) fun_eq_iff)
  have "wakeall_run c s = Some s"
    using threadlist_remove_spec(1) [OF q_invD(1) [OF sched_invD(2) [OF Nil.prems(1)]] Nil.prems(3) refl] by (simp add: wakeall_run.simps [of c s])
  then show ?case unfolding e using Nil.prems(1) by simp
next
  case (Cons t ts)
  note q = sched_invD(2) [OF Cons.prems(1)]
  have sl: "\<exists>d p. d < length (cpus s) \<and> pt s t = Some (S_SLEEP, Some d, p)" using q_invD(3) [OF q Cons.prems(3), of t] by auto
  from wake_one [OF Cons.prems(1,2,3) sl] obtain h s' d rq where
    w: "threadlist_remhead (WakeList c) (nodes s) = Some (Some t, h)" "thread_make_runnable c t False (s\<lparr>nodes := h\<rparr>) = Some s'"
    "Q (Runqueue d) = Some rq" "sched_inv M K s' (Q(WakeList c \<mapsto> ts, Runqueue d \<mapsto> rq @ [t]))" "map_option t_cpu (thr s t) = Some (Some d)" "lk s' = lk s"
    "pt s' = (pt s)(t := map_option (\<lambda>(st, d, p). (S_READY, d, p)) (pt s t))" "ci s' = ci s" "wch s' = wch s" "intr s' = intr s"
    by (metis tlist.distinct(7))
  have n: "length (cpus s') = length (cpus s)" using arg_cong [OF w(8), of length] by simp
  have ct: "cpu_of (pt s) t = d" using w(5) by (auto simp: cpu_of_def pt_def)
  have cp: "cpu_of (pt s') = cpu_of (pt s)"
    unfolding w(7) using sl by (auto simp: cpu_of_def fun_eq_iff)
  have e: "queue_all (pt s') ts (Q(WakeList c \<mapsto> ts, Runqueue d \<mapsto> rq @ [t], WakeList c \<mapsto> [])) = queue_all (pt s) (t # ts) (Q(WakeList c \<mapsto> []))"
  proof -
    have "Q(WakeList c \<mapsto> ts, Runqueue d \<mapsto> rq @ [t], WakeList c \<mapsto> []) = Q(WakeList c \<mapsto> [], Runqueue d \<mapsto> rq @ [t])" by (auto simp: fun_eq_iff)
    moreover have "queue_all (pt s') ts R = queue_all (pt s) ts R" for R unfolding queue_all_def cp ..
    ultimately show ?thesis using queue_all_simps(2) [of "Q(WakeList c \<mapsto> [])" "pt s" t rq ts] ct w(3) by simp
  qed
  have g: "wakeall_run c s = wakeall_run c s'" using w(1,2) by (simp add: wakeall_run.simps [of c s])
  have c': "c < length (cpus s')" using n Cons.prems(2) by simp
  have "(Q(WakeList c \<mapsto> ts, Runqueue d \<mapsto> rq @ [t])) (WakeList c) = Some ts" by simp
  from Cons.IH [OF w(4) c' this, unfolded e w(6,8-10)] show ?case unfolding g .
qed

lemma lists_ok_wakelist: "lists_ok M K n W Q \<Longrightarrow> lists_ok M (insert c K) n W (Q(WakeList c \<mapsto> []))"
  "lists_ok M (insert c K) n W Q \<Longrightarrow> c \<notin> K \<Longrightarrow> lists_ok M K n W (Q(WakeList c := None))"
  by (auto simp: lists_ok_def)

lemma lists_ok_victims: "lists_ok M K n W Q \<Longrightarrow> lists_ok (insert c M) K n W (Q(Victims c \<mapsto> []))"
  "lists_ok (insert c M) K n W Q \<Longrightarrow> c \<notin> M \<Longrightarrow> lists_ok M K n W (Q(Victims c := None))"
  by (auto simp: lists_ok_def)

lemma wakeall_ok:
  assumes "sched_inv M K s Q" "c < length (cpus s)" "lk s l = Some c" "Q (WcThreads w) = Some ts" "c \<notin> K"
  shows "\<exists>s'. wchan_wakeall c w l s = Some s' \<and> sched_inv M K s' (queue_all (pt s) ts (Q(WcThreads w \<mapsto> []))) \<and> lk s' = lk s \<and> wch s' = wch s \<and> ci s' = ci s \<and> intr s' = intr s"
proof -
  note lv = sched_invD(1) [OF assms(1)] and q = sched_invD(2) [OF assms(1)]
  have none: "Q (WakeList c) = None" using lists_okD(5) [OF q_invD(2) [OF q], of c] assms(5) by simp
  let ?s1 = "s\<lparr>nodes := threadlist_init (WakeList c) (nodes s)\<rparr>" and ?Q1 = "Q(WakeList c \<mapsto> [])"
  have i1: "sched_inv M (insert c K) ?s1 ?Q1"
    by (intro sched_inv_nodes [OF lv] q_inv_new_list [OF q none] lists_ok_wakelist(1) q_invD(2) [OF q])
  have q1: "?Q1 (WcThreads w) = Some ts" "?Q1 (WakeList c) = Some []" using assms(4) by simp_all
  obtain h where h: "wakeall_grab c w ?s1 = Some (?s1\<lparr>nodes := h\<rparr>)"
    "sched_inv M (insert c K) (?s1\<lparr>nodes := h\<rparr>) (?Q1(WcThreads w \<mapsto> [], WakeList c \<mapsto> [] @ ts))"
    using grab_ok [OF i1 q1] by blast
  let ?s2 = "?s1\<lparr>nodes := h\<rparr>"
  let ?Q2 = "?Q1(WcThreads w \<mapsto> [], WakeList c \<mapsto> [] @ ts)"
  have "\<exists>s'. wakeall_run c ?s2 = Some s' \<and> sched_inv M (insert c K) s' (queue_all (pt ?s2) ts (?Q2(WakeList c \<mapsto> []))) \<and> lk s' = lk ?s2 \<and> wch s' = wch ?s2 \<and> ci s' = ci ?s2 \<and> intr s' = intr ?s2"
    by (rule run_ok [OF h(2)]) (use assms(2) in simp_all)
  then obtain s' where s': "wakeall_run c ?s2 = Some s'" "sched_inv M (insert c K) s' (queue_all (pt ?s2) ts (?Q2(WakeList c \<mapsto> [])))" "lk s' = lk s"
    "wch s' = wch s" "ci s' = ci s" "intr s' = intr s" by (auto simp: ci_upd intr_def fun_eq_iff)
  have e: "(queue_all (pt ?s2) ts (?Q2(WakeList c \<mapsto> [])))(WakeList c := None) = queue_all (pt s) ts (Q(WcThreads w \<mapsto> []))"
    using none by (auto simp: queue_all_def fun_eq_iff pt_upd split: tlist.splits)
  have wl: "queue_all (pt ?s2) ts (?Q2(WakeList c \<mapsto> [])) (WakeList c) = Some []" by (simp add: queue_all_def)
  note q' = sched_invD(2) [OF s'(2)]
  have "sched_inv M K s' ((queue_all (pt ?s2) ts (?Q2(WakeList c \<mapsto> [])))(WakeList c := None))"
    unfolding sched_inv_def
    by (intro conjI sched_invD(1) [OF s'(2)] q_inv_drop_list [OF q' wl] lists_ok_wakelist(2) [OF q_invD(2) [OF q'] assms(5)])
  then have "sched_inv M K s' (queue_all (pt s) ts (Q(WcThreads w \<mapsto> [])))" unfolding e .
  moreover have "threadlist_cleanup (WakeList c) (nodes s') = Some ()" using threadlist_cleanup_spec(2) [OF q_invD(1) [OF q'] wl] by simp
  ultimately show ?thesis using assms(3) h(1) s'(1,3-) by (simp add: wchan_wakeall_def spinlock_do_i_hold_def)
qed

section \<open>New threads\<close>

lemma spl_free_proc: "spl_free (upd_thr t (\<lambda>th. th\<lparr>t_proc := x\<rparr>))"
  by (rule spl_free_thr) (simp_all add: spl_thr_def rec_order)

lemma spl_free_numthreads: "spl_free (\<lambda>s. s\<lparr>p_numthreads := x\<rparr>)"
  by (simp add: spl_free_def spl_put_def rec_order)

lemma on_thr_put: "thr s t \<noteq> None \<Longrightarrow> on_thr t f (spl_put c cur k m s) = Some (upd_thr t f (spl_put c cur k m s))"
  by (auto simp: on_thr_upd)

lemma proc_addthread_eq:
  assumes "spl_at c cur cs n s" "thr s t = Some th" "t_proc th = None" "p_numthreads s p = Some m" "lk s (PLock p) = None"
  shows "proc_addthread c p t s = Some (upd_thr t (\<lambda>th. th\<lparr>t_proc := Some p\<rparr>) (s\<lparr>p_numthreads := (p_numthreads s)(p \<mapsto> m + 1)\<rparr>))"
proof -
  note lb = lock_bracket [OF assms(1,5) spl_free_numthreads [of "(p_numthreads s)(p \<mapsto> m + 1)"]]
  let ?s1 = "s\<lparr>p_numthreads := (p_numthreads s)(p \<mapsto> m + 1)\<rparr>"
  have a1: "spl_at c cur cs n ?s1" using assms(1) by simp
  have t1: "thr ?s1 t \<noteq> None" using assms(2) by simp
  show ?thesis
    using assms(2-4) lb spl_bracket [OF a1 spl_free_proc] on_thr_put [OF t1] by (simp add: proc_addthread_def)
qed

lemma proc_remthread_eq:
  assumes "spl_at c cur cs n s" "thr s t = Some th" "t_proc th = Some p" "p_numthreads s p = Some m" "0 < m" "lk s (PLock p) = None"
  shows "proc_remthread c t s = Some (upd_thr t (\<lambda>th. th\<lparr>t_proc := None\<rparr>) (s\<lparr>p_numthreads := (p_numthreads s)(p \<mapsto> m - 1)\<rparr>))"
proof -
  note lb = lock_bracket [OF assms(1,6) spl_free_numthreads [of "(p_numthreads s)(p \<mapsto> m - 1)"]]
  let ?s1 = "s\<lparr>p_numthreads := (p_numthreads s)(p \<mapsto> m - 1)\<rparr>"
  have a1: "spl_at c cur cs n ?s1" using assms(1) by simp
  have t1: "thr ?s1 t \<noteq> None" using assms(2) by simp
  show ?thesis
    using assms(2-5) lb spl_bracket [OF a1 spl_free_proc] on_thr_put [OF t1] by (simp add: proc_remthread_def)
qed

lemma q_inv_new:
  assumes "q_inv {} M K P C h W Q" "P t = None" "d < length C" "Q (Runqueue d) = Some rq"
    and "tl_rep h' (insert t (dom P)) (Q(Runqueue d \<mapsto> rq @ [t]))"
  shows "q_inv {} M K (P(t \<mapsto> (S_READY, Some d, p))) C h' W (Q(Runqueue d \<mapsto> rq @ [t]))"
proof (rule q_inv_change [OF assms(1), where t = t])
  have un: "unlisted t Q"
    unfolding unlisted_def using tl_repD(4) [OF q_invD(1) [OF assms(1)]] assms(2) by blast
  show "tl_rep h' (dom (P(t \<mapsto> (S_READY, Some d, p)))) (Q(Runqueue d \<mapsto> rq @ [t]))" using assms(5) by simp
  show "list_ok (P(t \<mapsto> (S_READY, Some d, p))) (length C) m t" if "(Q(Runqueue d \<mapsto> rq @ [t])) m = Some us" "t \<in> set us" for m us
    using that un by (cases "m = Runqueue d") (auto simp: unlisted_def)
  show "\<exists>c<length C. C ! c = (Some t, False)" if "unlisted t (Q(Runqueue d \<mapsto> rq @ [t]))"
    using that by (simp add: unlisted_upd)
  show "cpu_ok (P(t \<mapsto> (S_READY, Some d, p))) C (Q(Runqueue d \<mapsto> rq @ [t])) c" if "c < length C" "C ! c \<noteq> C ! c \<or> fst (C ! c) = Some t" for c
    using q_invD(5) [OF assms(1) that(1)] that(2) assms(2) by (auto simp: cpu_ok_def)
qed (use assms(4) in \<open>auto split: if_splits\<close>)

lemma level_inv_new:
  assumes "level_inv s" "thr s t = None" "t_curspl th = 1" "t_iplhigh_count th = 2" "t_spl th = 0 \<or> t_spl th = 1" "guarded th"
  shows "level_inv (upd_cpu d (\<lambda>p. p\<lparr>c_ipi_pending := b\<rparr>) (s\<lparr>thr := (thr s)(t \<mapsto> th), nodes := h, p_numthreads := x\<rparr>))" (is "level_inv ?s'")
proof -
  have cp: "c_curthread (cpus ?s' ! c) = c_curthread (cpus s ! c)" "c_spinlocks (cpus ?s' ! c) = c_spinlocks (cpus s ! c)"
    "c_irq (cpus ?s' ! c) = c_irq (cpus s ! c)" "c_isidle (cpus ?s' ! c) = c_isidle (cpus s ! c)" if "c < length (cpus s)" for c
    using that by (simp_all add: nth_upd)
  have n: "length (cpus ?s') = length (cpus s)" by simp
  have sp: "spl_at c u cs k ?s'" if "spl_at c u cs k s" for c u cs k
  proof -
    have "u \<noteq> t" using that assms(2) by (auto simp: spl_at_def)
    with that cp show ?thesis by (auto simp: spl_at_def nth_upd)
  qed
  have he: "held ?s' = held s" by (simp add: held_def fun_eq_iff)
  show ?thesis
    unfolding level_inv_def n
  proof (intro conjI allI impI)
    fix c assume c: "c < length (cpus s)"
    then obtain u cs where u: "spl_at c u cs (card (held s c)) s" "c_isidle (cpus s ! c) \<Longrightarrow> cs = 1" "finite (held s c)"
      using level_invE [OF assms(1)] by metis
    show "finite (held ?s' c)" using u(3) he by simp
    show "\<exists>u cs. spl_at c u cs (card (held ?s' c)) ?s' \<and> (c_isidle (cpus ?s' ! c) \<longrightarrow> cs = 1)"
      using sp [OF u(1)] u(2) he cp(4) [OF c] by metis
  next
    fix u y assume y: "thr ?s' u = Some y"
    show "t_spl y = 0 \<or> t_spl y = 1" "guarded y"
      using y assms(5,6) level_invD(1,2) [OF assms(1), of u y] by (auto split: if_splits)
    assume "\<forall>c<length (cpus s). c_curthread (cpus ?s' ! c) \<noteq> Some u"
    then show "t_curspl y = 1" "t_iplhigh_count y = 2"
      using y assms(3,4) level_invD(3) [OF assms(1), of u y] cp(1) by (auto split: if_splits)
  next
    fix l assume "\<forall>k. l \<noteq> OtherLock k"
    then show "lk ?s' l = None" using assms(1) by (simp add: level_inv_def)
  qed
qed

definition new_thread :: "string \<Rightarrow> thread" where
  "new_thread name = \<lparr>t_name = name, t_wchan_name = Some ''NEW'', t_state = S_READY, t_stack = None, t_context = None, t_cpu = None,
     t_proc = None, t_in_interrupt = False, t_curspl = IPL_HIGH, t_iplhigh_count = 1, t_spl = 0\<rparr>"

definition forked_thread :: "string \<Rightarrow> u32 list \<Rightarrow> cpuid \<Rightarrow> procid \<Rightarrow> (u32 \<times> u32 \<times> u32) \<Rightarrow> thread" where
  "forked_thread name stk c p start = (new_thread name)\<lparr>t_stack := Some (stk[0 := THREAD_STACK_MAGIC, 1 := THREAD_STACK_MAGIC,
     2 := THREAD_STACK_MAGIC, 3 := THREAD_STACK_MAGIC]), t_context := Some start, t_cpu := Some c, t_proc := Some p, t_iplhigh_count := 2\<rparr>"

lemma forked_thread_ok:
  assumes "4 \<le> length stk"
  shows "guarded (forked_thread name stk c p start)" "t_curspl (forked_thread name stk c p start) = 1"
    "t_iplhigh_count (forked_thread name stk c p start) = 2" "t_spl (forked_thread name stk c p start) = 0"
proof -
  show "guarded (forked_thread name stk c p start)" using assms
    by (auto simp: guarded_def forked_thread_def nth_list_update Suc_le_length_iff numeral_eq_Suc less_Suc_eq)
qed (simp_all add: forked_thread_def new_thread_def IPL_HIGH_def)

lemma fork_create:
  assumes "sched_inv M K s Q" "t \<noteq> 0" "thr s t = None"
  obtains h where "thread_create (Some t) True name s = Some (Some t, s\<lparr>thr := (thr s)(t \<mapsto> new_thread name), nodes := h\<rparr>)"
    "tl_rep h (insert t (dom (thr s))) Q"
proof -
  have "t \<notin> dom (thr s)" using assms(3) by auto
  then obtain h where "threadlistnode_init t (nodes s) = Some h" "tl_rep h (insert t (dom (thr s))) Q"
    using threadlistnode_init_spec [OF q_invD(1) [OF sched_invD(2) [OF assms(1)], unfolded dom_pt], of t] assms(2) by blast
  with assms(2,3) show thesis by (intro that) (simp_all add: thread_create_def new_thread_def rec_order)
qed

lemma fork_nomem:
  assumes "sched_inv M K s Q" "t \<noteq> 0" "thr s t = None" "c < length (cpus s)"
  shows "\<exists>s'. thread_fork c (Some t) True None name proc start s = Some (Inl ENOMEM, s') \<and> sched_inv M K s' Q \<and> lk s' = lk s \<and> wch s' = wch s"
proof -
  note lv = sched_invD(1) [OF assms(1)] and q = sched_invD(2) [OF assms(1)]
  obtain h where h: "thread_create (Some t) True name s = Some (Some t, s\<lparr>thr := (thr s)(t \<mapsto> new_thread name), nodes := h\<rparr>)"
    "tl_rep h (insert t (dom (thr s))) Q" by (rule fork_create [OF assms(1-3)])
  have un: "unlisted t Q" unfolding unlisted_def using tl_repD(4) [OF q_invD(1) [OF q]] assms(3) by auto
  have cl: "threadlistnode_cleanup t h = Some ()" using threadlistnode_cleanup_spec [OF h(2)] un by simp
  obtain cur where cur: "curthread c s = Some cur" "thr s cur \<noteq> None" by (rule sched_cur [OF assms(1,4)]) (auto elim!: spl_atE)
  have "(thr s)(t := None) = thr s" using assms(3) by auto
  then have d: "thread_destroy c t (s\<lparr>thr := (thr s)(t \<mapsto> new_thread name), nodes := h\<rparr>) = Some (s\<lparr>nodes := h\<rparr>)"
    using cl cur assms(3) by (cases "cur = t") (auto simp: thread_destroy_def new_thread_def curthread_def rec_order)
  have "tl_rep h (dom (thr s)) Q" using tl_rep_drop [OF h(2) un] assms(3) by (simp add: domIff insert_Diff_if)
  then have "q_inv {} M K (pt s) (ci s) h (wch s) Q" using q by (simp add: q_inv_def)
  with h(1) d sched_inv_nodes [OF lv] show ?thesis by (simp add: thread_fork_def)
qed

lemma fork_ok:
  assumes "sched_inv M K s Q" "c < length (cpus s)" "t \<noteq> 0" "thr s t = None" "4 \<le> length stk"
    and cur: "curthread c s = Some cur" "thr s cur = Some cth" and p: "(case proc of None \<Rightarrow> t_proc cth | Some p \<Rightarrow> Some p) = Some p" "p_numthreads s p = Some m"
    and rq: "Q (Runqueue c) = Some rq"
  shows "\<exists>s'. thread_fork c (Some t) True (Some stk) name proc start s = Some (Inr t, s') \<and>
      sched_inv M K s' (Q(Runqueue c \<mapsto> rq @ [t])) \<and> thr s' = (thr s)(t \<mapsto> forked_thread name stk c p start) \<and>
      p_numthreads s' = (p_numthreads s)(p \<mapsto> m + 1) \<and> ci s' = ci s \<and> lk s' = lk s \<and> wch s' = wch s"
proof -
  note lv = sched_invD(1) [OF assms(1)] and q = sched_invD(2) [OF assms(1)]
  obtain h where h: "thread_create (Some t) True name s = Some (Some t, s\<lparr>thr := (thr s)(t \<mapsto> new_thread name), nodes := h\<rparr>)"
    "tl_rep h (insert t (dom (thr s))) Q" by (rule fork_create [OF assms(1,3,4)])
  obtain cur' cs where sp: "spl_at c cur' cs (card (held s c)) s" by (rule sched_cur [OF assms(1,2)]) blast
  then have cur': "cur' = cur" using cur(1) by (auto elim: spl_atE)
  have tc: "t \<noteq> cur" using cur(2) assms(4) by auto
  have own: "t_cpu cth = Some c" using other_current [OF q assms(2) _ cur(2)] cur(1) assms(2) by (simp add: curthread_def)
  let ?n4 = "(new_thread name)\<lparr>t_stack := Some (stk[0 := THREAD_STACK_MAGIC, 1 := THREAD_STACK_MAGIC,
     2 := THREAD_STACK_MAGIC, 3 := THREAD_STACK_MAGIC]), t_cpu := Some c\<rparr>"
  let ?s4 = "s\<lparr>thr := (thr s)(t \<mapsto> ?n4), nodes := h\<rparr>"
  have a4: "spl_at c cur cs (card (held s c)) ?s4" using sp tc unfolding cur' by (auto simp: spl_at_def)
  let ?s5 = "s\<lparr>thr := (thr s)(t \<mapsto> ?n4\<lparr>t_proc := Some p\<rparr>), nodes := h, p_numthreads := (p_numthreads s)(p \<mapsto> m + 1)\<rparr>"
  have add: "proc_addthread c p t ?s4 = Some ?s5"
    using proc_addthread_eq [OF a4, of t ?n4 p m] p(2) level_invD(6) [OF lv, of p] by (simp add: new_thread_def upd_thr_def rec_order)
  let ?n = "forked_thread name stk c p start"
  let ?s6 = "s\<lparr>thr := (thr s)(t \<mapsto> ?n), nodes := h, p_numthreads := (p_numthreads s)(p \<mapsto> m + 1)\<rparr>"
  have a6: "spl_at c cur cs (card (held s c)) ?s6" using sp tc unfolding cur' by (auto simp: spl_at_def)
  have un: "unlisted t Q" unfolding unlisted_def using tl_repD(4) [OF q_invD(1) [OF q]] assms(4) by auto
  obtain h' b where mr: "thread_make_runnable c t False ?s6 =
      Some (upd_cpu c (\<lambda>p. p\<lparr>c_ipi_pending := b\<rparr>) ((upd_thr t (\<lambda>th. th\<lparr>t_state := S_READY\<rparr>) ?s6)\<lparr>nodes := h'\<rparr>))"
    "tl_rep h' (insert t (dom (thr s))) (Q(Runqueue c \<mapsto> rq @ [t]))"
    by (rule make_runnable_eq [OF a6, of t ?n c "insert t (dom (thr s))" Q rq])
      (use h(2) rq un assms(2) level_invD(4,5) [OF lv] in \<open>simp_all add: forked_thread_def\<close>)
  let ?s7 = "upd_cpu c (\<lambda>p. p\<lparr>c_ipi_pending := b\<rparr>) (s\<lparr>thr := (thr s)(t \<mapsto> ?n), nodes := h', p_numthreads := (p_numthreads s)(p \<mapsto> m + 1)\<rparr>)"
  have st: "?n\<lparr>t_state := S_READY\<rparr> = ?n" by (simp add: forked_thread_def new_thread_def)
  then have mr': "thread_make_runnable c t False ?s6 = Some ?s7" using mr(1) by (simp add: upd_thr_def rec_order)
  have run: "thread_fork c (Some t) True (Some stk) name proc start s = Some (Inr t, ?s7)"
    using h(1) own cur p(1) tc assms(2) add mr'
    by (simp add: thread_fork_def on_thr_def thread_checkstack_init_def curthread_def rec_order) (simp add: forked_thread_def new_thread_def rec_order)
  have lv7: "level_inv ?s7"
    by (rule level_inv_new [OF lv assms(4)]) (simp_all add: forked_thread_ok [OF assms(5)])
  have "pt ?s7 = (pt s)(t \<mapsto> (S_READY, Some c, Some p))" by (auto simp: pt_def fun_eq_iff forked_thread_def new_thread_def)
  moreover have "ci ?s7 = ci s" unfolding ci_pending by (simp add: ci_def)
  moreover have "q_inv {} M K ((pt s)(t \<mapsto> (S_READY, Some c, Some p))) (ci s) h' (wch s) (Q(Runqueue c \<mapsto> rq @ [t]))"
    by (rule q_inv_new [OF q]) (use assms(2,4) rq mr(2) in \<open>simp_all add: pt_def\<close>)
  ultimately have "sched_inv M K ?s7 (Q(Runqueue c \<mapsto> rq @ [t]))" unfolding sched_inv_def using lv7 by simp
  with run \<open>ci ?s7 = ci s\<close> show ?thesis by simp
qed

end
