(* ===== verification/Migration.thy ===== *)
theory Migration
  imports Sched_Props "HOL-Library.Multiset"
begin

text \<open>
  \<^verbatim>\<open>thread_consider_migration\<close>: the threads above the share of a processor are given to processors
  that have less than theirs. It always ends, no thread is lost or moved off its processor while
  it is the current one, and no queue is filled above the share.
\<close>

context thread_queues
begin

text \<open>Moving the last thread of a list to the front of another one.\<close>

lemma move_tail_head:
  assumes "rep h T Q" "Q l = Some (ts @ [t])" "Q m = Some us" "l \<noteq> m"
  shows "\<exists>h' h''. remtail l h = Some (Some t, h') \<and> addhead m t h' = Some h'' \<and>
    rep h'' T (Q(l \<mapsto> ts, m \<mapsto> t # us))"
proof -
  obtain h' where h': "remtail l h = Some (Some t, h')" "rep h' T (Q(l \<mapsto> ts))" using remtail [OF assms(1,2)] by blast
  have "t \<notin> set ts" using distinct [OF assms(1,2)] by simp
  with taken_unlisted [OF assms(1,2), of t ts] have u: "unlisted t (Q(l \<mapsto> ts))" "t \<in> T" by simp_all
  have "(Q(l \<mapsto> ts)) m = Some us" using assms(3,4) by simp
  from addhead [OF h'(2) this u(2,1)] h'(1) show ?thesis by blast
qed

text \<open>Moving the first thread of a list to its end.\<close>

lemma rotate:
  assumes "rep h T Q" "Q l = Some (t # ts)"
  shows "\<exists>h' h''. remhead l h = Some (Some t, h') \<and> addtail l t h' = Some h'' \<and> rep h'' T (Q(l \<mapsto> ts @ [t]))"
proof -
  obtain h' where h': "remhead l h = Some (Some t, h')" "rep h' T (Q(l \<mapsto> ts))" using remhead [OF assms(1,2)] by blast
  have "t \<notin> set ts" using distinct [OF assms(1,2)] by simp
  with taken_unlisted [OF assms(1,2), of t ts] have u: "unlisted t (Q(l \<mapsto> ts))" "t \<in> T" by simp_all
  have "(Q(l \<mapsto> ts)) l = Some ts" by simp
  from addtail [OF h'(2) this u(2,1)] h'(1) show ?thesis by (auto simp only: fun_upd_upd)
qed

end

section \<open>Counting\<close>

lemma mig_count_eq:
  assumes "sched_inv M K s Q" "c < length (cpus s)" "set is \<subseteq> {..<length (cpus s)}"
  shows "mig_count c is m n s =
    Some ((if c \<in> set is then tl_count (nodes s) (Runqueue c) else m, n + (\<Sum>i\<leftarrow>is. tl_count (nodes s) (Runqueue i))), s)"
  using assms(3)
proof (induction "is" arbitrary: m n)
  case Nil
  then show ?case by simp
next
  case (Cons i "is")
  obtain t cs where sp: "spl_at c t cs (card (held s c)) s" by (rule sched_cur [OF assms(1,2)]) blast
  note lb = lock_bracket [OF sp level_invD(4) [OF sched_invD(1) [OF assms(1)]] spl_free_id, of i]
  have "mig_count c (i # is) m n s = mig_count c is (if i = c then tl_count (nodes s) (Runqueue i) else m) (n + tl_count (nodes s) (Runqueue i)) s"
    using lb by (simp add: Let_def)
  with Cons show ?case by (auto simp: add.assoc)
qed

lemma queue_count:
  assumes "tl_rep h T Q" "Q l = Some ts"
  shows "unat (tl_count h l) = length ts"
proof -
  have "length ts < 2 ^ 32" by (rule tl_length_less) (use tl_repD(1) [OF assms(1)] tl_repD(3,4) [OF assms] in auto)
  moreover have "tl_count h l = of_nat (length ts)" using tl_repD(2) [OF assms] by (simp add: list_rep_def)
  ultimately show ?thesis by (simp add: unsigned_of_nat take_bit_nat_eq_self)
qed

section \<open>Taking threads off the run queue\<close>

lemma mig_take_ok:
  assumes "q_inv {} M K P C (nodes s) W Q" "Q (Runqueue c) = Some rq" "Q (Victims c) = Some vs" "n \<le> length rq"
  shows "\<exists>h. mig_take c n s = Some (s\<lparr>nodes := h\<rparr>) \<and>
    q_inv {} M K P C h W (Q(Runqueue c \<mapsto> take (length rq - n) rq, Victims c \<mapsto> drop (length rq - n) rq @ vs))"
  using assms
proof (induction n arbitrary: s Q rq vs)
  case 0
  have "Q(Runqueue c \<mapsto> take (length rq - 0) rq, Victims c \<mapsto> drop (length rq - 0) rq @ vs) = Q"
    using 0 by (auto simp: fun_eq_iff)
  then show ?case unfolding mig_take.simps(1) using 0(1) by (metis sched.surjective sched.update_convs(4))
next
  case (Suc n)
  obtain r t where rq: "rq = r @ [t]" using Suc.prems(4) by (cases rq rule: rev_cases) simp_all
  obtain h h' where h: "threadlist_remtail (Runqueue c) (nodes s) = Some (Some t, h)" "threadlist_addhead (Victims c) t h = Some h'"
    "tl_rep h' (dom P) (Q(Runqueue c \<mapsto> r, Victims c \<mapsto> t # vs))"
    using tq.move_tail_head [OF q_invD(1) [OF Suc.prems(1)] Suc.prems(2) [unfolded rq] Suc.prems(3)] by auto
  obtain p where p: "P t = Some (S_READY, Some c, p)" using q_invD(3) [OF Suc.prems(1,2), of t] rq by auto
  have tn: "t \<notin> set r" using tl_repD(3) [OF q_invD(1) [OF Suc.prems(1)] Suc.prems(2)] rq by simp
  have same: "P(t \<mapsto> (S_READY, Some c, p)) = P" using p by auto
  have i: "q_inv {} M K P C h' W (Q(Runqueue c \<mapsto> r, Victims c \<mapsto> t # vs))"
    using q_inv_move [OF Suc.prems(1,2) _ tn _ Suc.prems(3) _ h(3) p, of S_READY c] rq unfolding same by (simp add: p)
  have q: "(Q(Runqueue c \<mapsto> r, Victims c \<mapsto> t # vs)) (Runqueue c) = Some r" "(Q(Runqueue c \<mapsto> r, Victims c \<mapsto> t # vs)) (Victims c) = Some (t # vs)"
    "n \<le> length r" using Suc.prems(4) rq by simp_all
  have tk: "take (length r - n) r = take (length rq - Suc n) rq" "drop (length r - n) r @ t # vs = drop (length rq - Suc n) rq @ vs"
    using rq by simp_all
  have i': "q_inv {} M K P C (nodes (s\<lparr>nodes := h'\<rparr>)) W (Q(Runqueue c \<mapsto> r, Victims c \<mapsto> t # vs))" using i by simp
  have e: "Q(Runqueue c \<mapsto> r, Victims c \<mapsto> t # vs, Runqueue c \<mapsto> a, Victims c \<mapsto> b) = Q(Runqueue c \<mapsto> a, Victims c \<mapsto> b)" for a b
    by (auto simp: fun_eq_iff)
  have g: "mig_take c (Suc n) s = mig_take c n (s\<lparr>nodes := h'\<rparr>)" using h(1,2) by simp
  have n: "s\<lparr>nodes := h', nodes := x\<rparr> = s\<lparr>nodes := x\<rparr>" for x by simp
  show ?case unfolding g by (rule Suc.IH [OF i' q, unfolded e tk n])
qed

section \<open>Giving threads to another processor\<close>

text \<open>The threads \<open>G\<close> now belong to processor \<open>i\<close>, which may have been told to stop idling.\<close>

definition given :: "cpuid \<Rightarrow> tid set \<Rightarrow> tlist tlheap \<Rightarrow> u32 \<Rightarrow> sched \<Rightarrow> sched" where
  "given i G h b s = upd_cpu i (\<lambda>p. p\<lparr>c_ipi_pending := b\<rparr>)
     (s\<lparr>thr := (\<lambda>t. if t \<in> G then map_option (\<lambda>th. th\<lparr>t_cpu := Some i\<rparr>) (thr s t) else thr s t), nodes := h\<rparr>)"

lemma given_fields [simp]:
  "lk (given i G h b s) = lk s" "nodes (given i G h b s) = h" "wch (given i G h b s) = wch s" "length (cpus (given i G h b s)) = length (cpus s)"
  "p_numthreads (given i G h b s) = p_numthreads s" "ci (given i G h b s) = ci s"
  "pt (given i G h b s) = (\<lambda>t. if t \<in> G then map_option (\<lambda>(st, d, p). (st, Some i, p)) (pt s t) else pt s t)"
  unfolding given_def ci_pending by (auto simp: ci_def pt_def fun_eq_iff option.map_comp comp_def)

lemma given_spl_free: "spl_free (given i G h b)"
proof -
  have "spl_free (\<lambda>s. s\<lparr>thr := (\<lambda>t. if t \<in> G then map_option (\<lambda>th. th\<lparr>t_cpu := Some i\<rparr>) (thr s t) else thr s t), nodes := h\<rparr>)" (is "spl_free ?U")
    unfolding spl_free_def
  proof (intro conjI allI impI)
    fix c t k m x and s :: sched
    show "?U ((spl_put c t k m s)\<lparr>lk := x\<rparr>) = (spl_put c t k m (?U s))\<lparr>lk := x\<rparr>"
      by (cases "thr s t") (auto simp: spl_put_def rec_order fun_eq_iff spl_thr_def)
  next
    fix c t k m and s :: sched assume "spl_at c t k m s"
    then show "spl_at c t k m (?U s)" by (auto simp: spl_at_def)
  qed simp_all
  from spl_free_comp [OF spl_free_pending this] show ?thesis unfolding given_def [abs_def] .
qed

lemma given_none: "i < length (cpus s) \<Longrightarrow> given i {} (nodes s) (c_ipi_pending (cpus s ! i)) s = s"
  by (simp add: given_def upd_cpu_def)

lemma given_given: "i < length (cpus s) \<Longrightarrow> given i G' h' b' (given i G h b s) = given i (G \<union> G') h' b' s"
  by (auto simp: given_def upd_cpu_def rec_order fun_eq_iff option.map_comp comp_def)

lemma given_level: "level_inv s \<Longrightarrow> level_inv (given i G h b s)"
  by (rule level_inv_cong) (auto simp: given_def nth_upd option.rel_map intro: rel_option_reflI split: if_splits)

text \<open>The order of a list does not matter for the placement.\<close>

lemma q_inv_reorder:
  assumes "q_inv X M K P C h W Q" "Q l = Some ts" "set ts' = set ts" "tl_rep h' (dom P) (Q(l \<mapsto> ts'))"
  shows "q_inv X M K P C h' W (Q(l \<mapsto> ts'))"
proof -
  have ul: "unlisted t (Q(l \<mapsto> ts')) \<longleftrightarrow> unlisted t Q" for t
    using assms(2,3) by (auto simp: unlisted_def)
  then have "cpu_ok P C (Q(l \<mapsto> ts')) c = cpu_ok P C Q c" for c by (simp add: cpu_ok_def)
  moreover have "lists_ok M K (length C) W (Q(l \<mapsto> ts'))"
    by (rule lists_ok_cong [OF q_invD(2) [OF assms(1)]]) (use assms(2) in auto)
  moreover have "list_ok P (length C) m t" if "(Q(l \<mapsto> ts')) m = Some us" "t \<in> set us" for m us t
    using q_invD(3) [OF assms(1), of m _ t] that assms(2,3) by (cases "m = l") auto
  ultimately show ?thesis using assms(1,4) ul unfolding q_inv_def by simp
qed

text \<open>Threads \<open>ts\<close> were given away and the victims \<open>vs'\<close> are left.\<close>

definition gave :: "cpuid set \<Rightarrow> cpuid set \<Rightarrow> cpuid \<Rightarrow> cpuid \<Rightarrow> u32 \<Rightarrow> tid \<Rightarrow> tid list \<Rightarrow> tid list \<Rightarrow> tqueues \<Rightarrow> sched \<Rightarrow>
    nat \<Rightarrow> tid list \<Rightarrow> tid list \<Rightarrow> sched \<Rightarrow> bool" where
  "gave M K c i share cur rq vs Q s n' ts vs' s' \<longleftrightarrow>
     (\<exists>h b. s' = given i (set ts) h b s) \<and> n' \<le> length vs' \<and>
     q_inv {} M K (pt s') (ci s') (nodes s') (wch s') (Q(Runqueue i \<mapsto> rq @ ts, Victims c \<mapsto> vs')) \<and>
     mset vs = mset ts + mset vs' \<and> (ts = [] \<or> length rq + length ts \<le> unat share) \<and> cur \<notin> set ts"

lemma gave_none:
  assumes "q_inv {} M K (pt s) (ci s) (nodes s) (wch s) Q" "Q (Runqueue i) = Some rq" "Q (Victims c) = Some vs" "n \<le> length vs"
    and "i < length (cpus s)"
  shows "gave M K c i share cur rq vs Q s n [] vs s"
proof -
  have e: "Q(Runqueue i \<mapsto> rq @ [], Victims c \<mapsto> vs) = Q" using assms(2,3) by (auto simp: fun_eq_iff)
  have "\<exists>h b. s = given i (set []) h b s" using given_none [OF assms(5)] by (metis list.set(1))
  then show ?thesis unfolding gave_def e using assms(1,4) by simp
qed

lemma given_nodes: "given i G h b (s\<lparr>nodes := h'\<rparr>) = given i G h b s"
  by (simp add: given_def cong: if_cong)

lemma give_one:
  assumes "spl_at c cur cs k s" "lk s (IpiLock i) = None" "i < length (cpus s)" "thr s t \<noteq> None"
  obtains b where "do { s \<leftarrow> on_thr t (\<lambda>th. th\<lparr>t_cpu := Some i\<rparr>) s; let s = s\<lparr>nodes := h\<rparr>;
      if c_isidle (cpus s ! i) then ipi_send c i IPI_UNIDLE s else Some s } = Some (given i {t} h b s)"
proof -
  let ?s = "(upd_thr t (\<lambda>th. th\<lparr>t_cpu := Some i\<rparr>) s)\<lparr>nodes := h\<rparr>"
  have e: "given i {t} h b s = upd_cpu i (\<lambda>p. p\<lparr>c_ipi_pending := b\<rparr>) ?s" for b
    by (auto simp: given_def upd_thr_def rec_order fun_eq_iff intro!: arg_cong [of _ _ "upd_cpu i (\<lambda>p. p\<lparr>c_ipi_pending := b\<rparr>)"])
  have f: "spl_free (upd_thr t (\<lambda>th. th\<lparr>t_cpu := Some i\<rparr>))" by (rule spl_free_thr) (simp_all add: spl_thr_def rec_order)
  have sp: "spl_at c cur cs k ?s" using spl_freeD(4) [OF f assms(1)] by simp
  have ipi: "ipi_send c i IPI_UNIDLE ?s = Some (upd_cpu i (\<lambda>p. p\<lparr>c_ipi_pending := c_ipi_pending (cpus s ! i) OR push_bit IPI_UNIDLE 1\<rparr>) ?s)"
    using ipi_send_eq [OF sp, of i IPI_UNIDLE] assms(2,3) by (simp add: IPI_UNIDLE_def upd_cpu_def)
  have same: "upd_cpu i (\<lambda>p. p\<lparr>c_ipi_pending := c_ipi_pending (cpus s ! i)\<rparr>) ?s = ?s" using assms(3) by (simp add: upd_cpu_def)
  show thesis
  proof (cases "c_isidle (cpus s ! i)")
    case True
    with ipi assms(4) show thesis by (intro that [of "c_ipi_pending (cpus s ! i) OR push_bit IPI_UNIDLE 1"]) (simp add: on_thr_upd e)
  next
    case False
    with same assms(4) show thesis by (intro that [of "c_ipi_pending (cpus s ! i)"]) (simp add: on_thr_upd e)
  qed
qed

lemma mig_give_ok:
  assumes "spl_at c cur cs k s" "lk s (IpiLock i) = None" "i < length (cpus s)" "i \<noteq> c"
    and "q_inv {} M K (pt s) (ci s) (nodes s) (wch s) Q" "Q (Runqueue i) = Some rq" "Q (Victims c) = Some vs" "n \<le> length vs"
  shows "\<exists>n' ts vs' s'. mig_give c i share n s = Some (n', s') \<and> gave M K c i share cur rq vs Q s n' ts vs' s'"
  using assms
proof (induction n arbitrary: s Q rq vs)
  case 0
  then show ?case using gave_none [OF 0(5-8,3)] by auto
next
  case (Suc n)
  note q = Suc.prems(5)
  have c: "c < length (cpus s)" "curthread c s = Some cur" "c_curthread (cpus s ! c) = Some cur" using Suc.prems(1) by (auto elim: spl_atE)
  obtain t us where vs: "vs = t # us" using Suc.prems(8) by (cases vs) simp_all
  have n: "n \<le> length us" using Suc.prems(8) vs by simp
  show ?case
  proof (cases "tl_count (nodes s) (Runqueue i) < share")
    case False
    then show ?thesis using gave_none [OF q Suc.prems(6-8,3)] by auto
  next
    case less: True
    have cnt: "length rq < unat share"
      using less queue_count [OF q_invD(1) [OF q] Suc.prems(6)] by (simp add: word_less_nat_alt)
    show ?thesis
    proof (cases "t = cur")
      case True
      obtain h h' where h: "threadlist_remhead (Victims c) (nodes s) = Some (Some t, h)" "threadlist_addtail (Victims c) t h = Some h'"
        "tl_rep h' (dom (pt s)) (Q(Victims c \<mapsto> us @ [t]))"
        using tq.rotate [OF q_invD(1) [OF q] Suc.prems(7) [unfolded vs]] by blast
      let ?Q = "Q(Victims c \<mapsto> us @ [t])"
      have "q_inv {} M K (pt s) (ci s) h' (wch s) ?Q"
        by (rule q_inv_reorder [OF q Suc.prems(7) _ h(3)]) (simp add: vs)
      then have i: "q_inv {} M K (pt (s\<lparr>nodes := h'\<rparr>)) (ci (s\<lparr>nodes := h'\<rparr>)) (nodes (s\<lparr>nodes := h'\<rparr>)) (wch (s\<lparr>nodes := h'\<rparr>)) ?Q"
        by (simp add: pt_upd ci_upd)
      have sp: "spl_at c cur cs k (s\<lparr>nodes := h'\<rparr>)" using Suc.prems(1) by simp
      have pre: "lk (s\<lparr>nodes := h'\<rparr>) (IpiLock i) = None" "i < length (cpus (s\<lparr>nodes := h'\<rparr>))" "?Q (Runqueue i) = Some rq"
        "?Q (Victims c) = Some (us @ [t])" "n \<le> length (us @ [t])" using Suc.prems(2,3,6) n by simp_all
      obtain n' ts vs' s' where r: "mig_give c i share n (s\<lparr>nodes := h'\<rparr>) = Some (n', s')"
        "gave M K c i share cur rq (us @ [t]) ?Q (s\<lparr>nodes := h'\<rparr>) n' ts vs' s'"
        using Suc.IH [OF sp pre(1,2) Suc.prems(4) i pre(3-5)] by blast
      have e: "Q(Victims c \<mapsto> us @ [t], Runqueue i \<mapsto> a, Victims c \<mapsto> b) = Q(Runqueue i \<mapsto> a, Victims c \<mapsto> b)" for a b by (auto simp: fun_eq_iff)
      have "mig_give c i share (Suc n) s = Some (n', s')" using h(1,2) True less c r(1) by simp
      moreover have "gave M K c i share cur rq vs Q s n' ts vs' s'" using r(2) unfolding gave_def e given_nodes vs by simp
      ultimately show ?thesis by blast
    next
      case False
      obtain h h' where h: "threadlist_remhead (Victims c) (nodes s) = Some (Some t, h)" "threadlist_addtail (Runqueue i) t h = Some h'"
        "tl_rep h' (dom (pt s)) (Q(Victims c \<mapsto> us, Runqueue i \<mapsto> rq @ [t]))"
        using tq.move_head_tail [OF q_invD(1) [OF q] Suc.prems(7) [unfolded vs] Suc.prems(6)] by auto
      let ?Q = "Q(Victims c \<mapsto> us, Runqueue i \<mapsto> rq @ [t])"
      obtain p where p: "pt s t = Some (S_READY, Some c, p)" using q_invD(3) [OF q Suc.prems(7), of t] vs by auto
      have "t \<notin> set us" using tl_repD(3) [OF q_invD(1) [OF q] Suc.prems(7)] vs by simp
      moreover have "fst (ci s ! d) \<noteq> Some t" if "d < length (ci s)" for d
        using own_cpu [OF q that _ p] c False by auto
      ultimately have q1: "q_inv {} M K ((pt s)(t \<mapsto> (S_READY, Some i, p))) (ci s) h' (wch s) ?Q"
        by (intro q_inv_move [OF q Suc.prems(7) _ _ _ Suc.prems(6) _ h(3) p]) (use vs in auto)
      obtain b where s1: "do { s \<leftarrow> on_thr t (\<lambda>th. th\<lparr>t_cpu := Some i\<rparr>) s; let s = s\<lparr>nodes := h'\<rparr>;
           if c_isidle (cpus s ! i) then ipi_send c i IPI_UNIDLE s else Some s } = Some (given i {t} h' b s)"
        by (rule give_one [OF Suc.prems(1-3)]) (use p in \<open>auto simp: pt_def\<close>)
      let ?s = "given i {t} h' b s"
      have i: "q_inv {} M K (pt ?s) (ci ?s) (nodes ?s) (wch ?s) ?Q"
      proof -
        have "pt ?s = (pt s)(t \<mapsto> (S_READY, Some i, p))" using p by (auto simp: fun_eq_iff)
        with q1 show ?thesis by simp
      qed
      have sp: "spl_at c cur cs k ?s" using spl_freeD(4) [OF given_spl_free Suc.prems(1)] .
      have pre: "lk ?s (IpiLock i) = None" "i < length (cpus ?s)" "?Q (Runqueue i) = Some (rq @ [t])"
        "?Q (Victims c) = Some us" using Suc.prems(2,3,6) by simp_all
      obtain n' ts vs' s' where r: "mig_give c i share n ?s = Some (n', s')" "gave M K c i share cur (rq @ [t]) us ?Q ?s n' ts vs' s'"
        using Suc.IH [OF sp pre(1,2) Suc.prems(4) i pre(3,4) n] by blast
      have e: "Q(Victims c \<mapsto> us, Runqueue i \<mapsto> rq @ [t], Runqueue i \<mapsto> (rq @ [t]) @ a, Victims c \<mapsto> d) = Q(Runqueue i \<mapsto> rq @ t # a, Victims c \<mapsto> d)" for a d by (auto simp: fun_eq_iff)
      have "mig_give c i share (Suc n) s = Some (n', s')" using h(1,2) False less c r(1) s1 by (cases "thr s t") (simp_all add: on_thr_def Let_def)
      moreover have "gave M K c i share cur rq vs Q s n' (t # ts) vs' s'"
        using r(2) cnt False unfolding gave_def e vs by (auto simp: given_given [OF Suc.prems(3)])
      ultimately show ?thesis by blast
    qed
  qed
qed

lemma give_section:
  assumes "sched_inv M K s Q" "c < length (cpus s)" "curthread c s = Some cur" "i < length (cpus s)" "i \<noteq> c"
    and "Q (Runqueue i) = Some rq" "Q (Victims c) = Some vs" "n \<le> length vs"
  shows "\<exists>n' ts vs' s'. do { s \<leftarrow> spinlock_acquire c (RunqueueLock i) s; (n, s) \<leftarrow> mig_give c i share n s;
        s \<leftarrow> spinlock_release c (RunqueueLock i) s; Some (n, s) } = Some (n', s') \<and>
      gave M K c i share cur rq vs Q s n' ts vs' s' \<and> sched_inv M K s' (Q(Runqueue i \<mapsto> rq @ ts, Victims c \<mapsto> vs'))"
proof -
  note lv = sched_invD(1) [OF assms(1)] and q = sched_invD(2) [OF assms(1)]
  obtain cur' cs where sp': "spl_at c cur' cs (card (held s c)) s" by (rule sched_cur [OF assms(1,2)]) blast
  then have "cur' = cur" using assms(3) by (auto elim: spl_atE)
  with sp' have sp: "spl_at c cur cs (card (held s c)) s" by simp
  note lb = lock_bracket [OF sp level_invD(4) [OF lv, of i]]
  let ?s1 = "(spl_put c cur cs (Suc (card (held s c))) s)\<lparr>lk := (lk s)(RunqueueLock i \<mapsto> c)\<rparr>"
  have sp1: "spl_at c cur cs (Suc (card (held s c))) ?s1" using spl_at_put [OF sp] spl_atE [OF sp] by (metis spl_at_upd(1))
  have pre: "lk ?s1 (IpiLock i) = None" "i < length (cpus ?s1)" using level_invD(5) [OF lv] assms(4) by simp_all
  have q1: "q_inv {} M K (pt ?s1) (ci ?s1) (nodes ?s1) (wch ?s1) Q" using q by (simp add: pt_upd ci_upd)
  obtain n' ts vs' s' where r: "mig_give c i share n ?s1 = Some (n', s')" "gave M K c i share cur rq vs Q ?s1 n' ts vs' s'"
    using mig_give_ok [OF sp1 pre assms(5) q1 assms(6-8)] by blast
  from r(2) obtain h b where g: "s' = given i (set ts) h b ?s1" by (auto simp: gave_def)
  let ?s = "given i (set ts) h b s"
  have "spinlock_release c (RunqueueLock i) s' = Some ?s" unfolding g by (rule lb(2) [OF given_spl_free])
  moreover have gv: "gave M K c i share cur rq vs Q s n' ts vs' ?s"
    using r(2) unfolding gave_def g by (auto simp: pt_upd ci_upd cong: if_cong)
  moreover have "sched_inv M K ?s (Q(Runqueue i \<mapsto> rq @ ts, Victims c \<mapsto> vs'))"
    using gv given_level [OF lv] unfolding gave_def sched_inv_def by blast
  ultimately show ?thesis using lb(1) [OF spl_free_id] r(1) by auto
qed

text \<open>Every processor \<open>i\<close> gets the threads \<open>g i\<close>.\<close>

definition share_out :: "cpuid \<Rightarrow> (cpuid \<Rightarrow> tid list) \<Rightarrow> tid list \<Rightarrow> tqueues \<Rightarrow> tqueues" where
  "share_out c g vs Q l = (case l of Runqueue i \<Rightarrow> map_option (\<lambda>rq. rq @ g i) (Q l) | _ \<Rightarrow> (Q(Victims c \<mapsto> vs)) l)"

lemma share_out_none: "Q (Victims c) = Some vs \<Longrightarrow> share_out c (\<lambda>i. []) vs Q = Q"
  by (auto simp: share_out_def fun_eq_iff option.map_ident split: tlist.split)

lemma share_out_add:
  "Q (Runqueue i) = Some rq \<Longrightarrow> g i = [] \<Longrightarrow> share_out c g vs' (Q(Runqueue i \<mapsto> rq @ ts, Victims c \<mapsto> vs)) = share_out c (g(i := ts)) vs' Q"
  by (auto simp: share_out_def fun_eq_iff split: tlist.split)

definition shares :: "cpuid \<Rightarrow> cpuid list \<Rightarrow> u32 \<Rightarrow> tid \<Rightarrow> tid list \<Rightarrow> tqueues \<Rightarrow> (cpuid \<Rightarrow> tid list) \<Rightarrow> tid list \<Rightarrow> bool" where
  "shares c is share cur vs Q g vs' \<longleftrightarrow>
     (\<forall>i. i \<notin> set is \<or> i = c \<longrightarrow> g i = []) \<and> mset vs = (\<Sum>i\<leftarrow>is. mset (g i)) + mset vs' \<and>
     (\<forall>i rq. Q (Runqueue i) = Some rq \<longrightarrow> g i = [] \<or> length rq + length (g i) \<le> unat share) \<and> (\<forall>i. cur \<notin> set (g i))"

lemma mig_give_all_ok:
  assumes "sched_inv M K s Q" "c < length (cpus s)" "curthread c s = Some cur" "set is \<subseteq> {..<length (cpus s)}" "distinct is"
    and "Q (Victims c) = Some vs" "n \<le> length vs"
  shows "\<exists>s' g vs'. mig_give_all c is share n s = Some s' \<and> sched_inv M K s' (share_out c g vs' Q) \<and>
    shares c is share cur vs Q g vs' \<and> ci s' = ci s \<and> lk s' = lk s"
  using assms
proof (induction "is" arbitrary: s Q vs n)
  case Nil
  then show ?case using share_out_none [of Q c vs] by (intro exI [of _ s] exI [of _ "\<lambda>i. []"] exI [of _ vs]) (simp add: shares_def)
next
  case (Cons i "is")
  have "is": "set is \<subseteq> {..<length (cpus s)}" "distinct is" "i < length (cpus s)" "i \<notin> set is" using Cons.prems(4,5) by auto
  consider "n = 0" | "n \<noteq> 0" "i = c" | "n \<noteq> 0" "i \<noteq> c" by blast
  then show ?case
  proof cases
    case 1
    then show ?thesis using Cons.prems(1) share_out_none [of Q c vs] Cons.prems(6)
      by (intro exI [of _ s] exI [of _ "\<lambda>i. []"] exI [of _ vs]) (simp add: shares_def)
  next
    case 2
    obtain s' g vs' where r: "mig_give_all c is share n s = Some s'" "sched_inv M K s' (share_out c g vs' Q)"
      "shares c is share cur vs Q g vs'" "ci s' = ci s" "lk s' = lk s"
      using Cons.IH [OF Cons.prems(1-3) "is"(1,2) Cons.prems(6,7)] by blast
    have "shares c (i # is) share cur vs Q g vs'" using r(3) 2 unfolding shares_def by simp
    with r 2 show ?thesis by auto
  next
    case 3
    obtain rq where rq: "Q (Runqueue i) = Some rq" by (rule sched_queue [OF Cons.prems(1) "is"(3)])
    obtain n' ts vs1 s1 where r1: "do { s \<leftarrow> spinlock_acquire c (RunqueueLock i) s; (n, s) \<leftarrow> mig_give c i share n s;
        s \<leftarrow> spinlock_release c (RunqueueLock i) s; Some (n, s) } = Some (n', s1)"
      "gave M K c i share cur rq vs Q s n' ts vs1 s1" "sched_inv M K s1 (Q(Runqueue i \<mapsto> rq @ ts, Victims c \<mapsto> vs1))" (is "sched_inv M K s1 ?Q1")
      using give_section [OF Cons.prems(1-3) "is"(3) 3(2) rq Cons.prems(6,7)] by blast
    from r1(2) have f: "ci s1 = ci s" "lk s1 = lk s" "n' \<le> length vs1" "mset vs = mset ts + mset vs1" "ts = [] \<or> length rq + length ts \<le> unat share" "cur \<notin> set ts"
      by (auto simp: gave_def)
    have len: "length (cpus s1) = length (cpus s)" using arg_cong [OF f(1), of length] by simp
    have cur: "curthread c s1 = Some cur" using arg_cong [OF f(1), of "\<lambda>x. fst (x ! c)"] Cons.prems(2,3) len by (simp add: curthread_def)
    have v1: "?Q1 (Victims c) = Some vs1" by simp
    obtain s' g vs' where r: "mig_give_all c is share n' s1 = Some s'" "sched_inv M K s' (share_out c g vs' ?Q1)"
      "shares c is share cur vs1 ?Q1 g vs'" "ci s' = ci s1" "lk s' = lk s1"
      using Cons.IH [OF r1(3) Cons.prems(2) [folded len] cur "is"(1,2) [folded len] v1 f(3)] by blast
    have gi: "g i = []" "g c = []" using r(3) "is"(4) by (simp_all add: shares_def)
    have eq: "map (\<lambda>j. mset (if j = i then ts else g j)) is = map (\<lambda>j. mset (g j)) is" using "is"(4) by auto
    have "shares c (i # is) share cur vs Q (g(i := ts)) vs'"
      using r(3) f(4-6) gi 3(2) rq unfolding shares_def by (auto simp: eq add.assoc)
    moreover have "mig_give_all c (i # is) share n s = Some s'" using r1(1) r(1) 3 by (auto elim!: bindE split: prod.splits)
    ultimately show ?thesis using r(2,4,5) f(1,2) share_out_add [of Q i rq g c vs' ts vs1, OF rq gi(1)] by auto
  qed
qed

section \<open>Putting back what is left\<close>

lemma mig_return_ok:
  assumes "q_inv {} M K P C (nodes s) W Q" "Q (Runqueue c) = Some rq" "Q (Victims c) = Some vs"
  shows "\<exists>h. mig_return c s = Some (s\<lparr>nodes := h\<rparr>) \<and> q_inv {} M K P C h W (Q(Victims c \<mapsto> [], Runqueue c \<mapsto> rq @ vs))"
  using assms
proof (induction vs arbitrary: s Q rq)
  case Nil
  have e: "Q(Victims c \<mapsto> [], Runqueue c \<mapsto> rq @ []) = Q" using Nil by (auto simp: fun_eq_iff)
  have "mig_return c s = Some (s\<lparr>nodes := nodes s\<rparr>)"
    using threadlist_remove_spec(1) [OF q_invD(1) [OF Nil(1)] Nil(3) refl] by (simp add: mig_return.simps [of c s])
  with Nil(1) show ?case unfolding e by blast
next
  case (Cons t vs)
  obtain h h' where h: "threadlist_remhead (Victims c) (nodes s) = Some (Some t, h)" "threadlist_addtail (Runqueue c) t h = Some h'"
    "tl_rep h' (dom P) (Q(Victims c \<mapsto> vs, Runqueue c \<mapsto> rq @ [t]))"
    using tq.move_head_tail [OF q_invD(1) [OF Cons.prems(1)] Cons.prems(3,2)] by auto
  obtain p where p: "P t = Some (S_READY, Some c, p)" using q_invD(3) [OF Cons.prems(1,3), of t] by auto
  have tn: "t \<notin> set vs" using tl_repD(3) [OF q_invD(1) [OF Cons.prems(1)] Cons.prems(3)] by simp
  have same: "P(t \<mapsto> (S_READY, Some c, p)) = P" using p by auto
  have i: "q_inv {} M K P C (nodes (s\<lparr>nodes := h'\<rparr>)) W (Q(Victims c \<mapsto> vs, Runqueue c \<mapsto> rq @ [t]))"
    using q_inv_move [OF Cons.prems(1,3) _ tn _ Cons.prems(2) _ h(3) p, of S_READY c] unfolding same by (simp add: p)
  have q: "(Q(Victims c \<mapsto> vs, Runqueue c \<mapsto> rq @ [t])) (Runqueue c) = Some (rq @ [t])"
    "(Q(Victims c \<mapsto> vs, Runqueue c \<mapsto> rq @ [t])) (Victims c) = Some vs" by simp_all
  have e: "Q(Victims c \<mapsto> vs, Runqueue c \<mapsto> rq @ [t], Victims c \<mapsto> [], Runqueue c \<mapsto> (rq @ [t]) @ vs) = Q(Victims c \<mapsto> [], Runqueue c \<mapsto> rq @ t # vs)"
    by (auto simp: fun_eq_iff)
  have g: "mig_return c s = mig_return c (s\<lparr>nodes := h'\<rparr>)" using h(1,2) by (simp add: mig_return.simps [of c s])
  have n: "s\<lparr>nodes := h', nodes := x\<rparr> = s\<lparr>nodes := x\<rparr>" for x by simp
  show ?case unfolding g by (rule Cons.IH [OF i q, unfolded e n])
qed

text \<open>A change of the lists under the lock of a run queue.\<close>

lemma nodes_section:
  assumes "sched_inv M K s Q" "c < length (cpus s)"
    and "\<And>s'. nodes s' = nodes s \<Longrightarrow> \<exists>h. f s' = Some (s'\<lparr>nodes := h\<rparr>) \<and> q_inv {} M' K' (pt s) (ci s) h (wch s) Q'"
  shows "\<exists>h. do { s \<leftarrow> spinlock_acquire c (RunqueueLock i) s; s \<leftarrow> f s; spinlock_release c (RunqueueLock i) s } = Some (s\<lparr>nodes := h\<rparr>) \<and>
     sched_inv M' K' (s\<lparr>nodes := h\<rparr>) Q'"
proof -
  note lv = sched_invD(1) [OF assms(1)]
  obtain cur cs where sp: "spl_at c cur cs (card (held s c)) s" by (rule sched_cur [OF assms(1,2)]) blast
  note lb = lock_bracket [OF sp level_invD(4) [OF lv, of i] spl_free_nodes]
  let ?s1 = "(spl_put c cur cs (Suc (card (held s c))) s)\<lparr>lk := (lk s)(RunqueueLock i \<mapsto> c)\<rparr>"
  obtain h where h: "f ?s1 = Some (?s1\<lparr>nodes := h\<rparr>)" "q_inv {} M' K' (pt s) (ci s) h (wch s) Q'" using assms(3) [of ?s1] by auto
  have "spinlock_release c (RunqueueLock i) (?s1\<lparr>nodes := h\<rparr>) = Some (s\<lparr>nodes := h\<rparr>)" by (rule lb(2))
  with h lb(1) sched_inv_nodes [OF lv] show ?thesis by auto
qed

section \<open>The whole of a migration\<close>

text \<open>The share of a processor, as it is computed from the counts of the queues.\<close>

definition migration_share :: "sched \<Rightarrow> u32" where
  "migration_share s = DIVROUNDUP (\<Sum>i\<leftarrow>[0..<length (cpus s)]. tl_count (nodes s) (Runqueue i)) (of_nat (length (cpus s)))"

text \<open>The queues when processor \<open>c\<close> keeps \<open>own\<close> and every other processor \<open>i\<close> gets \<open>g i\<close>.\<close>

definition migrated :: "cpuid \<Rightarrow> tid list \<Rightarrow> (cpuid \<Rightarrow> tid list) \<Rightarrow> tqueues \<Rightarrow> tqueues" where
  "migrated c own g Q l = (case l of Runqueue i \<Rightarrow> if i = c then Some own else map_option (\<lambda>rq. rq @ g i) (Q l) | _ \<Rightarrow> Q l)"

lemma migration_small:
  assumes "sched_inv M K s Q" "c < length (cpus s)" "Q (Runqueue c) = Some rq" "length rq < unat (migration_share s)"
  shows "thread_consider_migration c s = Some s"
proof -
  have "tl_count (nodes s) (Runqueue c) < migration_share s"
    using queue_count [OF q_invD(1) [OF sched_invD(2) [OF assms(1)]] assms(3)] assms(4) by (simp add: word_less_nat_alt)
  then show ?thesis
    using mig_count_eq [OF assms(1,2), of "[0..<length (cpus s)]" 0 0] assms(2)
    by (simp add: thread_consider_migration_def migration_share_def Let_def atLeast0LessThan)
qed

lemma migration_end:
  assumes "sched_inv (insert c M) K s Q" "c < length (cpus s)" "c \<notin> M" "Q (Runqueue c) = Some rq" "Q (Victims c) = Some vs"
  shows "\<exists>h. do { s \<leftarrow> (if \<not> threadlist_isempty (Victims c) (nodes s)
                  then do { s \<leftarrow> spinlock_acquire c (RunqueueLock c) s;
                            s \<leftarrow> mig_return c s;
                            spinlock_release c (RunqueueLock c) s }
                  else Some s);
            kassert (threadlist_isempty (Victims c) (nodes s));
            threadlist_cleanup (Victims c) (nodes s);
            Some s } = Some (s\<lparr>nodes := h\<rparr>) \<and> sched_inv M K (s\<lparr>nodes := h\<rparr>) (Q(Runqueue c \<mapsto> rq @ vs, Victims c := None))"
proof -
  note q = sched_invD(2) [OF assms(1)]
  let ?Q = "Q(Victims c \<mapsto> [], Runqueue c \<mapsto> rq @ vs)"
  have "\<exists>h. (if \<not> threadlist_isempty (Victims c) (nodes s)
                  then do { s \<leftarrow> spinlock_acquire c (RunqueueLock c) s;
                            s \<leftarrow> mig_return c s;
                            spinlock_release c (RunqueueLock c) s }
                  else Some s) = Some (s\<lparr>nodes := h\<rparr>) \<and> sched_inv (insert c M) K (s\<lparr>nodes := h\<rparr>) ?Q"
  proof (cases "vs = []")
    case True
    have "?Q = Q" using True assms(4,5) by (auto simp: fun_eq_iff)
    then show ?thesis using threadlist_cleanup_spec(1) [OF q_invD(1) [OF q] assms(5)] True assms(1)
      by (intro exI [of _ "nodes s"]) simp
  next
    case False
    have "\<exists>h. mig_return c s' = Some (s'\<lparr>nodes := h\<rparr>) \<and> q_inv {} (insert c M) K (pt s) (ci s) h (wch s) ?Q" if "nodes s' = nodes s" for s'
      by (rule mig_return_ok) (use q that assms(4,5) in simp_all)
    from nodes_section [OF assms(1,2) this, where i = c] False threadlist_cleanup_spec(1) [OF q_invD(1) [OF q] assms(5)]
    show ?thesis by auto
  qed
  then obtain h where h: "(if \<not> threadlist_isempty (Victims c) (nodes s)
                  then do { s \<leftarrow> spinlock_acquire c (RunqueueLock c) s;
                            s \<leftarrow> mig_return c s;
                            spinlock_release c (RunqueueLock c) s }
                  else Some s) = Some (s\<lparr>nodes := h\<rparr>)" "sched_inv (insert c M) K (s\<lparr>nodes := h\<rparr>) ?Q" by blast
  note q' = sched_invD(2) [OF h(2)]
  have v: "?Q (Victims c) = Some []" by simp
  have e: "?Q(Victims c := None) = Q(Runqueue c \<mapsto> rq @ vs, Victims c := None)" by (auto simp: fun_eq_iff)
  have "sched_inv M K (s\<lparr>nodes := h\<rparr>) (?Q(Victims c := None))"
    unfolding sched_inv_def
    by (intro conjI sched_invD(1) [OF h(2)] q_inv_drop_list [OF q' v] lists_ok_victims(2) [OF q_invD(2) [OF q'] assms(3)])
  with h(1) threadlist_cleanup_spec [OF q_invD(1) [OF q'] v] show ?thesis unfolding e by auto
qed

lemma migration_large:
  assumes "sched_inv M K s Q" "c < length (cpus s)" "c \<notin> M" "Q (Runqueue c) = Some rq" "unat (migration_share s) \<le> length rq"
    and "curthread c s = Some cur"
  shows "\<exists>s' g rest. thread_consider_migration c s = Some s' \<and>
    sched_inv M K s' (migrated c (take (unat (migration_share s)) rq @ rest) g Q) \<and>
    shares c [0..<length (cpus s)] (migration_share s) cur (drop (unat (migration_share s)) rq) Q g rest \<and>
    ci s' = ci s \<and> lk s' = lk s"
proof -
  note lv = sched_invD(1) [OF assms(1)] and q = sched_invD(2) [OF assms(1)]
  let ?sh = "migration_share s" and ?k = "unat (migration_share s)"
  have cnt: "unat (tl_count (nodes s) (Runqueue c)) = length rq" by (rule queue_count [OF q_invD(1) [OF q] assms(4)])
  then have ge: "\<not> tl_count (nodes s) (Runqueue c) < ?sh" using assms(5) by (simp add: word_less_nat_alt)
  have snd: "unat (tl_count (nodes s) (Runqueue c) - ?sh) = length rq - ?k"
    using ge cnt by (simp add: unat_sub word_le_nat_alt word_less_nat_alt)
  have none: "Q (Victims c) = None" using lists_okD(4) [OF q_invD(2) [OF q], of c] assms(3) by simp
  let ?s1 = "s\<lparr>nodes := threadlist_init (Victims c) (nodes s)\<rparr>" and ?Q1 = "Q(Victims c \<mapsto> [])"
  have i1: "sched_inv (insert c M) K ?s1 ?Q1"
    by (intro sched_inv_nodes [OF lv] q_inv_new_list [OF q none] lists_ok_victims(1) q_invD(2) [OF q])
  let ?Q2 = "?Q1(Runqueue c \<mapsto> take ?k rq, Victims c \<mapsto> drop ?k rq)"
  have "\<exists>h. mig_take c (length rq - ?k) s' = Some (s'\<lparr>nodes := h\<rparr>) \<and> q_inv {} (insert c M) K (pt ?s1) (ci ?s1) h (wch ?s1) ?Q2"
    if n: "nodes s' = nodes ?s1" for s'
  proof -
    have "\<exists>h. mig_take c (length rq - ?k) s' = Some (s'\<lparr>nodes := h\<rparr>) \<and> q_inv {} (insert c M) K (pt ?s1) (ci ?s1) h (wch ?s1)
      (?Q1(Runqueue c \<mapsto> take (length rq - (length rq - ?k)) rq, Victims c \<mapsto> drop (length rq - (length rq - ?k)) rq @ []))"
      by (rule mig_take_ok) (use sched_invD(2) [OF i1] n assms(4) in simp_all)
    then show ?thesis using assms(5) by simp
  qed
  from nodes_section [OF i1 _ this, where i = c] assms(2) obtain h2 where
    h2: "do { s \<leftarrow> spinlock_acquire c (RunqueueLock c) ?s1; s \<leftarrow> mig_take c (length rq - ?k) s; spinlock_release c (RunqueueLock c) s } = Some (?s1\<lparr>nodes := h2\<rparr>)"
    "sched_inv (insert c M) K (?s1\<lparr>nodes := h2\<rparr>) ?Q2" by auto
  let ?s2 = "?s1\<lparr>nodes := h2\<rparr>"
  have v2: "?Q2 (Victims c) = Some (drop ?k rq)" by simp
  have pre: "c < length (cpus ?s2)" "curthread c ?s2 = Some cur" "set [0..<length (cpus s)] \<subseteq> {..<length (cpus ?s2)}" "distinct [0..<length (cpus s)]" "length rq - ?k \<le> length (drop ?k rq)"
    using assms(2,6) by (auto simp: curthread_def)
  obtain s3 g rest where r: "mig_give_all c [0..<length (cpus s)] ?sh (length rq - ?k) ?s2 = Some s3"
    "sched_inv (insert c M) K s3 (share_out c g rest ?Q2)" "shares c [0..<length (cpus s)] ?sh cur (drop ?k rq) ?Q2 g rest" "ci s3 = ci ?s2" "lk s3 = lk ?s2"
    using mig_give_all_ok [OF h2(2) pre(1-4) v2 pre(5), where share = ?sh] by blast
  let ?Q3 = "share_out c g rest ?Q2"
  have gc: "g c = []" using r(3) by (simp add: shares_def)
  have c3: "c < length (cpus s3)" using arg_cong [OF r(4), of length] assms(2) by (simp add: ci_upd)
  have q3: "?Q3 (Runqueue c) = Some (take ?k rq)" "?Q3 (Victims c) = Some rest" using gc by (simp_all add: share_out_def)
  from migration_end [OF r(2) c3 assms(3) q3] obtain h4 where
    h4: "do { s \<leftarrow> (if \<not> threadlist_isempty (Victims c) (nodes s3)
                  then do { s \<leftarrow> spinlock_acquire c (RunqueueLock c) s3; s \<leftarrow> mig_return c s; spinlock_release c (RunqueueLock c) s }
                  else Some s3);
            kassert (threadlist_isempty (Victims c) (nodes s)); threadlist_cleanup (Victims c) (nodes s); Some s } = Some (s3\<lparr>nodes := h4\<rparr>)"
    "sched_inv M K (s3\<lparr>nodes := h4\<rparr>) (?Q3(Runqueue c \<mapsto> take ?k rq @ rest, Victims c := None))" by blast
  have e: "?Q3(Runqueue c \<mapsto> take ?k rq @ rest, Victims c := None) = migrated c (take ?k rq @ rest) g Q"
    using none by (auto simp: share_out_def migrated_def fun_eq_iff split: tlist.split)
  have sh: "shares c [0..<length (cpus s)] ?sh cur (drop ?k rq) Q g rest"
    using r(3) gc unfolding shares_def by (auto split: if_splits)
  from h2(1) obtain a b where "spinlock_acquire c (RunqueueLock c) ?s1 = Some a" "mig_take c (length rq - ?k) a = Some b"
    "spinlock_release c (RunqueueLock c) b = Some ?s2" by (auto elim!: bindE)
  then have "thread_consider_migration c s = Some (s3\<lparr>nodes := h4\<rparr>)"
    using mig_count_eq [OF assms(1,2), of "[0..<length (cpus s)]" 0 0] ge snd r(1) h4(1) assms(2)
    by (simp add: thread_consider_migration_def migration_share_def [symmetric] Let_def atLeast0LessThan)
  with h4(2) [unfolded e] sh r(4,5) show ?thesis by (auto simp: ci_upd)
qed

end
