(* ===== verification/Sched_Machine.thy ===== *)
theory Sched_Machine
  imports Migration
begin

text \<open>
  The thread system as a machine: processors, from the boot of the system on, execute the
  operations of thread.c in any order, one critical section at a time. Every operation a
  processor may execute runs through without a failed assertion, and every thread is in exactly
  one place.
\<close>

section \<open>Spinlocks, levels and interrupts\<close>

lemma level_quiet:
  "ci ((spl_put c t k m s)\<lparr>lk := L\<rparr>) = ci s" "intr ((spl_put c t k m s)\<lparr>lk := L\<rparr>) = intr s"
proof -
  show "ci ((spl_put c t k m s)\<lparr>lk := L\<rparr>) = ci s" by (rule nth_equalityI) (simp_all add: spl_cpu_def)
  show "intr ((spl_put c t k m s)\<lparr>lk := L\<rparr>) = intr s" by (auto simp: intr_def fun_eq_iff spl_thr_def option.map_comp comp_def)
qed

lemma acquire_ok:
  assumes "sched_inv M K s Q" "c < length (cpus s)" "lk s (OtherLock k) = None"
  shows "\<exists>s'. spinlock_acquire c (OtherLock k) s = Some s' \<and> sched_inv M K s' Q \<and>
    lk s' = (lk s)(OtherLock k \<mapsto> c) \<and> wch s' = wch s \<and> ci s' = ci s \<and> intr s' = intr s"
proof -
  note lv = sched_invD(1) [OF assms(1)]
  obtain t cs where t: "spl_at c t cs (card (held s c)) s" "c_isidle (cpus s ! c) \<Longrightarrow> cs = 1" "finite (held s c)" by (rule sched_cur [OF assms(1,2)]) blast
  have h: "{l. ((lk s)(OtherLock k \<mapsto> c)) l = Some c} = insert (OtherLock k) (held s c)" "OtherLock k \<notin> held s c"
    using assms(3) by (auto simp: held_def)
  have "sched_inv M K ((spl_put c t cs (Suc (card (held s c))) s)\<lparr>lk := (lk s)(OtherLock k \<mapsto> c)\<rparr>) Q"
    by (rule level_set [OF assms(1) t(1)])
      (use t assms(3) lv h in \<open>auto simp: spl_at_def held_def level_inv_def split: if_splits\<close>)
  then show ?thesis using spinlock_acquire_eq [OF t(1)] assms(3) by (simp add: level_quiet)
qed

lemma release_ok:
  assumes "sched_inv M K s Q" "c < length (cpus s)" "lk s (OtherLock k) = Some c"
  shows "\<exists>s'. spinlock_release c (OtherLock k) s = Some s' \<and> sched_inv M K s' Q \<and>
    lk s' = (lk s)(OtherLock k := None) \<and> wch s' = wch s \<and> ci s' = ci s \<and> intr s' = intr s"
proof -
  note lv = sched_invD(1) [OF assms(1)]
  obtain t cs where t: "spl_at c t cs (card (held s c)) s" "c_isidle (cpus s ! c) \<Longrightarrow> cs = 1" "finite (held s c)" by (rule sched_cur [OF assms(1,2)]) blast
  have m: "OtherLock k \<in> held s c" using assms(3) by (simp add: held_def)
  have h: "{l. ((lk s)(OtherLock k := None)) l = Some c} = held s c - {OtherLock k}"
    using assms(3) by (auto simp: held_def)
  have "sched_inv M K ((spl_put c t cs (card (held s c) - 1) s)\<lparr>lk := (lk s)(OtherLock k := None)\<rparr>) Q"
    by (rule level_set [OF assms(1) t(1)])
      (use t assms(3) lv h m in \<open>auto simp: spl_at_def held_def level_inv_def split: if_splits\<close>)
  moreover have "0 < card (held s c)" using m t(3) by (metis card_gt_0_iff empty_iff)
  ultimately show ?thesis using spinlock_release_eq [OF t(1)] assms(3) by (simp add: level_quiet)
qed

lemma splx_ok:
  assumes "sched_inv M K s Q" "c < length (cpus s)" "k = 0 \<or> k = 1" "c_isidle (cpus s ! c) \<Longrightarrow> k = 1"
  shows "\<exists>r s'. splx c k s = Some (r, s') \<and> sched_inv M K s' Q \<and> lk s' = lk s \<and> wch s' = wch s"
proof -
  obtain t cs where t: "spl_at c t cs (card (held s c)) s" by (rule sched_cur [OF assms(1,2)]) blast
  from level_put [OF assms(1) t assms(3,4)] splx_eq [OF t assms(3)] show ?thesis by auto
qed

text \<open>Changes that the invariant does not see.\<close>

lemma level_inv_quiet:
  assumes "level_inv s" "\<And>p. c_curthread (g p) = c_curthread p" "\<And>p. c_spinlocks (g p) = c_spinlocks p" "\<And>p. c_irq (g p) = c_irq p" "\<And>p. c_isidle (g p) = c_isidle p"
    and "\<And>th. t_curspl (f th) = t_curspl th" "\<And>th. t_iplhigh_count (f th) = t_iplhigh_count th" "\<And>th. t_spl (f th) = t_spl th" "\<And>th. t_stack (f th) = t_stack th"
  shows "level_inv (upd_cpu d g (upd_thr t f s))"
  by (rule level_inv_cong [OF assms(1)]) (auto simp: nth_upd option.rel_map assms(2-) split: if_splits intro: rel_option_reflI)

lemma quiet_ok:
  assumes "sched_inv M K s Q" "\<And>p. c_curthread (g p) = c_curthread p" "\<And>p. c_spinlocks (g p) = c_spinlocks p" "\<And>p. c_irq (g p) = c_irq p" "\<And>p. c_isidle (g p) = c_isidle p"
    and "\<And>th. t_curspl (f th) = t_curspl th" "\<And>th. t_iplhigh_count (f th) = t_iplhigh_count th" "\<And>th. t_spl (f th) = t_spl th" "\<And>th. t_stack (f th) = t_stack th"
    and "\<And>th. t_state (f th) = t_state th" "\<And>th. t_cpu (f th) = t_cpu th" "\<And>th. t_proc (f th) = t_proc th"
  shows "sched_inv M K (upd_cpu d g (upd_thr t f s)) Q"
proof -
  have "pt (upd_cpu d g (upd_thr t f s)) = pt s" unfolding pt_upd by (auto simp: pt_def fun_eq_iff assms(10-))
  moreover have "ci (upd_cpu d g (upd_thr t f s)) = ci s" using ci_same [of g d "upd_thr t f s"] assms(2,5) by (simp add: ci_upd)
  moreover have "level_inv (upd_cpu d g (upd_thr t f s))" by (rule level_inv_quiet [OF sched_invD(1) [OF assms(1)] assms(2-9)])
  ultimately show ?thesis using sched_invD(2) [OF assms(1)] by (simp add: sched_inv_def)
qed

lemma upd_none [simp]: "upd_cpu d (\<lambda>p. p) s = s" "upd_thr t (\<lambda>th. th) s = s"
  by (simp_all add: upd_cpu_def upd_thr_def option.map_ident fun_upd_idem)

lemmas thread_quiet = quiet_ok [where g = "\<lambda>p. p" and d = 0, unfolded upd_none(1)]
  and cpu_quiet = quiet_ok [where f = "\<lambda>th. th" and t = 0, unfolded upd_none(2)]

lemma irq_enter_ok:
  assumes "sched_inv M K s Q" "c < length (cpus s)" "c_irq (cpus s ! c) \<or> c_isidle (cpus s ! c)"
  shows "\<exists>r s'. irq_enter c s = Some (r, s') \<and> sched_inv M K s' Q \<and> lk s' = lk s \<and> wch s' = wch s"
proof -
  obtain t th cs where t: "spl_at c t cs (card (held s c)) s" "c_isidle (cpus s ! c) \<Longrightarrow> cs = 1" "thr s t = Some th"
    by (rule sched_cur [OF assms(1,2)]) blast
  let ?f = "\<lambda>th. th\<lparr>t_in_interrupt := True\<rparr>"
  have f: "c_curthread (cpus s ! c) = Some t" "t_curspl th = cs" "t_iplhigh_count th = cs + int (card (held s c))"
    "c_irq (cpus s ! c) = (cs = 0 \<and> card (held s c) = 0)" "cs = 0 \<or> cs = 1" using t(1,3) by (auto simp: spl_at_def)
  show ?thesis
  proof (cases "cs = 0")
    case True
    with assms(3) t(2) f(4) have n: "card (held s c) = 0" by auto
    have "sched_inv M K (upd_thr t ?f (spl_put c t 1 (card (held s c)) s)) Q"
      by (intro thread_quiet level_put [OF assms(1) t(1)]) simp_all
    moreover have "irq_enter c s = Some ((t_in_interrupt th, True), upd_thr t ?f (spl_put c t 1 (card (held s c)) s))"
    proof -
      have "(cpus s ! c)\<lparr>c_spinlocks := 0\<rparr> = cpus s ! c" using t(1) n by (simp add: spl_at_def)
      moreover have o: "th\<lparr>t_curspl := a, t_iplhigh_count := b, t_in_interrupt := x\<rparr> = th\<lparr>t_in_interrupt := x, t_curspl := a, t_iplhigh_count := b\<rparr>" for a b x by simp
      ultimately show ?thesis using True n f t(3) assms(2)
        by (simp add: irq_enter_def on_cpu_def on_thr_def curthread_def upd_thr_def spl_put_def spl_thr_def spl_cpu_def IPL_HIGH_def rec_order) (simp only: o)
    qed
    ultimately show ?thesis by auto
  next
    case False
    have "(cpus s)[c := (cpus s ! c)\<lparr>c_irq := False\<rparr>] = cpus s" using False f(4) by (simp add: list_update_same_conv assms(2))
    then have "irq_enter c s = Some ((t_in_interrupt th, False), upd_thr t ?f s)"
      using False f t(3) assms(2) by (simp add: irq_enter_def on_cpu_def on_thr_def curthread_def upd_thr_def)
    moreover have "sched_inv M K (upd_thr t ?f s) Q" by (rule thread_quiet [OF assms(1)]) simp_all
    ultimately show ?thesis by auto
  qed
qed

lemma irq_exit_ok:
  assumes "sched_inv M K s Q" "c < length (cpus s)"
    and "doadjust \<Longrightarrow> held s c = {} \<and> \<not> c_isidle (cpus s ! c) \<and> (\<exists>t th. curthread c s = Some t \<and> thr s t = Some th \<and> t_curspl th = IPL_HIGH)"
  shows "\<exists>s'. irq_exit c old_in doadjust s = Some s' \<and> sched_inv M K s' Q \<and> lk s' = lk s \<and> wch s' = wch s"
proof -
  obtain t th cs where t: "spl_at c t cs (card (held s c)) s" "thr s t = Some th" by (rule sched_cur [OF assms(1,2)]) blast
  have f: "c_curthread (cpus s ! c) = Some t" "t_curspl th = cs" "t_iplhigh_count th = cs + int (card (held s c))"
    "curthread c s = Some t" using t assms(2) by (auto simp: spl_at_def curthread_def)
  let ?f = "\<lambda>th. th\<lparr>t_in_interrupt := old_in\<rparr>"
  show ?thesis
  proof (cases doadjust)
    case True
    with assms(3) f t(2) have a: "cs = 1" "held s c = {}" "\<not> c_isidle (cpus s ! c)" by (auto simp: IPL_HIGH_def)
    have "sched_inv M K (upd_thr t ?f (spl_put c t 0 (card (held s c)) s)) Q"
      by (intro thread_quiet level_put [OF assms(1) t(1)]) (use a(3) in simp_all)
    moreover have "irq_exit c old_in doadjust s = Some (upd_thr t ?f (spl_put c t 0 (card (held s c)) s))"
    proof -
      have "(cpus s ! c)\<lparr>c_spinlocks := 0\<rparr> = cpus s ! c" using t(1) a(2) by (simp add: spl_at_def)
      then show ?thesis using True a f t(2) assms(2)
        by (simp add: irq_exit_def on_cpu_def on_thr_def upd_thr_def spl_put_def spl_thr_def spl_cpu_def IPL_HIGH_def rec_order)
    qed
    ultimately show ?thesis by simp
  next
    case False
    then have "irq_exit c old_in doadjust s = Some (upd_thr t ?f s)" using f t(2) by (simp add: irq_exit_def on_thr_def upd_thr_def)
    moreover have "sched_inv M K (upd_thr t ?f s) Q" by (rule thread_quiet [OF assms(1)]) simp_all
    ultimately show ?thesis by simp
  qed
qed

section \<open>Interprocessor interrupts\<close>

lemma ipi_send_ok:
  assumes "sched_inv M K s Q" "c < length (cpus s)" "d < length (cpus s)" "code < 32"
  shows "\<exists>s'. ipi_send c d code s = Some s' \<and> sched_inv M K s' Q \<and> lk s' = lk s \<and> wch s' = wch s"
proof -
  obtain t cs where t: "spl_at c t cs (card (held s c)) s" by (rule sched_cur [OF assms(1,2)]) blast
  have "sched_inv M K (upd_cpu d (\<lambda>p. p\<lparr>c_ipi_pending := c_ipi_pending p OR push_bit code 1\<rparr>) s) Q"
    by (rule cpu_quiet [OF assms(1)]) simp_all
  with ipi_send_eq [OF t assms(3) level_invD(5) [OF sched_invD(1) [OF assms(1)]] assms(4)] show ?thesis by simp
qed

lemma ipi_broadcast_ok:
  assumes "sched_inv M K s Q" "c < length (cpus s)" "code < 32" "set is \<subseteq> {..<length (cpus s)}"
  shows "\<exists>s'. ipi_broadcast_from c code is s = Some s' \<and> sched_inv M K s' Q"
  using assms
proof (induction "is" arbitrary: s)
  case (Cons i "is")
  show ?case
  proof (cases "i = c")
    case True
    with Cons show ?thesis by simp
  next
    case False
    obtain t cs where t: "spl_at c t cs (card (held s c)) s" by (rule sched_cur [OF Cons.prems(1,2)]) blast
    let ?s = "upd_cpu i (\<lambda>p. p\<lparr>c_ipi_pending := c_ipi_pending p OR push_bit code 1\<rparr>) s"
    have "sched_inv M K ?s Q" by (rule cpu_quiet [OF Cons.prems(1)]) simp_all
    with Cons.IH [of ?s] Cons.prems(2-4) have "\<exists>s'. ipi_broadcast_from c code is ?s = Some s' \<and> sched_inv M K s' Q" by simp
    with ipi_send_eq [OF t _ level_invD(5) [OF sched_invD(1) [OF Cons.prems(1)]] assms(3), of i] Cons.prems(4) False show ?thesis by simp
  qed
qed simp

lemma interprocessor_interrupt_ok:
  assumes "sched_inv M K s Q" "c < length (cpus s)" "c_shootdown (cpus s ! c) = []"
  shows "\<exists>s'. interprocessor_interrupt c s = Some s' \<and> sched_inv M K s' Q \<and> lk s' = lk s \<and> wch s' = wch s"
proof -
  note lv = sched_invD(1) [OF assms(1)]
  obtain t cs where t: "spl_at c t cs (card (held s c)) s" by (rule sched_cur [OF assms(1,2)]) blast
  note lb = lock_bracket [OF t level_invD(5) [OF lv, of c]] lock_bracket [OF t level_invD(4) [OF lv, of c] spl_free_id]
  note id = lb(1,2) [OF spl_free_id] and z = lb(2) [OF spl_free_pending [of c 0]]
  have n: "\<exists>s'. on_cpu c (\<lambda>p. p\<lparr>c_halted := True\<rparr>) s = Some s' \<and> sched_inv M K s' Q \<and> lk s' = lk s \<and> wch s' = wch s"
    using assms(2) by (auto simp: on_cpu_upd intro: cpu_quiet [OF assms(1)])
  have p: "sched_inv M K (upd_cpu c (\<lambda>p. p\<lparr>c_ipi_pending := 0\<rparr>) s) Q" by (rule cpu_quiet [OF assms(1)]) simp_all
  show ?thesis using id z lb(3,4) n p assms(2,3) by (simp add: interprocessor_interrupt_def Let_def spl_cpu_def on_cpu_upd)
qed

section \<open>Processes and wait channels\<close>

lemma remthread_ok:
  assumes "sched_inv M K s Q" "c < length (cpus s)" "\<not> c_isidle (cpus s ! c)"
    and "curthread c s = Some t" "thr s t = Some th" "t_proc th = Some p" "p_numthreads s p = Some (Suc n)"
  shows "\<exists>s'. proc_remthread c t s = Some s' \<and> sched_inv M K s' Q \<and> thr s' = (thr s)(t \<mapsto> th\<lparr>t_proc := None\<rparr>) \<and>
    p_numthreads s' = (p_numthreads s)(p \<mapsto> n) \<and> cpus s' = cpus s \<and> lk s' = lk s \<and> wch s' = wch s"
proof -
  note lv = sched_invD(1) [OF assms(1)] and q = sched_invD(2) [OF assms(1)]
  obtain t' cs where t': "spl_at c t' cs (card (held s c)) s" by (rule sched_cur [OF assms(1,2)]) blast
  let ?s1 = "s\<lparr>p_numthreads := (p_numthreads s)(p \<mapsto> n)\<rparr>"
  let ?s' = "upd_thr t (\<lambda>th. th\<lparr>t_proc := None\<rparr>) ?s1"
  have run: "proc_remthread c t s = Some ?s'"
    using proc_remthread_eq [OF t' assms(5,6,7) _ level_invD(6) [OF lv]] by simp
  have c: "ci s ! c = (Some t, False)" using assms(2-4) by (simp add: curthread_def)
  have own: "t_cpu th = Some c" using other_current [OF q assms(2) _ assms(5)] assms(2,4) by (simp add: curthread_def)
  obtain st where st: "pt s t = Some (st, Some c, Some p)" "unlisted t Q" "st = S_RUN \<or> st = S_READY"
    using q_invD(5) [OF q, of c] c assms(2,5,6) own by (auto simp: cpu_ok_def pt_def)
  have "q_inv {} M K ((pt s)(t \<mapsto> (st, Some c, None))) (ci s) (nodes s) (wch s) Q"
  proof (rule q_inv_change [OF q, where t = t])
    have "dom ((pt s)(t \<mapsto> (st, Some c, None))) = dom (pt s)" using assms(5) by auto
    then show "tl_rep (nodes s) (dom ((pt s)(t \<mapsto> (st, Some c, None)))) Q" using q_invD(1) [OF q] by simp
    show "\<exists>c<length (ci s). ci s ! c = (Some t, False)" using c assms(2) by (auto simp del: ci_nth)
    show "cpu_ok ((pt s)(t \<mapsto> (st, Some c, None))) (ci s) Q d" if "d < length (ci s)" "ci s ! d \<noteq> ci s ! d \<or> fst (ci s ! d) = Some t" for d
    proof -
      have "d = c" using own_cpu [OF q that(1) _ st(1)] that(2) by auto
      with c st(2,3) show ?thesis by (simp add: cpu_ok_def)
    qed
  qed (use st(2) in \<open>auto simp: unlisted_def\<close>)
  moreover have "pt ?s' = (pt s)(t \<mapsto> (st, Some c, None))" using st(1) by (auto simp: pt_def fun_eq_iff)
  moreover have "ci ?s' = ci s" by (simp add: ci_def)
  moreover have "level_inv ?s'" by (rule level_inv_cong [OF lv]) (auto simp: option.rel_map intro: rel_option_reflI)
  ultimately show ?thesis using run assms(5) by (simp add: sched_inv_def)
qed

lemma wchan_create_ok:
  assumes "sched_inv M K s Q" "wch s w = None"
  shows "sched_inv M K (snd (wchan_create (Some w) name s)) (Q(WcThreads w \<mapsto> []))"
proof -
  note lv = sched_invD(1) [OF assms(1)] and q = sched_invD(2) [OF assms(1)]
  have none: "Q (WcThreads w) = None" using lists_okD(3) [OF q_invD(2) [OF q], of w] assms(2) by simp
  have "lists_ok M K (length (ci s)) ((wch s)(w \<mapsto> name)) (Q(WcThreads w \<mapsto> []))" using q_invD(2) [OF q] by (simp add: lists_ok_def)
  from q_inv_new_list [OF q none this] have "q_inv {} M K (pt s) (ci s) (threadlist_init (WcThreads w) (nodes s)) ((wch s)(w \<mapsto> name)) (Q(WcThreads w \<mapsto> []))" .
  moreover have "level_inv (snd (wchan_create (Some w) name s))" by (rule level_inv_cong [OF lv]) (simp_all add: wchan_create_def rel_option_reflI)
  moreover have "pt (snd (wchan_create (Some w) name s)) = pt s" "ci (snd (wchan_create (Some w) name s)) = ci s"
    by (simp_all add: wchan_create_def pt_def ci_def fun_eq_iff)
  ultimately show ?thesis by (simp add: sched_inv_def) (simp add: wchan_create_def)
qed

lemma wchan_destroy_ok:
  assumes "sched_inv M K s Q" "Q (WcThreads w) = Some []"
  shows "\<exists>s'. wchan_destroy w s = Some s' \<and> sched_inv M K s' (Q(WcThreads w := None))"
proof -
  note lv = sched_invD(1) [OF assms(1)] and q = sched_invD(2) [OF assms(1)]
  let ?s = "s\<lparr>wch := (wch s)(w := None)\<rparr>"
  have "lists_ok M K (length (ci s)) ((wch s)(w := None)) (Q(WcThreads w := None))" using q_invD(2) [OF q] by (simp add: lists_ok_def)
  from q_inv_drop_list [OF q assms(2) this] have "q_inv {} M K (pt ?s) (ci ?s) (nodes ?s) (wch ?s) (Q(WcThreads w := None))"
    by (simp add: pt_def [abs_def] ci_def)
  moreover have "level_inv ?s" by (rule level_inv_cong [OF lv]) (simp_all add: rel_option_reflI)
  ultimately show ?thesis
    using threadlist_cleanup_spec(2) [OF q_invD(1) [OF q] assms(2)] by (simp add: wchan_destroy_def sched_inv_def)
qed

section \<open>Starting processors\<close>

lemma q_inv_new_cpu:
  assumes "q_inv {} M K P C h W Q" "P t = None" "length C \<notin> M" "length C \<notin> K"
    and "tl_rep h' (insert t (dom P)) (Q(Zombies (length C) \<mapsto> [], Runqueue (length C) \<mapsto> []))"
  shows "q_inv {} M K (P(t \<mapsto> (S_READY, Some (length C), p))) (C @ [(Some t, False)]) h' W (Q(Zombies (length C) \<mapsto> [], Runqueue (length C) \<mapsto> []))"
    (is "q_inv {} M K ?P ?C h' W ?Q")
proof -
  note D = q_invD [OF assms(1)]
  have none: "Q (Zombies (length C)) = None" "Q (Runqueue (length C)) = None" using lists_okD(1,2) [OF D(2), of "length C"] by simp_all
  have un: "unlisted t Q" unfolding unlisted_def using tl_repD(4) [OF D(1)] assms(2) by blast
  have ul: "unlisted x ?Q \<longleftrightarrow> unlisted x Q" for x
  proof
    assume u: "unlisted x ?Q"
    have "x \<notin> set ts" if q: "Q l = Some ts" for l ts
    proof -
      have "?Q l = Some ts" using q none by auto
      with u show ?thesis by (simp add: unlisted_def)
    qed
    then show "unlisted x Q" by (simp add: unlisted_def)
  qed (auto simp: unlisted_def)
  have ok: "list_ok ?P (length ?C) l x" if "Q l = Some ts" "x \<in> set ts" for l ts x
  proof -
    have "x \<noteq> t" using un that by (auto simp: unlisted_def)
    with D(3) [OF that] show ?thesis by (cases l) fastforce+
  qed
  show ?thesis
    unfolding q_inv_def
  proof (intro conjI allI ballI impI)
    show "tl_rep h' (dom ?P) ?Q" using assms(5) by simp
    show "lists_ok M K (length ?C) W ?Q" using D(2) by (auto simp: lists_ok_def less_Suc_eq)
    show "list_ok ?P (length ?C) l x" if "?Q l = Some ts" "x \<in> set ts" for l ts x
      using that ok [of l ts x] by (auto split: if_splits)
    show "\<exists>c<length ?C. ?C ! c = (Some x, False)" if d: "x \<in> dom ?P" "unlisted x ?Q" for x
    proof (cases "x = t")
      case True
      then show ?thesis by (intro exI [of _ "length C"]) simp
    next
      case False
      then obtain c where "c < length C" "C ! c = (Some x, False)" using D(4) [of x] d ul by auto
      then show ?thesis by (intro exI [of _ c]) (simp add: nth_append)
    qed
    show "cpu_ok ?P ?C ?Q c" if "c < length ?C" for c
    proof (cases "c = length C")
      case True
      then show ?thesis using un ul by (simp add: cpu_ok_def)
    next
      case False
      then have c: "c < length C" using that by simp
      from D(5) [OF this] obtain u st p where u: "fst (C ! c) = Some u" "P u = Some (st, Some c, p)" "\<not> snd (C ! c) \<longrightarrow> unlisted u Q \<and> (st = S_RUN \<or> st = S_READY)"
        by (auto simp: cpu_ok_def)
      with assms(2) have "u \<noteq> t" by auto
      with u c ul show ?thesis by (auto simp: cpu_ok_def nth_append)
    qed
  qed
qed

lemma level_inv_new_cpu:
  assumes "level_inv s" "thr s t = None" "\<And>c. c < length (cpus s) \<Longrightarrow> c_curthread (cpus s ! c) \<noteq> Some t" "held s (length (cpus s)) = {}"
    and "t_curspl th = 1" "t_iplhigh_count th = 1" "t_spl th = 0" "guarded th"
    and "c_curthread p = Some t" "c_spinlocks p = 0" "\<not> c_irq p" "\<not> c_isidle p"
  shows "level_inv (s\<lparr>thr := (thr s)(t \<mapsto> th), cpus := cpus s @ [p], nodes := h, p_numthreads := x\<rparr>)" (is "level_inv ?s")
proof -
  have he: "held ?s = held s" by (simp add: held_def fun_eq_iff)
  show ?thesis
    unfolding level_inv_def
  proof (intro conjI allI impI)
    fix c assume "c < length (cpus ?s)"
    then consider "c = length (cpus s)" | "c < length (cpus s)" by fastforce
    then show "finite (held ?s c)" "\<exists>t cs. spl_at c t cs (card (held ?s c)) ?s \<and> (c_isidle (cpus ?s ! c) \<longrightarrow> cs = 1)"
    proof (atomize (full), cases)
      case 1
      then show "finite (held ?s c) \<and> (\<exists>t cs. spl_at c t cs (card (held ?s c)) ?s \<and> (c_isidle (cpus ?s ! c) \<longrightarrow> cs = 1))"
        using he assms(4-) by (auto simp: spl_at_def intro!: exI [of _ t] exI [of _ 1])
    next
      case 2
      then obtain u cs where u: "spl_at c u cs (card (held s c)) s" "c_isidle (cpus s ! c) \<Longrightarrow> cs = 1" "finite (held s c)" by (rule level_invE [OF assms(1)]) blast
      then have "u \<noteq> t" using assms(2) by (auto simp: spl_at_def)
      with u 2 he show "finite (held ?s c) \<and> (\<exists>t cs. spl_at c t cs (card (held ?s c)) ?s \<and> (c_isidle (cpus ?s ! c) \<longrightarrow> cs = 1))"
        by (auto simp: spl_at_def nth_append intro!: exI [of _ u] exI [of _ cs])
    qed
  next
    fix x y assume xy: "thr ?s x = Some y"
    show "t_spl y = 0 \<or> t_spl y = 1" "guarded y" using xy level_invD(1,2) [OF assms(1), of x y] assms(7,8) by (auto split: if_splits)
    assume nc: "\<forall>c<length (cpus ?s). c_curthread (cpus ?s ! c) \<noteq> Some x"
    have "x \<noteq> t" using nc [rule_format, of "length (cpus s)"] assms(9) by auto
    moreover have "c_curthread (cpus s ! c) \<noteq> Some x" if "c < length (cpus s)" for c using nc [rule_format, of c] that by (simp add: nth_append)
    ultimately show "t_curspl y = 1" "t_iplhigh_count y = 2" using level_invD(3) [OF assms(1), of x y] xy by simp_all
  next
    fix l assume "\<forall>k. l \<noteq> OtherLock k"
    then show "lk ?s l = None" using assms(1) by (simp add: level_inv_def)
  qed
qed

text \<open>The first thread of a processor.\<close>

definition boot_thread :: "cpuid \<Rightarrow> u32 list \<Rightarrow> procid \<Rightarrow> thread" where
  "boot_thread c stk p = (new_thread (boot_name c))\<lparr>t_stack := if c = 0 then None else Some (stk[0 := THREAD_STACK_MAGIC, 1 := THREAD_STACK_MAGIC,
     2 := THREAD_STACK_MAGIC, 3 := THREAD_STACK_MAGIC]), t_cpu := Some c, t_proc := Some p\<rparr>"

lemma boot_thread_guarded: "4 \<le> length stk \<Longrightarrow> guarded (boot_thread c stk p)"
  by (auto simp: guarded_def boot_thread_def nth_list_update Suc_le_length_iff numeral_eq_Suc less_Suc_eq)

lemma cpu_create_ok:
  assumes "sched_inv M K s Q" "t \<noteq> 0" "thr s t = None" "4 \<le> length stk" "length (cpus s) < MAXCPUS"
    and "held s (length (cpus s)) = {}" "length (cpus s) \<notin> M" "length (cpus s) \<notin> K" "p_numthreads s p = Some n"
    and "me < length (cpus s) \<or> me = 0"
  shows "\<exists>s'. cpu_create me hw (Some t) (Some stk) p s = Some (length (cpus s), s') \<and> lk s' = lk s \<and>
    cpus s' = cpus s @ [cpus s' ! length (cpus s)] \<and> curthread (length (cpus s)) s' = Some t \<and>
    thr s' = (thr s)(t \<mapsto> boot_thread (length (cpus s)) stk p) \<and> p_numthreads s' = (p_numthreads s)(p \<mapsto> n + 1) \<and>
    wch s' = wch s \<and>
    sched_inv M K s' (Q(Zombies (length (cpus s)) \<mapsto> [], Runqueue (length (cpus s)) \<mapsto> []))"
proof -
  note lv = sched_invD(1) [OF assms(1)] and q = sched_invD(2) [OF assms(1)]
  let ?c = "length (cpus s)"
  let ?h0 = "threadlist_init (Runqueue ?c) (threadlist_init (Zombies ?c) (nodes s))"
  let ?Q = "Q(Zombies ?c \<mapsto> [], Runqueue ?c \<mapsto> [])"
  have none: "Q (Zombies ?c) = None" "(Q(Zombies ?c \<mapsto> [])) (Runqueue ?c) = None" using lists_okD(1,2) [OF q_invD(2) [OF q], of ?c] by simp_all
  have r0: "tl_rep ?h0 (dom (thr s)) ?Q"
    by (rule threadlist_init_spec [OF threadlist_init_spec [OF q_invD(1) [OF q, unfolded dom_pt] none(1)] none(2)])
  have "t \<notin> dom (thr s)" using assms(3) by auto
  from threadlistnode_init_spec [OF r0 this assms(2)] obtain h where
    h: "threadlistnode_init t ?h0 = Some h" "tl_rep h (insert t (dom (thr s))) ?Q" by blast
  have lk0: "(lk s)(RunqueueLock ?c := None, IpiLock ?c := None) = lk s" using level_invD(4,5) [OF lv, of ?c] by (simp add: fun_upd_idem)
  let ?p = "\<lparr>c_hardware_number = hw, c_curthread = Some t, c_hardclocks = 0, c_spinlocks = 0,
                   c_isidle = False, c_ipi_pending = 0, c_shootdown = [], c_irq = False, c_halted = False\<rparr>"
  let ?th = "boot_thread ?c stk p"
  let ?s1 = "s\<lparr>thr := (thr s)(t \<mapsto> ?th\<lparr>t_proc := None\<rparr>), cpus := cpus s @ [?p], nodes := h\<rparr>"
  have sp: "\<exists>cur cs k. spl_at me cur cs k ?s1"
  proof (cases "me < length (cpus s)")
    case True
    then obtain u cs where u: "spl_at me u cs (card (held s me)) s" by (rule level_invE [OF lv]) blast
    then have "u \<noteq> t" using assms(3) by (auto simp: spl_at_def)
    with u True have "spl_at me u cs (card (held s me)) ?s1" by (simp add: spl_at_def nth_append)
    then show ?thesis by blast
  next
    case False
    with assms(10) have "spl_at me t 1 0 ?s1" by (simp add: spl_at_def boot_thread_def new_thread_def IPL_HIGH_def)
    then show ?thesis by blast
  qed
  let ?s' = "s\<lparr>thr := (thr s)(t \<mapsto> ?th), cpus := cpus s @ [?p], nodes := h, p_numthreads := (p_numthreads s)(p \<mapsto> n + 1)\<rparr>"
  have "upd_thr t (\<lambda>th. th\<lparr>t_proc := Some p\<rparr>) (?s1\<lparr>p_numthreads := (p_numthreads s)(p \<mapsto> n + 1)\<rparr>) = ?s'"
    by (simp add: upd_thr_def boot_thread_def rec_order)
  then have add: "proc_addthread me p t ?s1 = Some ?s'"
    using sp proc_addthread_eq [of me _ _ _ ?s1 t "?th\<lparr>t_proc := None\<rparr>" p n] assms(9) level_invD(6) [OF lv, of p] by (auto simp del: upd_fields)
  have run: "cpu_create me hw (Some t) (Some stk) p s = Some (?c, ?s')"
    using h(1) lk0 add assms(5) by (cases "cpus s = []")
      (simp_all add: cpu_create_def thread_create_def spinlock_init_def Let_def on_cpu_def on_thr_def thread_checkstack_init_def
        boot_thread_def new_thread_def rec_order)
  have "level_inv ?s'"
  proof (rule level_inv_new_cpu [OF lv assms(3)])
    show "c_curthread (cpus s ! c) \<noteq> Some t" if "c < length (cpus s)" for c
      using level_invE [OF lv that] assms(3) by (metis spl_atE option.distinct(1) option.inject)
    show "guarded ?th" by (rule boot_thread_guarded [OF assms(4)])
  qed (use assms(6) in \<open>simp_all add: boot_thread_def new_thread_def IPL_HIGH_def\<close>)
  moreover have "q_inv {} M K (pt ?s') (ci ?s') (nodes ?s') (wch ?s') ?Q"
  proof -
    have "pt ?s' = (pt s)(t \<mapsto> (S_READY, Some ?c, Some p))" by (auto simp: pt_def fun_eq_iff boot_thread_def new_thread_def)
    moreover have "ci ?s' = ci s @ [(Some t, False)]" by (simp add: ci_def)
    moreover have "pt s t = None" using assms(3) by (simp add: pt_def)
    ultimately show ?thesis using q_inv_new_cpu [OF q, of t h "Some p"] assms(7,8) h(2) by simp
  qed
  ultimately have "sched_inv M K ?s' ?Q" by (simp add: sched_inv_def)
  with run show ?thesis by (simp add: curthread_def)
qed

text \<open>
  Before the boot there are no threads and no processors; \<open>h\<close> is what the memory happens to hold
  and \<open>kproc\<close> the kernel process. The boot creates the boot processor and its thread, and
  \<^verbatim>\<open>lamebus_find_cpus\<close> the other processors, each with a hardware number and memory for
  a thread and a stack.
\<close>

definition blank :: "tlist tlheap \<Rightarrow> procid \<Rightarrow> sched" where
  "blank h kproc = \<lparr>thr = Map.empty, cpus = [], lk = (\<lambda>_. None), nodes = h, wch = Map.empty, p_numthreads = [kproc \<mapsto> 0]\<rparr>"

fun find_cpus :: "procid \<Rightarrow> (u32 \<times> tid \<times> u32 list) list \<Rightarrow> sched \<Rightarrow> sched option" where
  "find_cpus kproc [] s = Some s"
| "find_cpus kproc ((hw, t, stk) # ps) s =
     do { (_, s) \<leftarrow> cpu_create 0 hw (Some t) (Some stk) kproc s; find_cpus kproc ps s }"

definition boot :: "tlist tlheap \<Rightarrow> procid \<Rightarrow> tid \<Rightarrow> (u32 \<times> tid \<times> u32 list) list \<Rightarrow> sched option" where
  "boot h kproc t ps = do { s \<leftarrow> thread_bootstrap (Some t) kproc (blank h kproc); find_cpus kproc ps s }"

definition boot_mem_ok :: "tid \<Rightarrow> (u32 \<times> tid \<times> u32 list) list \<Rightarrow> bool" where
  "boot_mem_ok t ps \<longleftrightarrow> distinct (t # map (fst \<circ> snd) ps) \<and> 0 \<notin> set (t # map (fst \<circ> snd) ps) \<and>
     (\<forall>p\<in>set ps. 4 \<le> length (snd (snd p))) \<and> Suc (length ps) \<le> MAXCPUS"

lemma blank_inv: "sched_inv {} {} (blank h kproc) Map.empty"
  by (simp add: sched_inv_def level_inv_def q_inv_def blank_def ci_def pt_def tl_rep_def lists_ok_def held_def dom_def)

lemma find_cpus_ok:
  assumes "sched_inv {} {} s Q" "lk s = (\<lambda>_. None)" "cpus s \<noteq> []" "p_numthreads s kproc = Some n"
    and "distinct (map (fst \<circ> snd) ps)" "0 \<notin> set (map (fst \<circ> snd) ps)" "\<And>p. p \<in> set ps \<Longrightarrow> 4 \<le> length (snd (snd p)) \<and> thr s (fst (snd p)) = None"
    and "length (cpus s) + length ps \<le> MAXCPUS" "\<And>t th. thr s t = Some th \<Longrightarrow> t_proc th = Some kproc"
  shows "\<exists>s' Q'. find_cpus kproc ps s = Some s' \<and> sched_inv {} {} s' Q' \<and> length (cpus s') = length (cpus s) + length ps \<and>
    (\<forall>t th. thr s' t = Some th \<longrightarrow> t_proc th = Some kproc) \<and> lk s' = (\<lambda>_. None)"
  using assms
proof (induction ps arbitrary: s Q n)
  case Nil
  then show ?case by auto
next
  case (Cons p ps)
  obtain hw t stk where p: "p = (hw, t, stk)" by (cases p)
  have pre: "t \<noteq> 0" "thr s t = None" "4 \<le> length stk" "length (cpus s) < MAXCPUS" "held s (length (cpus s)) = {}" "0 < length (cpus s) \<or> 0 = (0::nat)"
    "length (cpus s) \<notin> {}" "length (cpus s) \<notin> {}"
    using Cons.prems(2,3,6,8) Cons.prems(7) [of p] p by (auto simp: held_def)
  obtain s' where s': "cpu_create 0 hw (Some t) (Some stk) kproc s = Some (length (cpus s), s')" "lk s' = lk s"
    "cpus s' = cpus s @ [cpus s' ! length (cpus s)]" "thr s' = (thr s)(t \<mapsto> boot_thread (length (cpus s)) stk kproc)" "p_numthreads s' = (p_numthreads s)(kproc \<mapsto> n + 1)"
    "sched_inv {} {} s' (Q(Zombies (length (cpus s)) \<mapsto> [], Runqueue (length (cpus s)) \<mapsto> []))"
    using cpu_create_ok [OF Cons.prems(1) pre(1-5,7,8) Cons.prems(4) pre(6), where hw = hw] by blast
  have len: "length (cpus s') = Suc (length (cpus s))" using arg_cong [OF s'(3), of length] by simp
  have "t \<noteq> fst (snd x)" if "x \<in> set ps" for x using Cons.prems(5) p that by (auto simp: image_iff)
  moreover have "t_proc th = Some kproc" if "thr s' x = Some th" for x th
    using that s'(4) Cons.prems(9) [of x th] by (auto simp: boot_thread_def split: if_splits)
  ultimately have "\<exists>s'' Q'. find_cpus kproc ps s' = Some s'' \<and> sched_inv {} {} s'' Q' \<and> length (cpus s'') = length (cpus s') + length ps \<and>
      (\<forall>t th. thr s'' t = Some th \<longrightarrow> t_proc th = Some kproc) \<and> lk s'' = (\<lambda>_. None)"
    by (intro Cons.IH [OF s'(6)]) (use s'(2-5) len Cons.prems(2,5-8) in auto)
  with s'(1) p len show ?case by auto
qed

lemma bootstrap_ok:
  assumes "t \<noteq> 0"
  shows "\<exists>s Q. thread_bootstrap (Some t) kproc (blank h kproc) = Some s \<and> sched_inv {} {} s Q \<and> lk s = (\<lambda>_. None) \<and> length (cpus s) = 1 \<and>
    curthread 0 s = Some t \<and> thr s = [t \<mapsto> boot_thread 0 (replicate 4 0) kproc] \<and> p_numthreads s = [kproc \<mapsto> 1]"
proof -
  let ?b = "blank h kproc"
  have pre: "t \<noteq> 0" "thr ?b t = None" "4 \<le> length (replicate 4 (0::u32))" "length (cpus ?b) < MAXCPUS" "held ?b (length (cpus ?b)) = {}" "0 < length (cpus ?b) \<or> 0 = (0::nat)"
    "length (cpus ?b) \<notin> {}" "p_numthreads ?b kproc = Some 0" using assms by (auto simp: blank_def held_def MAXCPUS_def)
  have c0: "cpu_create 0 0 (Some t) None kproc ?b = cpu_create 0 0 (Some t) (Some (replicate 4 0)) kproc ?b"
    by (simp add: cpu_create_def blank_def spinlock_init_def Let_def)
  have n: "length (cpus ?b) = 0" by (simp add: blank_def)
  obtain s Q where s: "cpu_create 0 0 (Some t) None kproc ?b = Some (0, s)" "lk s = lk ?b" "cpus s = cpus ?b @ [cpus s ! length (cpus ?b)]"
    "curthread 0 s = Some t" "thr s = (thr ?b)(t \<mapsto> boot_thread 0 (replicate 4 0) kproc)" "p_numthreads s = (p_numthreads ?b)(kproc \<mapsto> 0 + 1)" "sched_inv {} {} s Q"
    using cpu_create_ok [OF blank_inv pre(1-5,7,7,8,6), where hw = 0] unfolding c0 n by blast
  have "?b\<lparr>cpus := []\<rparr> = ?b" by (simp add: blank_def)
  then have "thread_bootstrap (Some t) kproc ?b = Some s" using s(1,4,5) by (simp add: thread_bootstrap_def boot_thread_def)
  moreover have "length (cpus s) = 1" using s(3) n by (metis One_nat_def length_append_singleton)
  ultimately show ?thesis using s(2,4-7) by (auto simp: blank_def)
qed

lemma boot_ok:
  assumes "boot_mem_ok t ps"
  shows "\<exists>s Q. boot h kproc t ps = Some s \<and> sched_inv {} {} s Q \<and> length (cpus s) = Suc (length ps) \<and>
    (\<forall>t th. thr s t = Some th \<longrightarrow> t_proc th = Some kproc) \<and> lk s = (\<lambda>_. None)"
proof -
  have "t \<noteq> 0" using assms by (simp add: boot_mem_ok_def)
  from bootstrap_ok [OF this, of kproc h] obtain s Q where s: "thread_bootstrap (Some t) kproc (blank h kproc) = Some s" "sched_inv {} {} s Q" "lk s = (\<lambda>_. None)"
    "length (cpus s) = 1" "thr s = [t \<mapsto> boot_thread 0 (replicate 4 0) kproc]" "p_numthreads s = [kproc \<mapsto> 1]" by auto
  have "\<exists>s' Q'. find_cpus kproc ps s = Some s' \<and> sched_inv {} {} s' Q' \<and> length (cpus s') = length (cpus s) + length ps \<and>
      (\<forall>t th. thr s' t = Some th \<longrightarrow> t_proc th = Some kproc) \<and> lk s' = (\<lambda>_. None)"
  proof (rule find_cpus_ok [OF s(2,3)])
    show "t_proc th = Some kproc" if "thr s x = Some th" for x th using that s(5) by (auto simp: boot_thread_def split: if_splits)
    show "4 \<le> length (snd (snd p)) \<and> thr s (fst (snd p)) = None" if "p \<in> set ps" for p
      using assms that s(5) by (auto simp: boot_mem_ok_def image_iff)
    show "cpus s \<noteq> []" using s(4) by auto
  qed (use assms s(4,6) in \<open>auto simp: boot_mem_ok_def\<close>)
  with s(1,4) show ?thesis by (auto simp: boot_def)
qed

section \<open>The machine\<close>

text \<open>
  The state is the thread system with the processors that are in the middle of a migration and of a
  \<^verbatim>\<open>wchan_wakeall\<close>: the loops of both release the locks between rounds, so that other processors
  work in between.
\<close>

type_synonym mach = "cpuid set \<times> cpuid set \<times> sched"

datatype sched_cmd =
  Fork "tid option" bool "u32 list option" string "procid option" "u32 \<times> u32 \<times> u32"
| Yield | Exit | Sleep wcid nat | Unidle | RemThread
| WakeOne wcid nat | WakeBegin wcid nat | WakeNext | WakeEnd
| MigBegin nat | MigGive cpuid u32 nat | MigEnd
| Acquire nat | Release nat | Spl int | IrqEnter | IrqExit bool bool
| IpiSend cpuid nat | IpiTake | WchanCreate wcid string | WchanDestroy wcid

text \<open>What processor \<open>c\<close> executes.\<close>

fun sched_exec :: "cpuid \<Rightarrow> sched_cmd \<Rightarrow> mach \<Rightarrow> mach option" where
  "sched_exec c (Fork mem name_ok stack name proc start) (M, K, s) =
     do { (_, s) \<leftarrow> thread_fork c mem name_ok stack name proc start s; Some (M, K, s) }"
| "sched_exec c Yield (M, K, s) = do { s \<leftarrow> thread_yield c s; Some (M, K, s) }"
| "sched_exec c Exit (M, K, s) = do { s \<leftarrow> thread_exit c s; Some (M, K, s) }"
| "sched_exec c (Sleep w k) (M, K, s) = do { s \<leftarrow> wchan_sleep c w (OtherLock k) s; Some (M, K, s) }"
| "sched_exec c Unidle (M, K, s) = do { s \<leftarrow> thread_switch_unidle c s; Some (M, K, s) }"
| "sched_exec c RemThread (M, K, s) = do { t \<leftarrow> curthread c s; s \<leftarrow> proc_remthread c t s; Some (M, K, s) }"
| "sched_exec c (WakeOne w k) (M, K, s) = do { s \<leftarrow> wchan_wakeone c w (OtherLock k) s; Some (M, K, s) }"
| "sched_exec c (WakeBegin w k) (M, K, s) =
     do { kassert (spinlock_do_i_hold c (OtherLock k) s);
          s \<leftarrow> wakeall_grab c w (s\<lparr>nodes := threadlist_init (WakeList c) (nodes s)\<rparr>);
          Some (M, insert c K, s) }"
| "sched_exec c WakeNext (M, K, s) =
     do { (t, h) \<leftarrow> threadlist_remhead (WakeList c) (nodes s);
          t \<leftarrow> t;
          s \<leftarrow> thread_make_runnable c t False (s\<lparr>nodes := h\<rparr>);
          Some (M, K, s) }"
| "sched_exec c WakeEnd (M, K, s) = do { threadlist_cleanup (WakeList c) (nodes s); Some (M, K - {c}, s) }"
| "sched_exec c (MigBegin n) (M, K, s) =
     do { s \<leftarrow> spinlock_acquire c (RunqueueLock c) (s\<lparr>nodes := threadlist_init (Victims c) (nodes s)\<rparr>);
          s \<leftarrow> mig_take c n s;
          s \<leftarrow> spinlock_release c (RunqueueLock c) s;
          Some (insert c M, K, s) }"
| "sched_exec c (MigGive i share n) (M, K, s) =
     do { s \<leftarrow> spinlock_acquire c (RunqueueLock i) s;
          (_, s) \<leftarrow> mig_give c i share n s;
          s \<leftarrow> spinlock_release c (RunqueueLock i) s;
          Some (M, K, s) }"
| "sched_exec c MigEnd (M, K, s) =
     do { s \<leftarrow> (if \<not> threadlist_isempty (Victims c) (nodes s)
                then do { s \<leftarrow> spinlock_acquire c (RunqueueLock c) s;
                          s \<leftarrow> mig_return c s;
                          spinlock_release c (RunqueueLock c) s }
                else Some s);
          kassert (threadlist_isempty (Victims c) (nodes s));
          threadlist_cleanup (Victims c) (nodes s);
          Some (M - {c}, K, s) }"
| "sched_exec c (Acquire k) (M, K, s) = do { s \<leftarrow> spinlock_acquire c (OtherLock k) s; Some (M, K, s) }"
| "sched_exec c (Release k) (M, K, s) = do { s \<leftarrow> spinlock_release c (OtherLock k) s; Some (M, K, s) }"
| "sched_exec c (Spl k) (M, K, s) = do { (_, s) \<leftarrow> splx c k s; Some (M, K, s) }"
| "sched_exec c IrqEnter (M, K, s) = do { (_, s) \<leftarrow> irq_enter c s; Some (M, K, s) }"
| "sched_exec c (IrqExit old_in doadjust) (M, K, s) = do { s \<leftarrow> irq_exit c old_in doadjust s; Some (M, K, s) }"
| "sched_exec c (IpiSend d code) (M, K, s) = do { s \<leftarrow> ipi_send c d code s; Some (M, K, s) }"
| "sched_exec c IpiTake (M, K, s) = do { s \<leftarrow> interprocessor_interrupt c s; Some (M, K, s) }"
| "sched_exec c (WchanCreate w name) (M, K, s) = (let (_, s) = wchan_create (Some w) name s in Some (M, K, s))"
| "sched_exec c (WchanDestroy w) (M, K, s) = do { s \<leftarrow> wchan_destroy w s; Some (M, K, s) }"

text \<open>
  What processor \<open>c\<close> may execute. A processor in the middle of a loop goes on with it; one that is
  idle only handles interrupts, or goes on with the loop of \<^verbatim>\<open>thread_switch\<close>. No thread gives up the
  processor while it holds a spinlock, but for the one it hands to \<^verbatim>\<open>wchan_sleep\<close>; the
  allocator gives fresh memory, and stacks with room for the guard words; processes and wait channels in use exist.
\<close>

definition cur_ok :: "cpuid \<Rightarrow> (thread \<Rightarrow> bool) \<Rightarrow> sched \<Rightarrow> bool" where
  "cur_ok c P s \<longleftrightarrow> (case curthread c s of None \<Rightarrow> False | Some t \<Rightarrow> (case thr s t of None \<Rightarrow> False | Some th \<Rightarrow> P th))"

fun sched_may :: "cpuid \<Rightarrow> sched_cmd \<Rightarrow> mach \<Rightarrow> bool" where
  "sched_may c (Fork mem name_ok stack name proc start) (M, K, s) \<longleftrightarrow> \<not> c_isidle (cpus s ! c) \<and> c \<notin> M \<and> c \<notin> K \<and>
     (case mem of None \<Rightarrow> True | Some t \<Rightarrow> t \<noteq> 0 \<and> thr s t = None) \<and> (case stack of None \<Rightarrow> True | Some stk \<Rightarrow> 4 \<le> length stk) \<and>
     cur_ok c (\<lambda>th. case (case proc of None \<Rightarrow> t_proc th | Some p \<Rightarrow> Some p) of None \<Rightarrow> False | Some p \<Rightarrow> p_numthreads s p \<noteq> None) s"
| "sched_may c Yield (M, K, s) \<longleftrightarrow> c \<notin> M \<and> c \<notin> K \<and> c_spinlocks (cpus s ! c) = 0"
| "sched_may c Exit (M, K, s) \<longleftrightarrow> \<not> c_isidle (cpus s ! c) \<and> c \<notin> M \<and> c \<notin> K \<and> c_spinlocks (cpus s ! c) = 0 \<and> cur_ok c (\<lambda>th. t_proc th = None) s"
| "sched_may c (Sleep w k) (M, K, s) \<longleftrightarrow> \<not> c_isidle (cpus s ! c) \<and> c \<notin> M \<and> c \<notin> K \<and> lk s (OtherLock k) = Some c \<and> c_spinlocks (cpus s ! c) = 1 \<and> wch s w \<noteq> None \<and>
     cur_ok c (\<lambda>th. \<not> t_in_interrupt th) s"
| "sched_may c Unidle (M, K, s) \<longleftrightarrow> c_isidle (cpus s ! c) \<and> c \<notin> M \<and> c \<notin> K \<and> c_spinlocks (cpus s ! c) = 0"
| "sched_may c RemThread (M, K, s) \<longleftrightarrow> \<not> c_isidle (cpus s ! c) \<and> c \<notin> M \<and> c \<notin> K \<and>
     cur_ok c (\<lambda>th. case t_proc th of None \<Rightarrow> False | Some p \<Rightarrow> (case p_numthreads s p of None \<Rightarrow> False | Some n \<Rightarrow> n > 0)) s"
| "sched_may c (WakeOne w k) (M, K, s) \<longleftrightarrow> c \<notin> M \<and> c \<notin> K \<and> lk s (OtherLock k) = Some c \<and> wch s w \<noteq> None"
| "sched_may c (WakeBegin w k) (M, K, s) \<longleftrightarrow> c \<notin> M \<and> c \<notin> K \<and> lk s (OtherLock k) = Some c \<and> wch s w \<noteq> None"
| "sched_may c WakeNext (M, K, s) \<longleftrightarrow> c \<in> K \<and> \<not> threadlist_isempty (WakeList c) (nodes s)"
| "sched_may c WakeEnd (M, K, s) \<longleftrightarrow> c \<in> K \<and> threadlist_isempty (WakeList c) (nodes s)"
| "sched_may c (MigBegin n) (M, K, s) \<longleftrightarrow> c \<notin> M \<and> c \<notin> K \<and> n \<le> unat (tl_count (nodes s) (Runqueue c))"
| "sched_may c (MigGive i share n) (M, K, s) \<longleftrightarrow> c \<in> M \<and> i < length (cpus s) \<and> i \<noteq> c \<and> n \<le> unat (tl_count (nodes s) (Victims c))"
| "sched_may c MigEnd (M, K, s) \<longleftrightarrow> c \<in> M"
| "sched_may c (Acquire k) (M, K, s) \<longleftrightarrow> c \<notin> M \<and> c \<notin> K \<and> lk s (OtherLock k) = None"
| "sched_may c (Release k) (M, K, s) \<longleftrightarrow> c \<notin> M \<and> c \<notin> K \<and> lk s (OtherLock k) = Some c"
| "sched_may c (Spl k) (M, K, s) \<longleftrightarrow> c \<notin> M \<and> c \<notin> K \<and> (k = 0 \<or> k = 1) \<and> (c_isidle (cpus s ! c) \<longrightarrow> k = 1)"
| "sched_may c IrqEnter (M, K, s) \<longleftrightarrow> c \<notin> M \<and> c \<notin> K \<and> (c_irq (cpus s ! c) \<or> c_isidle (cpus s ! c))"
| "sched_may c (IrqExit old_in doadjust) (M, K, s) \<longleftrightarrow> c \<notin> M \<and> c \<notin> K \<and>
     (doadjust \<longrightarrow> c_spinlocks (cpus s ! c) = 0 \<and> \<not> c_isidle (cpus s ! c) \<and> cur_ok c (\<lambda>th. t_curspl th = IPL_HIGH) s)"
| "sched_may c (IpiSend d code) (M, K, s) \<longleftrightarrow> d < length (cpus s) \<and> code < 32"
| "sched_may c IpiTake (M, K, s) \<longleftrightarrow> c \<notin> M \<and> c \<notin> K \<and> c_shootdown (cpus s ! c) = []"
| "sched_may c (WchanCreate w name) (M, K, s) \<longleftrightarrow> wch s w = None"
| "sched_may c (WchanDestroy w) (M, K, s) \<longleftrightarrow> wch s w \<noteq> None \<and> threadlist_isempty (WcThreads w) (nodes s)"

inductive sched_reach :: "sched \<Rightarrow> mach \<Rightarrow> bool" for s0 :: sched where
  start: "sched_reach s0 ({}, {}, s0)"
| step: "sched_reach s0 m \<Longrightarrow> c < length (cpus (snd (snd m))) \<Longrightarrow> sched_may c cmd m \<Longrightarrow> sched_exec c cmd m = Some m' \<Longrightarrow> sched_reach s0 m'"

fun mach_inv :: "mach \<Rightarrow> bool" where
  "mach_inv (M, K, s) \<longleftrightarrow> (\<exists>Q. sched_inv M K s Q)"

text \<open>
  The commands that neither use a wait channel nor one of the spinlocks outside the thread system leave
  both alone.
\<close>

fun plain :: "sched_cmd \<Rightarrow> bool" where
  "plain (Sleep w k) = False" | "plain (WakeOne w k) = False" | "plain (WakeBegin w k) = False" | "plain WakeNext = False" | "plain WakeEnd = False"
| "plain (Acquire k) = False" | "plain (Release k) = False" | "plain (WchanCreate w name) = False" | "plain (WchanDestroy w) = False" | "plain cmd = True"

definition undisturbed :: "cpuid set \<Rightarrow> sched \<Rightarrow> tqueues \<Rightarrow> mach \<Rightarrow> bool" where
  "undisturbed K s Q m' \<longleftrightarrow> (\<exists>M' s' Q'. m' = (M', K, s') \<and> sched_inv M' K s' Q' \<and> same_chans Q Q' \<and> lk s' = lk s \<and> wch s' = wch s)"

lemma undisturbedI: "sched_inv M' K s' Q' \<Longrightarrow> same_chans Q Q' \<Longrightarrow> lk s' = lk s \<Longrightarrow> wch s' = wch s \<Longrightarrow> undisturbed K s Q (M', K, s')"
  unfolding undisturbed_def by blast

lemmas undisturbed_same = undisturbedI [OF _ same_chans_simps(1)]

lemma undisturbed_inv: "undisturbed K s Q m' \<Longrightarrow> mach_inv m'"
  by (auto simp: undisturbed_def)

lemma held_none: "sched_inv M K s Q \<Longrightarrow> c < length (cpus s) \<Longrightarrow> c_spinlocks (cpus s ! c) = 0 \<Longrightarrow> held s c = {}"
  by (erule sched_cur, assumption) (auto simp: spl_at_def)

lemma held_one:
  assumes "sched_inv M K s Q" "c < length (cpus s)" "c_spinlocks (cpus s ! c) = 1" "lk s l = Some c"
  shows "held s c = {l}"
proof -
  have "card (held s c) = 1" by (rule sched_cur [OF assms(1,2)]) (use assms(3) in \<open>simp add: spl_at_def\<close>)
  then obtain x where "held s c = {x}" by (auto simp: card_1_singleton_iff)
  moreover have "l \<in> held s c" using assms(4) by (simp add: held_def)
  ultimately show ?thesis by simp
qed

lemma wchan_queue:
  assumes "sched_inv M K s Q" "wch s w \<noteq> None"
  obtains ts where "Q (WcThreads w) = Some ts"
  using lists_okD(3) [OF q_invD(2) [OF sched_invD(2) [OF assms(1)]], of w] assms(2) by auto

lemma wake_begin_ok:
  assumes "sched_inv M K s Q" "c \<notin> K" "Q (WcThreads w) = Some ts"
  shows "\<exists>h. wakeall_grab c w (s\<lparr>nodes := threadlist_init (WakeList c) (nodes s)\<rparr>) = Some (s\<lparr>nodes := h\<rparr>) \<and>
    sched_inv M (insert c K) (s\<lparr>nodes := h\<rparr>) (Q(WakeList c \<mapsto> [], WcThreads w \<mapsto> [], WakeList c \<mapsto> ts))"
proof -
  note lv = sched_invD(1) [OF assms(1)] and q = sched_invD(2) [OF assms(1)]
  have none: "Q (WakeList c) = None" using lists_okD(5) [OF q_invD(2) [OF q], of c] assms(2) by simp
  let ?s1 = "s\<lparr>nodes := threadlist_init (WakeList c) (nodes s)\<rparr>" and ?Q1 = "Q(WakeList c \<mapsto> [])"
  have i1: "sched_inv M (insert c K) ?s1 ?Q1"
    by (intro sched_inv_nodes [OF lv] q_inv_new_list [OF q none] lists_ok_wakelist(1) q_invD(2) [OF q])
  have q1: "?Q1 (WcThreads w) = Some ts" "?Q1 (WakeList c) = Some []" using assms(3) by simp_all
  have n: "?s1\<lparr>nodes := h\<rparr> = s\<lparr>nodes := h\<rparr>" for h by simp
  show ?thesis by (rule grab_ok [OF i1 q1, unfolded append_Nil n])
qed

lemma wake_next_ok:
  assumes "sched_inv M K s Q" "c < length (cpus s)" "Q (WakeList c) = Some (t # ts)"
  shows "\<exists>h s' Q'. threadlist_remhead (WakeList c) (nodes s) = Some (Some t, h) \<and> thread_make_runnable c t False (s\<lparr>nodes := h\<rparr>) = Some s' \<and> sched_inv M K s' Q'"
proof -
  have "\<exists>d p. d < length (cpus s) \<and> pt s t = Some (S_SLEEP, Some d, p)" using q_invD(3) [OF sched_invD(2) [OF assms(1)] assms(3), of t] by auto
  from wake_one [OF assms(1-3) this] show ?thesis by (metis tlist.distinct(7))
qed

lemma wake_end_ok:
  assumes "sched_inv M K s Q" "Q (WakeList c) = Some []" "c \<in> K"
  shows "threadlist_cleanup (WakeList c) (nodes s) = Some ()" "sched_inv M (K - {c}) s (Q(WakeList c := None))"
proof -
  note q = sched_invD(2) [OF assms(1)]
  show "threadlist_cleanup (WakeList c) (nodes s) = Some ()" using threadlist_cleanup_spec(2) [OF q_invD(1) [OF q] assms(2)] by simp
  have "lists_ok M (K - {c}) (length (ci s)) (wch s) (Q(WakeList c := None))"
    by (rule lists_ok_wakelist(2)) (use q_invD(2) [OF q] assms(3) in \<open>simp_all add: insert_absorb\<close>)
  then show "sched_inv M (K - {c}) s (Q(WakeList c := None))"
    unfolding sched_inv_def by (intro conjI sched_invD(1) [OF assms(1)] q_inv_drop_list [OF q assms(2)])
qed

lemma mig_begin_ok:
  assumes "sched_inv M K s Q" "c < length (cpus s)" "c \<notin> M" "Q (Runqueue c) = Some rq" "n \<le> length rq"
  shows "\<exists>h. do { s \<leftarrow> spinlock_acquire c (RunqueueLock c) (s\<lparr>nodes := threadlist_init (Victims c) (nodes s)\<rparr>);
      s \<leftarrow> mig_take c n s; spinlock_release c (RunqueueLock c) s } = Some (s\<lparr>nodes := h\<rparr>) \<and>
    sched_inv (insert c M) K (s\<lparr>nodes := h\<rparr>) (Q(Victims c \<mapsto> [], Runqueue c \<mapsto> take (length rq - n) rq, Victims c \<mapsto> drop (length rq - n) rq @ []))"
proof -
  note lv = sched_invD(1) [OF assms(1)] and q = sched_invD(2) [OF assms(1)]
  have none: "Q (Victims c) = None" using lists_okD(4) [OF q_invD(2) [OF q], of c] assms(3) by simp
  let ?s1 = "s\<lparr>nodes := threadlist_init (Victims c) (nodes s)\<rparr>" and ?Q1 = "Q(Victims c \<mapsto> [])"
  have i1: "sched_inv (insert c M) K ?s1 ?Q1"
    by (intro sched_inv_nodes [OF lv] q_inv_new_list [OF q none] lists_ok_victims(1) q_invD(2) [OF q])
  have "\<exists>h. mig_take c n s' = Some (s'\<lparr>nodes := h\<rparr>) \<and> q_inv {} (insert c M) K (pt ?s1) (ci ?s1) h (wch ?s1)
      (?Q1(Runqueue c \<mapsto> take (length rq - n) rq, Victims c \<mapsto> drop (length rq - n) rq @ []))" if "nodes s' = nodes ?s1" for s'
    by (rule mig_take_ok) (use sched_invD(2) [OF i1] that assms(4,5) in simp_all)
  from nodes_section [OF i1 _ this, where i = c] assms(2) show ?thesis by auto
qed

lemma bind_map: "(\<exists>x. f = Some x \<and> P (g x)) \<Longrightarrow> \<exists>y. do { x \<leftarrow> f; Some (g x) } = Some y \<and> P y"
  by auto

lemma cur_okE:
  assumes "cur_ok c P s"
  obtains t th where "curthread c s = Some t" "thr s t = Some th" "P th"
  using assms by (auto simp: cur_ok_def split: option.splits)

lemma fork_step:
  assumes "sched_inv M K s Q" "c < length (cpus s)"
    and "case mem of None \<Rightarrow> True | Some t \<Rightarrow> t \<noteq> 0 \<and> thr s t = None" "case stack of None \<Rightarrow> True | Some stk \<Rightarrow> 4 \<le> length stk"
    and "cur_ok c (\<lambda>th. case (case proc of None \<Rightarrow> t_proc th | Some p \<Rightarrow> Some p) of None \<Rightarrow> False | Some p \<Rightarrow> p_numthreads s p \<noteq> None) s"
  shows "\<exists>r s' Q'. thread_fork c mem name_ok stack name proc start s = Some (r, s') \<and> sched_inv M K s' Q' \<and> same_chans Q Q' \<and> lk s' = lk s \<and> wch s' = wch s"
proof (cases "mem = None \<or> \<not> name_ok")
  case True
  then have "thread_fork c mem name_ok stack name proc start s = Some (Inl ENOMEM, s)"
    by (auto simp: thread_fork_def thread_create_def split: option.split)
  with assms(1) show ?thesis using same_chans_simps(1) by blast
next
  case False
  then obtain t where t: "mem = Some t" "name_ok" "t \<noteq> 0" "thr s t = None" using assms(3) by (auto split: option.splits)
  show ?thesis
  proof (cases stack)
    case None
    from fork_nomem [OF assms(1) t(3,4) assms(2), of name proc start] show ?thesis
      unfolding None t(1) eqTrueI [OF t(2)] using same_chans_simps(1) by blast
  next
    case (Some stk)
    then have stk: "4 \<le> length stk" using assms(4) by simp
    obtain cur cth where cur: "curthread c s = Some cur" "thr s cur = Some cth" using assms(5) by (auto simp: cur_ok_def split: option.splits)
    obtain p n where p: "(case proc of None \<Rightarrow> t_proc cth | Some p \<Rightarrow> Some p) = Some p" "p_numthreads s p = Some n"
      using assms(5) cur by (auto simp: cur_ok_def split: option.splits)
    obtain rq where rq: "Q (Runqueue c) = Some rq" by (rule sched_queue [OF assms(1,2)])
    from fork_ok [OF assms(1,2) t(3,4) stk cur p rq, of name start] obtain s' where
      "thread_fork c (Some t) True (Some stk) name proc start s = Some (Inr t, s')" "sched_inv M K s' (Q(Runqueue c \<mapsto> rq @ [t]))" "lk s' = lk s" "wch s' = wch s"
      by blast
    moreover have "same_chans Q (Q(Runqueue c \<mapsto> rq @ [t]))" by simp
    ultimately show ?thesis unfolding Some t(1) eqTrueI [OF t(2)] by blast
  qed
qed

lemma step_Yield:
  assumes i: "sched_inv M K s Q" and c: "c < length (cpus s)" and may: "sched_may c (Yield) (M, K, s)"
  shows "\<exists>m'. sched_exec c (Yield) (M, K, s) = Some m' \<and> undisturbed K s Q m'"
  using yield_ok [OF i c held_none [OF i c]] may by (auto intro: undisturbedI)

lemma step_Unidle:
  assumes i: "sched_inv M K s Q" and c: "c < length (cpus s)" and may: "sched_may c (Unidle) (M, K, s)"
  shows "\<exists>m'. sched_exec c (Unidle) (M, K, s) = Some m' \<and> undisturbed K s Q m'"
  using unidle_ok [OF i c _ held_none [OF i c]] may by (auto intro: undisturbedI)

lemma step_Acquire:
  assumes i: "sched_inv M K s Q" and c: "c < length (cpus s)" and may: "sched_may c (Acquire k) (M, K, s)"
  shows "\<exists>m'. sched_exec c (Acquire k) (M, K, s) = Some m' \<and> mach_inv m'"
  using acquire_ok [OF i c, of k] may by auto

lemma step_Release:
  assumes i: "sched_inv M K s Q" and c: "c < length (cpus s)" and may: "sched_may c (Release k) (M, K, s)"
  shows "\<exists>m'. sched_exec c (Release k) (M, K, s) = Some m' \<and> mach_inv m'"
  using release_ok [OF i c, of k] may by auto

lemma step_Spl:
  assumes i: "sched_inv M K s Q" and c: "c < length (cpus s)" and may: "sched_may c (Spl k) (M, K, s)"
  shows "\<exists>m'. sched_exec c (Spl k) (M, K, s) = Some m' \<and> undisturbed K s Q m'"
  using splx_ok [OF i c, of k] may by (auto intro: undisturbed_same)

lemma step_IpiSend:
  assumes i: "sched_inv M K s Q" and c: "c < length (cpus s)" and may: "sched_may c (IpiSend d code) (M, K, s)"
  shows "\<exists>m'. sched_exec c (IpiSend d code) (M, K, s) = Some m' \<and> undisturbed K s Q m'"
  using ipi_send_ok [OF i c, of d code] may by (auto intro: undisturbed_same)

lemma step_IpiTake:
  assumes i: "sched_inv M K s Q" and c: "c < length (cpus s)" and may: "sched_may c (IpiTake) (M, K, s)"
  shows "\<exists>m'. sched_exec c (IpiTake) (M, K, s) = Some m' \<and> undisturbed K s Q m'"
  using interprocessor_interrupt_ok [OF i c] may by (auto intro: undisturbed_same)

lemma step_WchanCreate:
  assumes i: "sched_inv M K s Q" and c: "c < length (cpus s)" and may: "sched_may c (WchanCreate w name) (M, K, s)"
  shows "\<exists>m'. sched_exec c (WchanCreate w name) (M, K, s) = Some m' \<and> mach_inv m'"
  using wchan_create_ok [OF i, of w name] may by (auto split: prod.split)

lemma step_IrqEnter:
  assumes i: "sched_inv M K s Q" and c: "c < length (cpus s)" and may: "sched_may c (IrqEnter) (M, K, s)"
  shows "\<exists>m'. sched_exec c (IrqEnter) (M, K, s) = Some m' \<and> undisturbed K s Q m'"
  using irq_enter_ok [OF i c] may by (auto intro: undisturbed_same)

lemma step_IrqExit:
  assumes i: "sched_inv M K s Q" and c: "c < length (cpus s)" and may: "sched_may c (IrqExit a b) (M, K, s)"
  shows "\<exists>m'. sched_exec c (IrqExit a b) (M, K, s) = Some m' \<and> undisturbed K s Q m'"
proof -
  have "held s c = {} \<and> \<not> c_isidle (cpus s ! c) \<and> (\<exists>t th. curthread c s = Some t \<and> thr s t = Some th \<and> t_curspl th = IPL_HIGH)" if b
    using that may held_none [OF i c] by (auto elim!: cur_okE)
  from irq_exit_ok [OF i c, of b a, OF this] show ?thesis by (auto intro: undisturbed_same)
qed

lemma step_Fork:
  assumes i: "sched_inv M K s Q" and c: "c < length (cpus s)" and may: "sched_may c (Fork mem name_ok stack name proc start) (M, K, s)"
  shows "\<exists>m'. sched_exec c (Fork mem name_ok stack name proc start) (M, K, s) = Some m' \<and> undisturbed K s Q m'"
  using fork_step [OF i c, of mem stack proc name_ok name start] may by (auto intro: undisturbedI)

lemma step_Exit:
  assumes i: "sched_inv M K s Q" and c: "c < length (cpus s)" and may: "sched_may c (Exit) (M, K, s)"
  shows "\<exists>m'. sched_exec c (Exit) (M, K, s) = Some m' \<and> undisturbed K s Q m'"
proof -
  have e: "\<not> c_isidle (cpus s ! c)" "c_spinlocks (cpus s ! c) = 0" "cur_ok c (\<lambda>th. t_proc th = None) s" using may by simp_all
  from e(3) obtain t th where "curthread c s = Some t" "thr s t = Some th" "t_proc th = None" by (rule cur_okE)
  from exit_ok [OF i c held_none [OF i c e(2)] e(1) this] show ?thesis by (auto intro: undisturbedI)
qed

lemma step_Sleep:
  assumes i: "sched_inv M K s Q" and c: "c < length (cpus s)" and may: "sched_may c (Sleep w k) (M, K, s)"
  shows "\<exists>m'. sched_exec c (Sleep w k) (M, K, s) = Some m' \<and> mach_inv m'"
proof -
  have e: "\<not> c_isidle (cpus s ! c)" "c_spinlocks (cpus s ! c) = 1" "lk s (OtherLock k) = Some c" "wch s w \<noteq> None" "cur_ok c (\<lambda>th. \<not> t_in_interrupt th) s"
    using may by simp_all
  from e(4) obtain name where w: "wch s w = Some name" by blast
  from wchan_queue [OF i e(4)] obtain ts where ts: "Q (WcThreads w) = Some ts" .
  from e(5) obtain t th where "curthread c s = Some t" "thr s t = Some th" "\<not> t_in_interrupt th" by (rule cur_okE)
  from sleep_ok [OF i c e(1) held_one [OF i c e(2,3)] w this ts] show ?thesis by auto
qed

lemma step_RemThread:
  assumes i: "sched_inv M K s Q" and c: "c < length (cpus s)" and may: "sched_may c (RemThread) (M, K, s)"
  shows "\<exists>m'. sched_exec c (RemThread) (M, K, s) = Some m' \<and> undisturbed K s Q m'"
proof -
  have e: "\<not> c_isidle (cpus s ! c)"
    "cur_ok c (\<lambda>th. case t_proc th of None \<Rightarrow> False | Some p \<Rightarrow> (case p_numthreads s p of None \<Rightarrow> False | Some n \<Rightarrow> n > 0)) s"
    using may by simp_all
  from e(2) obtain t th where t: "curthread c s = Some t" "thr s t = Some th"
    "case t_proc th of None \<Rightarrow> False | Some p \<Rightarrow> (case p_numthreads s p of None \<Rightarrow> False | Some n \<Rightarrow> n > 0)" by (rule cur_okE)
  then obtain p n where "t_proc th = Some p" "p_numthreads s p = Some (Suc n)" by (auto simp: gr0_conv_Suc split: option.splits)
  from remthread_ok [OF i c e(1) t(1,2) this] show ?thesis using t(1) by (auto intro: undisturbed_same)
qed

lemma step_WakeOne:
  assumes i: "sched_inv M K s Q" and c: "c < length (cpus s)" and may: "sched_may c (WakeOne w k) (M, K, s)"
  shows "\<exists>m'. sched_exec c (WakeOne w k) (M, K, s) = Some m' \<and> mach_inv m'"
proof -
  have "wch s w \<noteq> None" "lk s (OtherLock k) = Some c" using may by simp_all
  then obtain ts where "Q (WcThreads w) = Some ts" using wchan_queue [OF i] by blast
  then have "\<exists>s' Q'. wchan_wakeone c w (OtherLock k) s = Some s' \<and> sched_inv M K s' Q'"
    using wakeone_ok [OF i c \<open>lk s (OtherLock k) = Some c\<close>, of w ts] i by (cases ts) blast+
  then show ?thesis by auto
qed

lemma step_WakeBegin:
  assumes i: "sched_inv M K s Q" and c: "c < length (cpus s)" and may: "sched_may c (WakeBegin w k) (M, K, s)"
  shows "\<exists>m'. sched_exec c (WakeBegin w k) (M, K, s) = Some m' \<and> mach_inv m'"
proof -
  have w: "wch s w \<noteq> None" "lk s (OtherLock k) = Some c" "c \<notin> K" using may by simp_all
  then obtain ts where "Q (WcThreads w) = Some ts" using wchan_queue [OF i] by blast
  from wake_begin_ok [OF i w(3) this] obtain s' Q' where
    "wakeall_grab c w (s\<lparr>nodes := threadlist_init (WakeList c) (nodes s)\<rparr>) = Some s'" "sched_inv M (insert c K) s' Q'" by blast
  then show ?thesis using w by (auto simp: spinlock_do_i_hold_def)
qed

lemma step_WakeNext:
  assumes i: "sched_inv M K s Q" and c: "c < length (cpus s)" and may: "sched_may c (WakeNext) (M, K, s)"
  shows "\<exists>m'. sched_exec c (WakeNext) (M, K, s) = Some m' \<and> mach_inv m'"
proof -
  have k: "c \<in> K" "\<not> threadlist_isempty (WakeList c) (nodes s)" using may by simp_all
  then obtain ts where ts: "Q (WakeList c) = Some ts" using lists_okD(5) [OF q_invD(2) [OF sched_invD(2) [OF i]], of c] by auto
  then have "ts \<noteq> []" using threadlist_cleanup_spec(1) [OF q_invD(1) [OF sched_invD(2) [OF i]] ts] k(2) by simp
  then obtain t us where "Q (WakeList c) = Some (t # us)" using ts by (cases ts) auto
  from wake_next_ok [OF i c this] show ?thesis by auto
qed

lemma step_WakeEnd:
  assumes i: "sched_inv M K s Q" and c: "c < length (cpus s)" and may: "sched_may c (WakeEnd) (M, K, s)"
  shows "\<exists>m'. sched_exec c (WakeEnd) (M, K, s) = Some m' \<and> mach_inv m'"
proof -
  have k: "c \<in> K" "threadlist_isempty (WakeList c) (nodes s)" using may by simp_all
  then obtain ts where ts: "Q (WakeList c) = Some ts" using lists_okD(5) [OF q_invD(2) [OF sched_invD(2) [OF i]], of c] by auto
  then have "ts = []" using threadlist_cleanup_spec(1) [OF q_invD(1) [OF sched_invD(2) [OF i]] ts] k(2) by simp
  with ts have "Q (WakeList c) = Some []" by simp
  from wake_end_ok [OF i this k(1)] show ?thesis by auto
qed

lemma step_MigBegin:
  assumes i: "sched_inv M K s Q" and c: "c < length (cpus s)" and may: "sched_may c (MigBegin n) (M, K, s)"
  shows "\<exists>m'. sched_exec c (MigBegin n) (M, K, s) = Some m' \<and> undisturbed K s Q m'"
proof -
  have n: "c \<notin> M" "n \<le> unat (tl_count (nodes s) (Runqueue c))" using may by simp_all
  obtain rq where rq: "Q (Runqueue c) = Some rq" by (rule sched_queue [OF i c])
  have "n \<le> length rq" using n(2) queue_count [OF q_invD(1) [OF sched_invD(2) [OF i]] rq] by simp
  from mig_begin_ok [OF i c n(1) rq this] obtain h where
    "do { s \<leftarrow> spinlock_acquire c (RunqueueLock c) (s\<lparr>nodes := threadlist_init (Victims c) (nodes s)\<rparr>);
        s \<leftarrow> mig_take c n s; spinlock_release c (RunqueueLock c) s } = Some (s\<lparr>nodes := h\<rparr>)"
    and inv: "sched_inv (insert c M) K (s\<lparr>nodes := h\<rparr>) (Q(Victims c \<mapsto> [], Runqueue c \<mapsto> take (length rq - n) rq, Victims c \<mapsto> drop (length rq - n) rq @ []))" by blast
  moreover have "undisturbed K s Q (insert c M, K, s\<lparr>nodes := h\<rparr>)" by (rule undisturbedI [OF inv]) (simp_all only: same_chans_simps, simp_all)
  ultimately show ?thesis by (auto elim!: bindE)
qed

lemma step_MigGive:
  assumes i: "sched_inv M K s Q" and c: "c < length (cpus s)" and may: "sched_may c (MigGive d share n) (M, K, s)"
  shows "\<exists>m'. sched_exec c (MigGive d share n) (M, K, s) = Some m' \<and> undisturbed K s Q m'"
proof -
  have n: "c \<in> M" "d < length (cpus s)" "d \<noteq> c" "n \<le> unat (tl_count (nodes s) (Victims c))" using may by simp_all
  obtain rq where rq: "Q (Runqueue d) = Some rq" by (rule sched_queue [OF i n(2)])
  obtain vs where vs: "Q (Victims c) = Some vs" using lists_okD(4) [OF q_invD(2) [OF sched_invD(2) [OF i]], of c] n(1) by auto
  have "n \<le> length vs" using n(4) queue_count [OF q_invD(1) [OF sched_invD(2) [OF i]] vs] by simp
  moreover obtain cur where cur: "curthread c s = Some cur" by (rule sched_cur [OF i c]) (auto elim: spl_atE)
  ultimately obtain n' ts vs' s' where "do { s \<leftarrow> spinlock_acquire c (RunqueueLock d) s; (n, s) \<leftarrow> mig_give c d share n s;
      s \<leftarrow> spinlock_release c (RunqueueLock d) s; Some (n, s) } = Some (n', s')"
    and inv: "sched_inv M K s' (Q(Runqueue d \<mapsto> rq @ ts, Victims c \<mapsto> vs'))" and g: "gave M K c d share cur rq vs Q s n' ts vs' s'"
    using give_section [OF i c cur n(2,3) rq vs, of n share] by blast
  moreover have "undisturbed K s Q (M, K, s')"
    by (rule undisturbedI [OF inv]) (simp_all only: same_chans_simps, use g in \<open>auto simp: gave_def\<close>)
  ultimately show ?thesis by (auto elim!: bindE split: prod.splits)
qed

lemma step_MigEnd:
  assumes i: "sched_inv M K s Q" and c: "c < length (cpus s)" and may: "sched_may c (MigEnd) (M, K, s)"
  shows "\<exists>m'. sched_exec c (MigEnd) (M, K, s) = Some m' \<and> undisturbed K s Q m'"
proof -
  have cm: "c \<in> M" using may by simp
  obtain rq where rq: "Q (Runqueue c) = Some rq" by (rule sched_queue [OF i c])
  obtain vs where vs: "Q (Victims c) = Some vs" using lists_okD(4) [OF q_invD(2) [OF sched_invD(2) [OF i]], of c] cm by auto
  have "sched_inv (insert c (M - {c})) K s Q" using i cm by (simp add: insert_absorb)
  from migration_end [OF this c _ rq vs] obtain h where r: "sched_inv (M - {c}) K (s\<lparr>nodes := h\<rparr>) (Q(Runqueue c \<mapsto> rq @ vs, Victims c := None))"
    "do { s \<leftarrow> (if \<not> threadlist_isempty (Victims c) (nodes s)
                then do { s \<leftarrow> spinlock_acquire c (RunqueueLock c) s; s \<leftarrow> mig_return c s; spinlock_release c (RunqueueLock c) s }
                else Some s);
          kassert (threadlist_isempty (Victims c) (nodes s)); threadlist_cleanup (Victims c) (nodes s); Some s } = Some (s\<lparr>nodes := h\<rparr>)" by blast
  have u: "undisturbed K s Q (M - {c}, K, s\<lparr>nodes := h\<rparr>)" by (rule undisturbedI [OF r(1)]) (simp_all only: same_chans_simps, simp_all)
  from r(2) show ?thesis
  proof (rule bindE)
    fix a assume "(if \<not> threadlist_isempty (Victims c) (nodes s)
                then do { s \<leftarrow> spinlock_acquire c (RunqueueLock c) s; s \<leftarrow> mig_return c s; spinlock_release c (RunqueueLock c) s }
                else Some s) = Some a"
      "do { kassert (threadlist_isempty (Victims c) (nodes a)); threadlist_cleanup (Victims c) (nodes a); Some a } = Some (s\<lparr>nodes := h\<rparr>)"
    with u show ?thesis by (auto elim!: bindE)
  qed
qed

lemma step_WchanDestroy:
  assumes i: "sched_inv M K s Q" and c: "c < length (cpus s)" and may: "sched_may c (WchanDestroy w) (M, K, s)"
  shows "\<exists>m'. sched_exec c (WchanDestroy w) (M, K, s) = Some m' \<and> mach_inv m'"
proof -
  have w: "wch s w \<noteq> None" "threadlist_isempty (WcThreads w) (nodes s)" using may by simp_all
  then obtain ts where ts: "Q (WcThreads w) = Some ts" using wchan_queue [OF i] by blast
  have "ts = []" using threadlist_cleanup_spec(1) [OF q_invD(1) [OF sched_invD(2) [OF i]] ts] w(2) by simp
  with ts have "Q (WcThreads w) = Some []" by simp
  from wchan_destroy_ok [OF i this] show ?thesis by auto
qed

lemmas plain_steps = step_Yield step_Unidle step_Spl step_IpiSend step_IpiTake step_IrqEnter step_IrqExit step_Fork step_Exit step_RemThread step_MigBegin step_MigGive step_MigEnd

lemmas other_steps = step_Acquire step_Release step_WchanCreate step_Sleep step_WakeOne step_WakeBegin step_WakeNext step_WakeEnd step_WchanDestroy

lemma plain_step:
  assumes "sched_inv M K s Q" "c < length (cpus s)" "sched_may c cmd (M, K, s)" "plain cmd"
  shows "\<exists>m'. sched_exec c cmd (M, K, s) = Some m' \<and> undisturbed K s Q m'"
  using plain_steps [OF assms(1,2)] assms(3,4) by (cases cmd) simp_all

lemma sched_step_ok:
  assumes "mach_inv m" "c < length (cpus (snd (snd m)))" "sched_may c cmd m"
  shows "\<exists>m'. sched_exec c cmd m = Some m' \<and> mach_inv m'"
proof -
  obtain M K s where m: "m = (M, K, s)" by (cases m)
  then obtain Q where i: "sched_inv M K s Q" using assms(1) by auto
  show ?thesis
  proof (cases "plain cmd")
    case True
    with plain_step [OF i, of c cmd] assms(2,3) m show ?thesis using undisturbed_inv by auto
  next
    case False
    with other_steps [OF i] assms(2,3) m show ?thesis by (cases cmd) simp_all
  qed
qed

lemma sched_reach_inv:
  assumes "boot_mem_ok t ps" "boot h kproc t ps = Some s0" "sched_reach s0 m"
  shows "mach_inv m"
  using assms(3)
proof induction
  case start
  then show ?case using boot_ok [OF assms(1), of h kproc] assms(2) by auto
next
  case (step m c cmd m')
  then show ?case using sched_step_ok [of m c cmd] by auto
qed

section \<open>What the machine keeps\<close>

text \<open>The lists that are in use, and the places where a thread is: on a list, or running on a processor.\<close>

fun live_list :: "mach \<Rightarrow> tlist \<Rightarrow> bool" where
  "live_list (M, K, s) (Runqueue c) \<longleftrightarrow> c < length (cpus s)"
| "live_list (M, K, s) (Zombies c) \<longleftrightarrow> c < length (cpus s)"
| "live_list (M, K, s) (WcThreads w) \<longleftrightarrow> wch s w \<noteq> None"
| "live_list (M, K, s) (Victims c) \<longleftrightarrow> c \<in> M"
| "live_list (M, K, s) (WakeList c) \<longleftrightarrow> c \<in> K"

definition thread_places :: "mach \<Rightarrow> tid \<Rightarrow> (tlist + cpuid) set" where
  "thread_places m t = (case m of (M, K, s) \<Rightarrow>
     {Inl l |l. live_list m l \<and> (\<exists>ts. THREADLIST_FORALL l (nodes s) = Some ts \<and> t \<in> set ts)} \<union>
     {Inr c |c. c < length (cpus s) \<and> c_curthread (cpus s ! c) = Some t \<and> \<not> c_isidle (cpus s ! c)})"

lemma live_list_iff: "sched_inv M K s Q \<Longrightarrow> live_list (M, K, s) l \<longleftrightarrow> (\<exists>ts. Q l = Some ts)"
  using lists_okD [OF q_invD(2) [OF sched_invD(2)], of M K s Q] by (cases l) auto

lemma live_list_forall:
  assumes "sched_inv M K s Q" "live_list (M, K, s) l"
  shows "Q l = THREADLIST_FORALL l (nodes s)"
  using live_list_iff [OF assms(1), of l] assms(2) THREADLIST_FORALL_spec [OF q_invD(1) [OF sched_invD(2) [OF assms(1)]], of l] by auto

lemma thread_places_iff:
  assumes "sched_inv M K s Q"
  shows "Inl l \<in> thread_places (M, K, s) t \<longleftrightarrow> (\<exists>ts. Q l = Some ts \<and> t \<in> set ts)"
    "Inr c \<in> thread_places (M, K, s) t \<longleftrightarrow> c < length (cpus s) \<and> ci s ! c = (Some t, False)"
proof -
  show "Inl l \<in> thread_places (M, K, s) t \<longleftrightarrow> (\<exists>ts. Q l = Some ts \<and> t \<in> set ts)"
  proof (cases "live_list (M, K, s) l")
    case True
    then show ?thesis unfolding live_list_forall [OF assms True] by (simp add: thread_places_def)
  next
    case False
    then show ?thesis using live_list_iff [OF assms, of l] by (simp add: thread_places_def)
  qed
  show "Inr c \<in> thread_places (M, K, s) t \<longleftrightarrow> c < length (cpus s) \<and> ci s ! c = (Some t, False)"
    by (auto simp: thread_places_def)
qed

lemma one_place:
  assumes "sched_inv M K s Q" "thr s t \<noteq> None"
  shows "\<exists>x. thread_places (M, K, s) t = {x}"
proof (cases "unlisted t Q")
  case True
  note q = sched_invD(2) [OF assms(1)] and pl = thread_places_iff [OF assms(1)]
  have "t \<in> dom (pt s)" using assms(2) by (simp add: domIff)
  from q_invD(4) [OF q this _ True] obtain c where c: "c < length (cpus s)" "ci s ! c = (Some t, False)" unfolding length_ci by blast
  have u: "d = c" if "d < length (cpus s)" "ci s ! d = (Some t, False)" for d
  proof (rule cpu_ok_unique)
    show "cpu_ok (pt s) (ci s) Q d" "cpu_ok (pt s) (ci s) Q c" using q_invD(5) [OF q] that(1) c(1) by simp_all
    show "fst (ci s ! d) = fst (ci s ! c)" unfolding that(2) c(2) ..
  qed
  have "x = Inr c" if "x \<in> thread_places (M, K, s) t" for x
  proof (cases x)
    case (Inl l)
    with that pl(1) True show ?thesis unfolding unlisted_def by blast
  next
    case (Inr d)
    with that pl(2) u show ?thesis by blast
  qed
  moreover have "Inr c \<in> thread_places (M, K, s) t" using pl(2) c by blast
  ultimately show ?thesis by blast
next
  case False
  note q = sched_invD(2) [OF assms(1)] and pl = thread_places_iff [OF assms(1)]
  obtain l ts where l: "Q l = Some ts" "t \<in> set ts" using False unfolding unlisted_def by blast
  have u: "m = l" if "Q m = Some us" "t \<in> set us" for m us
    using tl_repD(5) [OF q_invD(1) [OF q] that(1) l(1)] that(2) l(2) by blast
  have "x = Inl l" if "x \<in> thread_places (M, K, s) t" for x
  proof (cases x)
    case (Inl m)
    with that pl(1) u show ?thesis by blast
  next
    case (Inr d)
    with that pl(2) listed_not_running [OF q l, of d] show ?thesis unfolding length_ci by blast
  qed
  moreover have "Inl l \<in> thread_places (M, K, s) t" using pl(1) l by blast
  ultimately show ?thesis by blast
qed

section \<open>Runs\<close>

declare threadlist_forall_from.simps [code] exorcise.simps [code] wakeall_grab.simps [code] wakeall_run.simps [code] mig_return.simps [code]

fun sched_run :: "(cpuid \<times> sched_cmd) list \<Rightarrow> mach \<Rightarrow> mach option" where
  "sched_run [] m = Some m"
| "sched_run ((c, cmd) # cs) m =
     (if c < length (cpus (snd (snd m))) \<and> sched_may c cmd m then do { m \<leftarrow> sched_exec c cmd m; sched_run cs m } else None)"

lemma sched_run_reach: "sched_run cs m = Some m' \<Longrightarrow> sched_reach s0 m \<Longrightarrow> sched_reach s0 m'"
proof (induction cs m rule: sched_run.induct)
  case (2 c cmd cs m)
  then show ?case using sched_reach.step [of s0 m c cmd] by (auto elim!: bindE split: if_splits)
qed simp

definition ex_nodes :: "tlist tlheap" where
  "ex_nodes = \<lparr>tln_prev = (\<lambda>_. None), tln_next = (\<lambda>_. None), tln_self = (\<lambda>_. None), tl_count = (\<lambda>_. 0)\<rparr>"

definition ex_stack :: "u32 list" where
  "ex_stack = replicate 8 0"

definition ex_run :: "(cpuid \<times> sched_cmd) list" where
  "ex_run = [(0, WchanCreate 1 ''sem''), (0, Spl 0), (0, Fork (Some 48) True (Some ex_stack) ''child'' None (7, 8, 9)),
     (0, Acquire 5), (0, Sleep 1 5), (0, Acquire 5), (0, WakeOne 1 5), (0, Release 5), (0, Yield), (0, RemThread), (0, Exit)]"

lemma ex_mem_ok: "boot_mem_ok 16 [(1, 32, ex_stack)]"
  by code_simp

lemma case_SomeE: "(case x of None \<Rightarrow> False | Some y \<Rightarrow> P y) \<Longrightarrow> (\<And>y. x = Some y \<Longrightarrow> P y \<Longrightarrow> R) \<Longrightarrow> R"
  by (cases x) auto

end
