(* ===== verification/Sched_Claims.thy ===== *)
theory Sched_Claims
  imports Sched_Machine
begin

text \<open>
  What the thread system promises: it never fails an assertion, no thread is lost or in two places,
  interrupts are off when they have to be, sleepers are woken in order and migration spreads the
  load.
\<close>

section \<open>The machine\<close>


definition ex_mach :: "nat \<Rightarrow> mach option" where
  "ex_mach n = do { s \<leftarrow> boot ex_nodes 0 16 [(1, 32, ex_stack)]; sched_run (take n ex_run) ({}, {}, s) }"

lemma ex_mach_reach:
  assumes "ex_mach n = Some m"
  obtains s0 where "boot ex_nodes 0 16 [(1, 32, ex_stack)] = Some s0" "sched_reach s0 m"
  using assms sched_run_reach sched_reach.start unfolding ex_mach_def by (blast elim: bindE)

lemma sum_case_cases: "(case x of Inl a \<Rightarrow> f a | Inr b \<Rightarrow> g b) \<Longrightarrow> (\<And>a. x = Inl a \<Longrightarrow> f a \<Longrightarrow> R) \<Longrightarrow> (\<And>b. x = Inr b \<Longrightarrow> g b \<Longrightarrow> R) \<Longrightarrow> R"
  by (cases x) auto

lemma ex_mach_8: "case ex_mach 8 of None \<Rightarrow> False | Some m \<Rightarrow> 0 < length (cpus (snd (snd m))) \<and> sched_may 0 Yield m"
  by code_simp


text \<open>
  C23. In every state the machine can be in, a thread that exists is in exactly one place: on one list, which fits its
  state and its processor, or running on one processor, its own, that is not idle.
\<close>

theorem thread_in_one_place:
  assumes "boot_mem_ok t0 ps" "boot h kproc t0 ps = Some s0" "sched_reach s0 (M, K, s)" "thr s t = Some th"
  shows "\<exists>x. thread_places (M, K, s) t = {x} \<and>
    (case x of
       Inl (Runqueue c) \<Rightarrow> t_state th = S_READY \<and> t_cpu th = Some c
     | Inl (Victims c) \<Rightarrow> t_state th = S_READY \<and> t_cpu th = Some c
     | Inl (Zombies c) \<Rightarrow> t_state th = S_ZOMBIE \<and> t_cpu th = Some c \<and> t_proc th = None
     | Inl (WcThreads w) \<Rightarrow> t_state th = S_SLEEP
     | Inl (WakeList c) \<Rightarrow> t_state th = S_SLEEP
     | Inr c \<Rightarrow> t_cpu th = Some c \<and> curthread c s = Some t \<and> (t_state th = S_RUN \<or> t_state th = S_READY))"
proof -
  from sched_reach_inv [OF assms(1-3)] obtain Q where i: "sched_inv M K s Q" by auto
  note q = sched_invD(2) [OF i]
  obtain x where x: "thread_places (M, K, s) t = {x}" using one_place [OF i, of t] assms(4) by blast
  have p: "pt s t = Some (t_state th, t_cpu th, t_proc th)" using assms(4) by (simp add: pt_def)
  show ?thesis
  proof (cases x)
    case (Inl l)
    then obtain ts where "Q l = Some ts" "t \<in> set ts" using x thread_places_iff(1) [OF i, of l t] by blast
    from q_invD(3) [OF q this] p x Inl show ?thesis by (cases l) auto
  next
    case (Inr c)
    then have c: "c < length (cpus s)" "ci s ! c = (Some t, False)" using x thread_places_iff(2) [OF i, of c t] by blast+
    from q_invD(5) [OF q, of c] c p have "t_cpu th = Some c" "t_state th = S_RUN \<or> t_state th = S_READY" by (auto simp: cpu_ok_def)
    with x Inr c show ?thesis by (auto simp: curthread_def)
  qed
qed

lemma ex_mach_6: "case ex_mach 6 of None \<Rightarrow> False | Some (M, K, s) \<Rightarrow>
    map_option t_state (thr s 16) = Some S_SLEEP \<and> map_option t_state (thr s 48) = Some S_RUN \<and> curthread 0 s = Some 48"
  by code_simp

theorem thread_in_one_place_witness:
  "\<exists>M K s x y. ex_mach 6 = Some (M, K, s) \<and> thread_places (M, K, s) 16 = {Inl x} \<and> thread_places (M, K, s) 48 = {Inr y}"
proof (rule case_SomeE [OF ex_mach_6])
  fix m assume m: "ex_mach 6 = Some m" "case m of (M, K, s) \<Rightarrow>
    map_option t_state (thr s 16) = Some S_SLEEP \<and> map_option t_state (thr s 48) = Some S_RUN \<and> curthread 0 s = Some 48"
  obtain M K s where s: "m = (M, K, s)" by (cases m)
  from m(1) s obtain s0 where s0: "boot ex_nodes 0 16 [(1, 32, ex_stack)] = Some s0" "sched_reach s0 (M, K, s)" by (metis ex_mach_reach)
  from m(2) s obtain a b where ab: "thr s 16 = Some a" "t_state a = S_SLEEP" "thr s 48 = Some b" "t_state b = S_RUN" by auto
  have "\<exists>x. thread_places (M, K, s) 16 = {Inl x}"
    using thread_in_one_place [OF ex_mem_ok s0 ab(1)] ab(2) by (elim exE conjE) (erule sum_case_cases, auto)
  moreover have "\<exists>y. thread_places (M, K, s) 48 = {Inr y}"
    using thread_in_one_place [OF ex_mem_ok s0 ab(3)] ab(4) by (elim exE conjE) (erule sum_case_cases, auto split: tlist.splits)
  ultimately obtain x y where "thread_places (M, K, s) 16 = {Inl x}" "thread_places (M, K, s) 48 = {Inr y}" by blast
  with m(1) s show ?thesis by blast
qed


lemma ex_mach_5: "case ex_mach 4 of None \<Rightarrow> False | Some (M, K, s) \<Rightarrow>
    0 < length (cpus s) \<and> curthread 0 s = Some 16 \<and> map_option t_curspl (thr s 16) = Some 0 \<and> lk s (OtherLock 5) = Some 0"
  by code_simp


section \<open>Wait channels\<close>


lemma ex_mach_w: "case ex_mach 6 of None \<Rightarrow> False | Some (M, K, s) \<Rightarrow>
    0 < length (cpus s) \<and> lk s (OtherLock 5) = Some 0 \<and> wch s 1 \<noteq> None \<and> THREADLIST_FORALL (WcThreads 1) (nodes s) = Some [16]"
  by code_simp


text \<open>
  C26. \<^verbatim>\<open>wchan_wakeall\<close> empties the channel: every sleeper goes to the end of the run queue of its
  processor, in the order in which they fell asleep. It ends however many sleepers there are.
\<close>

theorem wchan_wakeall_all:
  assumes "boot_mem_ok t0 ps" "boot h kproc t0 ps = Some s0" "sched_reach s0 (M, K, s)" "c < length (cpus s)" "c \<notin> K"
    and "lk s (OtherLock k) = Some c" "wch s w \<noteq> None" "THREADLIST_FORALL (WcThreads w) (nodes s) = Some ts"
  shows "\<exists>s'. wchan_wakeall c w (OtherLock k) s = Some s' \<and> THREADLIST_FORALL (WcThreads w) (nodes s') = Some [] \<and>
    (\<forall>d<length (cpus s). \<exists>rq. THREADLIST_FORALL (Runqueue d) (nodes s) = Some rq \<and>
       THREADLIST_FORALL (Runqueue d) (nodes s') = Some (rq @ filter (\<lambda>t. map_option t_cpu (thr s t) = Some (Some d)) ts))"
proof -
  from sched_reach_inv [OF assms(1-3)] obtain Q where i: "sched_inv M K s Q" by auto
  have eq: "THREADLIST_FORALL l (nodes s) = Q l" if "live_list (M, K, s) l" for l using live_list_forall [OF i that] by simp
  have w: "Q (WcThreads w) = Some ts" using eq [of "WcThreads w"] assms(7,8) by simp
  obtain s' where r: "wchan_wakeall c w (OtherLock k) s = Some s'" "sched_inv M K s' (queue_all (pt s) ts (Q(WcThreads w \<mapsto> [])))"
    using wakeall_ok [OF i assms(4,6) w assms(5)] by blast
  note fa = THREADLIST_FORALL_spec [OF q_invD(1) [OF sched_invD(2) [OF r(2)]]]
  have "THREADLIST_FORALL (WcThreads w) (nodes s') = Some []" by (rule fa) (simp add: queue_all_def)
  moreover have "\<exists>rq. THREADLIST_FORALL (Runqueue d) (nodes s) = Some rq \<and>
       THREADLIST_FORALL (Runqueue d) (nodes s') = Some (rq @ filter (\<lambda>t. map_option t_cpu (thr s t) = Some (Some d)) ts)" if d: "d < length (cpus s)" for d
  proof -
    obtain rq where rq: "Q (Runqueue d) = Some rq" by (rule sched_queue [OF i d])
    have "cpu_of (pt s) t = d \<longleftrightarrow> map_option t_cpu (thr s t) = Some (Some d)" if "t \<in> set ts" for t
      using q_invD(3) [OF sched_invD(2) [OF i] w that] by (auto simp: cpu_of_def pt_def)
    then have f: "filter (\<lambda>t. cpu_of (pt s) t = d) ts = filter (\<lambda>t. map_option t_cpu (thr s t) = Some (Some d)) ts" by (rule filter_cong [OF refl])
    have "THREADLIST_FORALL (Runqueue d) (nodes s') = Some (rq @ filter (\<lambda>t. cpu_of (pt s) t = d) ts)"
      by (rule fa) (simp add: queue_all_def rq)
    with rq eq [of "Runqueue d"] d f show ?thesis by simp
  qed
  ultimately show ?thesis using r(1) by blast
qed

lemma ex_mach_wa: "case ex_mach 6 of None \<Rightarrow> False | Some (M, K, s) \<Rightarrow>
    0 < length (cpus s) \<and> 0 \<notin> K \<and> lk s (OtherLock 5) = Some 0 \<and> wch s 1 \<noteq> None \<and> THREADLIST_FORALL (WcThreads 1) (nodes s) = Some [16]"
  by code_simp

theorem wchan_wakeall_all_witness:
  "\<exists>M K s s'. ex_mach 6 = Some (M, K, s) \<and> THREADLIST_FORALL (WcThreads 1) (nodes s) = Some [16] \<and>
     wchan_wakeall 0 1 (OtherLock 5) s = Some s' \<and> THREADLIST_FORALL (WcThreads 1) (nodes s') = Some []"
proof (rule case_SomeE [OF ex_mach_wa])
  fix m assume m: "ex_mach 6 = Some m" "case m of (M, K, s) \<Rightarrow> 0 < length (cpus s) \<and> 0 \<notin> K \<and> lk s (OtherLock 5) = Some 0 \<and> wch s 1 \<noteq> None \<and>
    THREADLIST_FORALL (WcThreads 1) (nodes s) = Some [16]"
  obtain M K s where s: "m = (M, K, s)" by (cases m)
  from m(1) s obtain s0 where s0: "boot ex_nodes 0 16 [(1, 32, ex_stack)] = Some s0" "sched_reach s0 (M, K, s)" by (metis ex_mach_reach)
  from m(2) s have a: "0 < length (cpus s)" "0 \<notin> K" "lk s (OtherLock 5) = Some 0" "wch s 1 \<noteq> None" "THREADLIST_FORALL (WcThreads 1) (nodes s) = Some [16]" by auto
  from wchan_wakeall_all [OF ex_mem_ok s0 a] m(1) s a(5) show ?thesis by blast
qed

section \<open>Migration\<close>

text \<open>
  C27. \<^verbatim>\<open>thread_consider_migration\<close> always ends. A processor with less than its share does nothing. Otherwise it keeps the first
  threads of its queue, as many as its share, and the others are given to the ends of the queues of other processors or put back:
  none is lost, none is duplicated, its own current thread is never given away, and no queue is filled above the share.
  Nothing else changes.
\<close>

theorem migration_correct:
  assumes "boot_mem_ok t0 ps" "boot h kproc t0 ps = Some s0" "sched_reach s0 (M, K, s)" "c < length (cpus s)" "c \<notin> M"
    and "curthread c s = Some cur" "THREADLIST_FORALL (Runqueue c) (nodes s) = Some rq"
  defines "share \<equiv> unat (migration_share s)"
  shows "\<exists>s' g rest. thread_consider_migration c s = Some s' \<and>
    (length rq < share \<longrightarrow> s' = s) \<and>
    (share \<le> length rq \<longrightarrow>
       mset (drop share rq) = (\<Sum>i\<leftarrow>[0..<length (cpus s)]. mset (g i)) + mset rest \<and> (\<forall>i. cur \<notin> set (g i)) \<and> g c = [] \<and>
       (\<forall>l. live_list (M, K, s) l \<longrightarrow> (\<exists>ts. THREADLIST_FORALL l (nodes s) = Some ts \<and> THREADLIST_FORALL l (nodes s') = Some
          (case l of Runqueue i \<Rightarrow> if i = c then take share rq @ rest else ts @ g i | _ \<Rightarrow> ts) \<and>
          (\<forall>i. l = Runqueue i \<and> g i \<noteq> [] \<longrightarrow> length (ts @ g i) \<le> share))) \<and>
       lk s' = lk s \<and> (\<forall>i<length (cpus s). curthread i s' = curthread i s))"
proof -
  from sched_reach_inv [OF assms(1-3)] obtain Q where i: "sched_inv M K s Q" by auto
  have eq: "THREADLIST_FORALL l (nodes s) = Q l" if "live_list (M, K, s) l" for l using live_list_forall [OF i that] by simp
  have rq: "Q (Runqueue c) = Some rq" using eq [of "Runqueue c"] assms(4,7) by simp
  show ?thesis
  proof (cases "length rq < share")
    case True
    then show ?thesis using migration_small [OF i assms(4) rq] unfolding share_def by auto
  next
    case False
    then have "share \<le> length rq" by simp
    from migration_large [OF i assms(4,5) rq this [unfolded share_def] assms(6)] obtain s' g rest where
      r: "thread_consider_migration c s = Some s'" "sched_inv M K s' (migrated c (take share rq @ rest) g Q)"
      "shares c [0..<length (cpus s)] (migration_share s) cur (drop share rq) Q g rest" "ci s' = ci s" "lk s' = lk s" unfolding share_def by blast
    note fa = THREADLIST_FORALL_spec [OF q_invD(1) [OF sched_invD(2) [OF r(2)]]]
    have "\<exists>ts. THREADLIST_FORALL l (nodes s) = Some ts \<and> THREADLIST_FORALL l (nodes s') = Some
          (case l of Runqueue i \<Rightarrow> if i = c then take share rq @ rest else ts @ g i | _ \<Rightarrow> ts) \<and>
          (\<forall>i. l = Runqueue i \<and> g i \<noteq> [] \<longrightarrow> length (ts @ g i) \<le> share)" if l: "live_list (M, K, s) l" for l
    proof -
      obtain ts where ts: "Q l = Some ts" using live_list_iff [OF i] l by blast
      have "THREADLIST_FORALL l (nodes s') = Some (case l of Runqueue i \<Rightarrow> if i = c then take share rq @ rest else ts @ g i | _ \<Rightarrow> ts)"
        by (rule fa) (use ts in \<open>auto simp: migrated_def split: tlist.split\<close>)
      then show ?thesis using ts eq [OF l] r(3) by (auto simp: shares_def share_def)
    qed
    moreover have "curthread d s' = curthread d s" if "d < length (cpus s)" for d
      using arg_cong [OF r(4), of "\<lambda>x. fst (x ! d)"] arg_cong [OF r(4), of length] that by (simp add: curthread_def)
    ultimately show ?thesis using r(1,3,5) False unfolding shares_def by (intro exI [of _ s'] exI [of _ g] exI [of _ rest]) auto
  qed
qed

definition ex_forks :: "(cpuid \<times> sched_cmd) list" where
  "ex_forks = map (\<lambda>t. (0, Fork (Some t) True (Some ex_stack) ''child'' None (7, 8, 9))) [48, 64, 80]"

definition ex_loaded :: "mach option" where
  "ex_loaded = do { s \<leftarrow> boot ex_nodes 0 16 [(1, 32, ex_stack)]; sched_run ex_forks ({}, {}, s) }"

lemma ex_loaded_state: "case ex_loaded of None \<Rightarrow> False | Some (M, K, s) \<Rightarrow>
    length (cpus s) = 2 \<and> 0 \<notin> M \<and> curthread 0 s = Some 16 \<and> THREADLIST_FORALL (Runqueue 0) (nodes s) = Some [48, 64, 80] \<and>
    THREADLIST_FORALL (Runqueue 1) (nodes s) = Some [] \<and> migration_share s = 2"
  by code_simp

theorem migration_correct_witness:
  "\<exists>M K s s' (g :: cpuid \<Rightarrow> tid list) rest. ex_loaded = Some (M, K, s) \<and> thread_consider_migration 0 s = Some s' \<and>
     {#80#} = mset (g 1) + mset rest \<and> THREADLIST_FORALL (Runqueue 0) (nodes s') = Some ([48, 64] @ rest) \<and>
     THREADLIST_FORALL (Runqueue 1) (nodes s') = Some (g 1)"
proof (rule case_SomeE [OF ex_loaded_state])
  fix m assume m: "ex_loaded = Some m" "case m of (M, K, s) \<Rightarrow>
    length (cpus s) = 2 \<and> 0 \<notin> M \<and> curthread 0 s = Some 16 \<and> THREADLIST_FORALL (Runqueue 0) (nodes s) = Some [48, 64, 80] \<and>
    THREADLIST_FORALL (Runqueue 1) (nodes s) = Some [] \<and> migration_share s = 2"
  obtain M K s where s: "m = (M, K, s)" by (cases m)
  from m(1) [unfolded ex_loaded_def] obtain s0 where b: "boot ex_nodes 0 16 [(1, 32, ex_stack)] = Some s0" "sched_run ex_forks ({}, {}, s0) = Some (M, K, s)"
    unfolding s by (rule bindE)
  note s0 = b(1) sched_run_reach [OF b(2) sched_reach.start]
  from m(2) have a: "0 < length (cpus s)" "0 \<notin> M" "curthread 0 s = Some 16" "THREADLIST_FORALL (Runqueue 0) (nodes s) = Some [48, 64, 80]"
    "THREADLIST_FORALL (Runqueue 1) (nodes s) = Some []" "unat (migration_share s) = 2" "length (cpus s) = 2" unfolding s by simp_all
  have n: "[0..<length (cpus s)] = [0, 1]" using a(7) by (simp add: upt_rec)
  have le: "2 \<le> length [48, 64, 80 :: tid]" by simp
  obtain s' g rest where r: "thread_consider_migration 0 s = Some s'"
    "mset (drop 2 [48, 64, 80]) = (\<Sum>i\<leftarrow>[0, 1]. mset (g i)) + mset rest" "g 0 = []"
    "\<forall>l. live_list (M, K, s) l \<longrightarrow> (\<exists>ts. THREADLIST_FORALL l (nodes s) = Some ts \<and> THREADLIST_FORALL l (nodes s') = Some
          (case l of Runqueue i \<Rightarrow> if i = 0 then take 2 [48, 64, 80] @ rest else ts @ g i | _ \<Rightarrow> ts) \<and>
          (\<forall>i. l = Runqueue i \<and> g i \<noteq> [] \<longrightarrow> length (ts @ g i) \<le> 2))"
    using migration_correct [OF ex_mem_ok s0 a(1-4)] le unfolding a(6) n by blast
  have l: "live_list (M, K, s) (Runqueue 0)" "live_list (M, K, s) (Runqueue 1)" using a(7) by simp_all
  have "THREADLIST_FORALL (Runqueue 0) (nodes s') = Some ([48, 64] @ rest)" using r(4) [rule_format, OF l(1)] by auto
  moreover have "THREADLIST_FORALL (Runqueue 1) (nodes s') = Some (g 1)" using r(4) [rule_format, OF l(2)] a(5) by auto
  moreover have "{#80#} = mset (g 1) + mset rest" using r(2,3) by simp
  ultimately show ?thesis using m(1) r(1) unfolding s
    by blast
qed

section \<open>Starting secondary processors\<close>

text \<open>
  C28. Every processor but the first one starts with a thread of the kernel process, and \<^verbatim>\<open>cpu_hatch\<close> makes that thread exit
  without leaving the process: the assertion of \<^verbatim>\<open>thread_exit\<close> that it did so fails. A
  system with more than one processor panics during the boot.
\<close>

theorem hatched_cpu_panics:
  assumes "boot_mem_ok t ps" "boot h kproc t ps = Some s" "c < length (cpus s)"
  shows "spl0 c s \<noteq> None \<and> (\<forall>r s'. spl0 c s = Some (r, s') \<longrightarrow> thread_exit c s' = None)"
proof -
  obtain Q where i: "sched_inv {} {} s Q" and p: "\<forall>t th. thr s t = Some th \<longrightarrow> t_proc th = Some kproc"
    using boot_ok [OF assms(1), of h kproc] assms(2) by auto
  obtain u th cs where u: "spl_at c u cs (card (held s c)) s" "thr s u = Some th" by (rule sched_cur [OF i assms(3)]) blast
  have e: "spl0 c s = Some (cs, spl_put c u 0 (card (held s c)) s)" using splx_eq [OF u(1), of 0] by (simp add: spl0_def IPL_NONE_def)
  have "curthread c (spl_put c u 0 (card (held s c)) s) = Some u" using spl_at_put [OF u(1), of 0 "card (held s c)"] by (auto elim: spl_atE)
  then have "thread_exit c (spl_put c u 0 (card (held s c)) s) = None" using u(2) p by (simp add: thread_exit_def spl_thr_def)
  with e show ?thesis by simp
qed

theorem hatched_cpu_panics_witness:
  "\<exists>s s' r. boot ex_nodes 0 16 [(1, 32, ex_stack)] = Some s \<and> spl0 1 s = Some (r, s') \<and> thread_exit 1 s' = None"
proof -
  obtain s where s: "boot ex_nodes 0 16 [(1, 32, ex_stack)] = Some s" "length (cpus s) = 2" using boot_ok [OF ex_mem_ok, of ex_nodes 0] by auto
  from hatched_cpu_panics [OF ex_mem_ok s(1), of 1] s show ?thesis by auto
qed

end
