(* ===== verification/Synch.thy ===== *)
theory Synch
  imports Sched_Machine
begin

text \<open>
  kern/thread/synch.c: semaphores, locks and condition variables on the thread system. A call that
  blocks is cut where the thread gives up the processor: the operations return whether the
  call is finished, and \<open>P_wakeup\<close>, \<open>lock_wakeup\<close> and \<open>cv_wakeup\<close> are what the thread does when
  it has been woken and runs again.
\<close>

section \<open>State\<close>

text \<open>The spinlock in each structure has a number of its own.\<close>

definition sem_lock :: "nat \<Rightarrow> splk" where "sem_lock i = OtherLock (3 * i)"
definition lk_lock :: "nat \<Rightarrow> splk" where "lk_lock i = OtherLock (3 * i + 1)"
definition cv_wchanlock :: "nat \<Rightarrow> splk" where "cv_wchanlock i = OtherLock (3 * i + 2)"

record semaphore =
  sem_name :: string
  sem_wchan :: wcid
  sem_count :: u32

record lock =
  lk_name :: string
  lk_wchan :: wcid
  lk_holder :: "tid option"

record cv =
  cv_name :: string
  cv_wchan :: wcid

record ksync =
  ks :: sched
  sems :: "nat \<Rightarrow> semaphore option"
  locks :: "nat \<Rightarrow> lock option"
  cvs :: "nat \<Rightarrow> cv option"

type_synonym 'a sync_op = "ksync \<Rightarrow> ('a \<times> ksync) option"

section \<open>Semaphores\<close>

text \<open>
  \<open>mem\<close> is the structure \<^verbatim>\<open>kmalloc\<close> gives, \<open>name_ok\<close> whether there is memory for the name, and
  \<open>wc\<close> the memory for the wait channel.
\<close>

definition sem_create :: "nat option \<Rightarrow> bool \<Rightarrow> wcid option \<Rightarrow> string \<Rightarrow> u32 \<Rightarrow> ksync \<Rightarrow> nat option \<times> ksync" where
  "sem_create mem name_ok wc name initial_count st =
     (case mem of
        None \<Rightarrow> (None, st)
      | Some i \<Rightarrow>
          if \<not> name_ok then (None, st)
          else (case wchan_create wc name (ks st) of
                  (None, s) \<Rightarrow> (None, st\<lparr>ks := s\<rparr>)
                | (Some w, s) \<Rightarrow>
                    (Some i, st\<lparr>ks := spinlock_init (sem_lock i) s,
                       sems := (sems st)(i \<mapsto> \<lparr>sem_name = name, sem_wchan = w, sem_count = initial_count\<rparr>)\<rparr>)))"

definition sem_destroy :: "nat \<Rightarrow> ksync \<Rightarrow> ksync option" where
  "sem_destroy i st =
     do { sem \<leftarrow> sems st i;
          spinlock_cleanup (sem_lock i) (ks st);
          s \<leftarrow> wchan_destroy (sem_wchan sem) (ks st);
          Some (st\<lparr>ks := s, sems := (sems st)(i := None)\<rparr>) }"

definition not_in_interrupt :: "cpuid \<Rightarrow> sched \<Rightarrow> unit option" where
  "not_in_interrupt c s = do { cur \<leftarrow> curthread c s; th \<leftarrow> thr s cur; kassert (\<not> t_in_interrupt th) }"

text \<open>The loop of \<^verbatim>\<open>P\<close> and what follows it, with the spinlock held.\<close>

definition P_loop :: "cpuid \<Rightarrow> nat \<Rightarrow> bool sync_op" where
  "P_loop c i st =
     do { sem \<leftarrow> sems st i;
          if sem_count sem = 0
          then do { s \<leftarrow> wchan_sleep c (sem_wchan sem) (sem_lock i) (ks st); Some (False, st\<lparr>ks := s\<rparr>) }
          else do { kassert (sem_count sem > 0);
                    s \<leftarrow> spinlock_release c (sem_lock i) (ks st);
                    Some (True, st\<lparr>ks := s, sems := (sems st)(i \<mapsto> sem\<lparr>sem_count := sem_count sem - 1\<rparr>)\<rparr>) } }"

definition P :: "cpuid \<Rightarrow> nat \<Rightarrow> bool sync_op" where
  "P c i st =
     do { not_in_interrupt c (ks st);
          s \<leftarrow> spinlock_acquire c (sem_lock i) (ks st);
          P_loop c i (st\<lparr>ks := s\<rparr>) }"

definition P_wakeup :: "cpuid \<Rightarrow> nat \<Rightarrow> bool sync_op" where
  "P_wakeup c i st = do { s \<leftarrow> wchan_sleep_return c (sem_lock i) (ks st); P_loop c i (st\<lparr>ks := s\<rparr>) }"

definition V :: "cpuid \<Rightarrow> nat \<Rightarrow> ksync \<Rightarrow> ksync option" where
  "V c i st =
     do { sem \<leftarrow> sems st i;
          s \<leftarrow> spinlock_acquire c (sem_lock i) (ks st);
          let sem = sem\<lparr>sem_count := sem_count sem + 1\<rparr>;
          kassert (sem_count sem > 0);
          s \<leftarrow> wchan_wakeone c (sem_wchan sem) (sem_lock i) s;
          s \<leftarrow> spinlock_release c (sem_lock i) s;
          Some (st\<lparr>ks := s, sems := (sems st)(i \<mapsto> sem)\<rparr>) }"

section \<open>Locks\<close>

definition lock_create :: "nat option \<Rightarrow> bool \<Rightarrow> wcid option \<Rightarrow> string \<Rightarrow> ksync \<Rightarrow> nat option \<times> ksync" where
  "lock_create mem name_ok wc name st =
     (case mem of
        None \<Rightarrow> (None, st)
      | Some i \<Rightarrow>
          if \<not> name_ok then (None, st)
          else (case wchan_create wc name (ks st) of
                  (None, s) \<Rightarrow> (None, st\<lparr>ks := s\<rparr>)
                | (Some w, s) \<Rightarrow>
                    (Some i, st\<lparr>ks := spinlock_init (lk_lock i) s,
                       locks := (locks st)(i \<mapsto> \<lparr>lk_name = name, lk_wchan = w, lk_holder = None\<rparr>)\<rparr>)))"

definition lock_destroy :: "nat \<Rightarrow> ksync \<Rightarrow> ksync option" where
  "lock_destroy i st =
     do { l \<leftarrow> locks st i;
          kassert (lk_holder l = None);
          spinlock_cleanup (lk_lock i) (ks st);
          s \<leftarrow> wchan_destroy (lk_wchan l) (ks st);
          Some (st\<lparr>ks := s, locks := (locks st)(i := None)\<rparr>) }"

definition lock_loop :: "cpuid \<Rightarrow> nat \<Rightarrow> bool sync_op" where
  "lock_loop c i st =
     do { l \<leftarrow> locks st i;
          if lk_holder l \<noteq> None
          then do { s \<leftarrow> wchan_sleep c (lk_wchan l) (lk_lock i) (ks st); Some (False, st\<lparr>ks := s\<rparr>) }
          else do { s \<leftarrow> spinlock_release c (lk_lock i) (ks st);
                    Some (True, st\<lparr>ks := s, locks := (locks st)(i \<mapsto> l\<lparr>lk_holder := curthread c (ks st)\<rparr>)\<rparr>) } }"

definition lock_acquire :: "cpuid \<Rightarrow> nat \<Rightarrow> bool sync_op" where
  "lock_acquire c i st =
     do { not_in_interrupt c (ks st);
          s \<leftarrow> spinlock_acquire c (lk_lock i) (ks st);
          l \<leftarrow> locks st i;
          kassert (lk_holder l \<noteq> curthread c s);
          lock_loop c i (st\<lparr>ks := s\<rparr>) }"

definition lock_wakeup :: "cpuid \<Rightarrow> nat \<Rightarrow> bool sync_op" where
  "lock_wakeup c i st = do { s \<leftarrow> wchan_sleep_return c (lk_lock i) (ks st); lock_loop c i (st\<lparr>ks := s\<rparr>) }"

definition lock_release :: "cpuid \<Rightarrow> nat \<Rightarrow> ksync \<Rightarrow> ksync option" where
  "lock_release c i st =
     do { s \<leftarrow> spinlock_acquire c (lk_lock i) (ks st);
          l \<leftarrow> locks st i;
          kassert (lk_holder l = curthread c s);
          s \<leftarrow> wchan_wakeone c (lk_wchan l) (lk_lock i) s;
          s \<leftarrow> spinlock_release c (lk_lock i) s;
          Some (st\<lparr>ks := s, locks := (locks st)(i \<mapsto> l\<lparr>lk_holder := None\<rparr>)\<rparr>) }"

definition lock_do_i_hold :: "cpuid \<Rightarrow> nat \<Rightarrow> bool sync_op" where
  "lock_do_i_hold c i st =
     do { s \<leftarrow> spinlock_acquire c (lk_lock i) (ks st);
          l \<leftarrow> locks st i;
          let ret = (lk_holder l = curthread c s);
          s \<leftarrow> spinlock_release c (lk_lock i) s;
          Some (ret, st\<lparr>ks := s\<rparr>) }"

section \<open>Condition variables\<close>

definition cv_create :: "nat option \<Rightarrow> bool \<Rightarrow> wcid option \<Rightarrow> string \<Rightarrow> ksync \<Rightarrow> nat option \<times> ksync" where
  "cv_create mem name_ok wc name st =
     (case mem of
        None \<Rightarrow> (None, st)
      | Some i \<Rightarrow>
          if \<not> name_ok then (None, st)
          else (case wchan_create wc name (ks st) of
                  (None, s) \<Rightarrow> (None, st\<lparr>ks := s\<rparr>)
                | (Some w, s) \<Rightarrow>
                    (Some i, st\<lparr>ks := spinlock_init (cv_wchanlock i) s, cvs := (cvs st)(i \<mapsto> \<lparr>cv_name = name, cv_wchan = w\<rparr>)\<rparr>)))"

definition cv_destroy :: "nat \<Rightarrow> ksync \<Rightarrow> ksync option" where
  "cv_destroy i st =
     do { v \<leftarrow> cvs st i;
          spinlock_cleanup (cv_wchanlock i) (ks st);
          s \<leftarrow> wchan_destroy (cv_wchan v) (ks st);
          Some (st\<lparr>ks := s, cvs := (cvs st)(i := None)\<rparr>) }"

text \<open>Up to the sleep, and after it: the thread then waits for the lock \<open>j\<close>.\<close>

definition cv_wait :: "cpuid \<Rightarrow> nat \<Rightarrow> nat \<Rightarrow> ksync \<Rightarrow> ksync option" where
  "cv_wait c i j st =
     do { v \<leftarrow> cvs st i;
          s \<leftarrow> spinlock_acquire c (cv_wchanlock i) (ks st);
          st \<leftarrow> lock_release c j (st\<lparr>ks := s\<rparr>);
          s \<leftarrow> wchan_sleep c (cv_wchan v) (cv_wchanlock i) (ks st);
          Some (st\<lparr>ks := s\<rparr>) }"

definition cv_wakeup :: "cpuid \<Rightarrow> nat \<Rightarrow> nat \<Rightarrow> bool sync_op" where
  "cv_wakeup c i j st =
     do { s \<leftarrow> wchan_sleep_return c (cv_wchanlock i) (ks st);
          s \<leftarrow> spinlock_release c (cv_wchanlock i) s;
          lock_acquire c j (st\<lparr>ks := s\<rparr>) }"

definition cv_signal :: "cpuid \<Rightarrow> nat \<Rightarrow> ksync \<Rightarrow> ksync option" where
  "cv_signal c i st =
     do { v \<leftarrow> cvs st i;
          s \<leftarrow> spinlock_acquire c (cv_wchanlock i) (ks st);
          s \<leftarrow> wchan_wakeone c (cv_wchan v) (cv_wchanlock i) s;
          s \<leftarrow> spinlock_release c (cv_wchanlock i) s;
          Some (st\<lparr>ks := s\<rparr>) }"

definition cv_broadcast :: "cpuid \<Rightarrow> nat \<Rightarrow> ksync \<Rightarrow> ksync option" where
  "cv_broadcast c i st =
     do { v \<leftarrow> cvs st i;
          s \<leftarrow> spinlock_acquire c (cv_wchanlock i) (ks st);
          s \<leftarrow> wchan_wakeall c (cv_wchan v) (cv_wchanlock i) s;
          s \<leftarrow> spinlock_release c (cv_wchanlock i) s;
          Some (st\<lparr>ks := s\<rparr>) }"

end
