(* ===== verification/Synch_Props.thy ===== *)
theory Synch_Props
  imports Synch
begin

text \<open>
  What semaphores, locks and condition variables promise, as operations on counts, holders and queues of
  sleeping threads, and that synch.c implements it on the thread system.
\<close>

section \<open>Specification\<close>

datatype obj = Sem nat | Lock nat | Cv nat

record async =
  a_count :: "nat \<Rightarrow> u32 option"
  a_holder :: "nat \<Rightarrow> tid option option"
  a_sleep :: "obj \<Rightarrow> tid list option"

definition a_queue :: "obj \<Rightarrow> (tid list \<Rightarrow> tid list) \<Rightarrow> async \<Rightarrow> async option" where
  "a_queue x f a = do { ts \<leftarrow> a_sleep a x; Some (a\<lparr>a_sleep := (a_sleep a)(x \<mapsto> f ts)\<rparr>) }"

definition a_P :: "tid \<Rightarrow> nat \<Rightarrow> async \<Rightarrow> (bool \<times> async) option" where
  "a_P t i a =
     do { n \<leftarrow> a_count a i;
          if n = 0 then do { a \<leftarrow> a_queue (Sem i) (\<lambda>ts. ts @ [t]) a; Some (False, a) }
          else Some (True, a\<lparr>a_count := (a_count a)(i \<mapsto> n - 1)\<rparr>) }"

definition a_V :: "nat \<Rightarrow> async \<Rightarrow> async option" where
  "a_V i a =
     do { n \<leftarrow> a_count a i;
          kassert (n + 1 \<noteq> 0);
          a_queue (Sem i) tl (a\<lparr>a_count := (a_count a)(i \<mapsto> n + 1)\<rparr>) }"

definition a_lock :: "tid \<Rightarrow> nat \<Rightarrow> async \<Rightarrow> (bool \<times> async) option" where
  "a_lock t i a =
     do { h \<leftarrow> a_holder a i;
          if h \<noteq> None then do { a \<leftarrow> a_queue (Lock i) (\<lambda>ts. ts @ [t]) a; Some (False, a) }
          else Some (True, a\<lparr>a_holder := (a_holder a)(i \<mapsto> Some t)\<rparr>) }"

definition a_unlock :: "tid \<Rightarrow> nat \<Rightarrow> async \<Rightarrow> async option" where
  "a_unlock t i a =
     do { h \<leftarrow> a_holder a i;
          kassert (h = Some t);
          a_queue (Lock i) tl (a\<lparr>a_holder := (a_holder a)(i \<mapsto> None)\<rparr>) }"

text \<open>The calls, and the resumption of those that blocked. The result is whether the call is finished, or what
  \<^verbatim>\<open>lock_do_i_hold\<close> returns; a step that is not defined is one the kernel panics at.\<close>

datatype sync_cmd =
  CP nat | CPWake nat | CV nat | CAcquire nat | CAcquireWake nat | CRelease nat | CHold nat
| CWait nat nat | CWaitWake nat nat | CSignal nat | CBroadcast nat

fun a_exec :: "tid \<Rightarrow> sync_cmd \<Rightarrow> async \<Rightarrow> (bool \<times> async) option" where
  "a_exec t (CP i) a = a_P t i a"
| "a_exec t (CPWake i) a = a_P t i a"
| "a_exec t (CV i) a = do { a \<leftarrow> a_V i a; Some (True, a) }"
| "a_exec t (CAcquire i) a = do { h \<leftarrow> a_holder a i; kassert (h \<noteq> Some t); a_lock t i a }"
| "a_exec t (CAcquireWake i) a = a_lock t i a"
| "a_exec t (CRelease i) a = do { a \<leftarrow> a_unlock t i a; Some (True, a) }"
| "a_exec t (CHold i) a = do { h \<leftarrow> a_holder a i; Some (h = Some t, a) }"
| "a_exec t (CWait i j) a =
     do { a \<leftarrow> a_unlock t j a; a \<leftarrow> a_queue (Cv i) (\<lambda>ts. ts @ [t]) a; Some (False, a) }"
| "a_exec t (CWaitWake i j) a = do { h \<leftarrow> a_holder a j; kassert (h \<noteq> Some t); a_lock t j a }"
| "a_exec t (CSignal i) a = do { a \<leftarrow> a_queue (Cv i) tl a; Some (True, a) }"
| "a_exec t (CBroadcast i) a = do { a \<leftarrow> a_queue (Cv i) (\<lambda>_. []) a; Some (True, a) }"

fun sync_exec :: "cpuid \<Rightarrow> sync_cmd \<Rightarrow> ksync \<Rightarrow> (bool \<times> ksync) option" where
  "sync_exec c (CP i) st = P c i st"
| "sync_exec c (CPWake i) st = P_wakeup c i st"
| "sync_exec c (CV i) st = do { st \<leftarrow> V c i st; Some (True, st) }"
| "sync_exec c (CAcquire i) st = lock_acquire c i st"
| "sync_exec c (CAcquireWake i) st = lock_wakeup c i st"
| "sync_exec c (CRelease i) st = do { st \<leftarrow> lock_release c i st; Some (True, st) }"
| "sync_exec c (CHold i) st = lock_do_i_hold c i st"
| "sync_exec c (CWait i j) st = do { st \<leftarrow> cv_wait c i j st; Some (False, st) }"
| "sync_exec c (CWaitWake i j) st = cv_wakeup c i j st"
| "sync_exec c (CSignal i) st = do { st \<leftarrow> cv_signal c i st; Some (True, st) }"
| "sync_exec c (CBroadcast i) st = do { st \<leftarrow> cv_broadcast c i st; Some (True, st) }"

text \<open>The wait channel of an object, and what the specification sees of a state.\<close>

fun chan :: "ksync \<Rightarrow> obj \<Rightarrow> wcid option" where
  "chan st (Sem i) = map_option sem_wchan (sems st i)"
| "chan st (Lock i) = map_option lk_wchan (locks st i)"
| "chan st (Cv i) = map_option cv_wchan (cvs st i)"

definition sync_view :: "ksync \<Rightarrow> async" where
  "sync_view st =
     \<lparr>a_count = (\<lambda>i. map_option sem_count (sems st i)), a_holder = (\<lambda>i. map_option lk_holder (locks st i)),
      a_sleep = (\<lambda>x. do { w \<leftarrow> chan st x; THREADLIST_FORALL (WcThreads w) (nodes (ks st)) })\<rparr>"

section \<open>The invariant\<close>

definition q_view :: "tqueues \<Rightarrow> ksync \<Rightarrow> async" where
  "q_view Q st =
     \<lparr>a_count = (\<lambda>i. map_option sem_count (sems st i)), a_holder = (\<lambda>i. map_option lk_holder (locks st i)),
      a_sleep = (\<lambda>x. do { w \<leftarrow> chan st x; Q (WcThreads w) })\<rparr>"

definition chans_ok :: "ksync \<Rightarrow> bool" where
  "chans_ok st \<longleftrightarrow> (\<forall>x w. chan st x = Some w \<longrightarrow> wch (ks st) w \<noteq> None) \<and> (\<forall>x y w. chan st x = Some w \<longrightarrow> chan st y = Some w \<longrightarrow> x = y)"

text \<open>Between the operations no spinlock is held.\<close>

definition sync_inv :: "cpuid set \<Rightarrow> ksync \<Rightarrow> tqueues \<Rightarrow> bool" where
  "sync_inv M st Q \<longleftrightarrow> sched_inv M {} (ks st) Q \<and> lk (ks st) = (\<lambda>_. None) \<and> chans_ok st"

lemma sync_view_eq:
  assumes "sync_inv M st Q"
  shows "sync_view st = q_view Q st"
proof -
  have "THREADLIST_FORALL (WcThreads w) (nodes (ks st)) = Q (WcThreads w)" if "chan st x = Some w" for x w
  proof -
    have "live_list (M, {}, ks st) (WcThreads w)" using assms that by (auto simp: sync_inv_def chans_ok_def)
    with assms show ?thesis by (auto simp: sync_inv_def live_list_forall)
  qed
  then have "(\<lambda>x. do { w \<leftarrow> chan st x; THREADLIST_FORALL (WcThreads w) (nodes (ks st)) }) = (\<lambda>x. do { w \<leftarrow> chan st x; Q (WcThreads w) })"
    by (auto simp: fun_eq_iff bind_eq_None_conv split: bind_splits)
  then show ?thesis by (simp add: sync_view_def q_view_def)
qed

text \<open>Processor \<open>c\<close> runs thread \<open>t\<close>, outside interrupt handlers.\<close>

definition runs :: "cpuid \<Rightarrow> tid \<Rightarrow> sched \<Rightarrow> bool" where
  "runs c t s \<longleftrightarrow> c < length (cpus s) \<and> ci s ! c = (Some t, False) \<and> intr s t = Some False"

lemma runs_cong: "ci s' = ci s \<Longrightarrow> intr s' = intr s \<Longrightarrow> runs c t s' = runs c t s"
  using length_ci [of s] length_ci [of s'] by (simp add: runs_def)

lemma runsD:
  assumes "runs c t s"
  shows "c < length (cpus s)" "\<not> c_isidle (cpus s ! c)" "curthread c s = Some t" "\<exists>th. thr s t = Some th \<and> \<not> t_in_interrupt th"
  using assms by (auto simp: runs_def intr_def curthread_def)

section \<open>The steps of the operations\<close>

fun obj_num :: "obj \<Rightarrow> nat" where
  "obj_num (Sem i) = 3 * i" | "obj_num (Lock i) = 3 * i + 1" | "obj_num (Cv i) = 3 * i + 2"

definition obj_lock :: "obj \<Rightarrow> splk" where
  "obj_lock x = OtherLock (obj_num x)"

lemma obj_lock_simps: "sem_lock i = obj_lock (Sem i)" "lk_lock i = obj_lock (Lock i)" "cv_wchanlock i = obj_lock (Cv i)"
  by (simp_all add: obj_lock_def sem_lock_def lk_lock_def cv_wchanlock_def)

lemma obj_lock_inj [simp]: "obj_lock x = obj_lock y \<longleftrightarrow> x = y"
  by (cases x; cases y) (auto simp: obj_lock_def, presburger+)

lemma not_in_interrupt_ok: "runs c t s \<Longrightarrow> not_in_interrupt c s = Some ()"
  using runsD(3,4) [of c t s] by (auto simp: not_in_interrupt_def)

lemma acquire_run:
  assumes "sched_inv M {} s Q" "runs c t s" "lk s (obj_lock x) = None"
  obtains s' where "spinlock_acquire c (obj_lock x) s = Some s'" "sched_inv M {} s' Q" "lk s' = (lk s)(obj_lock x \<mapsto> c)" "wch s' = wch s" "runs c t s'"
    "curthread c s' = Some t"
  using acquire_ok [OF assms(1) runsD(1) [OF assms(2)], of "obj_num x"] assms(2,3) runs_cong runsD(3)
  by (metis obj_lock_def)

lemma release_run:
  assumes "sched_inv M {} s Q" "runs c t s" "lk s (obj_lock x) = Some c"
  obtains s' where "spinlock_release c (obj_lock x) s = Some s'" "sched_inv M {} s' Q" "lk s' = (lk s)(obj_lock x := None)" "wch s' = wch s" "runs c t s'"
  using release_ok [OF assms(1) runsD(1) [OF assms(2)], of "obj_num x"] assms(2,3) runs_cong
  by (metis obj_lock_def)

lemma sleep_run:
  assumes "sched_inv M {} s Q" "runs c t s" "lk s = [obj_lock x \<mapsto> c]" "wch s w \<noteq> None" "Q (WcThreads w) = Some ts"
  obtains s' Q' where "wchan_sleep c w (obj_lock x) s = Some s'" "sched_inv M {} s' Q'" "same_chans (Q(WcThreads w \<mapsto> ts @ [t])) Q'" "lk s' = Map.empty" "wch s' = wch s"
proof -
  obtain th where th: "thr s t = Some th" "\<not> t_in_interrupt th" using runsD(4) [OF assms(2)] by blast
  have "held s c = {obj_lock x}" using assms(3) by (auto simp: held_def split: if_splits)
  moreover obtain name where "wch s w = Some name" using assms(4) by blast
  moreover have "(lk s)(obj_lock x := None) = Map.empty" by (simp add: assms(3))
  ultimately show ?thesis
    using that sleep_ok [OF assms(1) runsD(1,2) [OF assms(2)] _ _ runsD(3) [OF assms(2)] th assms(5)] by metis
qed

lemma wakeone_run:
  assumes "sched_inv M {} s Q" "runs c t s" "lk s (obj_lock x) = Some c" "Q (WcThreads w) = Some ts"
  obtains s' Q' where "wchan_wakeone c w (obj_lock x) s = Some s'" "sched_inv M {} s' Q'" "same_chans (Q(WcThreads w \<mapsto> tl ts)) Q'" "lk s' = lk s" "wch s' = wch s" "runs c t s'"
proof (cases ts)
  case Nil
  with assms(4) have "same_chans (Q(WcThreads w \<mapsto> tl ts)) Q" by (simp add: same_chans_def)
  with that [OF _ assms(1)] wakeone_ok(1) [OF assms(1) runsD(1) [OF assms(2)] assms(3,4) Nil] assms(2) show ?thesis by simp
next
  case (Cons u us)
  from wakeone_ok(2) [OF assms(1) runsD(1) [OF assms(2)] assms(3,4) Cons] obtain s' d rq where s':
    "wchan_wakeone c w (obj_lock x) s = Some s'" "sched_inv M {} s' (Q(WcThreads w \<mapsto> us, Runqueue d \<mapsto> rq @ [u]))" "lk s' = lk s" "wch s' = wch s" "ci s' = ci s" "intr s' = intr s"
    by blast
  have "same_chans (Q(WcThreads w \<mapsto> tl ts)) (Q(WcThreads w \<mapsto> us, Runqueue d \<mapsto> rq @ [u]))" using Cons by (simp add: same_chans_def)
  with that s' runs_cong [OF s'(5,6)] assms(2) show ?thesis by blast
qed

lemma wakeall_run:
  assumes "sched_inv M {} s Q" "runs c t s" "lk s (obj_lock x) = Some c" "Q (WcThreads w) = Some ts"
  obtains s' Q' where "wchan_wakeall c w (obj_lock x) s = Some s'" "sched_inv M {} s' Q'" "same_chans (Q(WcThreads w \<mapsto> [])) Q'" "lk s' = lk s" "wch s' = wch s" "runs c t s'"
proof -
  from wakeall_ok [OF assms(1) runsD(1) [OF assms(2)] assms(3,4)] obtain s' where s':
    "wchan_wakeall c w (obj_lock x) s = Some s'" "sched_inv M {} s' (queue_all (pt s) ts (Q(WcThreads w \<mapsto> [])))" "lk s' = lk s" "wch s' = wch s" "ci s' = ci s" "intr s' = intr s"
    by blast
  have "same_chans (Q(WcThreads w \<mapsto> [])) (queue_all (pt s) ts (Q(WcThreads w \<mapsto> [])))" by (simp add: same_chans_def queue_all_def)
  with that s' runs_cong [OF s'(5,6)] assms(2) show ?thesis by blast
qed

section \<open>What the specification sees\<close>

lemma chan_ks [simp]: "chan (st\<lparr>ks := s\<rparr>) = chan st" "q_view Q (st\<lparr>ks := s\<rparr>) = q_view Q st"
proof -
  have "chan (st\<lparr>ks := s\<rparr>) x = chan st x" for x by (cases x) simp_all
  then show "chan (st\<lparr>ks := s\<rparr>) = chan st" by blast
  then show "q_view Q (st\<lparr>ks := s\<rparr>) = q_view Q st" by (simp add: q_view_def)
qed

lemma chan_sems: "sems st i = Some sem \<Longrightarrow> chan (st\<lparr>sems := (sems st)(i \<mapsto> sem\<lparr>sem_count := n\<rparr>)\<rparr>) = chan st"
  and chan_locks: "locks st i = Some l \<Longrightarrow> chan (st\<lparr>locks := (locks st)(i \<mapsto> l\<lparr>lk_holder := h\<rparr>)\<rparr>) = chan st"
  by (rule ext, rename_tac x, case_tac x, simp_all)+

lemma view_sems: "sems st i = Some sem \<Longrightarrow>
    q_view Q (st\<lparr>sems := (sems st)(i \<mapsto> sem\<lparr>sem_count := n\<rparr>)\<rparr>) = (q_view Q st)\<lparr>a_count := (a_count (q_view Q st))(i \<mapsto> n)\<rparr>"
  and view_locks: "locks st i = Some l \<Longrightarrow>
    q_view Q (st\<lparr>locks := (locks st)(i \<mapsto> l\<lparr>lk_holder := h\<rparr>)\<rparr>) = (q_view Q st)\<lparr>a_holder := (a_holder (q_view Q st))(i \<mapsto> h)\<rparr>"
  by (auto simp: q_view_def chan_sems chan_locks fun_eq_iff)

lemma view_same: "same_chans Q Q' \<Longrightarrow> q_view Q' st = q_view Q st"
  by (simp add: q_view_def same_chans_def)

lemma view_queue:
  assumes "chans_ok st" "chan st x = Some w" "same_chans (Q(WcThreads w \<mapsto> us)) Q'"
  shows "q_view Q' st = (q_view Q st)\<lparr>a_sleep := (a_sleep (q_view Q st))(x \<mapsto> us)\<rparr>"
proof -
  have "do { w \<leftarrow> chan st y; Q' (WcThreads w) } = ((a_sleep (q_view Q st))(x \<mapsto> us)) y" for y
    using assms by (cases "chan st y") (auto simp: q_view_def chans_ok_def same_chans_def)
  then show ?thesis by (simp add: q_view_def fun_eq_iff)
qed

lemma chans_ok_cong: "chans_ok st \<Longrightarrow> chan st' = chan st \<Longrightarrow> wch (ks st') = wch (ks st) \<Longrightarrow> chans_ok st'"
  by (simp add: chans_ok_def)

lemma a_queueE:
  assumes "a_queue x f (q_view Q st) = Some a'"
  obtains w ts where "chan st x = Some w" "Q (WcThreads w) = Some ts" "a' = (q_view Q st)\<lparr>a_sleep := (a_sleep (q_view Q st))(x \<mapsto> f ts)\<rparr>"
  using assms by (auto simp: a_queue_def q_view_def elim!: bindE)

lemma ks_order: "st\<lparr>sems := x, ks := s\<rparr> = st\<lparr>ks := s, sems := x\<rparr>" "st\<lparr>locks := y, ks := s\<rparr> = st\<lparr>ks := s, locks := y\<rparr>"
  by simp_all

section \<open>Refinement\<close>

definition sync_result :: "cpuid set \<Rightarrow> (bool \<times> ksync) option \<Rightarrow> bool \<Rightarrow> async \<Rightarrow> bool" where
  "sync_result M X r a' \<longleftrightarrow> (\<exists>st' Q'. X = Some (r, st') \<and> sync_inv M st' Q' \<and> q_view Q' st' = a')"

text \<open>With only the spinlock of \<open>x\<close> held, the thread goes to sleep on \<open>x\<close>.\<close>

lemma sleep_result:
  assumes "sched_inv M {} (ks st) Q" "runs c t (ks st)" "lk (ks st) = [obj_lock x \<mapsto> c]" "chans_ok st"
    and "chan st x = Some w" "a_queue x (\<lambda>ts. ts @ [t]) (q_view Q st) = Some a'"
  shows "sync_result M (do { s \<leftarrow> wchan_sleep c w (obj_lock x) (ks st); Some (False, st\<lparr>ks := s\<rparr>) }) False a'"
proof -
  obtain ts where ts: "Q (WcThreads w) = Some ts" "a' = (q_view Q st)\<lparr>a_sleep := (a_sleep (q_view Q st))(x \<mapsto> ts @ [t])\<rparr>"
    by (rule a_queueE [OF assms(6)]) (use assms(5) in auto)
  have "wch (ks st) w \<noteq> None" using assms(4,5) by (auto simp: chans_ok_def)
  from sleep_run [OF assms(1-3) this ts(1)] obtain s' Q' where s': "wchan_sleep c w (obj_lock x) (ks st) = Some s'" "sched_inv M {} s' Q'"
    "same_chans (Q(WcThreads w \<mapsto> ts @ [t])) Q'" "lk s' = Map.empty" "wch s' = wch (ks st)" .
  have "sync_inv M (st\<lparr>ks := s'\<rparr>) Q'" using s' chans_ok_cong [OF assms(4), of "st\<lparr>ks := s'\<rparr>"] by (simp add: sync_inv_def)
  moreover have "q_view Q' (st\<lparr>ks := s'\<rparr>) = a'" using view_queue [OF assms(4,5) s'(3)] ts(2) by simp
  ultimately show ?thesis using s'(1) by (auto simp: sync_result_def)
qed

text \<open>With only the spinlock of \<open>x\<close> held, the thread releases it and goes on; only counts and holders changed.\<close>

lemma release_result:
  assumes "sched_inv M {} (ks st) Q" "runs c t (ks st)" "lk (ks st) = [obj_lock x \<mapsto> c]" "chans_ok st" "chan st' = chan st"
  shows "sync_result M (do { s \<leftarrow> spinlock_release c (obj_lock x) (ks st); Some (r, st'\<lparr>ks := s\<rparr>) }) r (q_view Q st')"
proof -
  from release_run [OF assms(1,2), of x] assms(3) obtain s' where s': "spinlock_release c (obj_lock x) (ks st) = Some s'" "sched_inv M {} s' Q"
    "lk s' = (lk (ks st))(obj_lock x := None)" "wch s' = wch (ks st)" by auto
  have "chans_ok (st'\<lparr>ks := s'\<rparr>)" by (rule chans_ok_cong [OF assms(4)]) (simp_all add: s'(4) assms(5))
  with s' assms(3) have "sync_inv M (st'\<lparr>ks := s'\<rparr>) Q" by (simp add: sync_inv_def)
  then show ?thesis using s'(1) by (auto simp: sync_result_def)
qed

lemma P_loop_result:
  assumes "sched_inv M {} (ks st) Q" "runs c t (ks st)" "lk (ks st) = [obj_lock (Sem i) \<mapsto> c]" "chans_ok st" "a_P t i (q_view Q st) = Some (r, a')"
  shows "sync_result M (P_loop c i st) r a'"
proof -
  obtain sem where sem: "sems st i = Some sem" using assms(5) by (auto simp: a_P_def q_view_def elim!: bindE)
  then have c: "a_count (q_view Q st) i = Some (sem_count sem)" "chan st (Sem i) = Some (sem_wchan sem)" by (simp_all add: q_view_def)
  show ?thesis
  proof (cases "sem_count sem = 0")
    case True
    with assms(5) c(1) have "r = False" "a_queue (Sem i) (\<lambda>ts. ts @ [t]) (q_view Q st) = Some a'" by (auto simp: a_P_def elim!: bindE)
    with sleep_result [OF assms(1-4) c(2)] sem True show ?thesis by (simp add: P_loop_def obj_lock_simps)
  next
    case False
    let ?st' = "st\<lparr>sems := (sems st)(i \<mapsto> sem\<lparr>sem_count := sem_count sem - 1\<rparr>)\<rparr>"
    from assms(5) c(1) False have "r = True" "a' = q_view Q ?st'" by (auto simp: a_P_def view_sems [OF sem])
    moreover have "0 < sem_count sem" using False by (simp add: word_neq_0_conv)
    ultimately show ?thesis
      using release_result [OF assms(1-4), of ?st' True] chan_sems [OF sem] sem False by (simp add: P_loop_def obj_lock_simps ks_order)
  qed
qed

text \<open>An operation begins by taking the spinlock of its object.\<close>

lemma acquire_result:
  assumes "sync_inv M st Q" "runs c t (ks st)"
    and "\<And>s. sched_inv M {} s Q \<Longrightarrow> runs c t s \<Longrightarrow> lk s = [obj_lock x \<mapsto> c] \<Longrightarrow> chans_ok (st\<lparr>ks := s\<rparr>) \<Longrightarrow> curthread c s = Some t \<Longrightarrow> sync_result M (F s) r a'"
  shows "sync_result M (do { s \<leftarrow> spinlock_acquire c (obj_lock x) (ks st); F s }) r a'"
proof -
  have i: "sched_inv M {} (ks st) Q" "lk (ks st) = Map.empty" "chans_ok st" using assms(1) by (simp_all add: sync_inv_def)
  then obtain s' where s': "spinlock_acquire c (obj_lock x) (ks st) = Some s'" "sched_inv M {} s' Q" "lk s' = (lk (ks st))(obj_lock x \<mapsto> c)" "wch s' = wch (ks st)" "runs c t s'" "curthread c s' = Some t"
    by (metis acquire_run [OF i(1) assms(2)])
  have "chans_ok (st\<lparr>ks := s'\<rparr>)" by (rule chans_ok_cong [OF i(3)]) (simp_all add: s'(4))
  with assms(3) [OF s'(2,5)] s'(1,3,6) i(2) show ?thesis by simp
qed

lemma P_result:
  assumes "sync_inv M st Q" "runs c t (ks st)" "a_P t i (q_view Q st) = Some (r, a')"
  shows "sync_result M (P c i st) r a'" "sync_result M (P_wakeup c i st) r a'"
proof -
  have "sync_result M (do { s \<leftarrow> spinlock_acquire c (obj_lock (Sem i)) (ks st); P_loop c i (st\<lparr>ks := s\<rparr>) }) r a'"
    by (rule acquire_result [OF assms(1,2)]) (rule P_loop_result, use assms(3) in simp_all)
  then show "sync_result M (P c i st) r a'" "sync_result M (P_wakeup c i st) r a'"
    using not_in_interrupt_ok [OF assms(2)] by (simp_all add: P_def P_wakeup_def wchan_sleep_return_def obj_lock_simps)
qed

lemma lock_loop_result:
  assumes "sched_inv M {} (ks st) Q" "runs c t (ks st)" "lk (ks st) = [obj_lock (Lock i) \<mapsto> c]" "chans_ok st" "curthread c (ks st) = Some t"
    and "a_lock t i (q_view Q st) = Some (r, a')"
  shows "sync_result M (lock_loop c i st) r a'"
proof -
  obtain l where l: "locks st i = Some l" using assms(6) by (auto simp: a_lock_def q_view_def elim!: bindE)
  then have c: "a_holder (q_view Q st) i = Some (lk_holder l)" "chan st (Lock i) = Some (lk_wchan l)" by (simp_all add: q_view_def)
  show ?thesis
  proof (cases "lk_holder l = None")
    case False
    with assms(6) c(1) have "r = False" "a_queue (Lock i) (\<lambda>ts. ts @ [t]) (q_view Q st) = Some a'" by (auto simp: a_lock_def elim!: bindE)
    with sleep_result [OF assms(1-4) c(2)] l False show ?thesis by (simp add: lock_loop_def obj_lock_simps)
  next
    case True
    let ?st' = "st\<lparr>locks := (locks st)(i \<mapsto> l\<lparr>lk_holder := Some t\<rparr>)\<rparr>"
    from assms(6) c(1) True have "r = True" "a' = q_view Q ?st'" by (auto simp: a_lock_def view_locks [OF l])
    then show ?thesis
      using release_result [OF assms(1-4), of ?st' True] chan_locks [OF l] l True assms(5) by (simp add: lock_loop_def obj_lock_simps ks_order)
  qed
qed

lemma lock_wakeup_result:
  assumes "sync_inv M st Q" "runs c t (ks st)" "a_lock t i (q_view Q st) = Some (r, a')"
  shows "sync_result M (lock_wakeup c i st) r a'"
  unfolding lock_wakeup_def wchan_sleep_return_def obj_lock_simps
  by (rule acquire_result [OF assms(1,2)]) (rule lock_loop_result, use assms(3) in simp_all)

lemma lock_acquire_result:
  assumes "sync_inv M st Q" "runs c t (ks st)" "a_holder (q_view Q st) i = Some h" "h \<noteq> Some t" "a_lock t i (q_view Q st) = Some (r, a')"
  shows "sync_result M (lock_acquire c i st) r a'"
proof -
  obtain l where l: "locks st i = Some l" "lk_holder l = h" using assms(3) by (auto simp: q_view_def)
  have "sync_result M (do { s \<leftarrow> spinlock_acquire c (obj_lock (Lock i)) (ks st); do { l \<leftarrow> locks st i; kassert (lk_holder l \<noteq> curthread c s); lock_loop c i (st\<lparr>ks := s\<rparr>) } }) r a'"
  proof (rule acquire_result [OF assms(1,2)])
    fix s assume s: "sched_inv M {} s Q" "runs c t s" "lk s = [obj_lock (Lock i) \<mapsto> c]" "chans_ok (st\<lparr>ks := s\<rparr>)" "curthread c s = Some t"
    from lock_loop_result [of M "st\<lparr>ks := s\<rparr>" Q c t i r a'] s assms(5) have "sync_result M (lock_loop c i (st\<lparr>ks := s\<rparr>)) r a'" by simp
    then show "sync_result M (do { l \<leftarrow> locks st i; kassert (lk_holder l \<noteq> curthread c s); lock_loop c i (st\<lparr>ks := s\<rparr>) }) r a'"
      using l assms(4) s(5) by simp
  qed
  then show ?thesis using not_in_interrupt_ok [OF assms(2)] by (simp add: lock_acquire_def obj_lock_simps)
qed

lemma lock_do_i_hold_result:
  assumes "sync_inv M st Q" "runs c t (ks st)" "a_holder (q_view Q st) i = Some h"
  shows "sync_result M (lock_do_i_hold c i st) (h = Some t) (q_view Q st)"
proof -
  obtain l where l: "locks st i = Some l" "lk_holder l = h" using assms(3) by (auto simp: q_view_def)
  have "sync_result M (do { s \<leftarrow> spinlock_acquire c (obj_lock (Lock i)) (ks st); do { s' \<leftarrow> spinlock_release c (obj_lock (Lock i)) s; Some (lk_holder l = curthread c s, st\<lparr>ks := s'\<rparr>) } })
      (h = Some t) (q_view Q st)"
  proof (rule acquire_result [OF assms(1,2)])
    fix s assume s: "sched_inv M {} s Q" "runs c t s" "lk s = [obj_lock (Lock i) \<mapsto> c]" "chans_ok (st\<lparr>ks := s\<rparr>)" "curthread c s = Some t"
    from release_result [of M "st\<lparr>ks := s\<rparr>" Q c t "Lock i" st "h = Some t"] s l
    show "sync_result M (do { s' \<leftarrow> spinlock_release c (obj_lock (Lock i)) s; Some (lk_holder l = curthread c s, st\<lparr>ks := s'\<rparr>) }) (h = Some t) (q_view Q st)" by simp
  qed
  then show ?thesis using l(1) by (simp add: lock_do_i_hold_def obj_lock_simps Let_def)
qed

text \<open>Waking one or all of the threads that sleep on \<open>x\<close>, and releasing the spinlock.\<close>

lemma wake_section:
  assumes "sched_inv M {} s Q" "runs c t s" "lk s (obj_lock x) = Some c" "chans_ok st" "chan st x = Some w" "a_queue x f (q_view Q st) = Some a'"
    and "W = wchan_wakeone \<and> f = tl \<or> W = wchan_wakeall \<and> f = (\<lambda>_. [])"
  obtains s' s'' Q' where "W c w (obj_lock x) s = Some s'" "spinlock_release c (obj_lock x) s' = Some s''" "sched_inv M {} s'' Q'" "q_view Q' st = a'"
    "lk s'' = (lk s)(obj_lock x := None)" "wch s'' = wch s" "runs c t s''"
proof -
  obtain ts where ts: "Q (WcThreads w) = Some ts" "a' = (q_view Q st)\<lparr>a_sleep := (a_sleep (q_view Q st))(x \<mapsto> f ts)\<rparr>"
    by (rule a_queueE [OF assms(6)]) (use assms(5) in auto)
  obtain s' Q' where s': "W c w (obj_lock x) s = Some s'" "sched_inv M {} s' Q'" "same_chans (Q(WcThreads w \<mapsto> f ts)) Q'" "lk s' = lk s" "wch s' = wch s" "runs c t s'"
    using assms(7) wakeone_run [OF assms(1-3) ts(1)] wakeall_run [OF assms(1-3) ts(1)] by metis
  obtain s'' where s'': "spinlock_release c (obj_lock x) s' = Some s''" "sched_inv M {} s'' Q'" "lk s'' = (lk s')(obj_lock x := None)" "wch s'' = wch s'" "runs c t s''"
    using release_run [OF s'(2,6), of x] assms(3) s'(4) by metis
  have "q_view Q' st = a'" using view_queue [OF assms(4,5) s'(3)] ts(2) by simp
  with that [OF s'(1) s''(1,2)] s'' s'(4,5) show ?thesis by simp
qed

lemma cv_wake_result:
  assumes "sync_inv M st Q" "runs c t (ks st)" "a_queue (Cv i) f (q_view Q st) = Some a'" "cvs st i = Some v"
    and "W = wchan_wakeone \<and> f = tl \<or> W = wchan_wakeall \<and> f = (\<lambda>_. [])"
  shows "sync_result M (do { s \<leftarrow> spinlock_acquire c (obj_lock (Cv i)) (ks st); do { s \<leftarrow> W c (cv_wchan v) (obj_lock (Cv i)) s;
     s \<leftarrow> spinlock_release c (obj_lock (Cv i)) s; Some (True, st\<lparr>ks := s\<rparr>) } }) True a'"
proof (rule acquire_result [OF assms(1,2)])
  fix s assume s: "sched_inv M {} s Q" "runs c t s" "lk s = [obj_lock (Cv i) \<mapsto> c]" "chans_ok (st\<lparr>ks := s\<rparr>)"
  obtain s' s'' Q' where w: "W c (cv_wchan v) (obj_lock (Cv i)) s = Some s'" "spinlock_release c (obj_lock (Cv i)) s' = Some s''" "sched_inv M {} s'' Q'" "q_view Q' (st\<lparr>ks := s\<rparr>) = a'"
    "lk s'' = (lk s)(obj_lock (Cv i) := None)" "wch s'' = wch s"
    by (rule wake_section [OF s(1,2) _ s(4) _ _ assms(5)]) (simp add: s(3), simp add: assms(4), simp add: assms(3), blast)
  have "chans_ok (st\<lparr>ks := s''\<rparr>)" by (rule chans_ok_cong [OF s(4)]) (simp_all add: w(6))
  with w s(3) have "sync_inv M (st\<lparr>ks := s''\<rparr>) Q'" by (simp add: sync_inv_def)
  with w show "sync_result M (do { s \<leftarrow> W c (cv_wchan v) (obj_lock (Cv i)) s; s \<leftarrow> spinlock_release c (obj_lock (Cv i)) s; Some (True, st\<lparr>ks := s\<rparr>) }) True a'"
    by (auto simp: sync_result_def)
qed

lemma V_result:
  assumes "sync_inv M st Q" "runs c t (ks st)" "a_V i (q_view Q st) = Some a'"
  shows "sync_result M (do { st \<leftarrow> V c i st; Some (True, st) }) True a'"
proof -
  obtain sem where sem: "sems st i = Some sem" using assms(3) by (auto simp: a_V_def q_view_def elim!: bindE)
  let ?sem = "sem\<lparr>sem_count := sem_count sem + 1\<rparr>"
  let ?st = "st\<lparr>sems := (sems st)(i \<mapsto> ?sem)\<rparr>"
  have a: "sem_count sem + 1 \<noteq> 0" "a_queue (Sem i) tl (q_view Q ?st) = Some a'"
    using assms(3) sem by (auto simp: a_V_def view_sems [OF sem] elim!: bindE) (simp_all add: q_view_def)
  then have pos: "0 < sem_count ?sem" by (simp add: word_neq_0_conv)
  have "sync_result M (do { s \<leftarrow> spinlock_acquire c (obj_lock (Sem i)) (ks st); do { s \<leftarrow> wchan_wakeone c (sem_wchan sem) (obj_lock (Sem i)) s;
     s \<leftarrow> spinlock_release c (obj_lock (Sem i)) s; Some (True, st\<lparr>ks := s, sems := (sems st)(i \<mapsto> ?sem)\<rparr>) } }) True a'"
  proof (rule acquire_result [OF assms(1,2)])
    fix s assume s: "sched_inv M {} s Q" "runs c t s" "lk s = [obj_lock (Sem i) \<mapsto> c]" "chans_ok (st\<lparr>ks := s\<rparr>)"
    have ok: "chans_ok (?st\<lparr>ks := s\<rparr>)" by (rule chans_ok_cong [OF s(4)]) (simp_all add: chan_sems [OF sem])
    obtain s' s'' Q' where w: "wchan_wakeone c (sem_wchan sem) (obj_lock (Sem i)) s = Some s'" "spinlock_release c (obj_lock (Sem i)) s' = Some s''" "sched_inv M {} s'' Q'"
      "q_view Q' (?st\<lparr>ks := s\<rparr>) = a'" "lk s'' = (lk s)(obj_lock (Sem i) := None)" "wch s'' = wch s"
      by (rule wake_section [OF s(1,2) _ ok, of "Sem i" "sem_wchan sem" tl a' wchan_wakeone]) (use s(3) a(2) sem in simp_all)
    have "chans_ok (?st\<lparr>ks := s''\<rparr>)" by (rule chans_ok_cong [OF ok]) (simp_all add: w(6))
    with w s(3) have "sync_inv M (?st\<lparr>ks := s''\<rparr>) Q'" by (simp add: sync_inv_def)
    moreover have "q_view Q' (?st\<lparr>ks := s''\<rparr>) = a'" using w(4) by simp
    ultimately show "sync_result M (do { s \<leftarrow> wchan_wakeone c (sem_wchan sem) (obj_lock (Sem i)) s; s \<leftarrow> spinlock_release c (obj_lock (Sem i)) s;
        Some (True, st\<lparr>ks := s, sems := (sems st)(i \<mapsto> ?sem)\<rparr>) }) True a'"
      using w(1,2) unfolding ks_order by (auto simp: sync_result_def)
  qed
  then show ?thesis using sem pos by (simp add: V_def obj_lock_simps Let_def)
qed

lemma lock_release_run:
  assumes "sched_inv M {} (ks st) Q" "runs c t (ks st)" "lk (ks st) (obj_lock (Lock i)) = None" "chans_ok st" "a_unlock t i (q_view Q st) = Some a'"
  obtains st' Q' where "lock_release c i st = Some st'" "sched_inv M {} (ks st') Q'" "q_view Q' st' = a'" "lk (ks st') = lk (ks st)" "runs c t (ks st')"
    "chans_ok st'" "cvs st' = cvs st"
proof -
  obtain l where l: "locks st i = Some l" "lk_holder l = Some t" using assms(5) by (auto simp: a_unlock_def q_view_def elim!: bindE)
  let ?st = "st\<lparr>locks := (locks st)(i \<mapsto> l\<lparr>lk_holder := None\<rparr>)\<rparr>"
  have a: "a_queue (Lock i) tl (q_view Q ?st) = Some a'" using assms(5) l by (auto simp: a_unlock_def view_locks [OF l(1)] elim!: bindE)
  obtain s where s: "spinlock_acquire c (obj_lock (Lock i)) (ks st) = Some s" "sched_inv M {} s Q" "lk s = (lk (ks st))(obj_lock (Lock i) \<mapsto> c)" "wch s = wch (ks st)" "runs c t s" "curthread c s = Some t"
    by (rule acquire_run [OF assms(1-3)])
  have ok: "chans_ok (?st\<lparr>ks := s\<rparr>)" by (rule chans_ok_cong [OF assms(4)]) (simp_all add: chan_locks [OF l(1)] s(4))
  obtain s' s'' Q' where w: "wchan_wakeone c (lk_wchan l) (obj_lock (Lock i)) s = Some s'" "spinlock_release c (obj_lock (Lock i)) s' = Some s''" "sched_inv M {} s'' Q'"
    "q_view Q' (?st\<lparr>ks := s\<rparr>) = a'" "lk s'' = (lk s)(obj_lock (Lock i) := None)" "wch s'' = wch s" "runs c t s''"
    by (rule wake_section [OF s(2,5) _ ok, of "Lock i" "lk_wchan l" tl a' wchan_wakeone]) (use s(3) a l in simp_all)
  have "chans_ok (?st\<lparr>ks := s''\<rparr>)" by (rule chans_ok_cong [OF ok]) (simp_all add: w(6))
  moreover have "lk s'' = lk (ks st)" using w(5) s(3) assms(3) by auto
  moreover have "lock_release c i st = Some (?st\<lparr>ks := s''\<rparr>)"
    using s(1,6) l w(1,2) by (simp add: lock_release_def obj_lock_simps ks_order)
  ultimately show ?thesis using that [of "?st\<lparr>ks := s''\<rparr>" Q'] w(3,4,7) by simp
qed

lemma cv_wait_result:
  assumes "sync_inv M st Q" "runs c t (ks st)" "a_unlock t j (q_view Q st) = Some a" "a_queue (Cv i) (\<lambda>ts. ts @ [t]) a = Some a'"
  shows "sync_result M (do { st \<leftarrow> cv_wait c i j st; Some (False, st) }) False a'"
proof -
  obtain v where v: "cvs st i = Some v"
    using assms(3,4) by (auto simp: a_unlock_def a_queue_def q_view_def elim!: bindE)
  have "sync_result M (do { s \<leftarrow> spinlock_acquire c (obj_lock (Cv i)) (ks st); do { st \<leftarrow> lock_release c j (st\<lparr>ks := s\<rparr>);
     s \<leftarrow> wchan_sleep c (cv_wchan v) (obj_lock (Cv i)) (ks st); Some (False, st\<lparr>ks := s\<rparr>) } }) False a'"
  proof (rule acquire_result [OF assms(1,2)])
    fix s assume s: "sched_inv M {} s Q" "runs c t s" "lk s = [obj_lock (Cv i) \<mapsto> c]" "chans_ok (st\<lparr>ks := s\<rparr>)"
    obtain st' Q' where r: "lock_release c j (st\<lparr>ks := s\<rparr>) = Some st'" "sched_inv M {} (ks st') Q'" "q_view Q' st' = a" "lk (ks st') = lk s" "runs c t (ks st')"
      "chans_ok st'" "cvs st' = cvs st"
      by (rule lock_release_run [of M "st\<lparr>ks := s\<rparr>" Q c t j a]) (use s assms(3) in simp_all)
    have "chan st' (Cv i) = Some (cv_wchan v)" using r(7) v by simp
    from sleep_result [OF r(2,5) _ r(6) this] r(1,3,4) s(3) assms(4)
    show "sync_result M (do { st \<leftarrow> lock_release c j (st\<lparr>ks := s\<rparr>); s \<leftarrow> wchan_sleep c (cv_wchan v) (obj_lock (Cv i)) (ks st); Some (False, st\<lparr>ks := s\<rparr>) }) False a'"
      by simp
  qed
  then show ?thesis using v by (simp add: cv_wait_def obj_lock_simps)
qed

lemma cv_wakeup_result:
  assumes "sync_inv M st Q" "runs c t (ks st)" "a_holder (q_view Q st) j = Some h" "h \<noteq> Some t" "a_lock t j (q_view Q st) = Some (r, a')"
  shows "sync_result M (cv_wakeup c i j st) r a'"
  unfolding cv_wakeup_def wchan_sleep_return_def obj_lock_simps
proof (rule acquire_result [OF assms(1,2)])
  fix s assume s: "sched_inv M {} s Q" "runs c t s" "lk s = [obj_lock (Cv i) \<mapsto> c]" "chans_ok (st\<lparr>ks := s\<rparr>)"
  obtain s' where s': "spinlock_release c (obj_lock (Cv i)) s = Some s'" "sched_inv M {} s' Q" "lk s' = (lk s)(obj_lock (Cv i) := None)" "wch s' = wch s" "runs c t s'"
    by (rule release_run [OF s(1,2)]) (simp add: s(3), blast)
  have "chans_ok (st\<lparr>ks := s'\<rparr>)" by (rule chans_ok_cong [OF s(4)]) (simp_all add: s'(4))
  then have "sync_inv M (st\<lparr>ks := s'\<rparr>) Q" using s'(2,3) s(3) by (simp add: sync_inv_def)
  from lock_acquire_result [OF this, of c t j h r a'] s'(1,5) assms(3-5)
  show "sync_result M (do { s \<leftarrow> spinlock_release c (obj_lock (Cv i)) s; lock_acquire c j (st\<lparr>ks := s\<rparr>) }) r a'" by simp
qed

lemma lock_release_result:
  assumes "sync_inv M st Q" "runs c t (ks st)" "a_unlock t i (q_view Q st) = Some a'"
  shows "sync_result M (do { st \<leftarrow> lock_release c i st; Some (True, st) }) True a'"
proof -
  have i: "sched_inv M {} (ks st) Q" "lk (ks st) = Map.empty" "chans_ok st" using assms(1) by (simp_all add: sync_inv_def)
  obtain st' Q' where "lock_release c i st = Some st'" "sched_inv M {} (ks st') Q'" "q_view Q' st' = a'" "lk (ks st') = lk (ks st)" "chans_ok st'"
    by (rule lock_release_run [OF i(1) assms(2) _ i(3) assms(3)]) (simp add: i(2), blast)
  with i(2) show ?thesis by (auto simp: sync_result_def sync_inv_def)
qed

text \<open>Every operation does to what the specification sees what the specification says.\<close>

lemma sync_exec_result:
  assumes i: "sync_inv M st Q" "runs c t (ks st)" and a: "a_exec t cmd (q_view Q st) = Some (r, a')"
  shows "sync_result M (sync_exec c cmd st) r a'"
proof (cases cmd)
  case (CHold k)
  then show ?thesis using a lock_do_i_hold_result [OF i, of k] by (auto elim!: bindE)
next
  case (CSignal k)
  then obtain v where "cvs st k = Some v" using a by (auto simp: a_queue_def q_view_def elim!: bindE)
  with cv_wake_result [OF i, of k tl a' v wchan_wakeone] CSignal a show ?thesis
    by (auto simp: cv_signal_def obj_lock_simps elim!: bindE)
next
  case (CBroadcast k)
  then obtain v where "cvs st k = Some v" using a by (auto simp: a_queue_def q_view_def elim!: bindE)
  with cv_wake_result [OF i, of k "\<lambda>_. []" a' v wchan_wakeall] CBroadcast a show ?thesis
    by (auto simp: cv_broadcast_def obj_lock_simps elim!: bindE)
qed (use a P_result [OF i] V_result [OF i] lock_acquire_result [OF i] lock_wakeup_result [OF i] lock_release_result [OF i]
       cv_wait_result [OF i] cv_wakeup_result [OF i] in \<open>auto elim!: bindE\<close>)

end
