(* ===== verification/Synch_Machine.thy ===== *)
theory Synch_Machine
  imports Synch_Props
begin

text \<open>
  Threads that use semaphores, locks and condition variables, on processors that schedule them: the calls
  and the operations of the thread system in any order. No wakeup is lost, locks exclude, and
  semaphores count.
\<close>

section \<open>The machine\<close>

text \<open>Where a thread is: outside the calls, or in one of the three places where a call waits.\<close>

datatype pc = Out | RetryP nat | RetryLock nat | RetryCv nat nat

fun sync_at :: "sync_cmd \<Rightarrow> pc" where
  "sync_at (CPWake i) = RetryP i"
| "sync_at (CAcquireWake i) = RetryLock i"
| "sync_at (CWaitWake i j) = RetryCv i j"
| "sync_at cmd = Out"

fun sync_pc :: "sync_cmd \<Rightarrow> bool \<Rightarrow> pc" where
  "sync_pc (CP i) r = (if r then Out else RetryP i)"
| "sync_pc (CPWake i) r = (if r then Out else RetryP i)"
| "sync_pc (CAcquire i) r = (if r then Out else RetryLock i)"
| "sync_pc (CAcquireWake i) r = (if r then Out else RetryLock i)"
| "sync_pc (CWait i j) r = RetryCv i j"
| "sync_pc (CWaitWake i j) r = (if r then Out else RetryLock j)"
| "sync_pc cmd r = Out"

datatype sync_event = Made obj u32 | Gone obj | Did tid sync_cmd bool

fun obj_create :: "obj \<Rightarrow> wcid \<Rightarrow> string \<Rightarrow> u32 \<Rightarrow> ksync \<Rightarrow> nat option \<times> ksync" where
  "obj_create (Sem i) w name n st = sem_create (Some i) True (Some w) name n st"
| "obj_create (Lock i) w name n st = lock_create (Some i) True (Some w) name st"
| "obj_create (Cv i) w name n st = cv_create (Some i) True (Some w) name st"

fun obj_destroy :: "obj \<Rightarrow> ksync \<Rightarrow> ksync option" where
  "obj_destroy (Sem i) st = sem_destroy i st"
| "obj_destroy (Lock i) st = lock_destroy i st"
| "obj_destroy (Cv i) st = cv_destroy i st"

fun unused :: "obj \<Rightarrow> async \<Rightarrow> bool" where
  "unused (Lock i) a \<longleftrightarrow> a_sleep a (Lock i) = Some [] \<and> a_holder a i = Some None"
| "unused x a \<longleftrightarrow> a_sleep a x = Some []"

text \<open>
  The state has the processors in the middle of a migration, the kernel, where every thread is, and what
  happened so far, last event first. A thread calls only what is defined: it does not take a lock that it
  has, release one that it does not have, or count a semaphore over. It does not exit in the middle of a call.
\<close>

type_synonym sync_mach = "cpuid set \<times> ksync \<times> (tid \<Rightarrow> pc) \<times> sync_event list"

datatype sync_action = Call cpuid sync_cmd | Sched cpuid sched_cmd | Create obj wcid string u32 | Destroy obj

fun sync_may :: "sync_action \<Rightarrow> sync_mach \<Rightarrow> bool" where
  "sync_may (Call c cmd) (M, st, pcs, log) \<longleftrightarrow>
     (case curthread c (ks st) of None \<Rightarrow> False
      | Some t \<Rightarrow> runs c t (ks st) \<and> pcs t = sync_at cmd \<and> a_exec t cmd (sync_view st) \<noteq> None)"
| "sync_may (Sched c cmd) (M, st, pcs, log) \<longleftrightarrow>
     c < length (cpus (ks st)) \<and> plain cmd \<and> sched_may c cmd (M, {}, ks st) \<and>
     (cmd = Exit \<longrightarrow> (case curthread c (ks st) of None \<Rightarrow> True | Some t \<Rightarrow> pcs t = Out))"
| "sync_may (Create x w name n) (M, st, pcs, log) \<longleftrightarrow> chan st x = None \<and> wch (ks st) w = None"
| "sync_may (Destroy x) (M, st, pcs, log) \<longleftrightarrow> unused x (sync_view st)"

fun sync_act :: "sync_action \<Rightarrow> sync_mach \<Rightarrow> sync_mach option" where
  "sync_act (Call c cmd) (M, st, pcs, log) =
     do { t \<leftarrow> curthread c (ks st); (r, st) \<leftarrow> sync_exec c cmd st; Some (M, st, pcs(t := sync_pc cmd r), Did t cmd r # log) }"
| "sync_act (Sched c cmd) (M, st, pcs, log) = do { (M, K, s) \<leftarrow> sched_exec c cmd (M, {}, ks st); Some (M, st\<lparr>ks := s\<rparr>, pcs, log) }"
| "sync_act (Create x w name n) (M, st, pcs, log) = (let (_, st) = obj_create x w name n st in Some (M, st, pcs, Made x n # log))"
| "sync_act (Destroy x) (M, st, pcs, log) = do { st \<leftarrow> obj_destroy x st; Some (M, st, pcs, Gone x # log) }"

definition sync_start :: "sched \<Rightarrow> sync_mach" where
  "sync_start s0 = ({}, \<lparr>ks = s0, sems = Map.empty, locks = Map.empty, cvs = Map.empty\<rparr>, (\<lambda>_. Out), [])"

inductive sync_reach :: "sched \<Rightarrow> sync_mach \<Rightarrow> bool" for s0 :: sched where
  start: "sync_reach s0 (sync_start s0)"
| step: "sync_reach s0 m \<Longrightarrow> sync_may act m \<Longrightarrow> sync_act act m = Some m' \<Longrightarrow> sync_reach s0 m'"

fun sync_run :: "sync_action list \<Rightarrow> sync_mach \<Rightarrow> sync_mach option" where
  "sync_run [] m = Some m"
| "sync_run (act # acts) m = (if sync_may act m then do { m \<leftarrow> sync_act act m; sync_run acts m } else None)"

lemma sync_run_reach: "sync_run acts m = Some m' \<Longrightarrow> sync_reach s0 m \<Longrightarrow> sync_reach s0 m'"
proof (induction acts m rule: sync_run.induct)
  case (2 act acts m)
  then show ?case using sync_reach.step [of s0 m act] by (auto elim!: bindE split: if_splits)
qed simp

section \<open>What happened\<close>

text \<open>Who has the lock according to the calls that finished, and \<open>None\<close> if they broke the rules of locks.\<close>

fun takes :: "nat \<Rightarrow> sync_cmd \<Rightarrow> bool" where
  "takes i (CAcquire k) = (k = i)" | "takes i (CAcquireWake k) = (k = i)" | "takes i (CWaitWake j k) = (k = i)" | "takes i cmd = False"

fun gives :: "nat \<Rightarrow> sync_cmd \<Rightarrow> bool" where
  "gives i (CRelease k) = (k = i)" | "gives i (CWait j k) = (k = i)" | "gives i cmd = False"

fun lock_owner :: "nat \<Rightarrow> sync_event list \<Rightarrow> tid option option" where
  "lock_owner i [] = Some None"
| "lock_owner i (Made x n # log) = (if x = Lock i then Some None else lock_owner i log)"
| "lock_owner i (Gone x # log) = lock_owner i log"
| "lock_owner i (Did t cmd r # log) =
     do { h \<leftarrow> lock_owner i log;
          if r \<and> takes i cmd then (if h = None then Some (Some t) else None)
          else if gives i cmd then (if h = Some t then Some None else None)
          else Some h }"

text \<open>The value of the semaphore according to the calls that finished, and \<open>None\<close> if one too many got through.\<close>

fun sem_value :: "nat \<Rightarrow> sync_event list \<Rightarrow> nat option" where
  "sem_value i [] = Some 0"
| "sem_value i (Made x n # log) = (if x = Sem i then Some (unat n) else sem_value i log)"
| "sem_value i (Gone x # log) = sem_value i log"
| "sem_value i (Did t cmd r # log) =
     do { v \<leftarrow> sem_value i log;
          if r \<and> (cmd = CP i \<or> cmd = CPWake i) then (if v = 0 then None else Some (v - 1))
          else if cmd = CV i then Some (v + 1)
          else Some v }"

section \<open>The invariant\<close>

fun waits_at :: "obj \<Rightarrow> pc \<Rightarrow> bool" where
  "waits_at (Sem i) p \<longleftrightarrow> p = RetryP i"
| "waits_at (Lock i) p \<longleftrightarrow> p = RetryLock i"
| "waits_at (Cv i) p \<longleftrightarrow> (\<exists>j. p = RetryCv i j)"

text \<open>The threads in the loop of a call on \<open>x\<close> that are not asleep: they try again.\<close>

definition retrying :: "async \<Rightarrow> (tid \<Rightarrow> pc) \<Rightarrow> obj \<Rightarrow> tid set" where
  "retrying a pcs x = {t. waits_at x (pcs t) \<and> (\<forall>ts. a_sleep a x = Some ts \<longrightarrow> t \<notin> set ts)}"

definition asleep_inv :: "async \<Rightarrow> (tid \<Rightarrow> pc) \<Rightarrow> bool" where
  "asleep_inv a pcs \<longleftrightarrow> finite {t. pcs t \<noteq> Out} \<and>
     (\<forall>x ts. a_sleep a x = Some ts \<longrightarrow> distinct ts \<and> (\<forall>t\<in>set ts. waits_at x (pcs t)))"

definition sem_inv :: "async \<Rightarrow> (tid \<Rightarrow> pc) \<Rightarrow> bool" where
  "sem_inv a pcs \<longleftrightarrow> (\<forall>i n ts. a_count a i = Some n \<longrightarrow> a_sleep a (Sem i) = Some ts \<longrightarrow> ts \<noteq> [] \<longrightarrow> unat n \<le> card (retrying a pcs (Sem i)))"

definition lock_inv :: "async \<Rightarrow> (tid \<Rightarrow> pc) \<Rightarrow> bool" where
  "lock_inv a pcs \<longleftrightarrow> (\<forall>i ts. a_holder a i = Some None \<longrightarrow> a_sleep a (Lock i) = Some ts \<longrightarrow> ts \<noteq> [] \<longrightarrow> retrying a pcs (Lock i) \<noteq> {})"

definition log_inv :: "async \<Rightarrow> sync_event list \<Rightarrow> bool" where
  "log_inv a log \<longleftrightarrow> (\<forall>i h. a_holder a i = Some h \<longrightarrow> lock_owner i log = Some h) \<and> (\<forall>i n. a_count a i = Some n \<longrightarrow> sem_value i log = Some (unat n))"

lemma retrying_finite: "asleep_inv a pcs \<Longrightarrow> finite (retrying a pcs x)"
  unfolding asleep_inv_def retrying_def by (erule conjE, erule finite_subset [rotated], cases x) auto

lemmas a_defs = a_P_def a_V_def a_lock_def a_unlock_def a_queue_def

text \<open>A thread that is not asleep makes a call.\<close>

definition awake :: "async \<Rightarrow> tid \<Rightarrow> bool" where
  "awake a t \<longleftrightarrow> (\<forall>x ts. a_sleep a x = Some ts \<longrightarrow> t \<notin> set ts)"

lemma waits_at_one: "waits_at x p \<Longrightarrow> waits_at y p \<Longrightarrow> x = y"
  by (cases x; cases y) auto

lemma unat_plus1: "n + 1 \<noteq> 0 \<Longrightarrow> unat (n + 1) = Suc (unat n)" for n :: u32
  by (metis add.commute unatSuc)

lemma log_step:
  assumes "log_inv a log" "a_exec t cmd a = Some (r, a')"
  shows "log_inv a' (Did t cmd r # log)"
proof -
  have l: "lock_owner i log = Some h" if "a_holder a i = Some h" for i h using assms(1) that by (simp add: log_inv_def)
  have v: "sem_value i log = Some (unat n)" if "a_count a i = Some n" for i n using assms(1) that by (simp add: log_inv_def)
  have "lock_owner i (Did t cmd r # log) = Some h" if "a_holder a' i = Some h" for i h
    using assms(2) that l by (cases cmd) (fastforce simp: a_defs elim!: bindE split: if_splits)+
  moreover have "sem_value i (Did t cmd r # log) = Some (unat n)" if "a_count a' i = Some n" for i n
    using assms(2) that v by (cases cmd) (fastforce simp: a_defs unat_eq_0 unat_minus_one unat_plus1 elim!: bindE split: if_splits)+
  ultimately show ?thesis by (simp add: log_inv_def)
qed

lemma sleep_effect:
  assumes "a_exec t cmd a = Some (r, a')" "a_sleep a' x = Some ts'"
  obtains ts where "a_sleep a x = Some ts" "ts' = ts \<or> ts' = tl ts \<or> ts' = [] \<or> ts' = ts @ [t] \<and> waits_at x (sync_pc cmd r)"
  using assms by (cases cmd) (auto simp: a_defs elim!: bindE split: if_splits)

lemma asleep_step:
  assumes "asleep_inv a pcs" "awake a t" "a_exec t cmd a = Some (r, a')"
  shows "asleep_inv a' (pcs(t := sync_pc cmd r))"
proof -
  have "{u. (pcs(t := sync_pc cmd r)) u \<noteq> Out} \<subseteq> insert t {u. pcs u \<noteq> Out}" by auto
  then have "finite {u. (pcs(t := sync_pc cmd r)) u \<noteq> Out}" using assms(1) by (simp add: asleep_inv_def finite_subset)
  moreover have "distinct ts' \<and> (\<forall>u\<in>set ts'. waits_at x ((pcs(t := sync_pc cmd r)) u))" if q: "a_sleep a' x = Some ts'" for x ts'
  proof -
    obtain ts where ts: "a_sleep a x = Some ts" "ts' = ts \<or> ts' = tl ts \<or> ts' = [] \<or> ts' = ts @ [t] \<and> waits_at x (sync_pc cmd r)"
      by (rule sleep_effect [OF assms(3) q])
    then have "distinct ts" "\<forall>u\<in>set ts. waits_at x (pcs u)" "t \<notin> set ts" using assms(1,2) by (auto simp: asleep_inv_def awake_def)
    moreover have "set (tl ts) \<subseteq> set ts" by (cases ts) auto
    ultimately show ?thesis using ts(2) by (auto simp: distinct_tl)
  qed
  ultimately show ?thesis by (simp add: asleep_inv_def)
qed

lemma retrying_same:
  assumes "a_sleep a' x = a_sleep a x" "waits_at x (pcs t) \<longleftrightarrow> waits_at x p"
  shows "retrying a' (pcs(t := p)) x = retrying a pcs x"
  using assms by (auto simp: retrying_def)

text \<open>The first sleeper is woken up and tries again.\<close>

lemma retrying_woken:
  assumes "asleep_inv a pcs" "a_sleep a x = Some (u # us)" "a_sleep a' x = Some us" "u \<noteq> t" "\<not> waits_at x (pcs t)" "\<not> waits_at x p"
  shows "retrying a' (pcs(t := p)) x = insert u (retrying a pcs x)" "u \<notin> retrying a pcs x"
proof -
  have "distinct (u # us)" "waits_at x (pcs u)" using assms(1) [unfolded asleep_inv_def] assms(2) by (metis list.set_intros(1))+
  then show "retrying a' (pcs(t := p)) x = insert u (retrying a pcs x)" "u \<notin> retrying a pcs x" using assms(2-) by (auto simp: retrying_def)
qed

lemma sem_step:
  assumes "asleep_inv a pcs" "sem_inv a pcs" "awake a t" "pcs t = sync_at cmd" "a_exec t cmd a = Some (r, a')"
  shows "sem_inv a' (pcs(t := sync_pc cmd r))"
  unfolding sem_inv_def
proof (intro allI impI)
  fix i n' ts' assume n': "a_count a' i = Some n'" and ts': "a_sleep a' (Sem i) = Some ts'" "ts' \<noteq> []"
  have old: "unat n \<le> card (retrying a pcs (Sem i))" if "a_count a i = Some n" "a_sleep a (Sem i) = Some ts" "ts \<noteq> []" for n ts
    using assms(2) that by (simp add: sem_inv_def)
  consider (P) "cmd = CP i \<or> cmd = CPWake i" | (V) "cmd = CV i" | (other) "cmd \<noteq> CP i" "cmd \<noteq> CPWake i" "cmd \<noteq> CV i" by blast
  then show "unat n' \<le> card (retrying a' (pcs(t := sync_pc cmd r)) (Sem i))"
  proof cases
    case P
    then have a: "a_P t i a = Some (r, a')" using assms(5) by auto
    then obtain n where n: "a_count a i = Some n" by (auto simp: a_P_def elim!: bindE)
    show ?thesis
    proof (cases "n = 0")
      case True
      with a n n' have "n' = 0" by (auto simp: a_P_def a_queue_def elim!: bindE)
      then show ?thesis by simp
    next
      case False
      with a n n' ts' have r: "r" "n' = n - 1" "a_sleep a' = a_sleep a" by (auto simp: a_P_def)
      then have "retrying a' (pcs(t := sync_pc cmd r)) (Sem i) = retrying a pcs (Sem i) - {t}" using P by (auto simp: retrying_def)
      moreover have "unat n \<le> card (retrying a pcs (Sem i))" using old n ts' r(3) by simp
      moreover have "unat n' = unat n - 1" using False r(2) by (simp add: unat_minus_one)
      ultimately show ?thesis using retrying_finite [OF assms(1), of "Sem i"] by (simp add: card_Diff_singleton_if) linarith
    qed
  next
    case V
    with assms(5) obtain n ts where n: "a_count a i = Some n" "n + 1 \<noteq> 0" "n' = n + 1" "a_sleep a (Sem i) = Some ts" "ts' = tl ts"
      using n' ts'(1) by (auto simp: a_V_def a_queue_def elim!: bindE)
    then obtain u us where u: "a_sleep a (Sem i) = Some (u # us)" "ts' = us" using ts'(2) by (cases ts) auto
    then have "u \<noteq> t" using assms(3) [unfolded awake_def] by (metis list.set_intros(1))
    from retrying_woken [OF assms(1) u(1) _ this, of a' Out] V u ts'(1) assms(4)
    have "retrying a' (pcs(t := sync_pc cmd r)) (Sem i) = insert u (retrying a pcs (Sem i))" "u \<notin> retrying a pcs (Sem i)" by simp_all
    with old [OF n(1) u(1)] unat_plus1 [OF n(2)] n(3) retrying_finite [OF assms(1), of "Sem i"] show ?thesis by simp
  next
    case other
    then have e: "a_count a' i = a_count a i" "a_sleep a' (Sem i) = a_sleep a (Sem i)" "\<not> waits_at (Sem i) (sync_at cmd)" "\<not> waits_at (Sem i) (sync_pc cmd r)"
      using assms(5) by (cases cmd; auto simp: a_defs elim!: bindE split: if_splits)+
    then have "a_count a i = Some n'" "a_sleep a (Sem i) = Some ts'" using n' ts'(1) by auto
    from old [OF this ts'(2)] retrying_same [OF e(2), of pcs t "sync_pc cmd r"] e(3,4) assms(4) show ?thesis by simp
  qed
qed

lemma lock_step:
  assumes "asleep_inv a pcs" "lock_inv a pcs" "awake a t" "pcs t = sync_at cmd" "a_exec t cmd a = Some (r, a')"
  shows "lock_inv a' (pcs(t := sync_pc cmd r))"
  unfolding lock_inv_def
proof (intro allI impI)
  fix i ts' assume h': "a_holder a' i = Some None" and ts': "a_sleep a' (Lock i) = Some ts'" "ts' \<noteq> []"
  consider (take) "takes i cmd" | (give) "gives i cmd" | (other) "\<not> takes i cmd" "\<not> gives i cmd" by blast
  then show "retrying a' (pcs(t := sync_pc cmd r)) (Lock i) \<noteq> {}"
  proof cases
    case take
    with assms(5) h' show ?thesis by (cases cmd) (auto simp: a_defs elim!: bindE split: if_splits)
  next
    case give
    then obtain ts where ts: "a_sleep a (Lock i) = Some ts" "ts' = tl ts"
      using assms(5) ts'(1) by (cases cmd) (auto simp: a_defs elim!: bindE split: if_splits)
    then obtain u us where u: "a_sleep a (Lock i) = Some (u # us)" "ts' = us" using ts'(2) by (cases ts) auto
    then have "u \<noteq> t" using assms(3) [unfolded awake_def] by (metis list.set_intros(1))
    moreover have "\<not> waits_at (Lock i) (pcs t)" "\<not> waits_at (Lock i) (sync_pc cmd r)" using give assms(4) by (cases cmd; simp)+
    ultimately have "retrying a' (pcs(t := sync_pc cmd r)) (Lock i) = insert u (retrying a pcs (Lock i))"
      using retrying_woken(1) [OF assms(1) u(1), of a' t "sync_pc cmd r"] ts'(1) u(2) by simp
    then show ?thesis by simp
  next
    case other
    then have e: "a_holder a' i = a_holder a i" "a_sleep a' (Lock i) = a_sleep a (Lock i)" "\<not> waits_at (Lock i) (sync_at cmd)" "\<not> waits_at (Lock i) (sync_pc cmd r)"
      using assms(5) by (cases cmd; auto simp: a_defs elim!: bindE split: if_splits)+
    then have "a_holder a i = Some None" "a_sleep a (Lock i) = Some ts'" using h' ts'(1) by auto
    then have "retrying a pcs (Lock i) \<noteq> {}" using assms(2) [unfolded lock_inv_def] ts'(2) by blast
    with retrying_same [OF e(2), of pcs t "sync_pc cmd r"] e(3,4) assms(4) show ?thesis by simp
  qed
qed

section \<open>Creating and destroying\<close>

fun made :: "obj \<Rightarrow> u32 \<Rightarrow> async \<Rightarrow> async" where
  "made (Sem i) n a = a\<lparr>a_count := (a_count a)(i \<mapsto> n), a_sleep := (a_sleep a)(Sem i \<mapsto> [])\<rparr>"
| "made (Lock i) n a = a\<lparr>a_holder := (a_holder a)(i \<mapsto> None), a_sleep := (a_sleep a)(Lock i \<mapsto> [])\<rparr>"
| "made (Cv i) n a = a\<lparr>a_sleep := (a_sleep a)(Cv i \<mapsto> [])\<rparr>"

fun gone :: "obj \<Rightarrow> async \<Rightarrow> async" where
  "gone (Sem i) a = a\<lparr>a_count := (a_count a)(i := None), a_sleep := (a_sleep a)(Sem i := None)\<rparr>"
| "gone (Lock i) a = a\<lparr>a_holder := (a_holder a)(i := None), a_sleep := (a_sleep a)(Lock i := None)\<rparr>"
| "gone (Cv i) a = a\<lparr>a_sleep := (a_sleep a)(Cv i := None)\<rparr>"

lemma create_step:
  assumes "sync_inv M st Q" "chan st x = None" "wch (ks st) w = None" "obj_create x w name n st = (i, st')"
  shows "sync_inv M st' (Q(WcThreads w \<mapsto> []))" "q_view (Q(WcThreads w \<mapsto> [])) st' = made x n (q_view Q st)"
proof -
  have i: "sched_inv M {} (ks st) Q" "lk (ks st) = Map.empty" "chans_ok st" using assms(1) by (simp_all add: sync_inv_def)
  have fresh: "chan st y \<noteq> Some w" for y using i(3) [unfolded chans_ok_def] assms(3) by blast
  let ?s = "snd (wchan_create (Some w) name (ks st))"
  have ks': "ks st' = ?s" using assms(4) i(2) by (cases x) (auto simp: sem_create_def lock_create_def cv_create_def wchan_create_def spinlock_init_def)
  have s: "lk ?s = lk (ks st)" "wch ?s = (wch (ks st))(w \<mapsto> name)" by (simp_all add: wchan_create_def)
  have ch: "chan st' y = ((chan st)(x \<mapsto> w)) y" for y
    using assms(4) by (cases x; cases y) (auto simp: sem_create_def lock_create_def cv_create_def wchan_create_def)
  then have ch': "chan st' = (chan st)(x \<mapsto> w)" by blast
  have "chans_ok st'" unfolding chans_ok_def ch' ks' s(2) using i(3) fresh by (auto simp: chans_ok_def)
  then show "sync_inv M st' (Q(WcThreads w \<mapsto> []))"
    unfolding sync_inv_def ks' using wchan_create_ok [OF i(1) assms(3)] s(1) i(2) by simp
  have sl: "(\<lambda>y. do { w \<leftarrow> chan st' y; (Q(WcThreads w' \<mapsto> [])) (WcThreads w) }) = (\<lambda>y. do { w \<leftarrow> chan st y; Q (WcThreads w) })(x \<mapsto> [])" if "w' = w" for w'
    unfolding ch' that using fresh by (auto simp: fun_eq_iff split: bind_splits)
  show "q_view (Q(WcThreads w \<mapsto> [])) st' = made x n (q_view Q st)"
    unfolding q_view_def sl [OF refl] using assms(4)
    by (cases x) (auto simp: sem_create_def lock_create_def cv_create_def wchan_create_def fun_eq_iff)
qed

lemma destroy_step:
  assumes "sync_inv M st Q" "unused x (q_view Q st)"
  shows "\<exists>st' Q'. obj_destroy x st = Some st' \<and> sync_inv M st' Q' \<and> q_view Q' st' = gone x (q_view Q st)"
proof -
  have i: "sched_inv M {} (ks st) Q" "lk (ks st) = Map.empty" "chans_ok st" using assms(1) by (simp_all add: sync_inv_def)
  obtain w where w: "chan st x = Some w" "Q (WcThreads w) = Some []" using assms(2) by (cases x) (auto simp: q_view_def elim!: bindE)
  obtain s' where s': "wchan_destroy w (ks st) = Some s'" "sched_inv M {} s' (Q(WcThreads w := None))" using wchan_destroy_ok [OF i(1) w(2)] by blast
  then have f: "lk s' = lk (ks st)" "wch s' = (wch (ks st))(w := None)" by (auto simp: wchan_destroy_def elim!: bindE)
  have un: "chan st y = Some w \<longleftrightarrow> y = x" for y using i(3) w(1) by (auto simp: chans_ok_def)
  define st' where "st' = (case x of Sem i \<Rightarrow> st\<lparr>ks := s', sems := (sems st)(i := None)\<rparr> | Lock i \<Rightarrow> st\<lparr>ks := s', locks := (locks st)(i := None)\<rparr>
     | Cv i \<Rightarrow> st\<lparr>ks := s', cvs := (cvs st)(i := None)\<rparr>)"
  have run: "obj_destroy x st = Some st'"
    using assms(2) w(1) s'(1) i(2) by (cases x) (auto simp: sem_destroy_def lock_destroy_def cv_destroy_def spinlock_cleanup_def st'_def q_view_def)
  have ks': "ks st' = s'" by (cases x) (simp_all add: st'_def)
  have "chan st' y = ((chan st)(x := None)) y" for y by (cases x; cases y) (auto simp: st'_def)
  then have ch': "chan st' = (chan st)(x := None)" by blast
  have "chans_ok st'" unfolding chans_ok_def ch' ks' f(2) using i(3) un by (auto simp: chans_ok_def split: if_splits)
  then have "sync_inv M st' (Q(WcThreads w := None))" unfolding sync_inv_def ks' using s'(2) f(1) i(2) by simp
  moreover have "q_view (Q(WcThreads w := None)) st' = gone x (q_view Q st)"
  proof -
    have sl: "(\<lambda>y. do { v \<leftarrow> chan st' y; (Q(WcThreads w := None)) (WcThreads v) }) = (\<lambda>y. do { w \<leftarrow> chan st y; Q (WcThreads w) })(x := None)"
      unfolding ch' using un by (auto simp: fun_eq_iff split: bind_splits)
    show ?thesis unfolding q_view_def sl by (cases x) (auto simp: st'_def fun_eq_iff)
  qed
  ultimately show ?thesis using run by blast
qed

definition counts_inv :: "async \<Rightarrow> (tid \<Rightarrow> pc) \<Rightarrow> sync_event list \<Rightarrow> bool" where
  "counts_inv a pcs log \<longleftrightarrow> asleep_inv a pcs \<and> sem_inv a pcs \<and> lock_inv a pcs \<and> log_inv a log"

lemma counts_made: "counts_inv a pcs log \<Longrightarrow> counts_inv (made x n a) pcs (Made x n # log)"
  by (cases x) (auto simp: counts_inv_def asleep_inv_def sem_inv_def lock_inv_def log_inv_def retrying_def split: if_splits)

lemma counts_gone: "counts_inv a pcs log \<Longrightarrow> counts_inv (gone x a) pcs (Gone x # log)"
  by (cases x) (auto simp: counts_inv_def asleep_inv_def sem_inv_def lock_inv_def log_inv_def retrying_def split: if_splits)

lemma counts_call:
  assumes "counts_inv a pcs log" "awake a t" "pcs t = sync_at cmd" "a_exec t cmd a = Some (r, a')"
  shows "counts_inv a' (pcs(t := sync_pc cmd r)) (Did t cmd r # log)"
proof -
  have i: "asleep_inv a pcs" "sem_inv a pcs" "lock_inv a pcs" "log_inv a log" using assms(1) by (simp_all add: counts_inv_def)
  from asleep_step [OF i(1) assms(2,4)] sem_step [OF i(1,2) assms(2-)] lock_step [OF i(1,3) assms(2-)] log_step [OF i(4) assms(4)]
  show ?thesis by (simp add: counts_inv_def)
qed

section \<open>Reachable states\<close>

lemma runs_awake:
  assumes "sync_inv M st Q" "runs c t (ks st)"
  shows "awake (q_view Q st) t"
proof -
  have q: "q_inv {} M {} (pt (ks st)) (ci (ks st)) (nodes (ks st)) (wch (ks st)) Q" using assms(1) sched_invD(2) by (auto simp: sync_inv_def)
  have c: "c < length (ci (ks st))" "ci (ks st) ! c = (Some t, False)" using assms(2) by (auto simp: runs_def)
  have "unlisted t Q" using q_invD(5) [OF q c(1)] by (auto simp: cpu_ok_def c(2))
  then show ?thesis by (auto simp: awake_def q_view_def unlisted_def elim!: bindE)
qed

fun m_inv :: "sync_mach \<Rightarrow> bool" where
  "m_inv (M, st, pcs, log) \<longleftrightarrow> (\<exists>Q. sync_inv M st Q \<and> counts_inv (q_view Q st) pcs log)"

lemma act_Call:
  assumes "m_inv (M, st, pcs, log)" "sync_may (Call c cmd) (M, st, pcs, log)"
  shows "\<exists>m'. sync_act (Call c cmd) (M, st, pcs, log) = Some m' \<and> m_inv m'"
proof -
  obtain Q where i: "sync_inv M st Q" "counts_inv (q_view Q st) pcs log" using assms(1) by auto
  obtain t r a' where t: "curthread c (ks st) = Some t" "runs c t (ks st)" "pcs t = sync_at cmd" "a_exec t cmd (q_view Q st) = Some (r, a')"
    using assms(2) sync_view_eq [OF i(1)] by (auto split: option.splits)
  obtain st' Q' where "sync_exec c cmd st = Some (r, st')" "sync_inv M st' Q'" "q_view Q' st' = a'"
    using sync_exec_result [OF i(1) t(2,4)] by (auto simp: sync_result_def)
  with counts_call [OF i(2) runs_awake [OF i(1) t(2)] t(3,4)] t(1) show ?thesis by auto
qed

lemma act_Sched:
  assumes "m_inv (M, st, pcs, log)" "sync_may (Sched c cmd) (M, st, pcs, log)"
  shows "\<exists>m'. sync_act (Sched c cmd) (M, st, pcs, log) = Some m' \<and> m_inv m'"
proof -
  obtain Q where i: "sync_inv M st Q" "counts_inv (q_view Q st) pcs log" using assms(1) by auto
  then have "sched_inv M {} (ks st) Q" "lk (ks st) = Map.empty" "chans_ok st" by (simp_all add: sync_inv_def)
  with plain_step [of M "{}" "ks st" Q c cmd] assms(2) obtain M' s' Q' where
    s': "sched_exec c cmd (M, {}, ks st) = Some (M', {}, s')" "sched_inv M' {} s' Q'" "same_chans Q Q'" "lk s' = Map.empty" "wch s' = wch (ks st)" "chans_ok st"
    by (auto simp: undisturbed_def)
  have "chans_ok (st\<lparr>ks := s'\<rparr>)" by (rule chans_ok_cong [OF s'(6)]) (simp_all add: s'(5))
  with s' have "sync_inv M' (st\<lparr>ks := s'\<rparr>) Q'" by (simp add: sync_inv_def)
  with s'(1) i(2) view_same [OF s'(3)] show ?thesis by auto
qed

lemma sync_act_ok:
  assumes "m_inv m" "sync_may act m"
  shows "\<exists>m'. sync_act act m = Some m' \<and> m_inv m'"
proof -
  obtain M st pcs log where m: "m = (M, st, pcs, log)" by (cases m)
  show ?thesis
  proof (cases act)
    case (Create x w name n)
    obtain Q where "sync_inv M st Q" "counts_inv (q_view Q st) pcs log" using assms(1) m by auto
    moreover obtain i st' where "obj_create x w name n st = (i, st')" by fastforce
    ultimately show ?thesis using create_step [of M st Q x w name n i st'] counts_made [of "q_view Q st" pcs log x n] assms(2) m Create by auto
  next
    case (Destroy x)
    obtain Q where i: "sync_inv M st Q" "counts_inv (q_view Q st) pcs log" using assms(1) m by auto
    then obtain st' Q' where "obj_destroy x st = Some st'" "sync_inv M st' Q'" "q_view Q' st' = gone x (q_view Q st)"
      using destroy_step [OF i(1), of x] sync_view_eq [OF i(1)] assms(2) m Destroy by auto
    moreover from this have "counts_inv (q_view Q' st') pcs (Gone x # log)" using counts_gone [OF i(2), of x] by simp
    ultimately show ?thesis using m Destroy by auto
  qed (use assms act_Call act_Sched m in blast)+
qed

lemma sync_reach_inv:
  assumes "boot_mem_ok t ps" "boot h kproc t ps = Some s0" "sync_reach s0 m"
  shows "m_inv m"
  using assms(3)
proof induction
  case start
  obtain Q where q: "sched_inv {} {} s0 Q" "lk s0 = Map.empty" using boot_ok [OF assms(1), of h kproc] assms(2) by auto
  let ?st = "\<lparr>ks = s0, sems = Map.empty, locks = Map.empty, cvs = Map.empty\<rparr>"
  have n: "chan ?st = Map.empty" by (rule ext, rename_tac x, case_tac x) simp_all
  have "sync_inv {} ?st Q" using q by (simp add: sync_inv_def chans_ok_def n)
  moreover have "counts_inv (q_view Q ?st) (\<lambda>_. Out) []" by (simp add: counts_inv_def asleep_inv_def sem_inv_def lock_inv_def log_inv_def q_view_def n)
  ultimately show ?case by (auto simp: sync_start_def)
next
  case (step m act m')
  then show ?case using sync_act_ok [of m act] by auto
qed

end
