(* ===== verification/Synch_Claims.thy ===== *)
theory Synch_Claims
  imports Synch_Machine
begin

text \<open>
  What the synchronisation primitives promise to threads on any number of processors.
\<close>

definition ex_acts :: "sync_action list" where
  "ex_acts = [Create (Lock 0) 1 ''lk'' 0, Create (Sem 0) 2 ''sem'' 1, Sched 0 (Spl 0),
     Sched 0 (Fork (Some 48) True (Some ex_stack) ''a'' None (7, 8, 9)), Sched 0 (Fork (Some 64) True (Some ex_stack) ''b'' None (7, 8, 9)),
     Call 0 (CAcquire 0), Call 0 (CP 0), Sched 0 Yield, Call 0 (CAcquire 0), Call 0 (CAcquire 0), Call 0 (CRelease 0)]"

definition ex_sync :: "nat \<Rightarrow> sync_mach option" where
  "ex_sync n = do { s \<leftarrow> boot ex_nodes 0 16 [(1, 32, ex_stack)]; sync_run (take n ex_acts) (sync_start s) }"

lemma ex_sync_reach:
  assumes "ex_sync n = Some m"
  obtains s0 where "boot ex_nodes 0 16 [(1, 32, ex_stack)] = Some s0" "sync_reach s0 m"
  using assms sync_run_reach sync_reach.start unfolding ex_sync_def by (blast elim: bindE)

text \<open>
  C29. Semaphores, locks and condition variables refine their specification. Whatever the threads and processors
  have done since the boot, a call that the specification allows the running thread, or the resumption of one that blocked, runs through
  without a failed assertion; its result, and the counts, holders and queues of sleeping threads after it, are those of the specification.
\<close>

theorem sync_refines:
  assumes "boot_mem_ok t0 ps" "boot h kproc t0 ps = Some s0" "sync_reach s0 (M, st, pcs, log)"
    and "runs c t (ks st)" "a_exec t cmd (sync_view st) = Some (r, a')"
  shows "\<exists>st'. sync_exec c cmd st = Some (r, st') \<and> sync_view st' = a'"
proof -
  from sync_reach_inv [OF assms(1-3)] obtain Q where i: "sync_inv M st Q" by auto
  from sync_exec_result [OF i assms(4), of cmd r a'] assms(5) sync_view_eq [OF i] obtain st' Q' where
    "sync_exec c cmd st = Some (r, st')" "sync_inv M st' Q'" "q_view Q' st' = a'" by (auto simp: sync_result_def)
  with sync_view_eq show ?thesis by blast
qed

lemma ex_sync_6: "case ex_sync 6 of None \<Rightarrow> False | Some (M, st, pcs, log) \<Rightarrow>
    runs 0 16 (ks st) \<and> (case a_exec 16 (CP 0) (sync_view st) of None \<Rightarrow> False | Some (r, a') \<Rightarrow> r \<and> a_count a' 0 = Some 0)"
  by code_simp

theorem sync_refines_witness:
  "\<exists>M st pcs log st'. ex_sync 6 = Some (M, st, pcs, log) \<and> sync_exec 0 (CP 0) st = Some (True, st') \<and> a_count (sync_view st') 0 = Some 0"
proof (rule case_SomeE [OF ex_sync_6])
  fix m assume m: "ex_sync 6 = Some m" "case m of (M, st, pcs, log) \<Rightarrow>
    runs 0 16 (ks st) \<and> (case a_exec 16 (CP 0) (sync_view st) of None \<Rightarrow> False | Some (r, a') \<Rightarrow> r \<and> a_count a' 0 = Some 0)"
  obtain M st pcs log where s: "m = (M, st, pcs, log)" by (cases m)
  from m(1) s obtain s0 where s0: "boot ex_nodes 0 16 [(1, 32, ex_stack)] = Some s0" "sync_reach s0 (M, st, pcs, log)" by (metis ex_sync_reach)
  from m(2) s obtain a' where "runs 0 16 (ks st)" "a_exec 16 (CP 0) (sync_view st) = Some (True, a')" "a_count a' 0 = Some 0"
    by (auto simp del: a_exec.simps split: option.splits)
  with sync_refines [OF ex_mem_ok s0] m(1) s show ?thesis by blast
qed

text \<open>
  C30. Locks exclude. In every reachable state, going through the calls that finished so far, every lock was
  only taken while no thread had it and only given up by the thread that had it, and the holder recorded in the lock is the thread that took it last and has not given it up.
\<close>

theorem lock_mutual_exclusion:
  assumes "boot_mem_ok t0 ps" "boot h kproc t0 ps = Some s0" "sync_reach s0 (M, st, pcs, log)" "locks st i = Some l"
  shows "lock_owner i log = Some (lk_holder l)"
proof -
  from sync_reach_inv [OF assms(1-3)] obtain Q where "log_inv (q_view Q st) log" by (auto simp: counts_inv_def)
  with assms(4) show ?thesis by (simp add: log_inv_def q_view_def)
qed

lemma ex_sync_10: "case ex_sync 10 of None \<Rightarrow> False | Some (M, st, pcs, log) \<Rightarrow>
    map_option lk_holder (locks st 0) = Some (Some 16) \<and> map_option sem_count (sems st 0) = Some 0 \<and> pcs 48 = RetryLock 0 \<and> pcs 64 = RetryLock 0"
  by code_simp

theorem lock_mutual_exclusion_witness:
  "\<exists>M st pcs log. ex_sync 10 = Some (M, st, pcs, log) \<and> pcs 48 = RetryLock 0 \<and> lock_owner 0 log = Some (Some 16)"
proof (rule case_SomeE [OF ex_sync_10])
  fix m assume m: "ex_sync 10 = Some m" "case m of (M, st, pcs, log) \<Rightarrow>
    map_option lk_holder (locks st 0) = Some (Some 16) \<and> map_option sem_count (sems st 0) = Some 0 \<and> pcs 48 = RetryLock 0 \<and> pcs 64 = RetryLock 0"
  obtain M st pcs log where s: "m = (M, st, pcs, log)" by (cases m)
  from m(1) s obtain s0 where s0: "boot ex_nodes 0 16 [(1, 32, ex_stack)] = Some s0" "sync_reach s0 (M, st, pcs, log)" by (metis ex_sync_reach)
  from m(2) s obtain l where "locks st 0 = Some l" "lk_holder l = Some 16" "pcs 48 = RetryLock 0" by auto
  with lock_mutual_exclusion [OF ex_mem_ok s0, of 0 l] m(1) s show ?thesis by auto
qed

text \<open>
  C31. Semaphores count. In every reachable state the count of a semaphore is what it was created with, plus the
  calls of \<^verbatim>\<open>V\<close>, minus the calls of \<^verbatim>\<open>P\<close> that got through, and \<^verbatim>\<open>P\<close> never got through at zero.
\<close>

theorem sem_conservation:
  assumes "boot_mem_ok t0 ps" "boot h kproc t0 ps = Some s0" "sync_reach s0 (M, st, pcs, log)" "sems st i = Some sem"
  shows "sem_value i log = Some (unat (sem_count sem))"
proof -
  from sync_reach_inv [OF assms(1-3)] obtain Q where "log_inv (q_view Q st) log" by (auto simp: counts_inv_def)
  with assms(4) show ?thesis by (simp add: log_inv_def q_view_def)
qed

theorem sem_conservation_witness:
  "\<exists>M st pcs log. ex_sync 10 = Some (M, st, pcs, log) \<and> sem_value 0 log = Some 0"
proof (rule case_SomeE [OF ex_sync_10])
  fix m assume m: "ex_sync 10 = Some m" "case m of (M, st, pcs, log) \<Rightarrow>
    map_option lk_holder (locks st 0) = Some (Some 16) \<and> map_option sem_count (sems st 0) = Some 0 \<and> pcs 48 = RetryLock 0 \<and> pcs 64 = RetryLock 0"
  obtain M st pcs log where s: "m = (M, st, pcs, log)" by (cases m)
  from m(1) s obtain s0 where s0: "boot ex_nodes 0 16 [(1, 32, ex_stack)] = Some s0" "sync_reach s0 (M, st, pcs, log)" by (metis ex_sync_reach)
  from m(2) s obtain sem where "sems st 0 = Some sem" "sem_count sem = 0" by auto
  with sem_conservation [OF ex_mem_ok s0, of 0 sem] m(1) s show ?thesis by auto
qed

text \<open>
  C32. No wakeup is lost. In every reachable state, when a lock is free and threads sleep on it, another thread has been
  woken and is about to try again, and when that thread runs it gets the lock. When threads sleep on a semaphore, at least as many others as
  its count are about to try again.
\<close>

theorem no_lost_wakeup:
  assumes "boot_mem_ok t0 ps" "boot h kproc t0 ps = Some s0" "sync_reach s0 (M, st, pcs, log)"
  shows "(\<forall>i l u us. locks st i = Some l \<longrightarrow> lk_holder l = None \<longrightarrow> a_sleep (sync_view st) (Lock i) = Some (u # us) \<longrightarrow>
        (\<exists>t. pcs t = RetryLock i \<and> t \<notin> set (u # us) \<and> (\<forall>c. runs c t (ks st) \<longrightarrow> (\<exists>st'. lock_wakeup c i st = Some (True, st'))))) \<and>
    (\<forall>j sem v vs. sems st j = Some sem \<longrightarrow> a_sleep (sync_view st) (Sem j) = Some (v # vs) \<longrightarrow>
        unat (sem_count sem) \<le> card {t. pcs t = RetryP j \<and> t \<notin> set (v # vs)})"
proof (intro conjI allI impI)
  from sync_reach_inv [OF assms] obtain Q where q: "sync_inv M st Q" and i: "lock_inv (q_view Q st) pcs" "sem_inv (q_view Q st) pcs" by (auto simp: counts_inv_def)
  note v = sync_view_eq [OF q]
  fix j sem w ws assume s: "sems st j = Some sem" "a_sleep (sync_view st) (Sem j) = Some (w # ws)"
  have "a_count (q_view Q st) j = Some (sem_count sem)" using s(1) by (simp add: q_view_def)
  with i(2) s(2) have "unat (sem_count sem) \<le> card (retrying (q_view Q st) pcs (Sem j))" unfolding sem_inv_def v by blast
  moreover have "retrying (q_view Q st) pcs (Sem j) = {t. pcs t = RetryP j \<and> t \<notin> set (w # ws)}" using s(2) by (simp add: retrying_def v)
  ultimately show "unat (sem_count sem) \<le> card {t. pcs t = RetryP j \<and> t \<notin> set (w # ws)}" by simp
next
  from sync_reach_inv [OF assms] obtain Q where q: "sync_inv M st Q" and i: "lock_inv (q_view Q st) pcs" by (auto simp: counts_inv_def)
  note v = sync_view_eq [OF q]
  fix i l u us assume l: "locks st i = Some l" "lk_holder l = None" "a_sleep (sync_view st) (Lock i) = Some (u # us)"
  then have h: "a_holder (q_view Q st) i = Some None" by (simp add: q_view_def)
  with \<open>lock_inv (q_view Q st) pcs\<close> l(3) obtain t where t: "t \<in> retrying (q_view Q st) pcs (Lock i)" unfolding lock_inv_def v by blast
  have "\<exists>st'. lock_wakeup c i st = Some (True, st')" if c: "runs c t (ks st)" for c
    using sync_exec_result [OF q c, of "CAcquireWake i" True] h by (auto simp: a_lock_def sync_result_def)
  with t l(3) show "\<exists>t. pcs t = RetryLock i \<and> t \<notin> set (u # us) \<and> (\<forall>c. runs c t (ks st) \<longrightarrow> (\<exists>st'. lock_wakeup c i st = Some (True, st')))"
    by (auto simp: retrying_def v)
qed

lemma ex_sync_11: "case ex_sync 11 of None \<Rightarrow> False | Some (M, st, pcs, log) \<Rightarrow>
    map_option lk_holder (locks st 0) = Some None \<and> a_sleep (sync_view st) (Lock 0) = Some [64]"
  by code_simp

theorem no_lost_wakeup_witness:
  "\<exists>M st pcs log t. ex_sync 11 = Some (M, st, pcs, log) \<and> pcs t = RetryLock 0 \<and> t \<noteq> 64"
proof (rule case_SomeE [OF ex_sync_11])
  fix m assume m: "ex_sync 11 = Some m" "case m of (M, st, pcs, log) \<Rightarrow>
    map_option lk_holder (locks st 0) = Some None \<and> a_sleep (sync_view st) (Lock 0) = Some [64]"
  obtain M st pcs log where s: "m = (M, st, pcs, log)" by (cases m)
  from m(1) s obtain s0 where s0: "boot ex_nodes 0 16 [(1, 32, ex_stack)] = Some s0" "sync_reach s0 (M, st, pcs, log)" by (metis ex_sync_reach)
  from m(2) s obtain l where "locks st 0 = Some l" "lk_holder l = None" "a_sleep (sync_view st) (Lock 0) = Some [64]" by auto
  then have "\<exists>t. pcs t = RetryLock 0 \<and> t \<notin> set [64]" using no_lost_wakeup [OF ex_mem_ok s0] by blast
  with m(1) s show ?thesis by auto
qed

end
