(* ===== verification/Pid.thy ===== *)
theory Pid
  imports Kernel_State
begin

text \<open>
  kern/thread/pid.c: the table of process identifiers. The entries of the table are pointers into a heap of
  \<^verbatim>\<open>struct proc_pid\<close>. A condition variable is the list of the threads that sleep on it, and what happens
  between taking and releasing the lock of the table, or sleeping, is one step.
\<close>

section \<open>State\<close>

definition PID_INVALID :: int where "PID_INVALID = 0xcafebabe - 2 ^ 32"
definition PID_BOOT :: int where "PID_BOOT = 1"

record proc_pid =
  pid_id :: int
  ppid_id :: int
  pid_estatus :: int
  pid_exited :: int
  pid_cv :: "tid list option"

text \<open>A lock is its holder; \<open>pt_lock\<close> is \<open>None\<close> when \<^verbatim>\<open>lock_create\<close> failed.\<close>

record pids =
  pid_table :: "int \<Rightarrow> nat option"
  pps :: "nat \<Rightarrow> proc_pid option"
  pt_lock :: "tid option option"

type_synonym 'a pid_op = "pids \<Rightarrow> ('a \<times> pids) option"

definition pt_acquire :: "tid \<Rightarrow> pids \<Rightarrow> pids option" where
  "pt_acquire t s = do { lk \<leftarrow> pt_lock s; h \<leftarrow> lock_acquire t lk; Some (s\<lparr>pt_lock := Some h\<rparr>) }"

definition pt_release :: "tid \<Rightarrow> pids \<Rightarrow> pids option" where
  "pt_release t s = do { lk \<leftarrow> pt_lock s; h \<leftarrow> lock_release t lk; Some (s\<lparr>pt_lock := Some h\<rparr>) }"

text \<open>Reading the table; an index out of range is not defined.\<close>

definition pt_slot :: "int \<Rightarrow> pids \<Rightarrow> nat option option" where
  "pt_slot i s = (if 0 \<le> i \<and> i \<le> int PID_MAX then Some (pid_table s i) else None)"

lemma int_limits [code_unfold]: "int PID_MAX = 32767" "int PID_MIN = 2"
  by (simp_all add: PID_MAX_def PID_MIN_def)

section \<open>The table\<close>

text \<open>\<open>junk\<close> is what the memory of the last slot happens to hold: the loop stops before it.\<close>

definition pidtable_init :: "bool \<Rightarrow> nat option \<Rightarrow> bool \<Rightarrow> pids \<Rightarrow> pids option" where
  "pidtable_init mem_ok junk lock_ok s =
     (if \<not> mem_ok then None
      else Some (s\<lparr>pid_table := (\<lambda>i. if i = int PID_MAX then junk else None), pt_lock := if lock_ok then Some None else None\<rparr>))"

function pid_next_from :: "int \<Rightarrow> pids \<Rightarrow> int" where
  "pid_next_from i s =
     (if i > int PID_MAX then -1 else if pid_table s i = None then i else pid_next_from (i + 1) s)"
  by auto

termination
  by (relation "measure (\<lambda>(i, s). nat (int PID_MAX + 1 - i))") auto

declare pid_next_from.simps [simp del]

definition pid_next :: "pids \<Rightarrow> int" where
  "pid_next s = pid_next_from (int PID_MIN) s"

text \<open>\<open>addr\<close> is the address of the new structure and \<open>cv_ok\<close> whether there is memory for the condition variable.\<close>

definition pid_create :: "tid \<Rightarrow> nat option \<Rightarrow> bool \<Rightarrow> int \<Rightarrow> int pid_op" where
  "pid_create t addr cv_ok ppid s =
     do { s \<leftarrow> pt_acquire t s;
          let pid = pid_next s;
          if pid = -1 then do { s \<leftarrow> pt_release t s; Some (-1, s) }
          else do { a \<leftarrow> addr;
                    let pp = \<lparr>pid_id = pid, ppid_id = ppid, pid_estatus = 0, pid_exited = 0, pid_cv = if cv_ok then Some [] else None\<rparr>;
                    s \<leftarrow> pt_release t (s\<lparr>pps := (pps s)(a \<mapsto> pp), pid_table := (pid_table s)(pid \<mapsto> a)\<rparr>);
                    Some (pid, s) } }"

text \<open>\<^verbatim>\<open>cv_destroy\<close> asserts that the condition variable exists and that nobody sleeps on it.\<close>

definition pid_destroy :: "nat option \<Rightarrow> pids \<Rightarrow> pids option" where
  "pid_destroy pp s =
     (case pp of None \<Rightarrow> Some s
      | Some a \<Rightarrow>
          do { pp \<leftarrow> pps s a;
               pt_slot (pid_id pp) s;
               kassert (pid_cv pp = Some []);
               Some (s\<lparr>pid_table := (pid_table s)(pid_id pp := None), pps := (pps s)(a := None)\<rparr>) })"

fun pidtable_destroy_loop :: "nat list \<Rightarrow> pids \<Rightarrow> pids option" where
  "pidtable_destroy_loop [] s = Some s"
| "pidtable_destroy_loop (i # is) s = do { s \<leftarrow> pid_destroy (pid_table s (int i)) s; pidtable_destroy_loop is s }"

definition pidtable_destroy :: "pids \<Rightarrow> pids option" where
  "pidtable_destroy s =
     do { lk \<leftarrow> pt_lock s; kassert (lk = None);
          s \<leftarrow> pidtable_destroy_loop [0..<PID_MAX] (s\<lparr>pt_lock := None\<rparr>);
          Some (s\<lparr>pid_table := (\<lambda>_. None)\<rparr>) }"

section \<open>Waiting and exiting\<close>

datatype waited = Done "errno + int" | Blocked nat

text \<open>The end of \<^verbatim>\<open>pid_wait\<close>, with the lock held.\<close>

definition pid_wait_finish :: "tid \<Rightarrow> nat \<Rightarrow> waited pid_op" where
  "pid_wait_finish t a s =
     do { pp \<leftarrow> pps s a;
          let s = s\<lparr>pps := (pps s)(a \<mapsto> pp\<lparr>ppid_id := PID_INVALID\<rparr>)\<rparr>;
          s \<leftarrow> pid_destroy (Some a) s;
          s \<leftarrow> pt_release t s;
          Some (Done (Inr (pid_estatus pp)), s) }"

text \<open>
  \<^verbatim>\<open>pid_wait\<close> by thread \<open>t\<close> up to its return or its sleep; \<open>Blocked a\<close> has the pointer the thread
  goes on with when it has been woken, which is \<open>pid_wait_wakeup\<close>.
\<close>

definition pid_wait :: "tid \<Rightarrow> int \<Rightarrow> int \<Rightarrow> waited pid_op" where
  "pid_wait t pid ppid s =
     do { s \<leftarrow> pt_acquire t s;
          slot \<leftarrow> pt_slot pid s;
          case slot of
            None \<Rightarrow> do { s \<leftarrow> pt_release t s; Some (Done (Inl ESRCH), s) }
          | Some a \<Rightarrow>
              do { pp \<leftarrow> pps s a;
                   if ppid_id pp \<noteq> ppid then do { s \<leftarrow> pt_release t s; Some (Done (Inl ECHILD), s) }
                   else if pid_exited pp = 0
                   then do { q \<leftarrow> pid_cv pp;
                             s \<leftarrow> pt_release t (s\<lparr>pps := (pps s)(a \<mapsto> pp\<lparr>pid_cv := Some (q @ [t])\<rparr>)\<rparr>);
                             Some (Blocked a, s) }
                   else pid_wait_finish t a s } }"

definition pid_wait_wakeup :: "tid \<Rightarrow> nat \<Rightarrow> waited pid_op" where
  "pid_wait_wakeup t a s = do { s \<leftarrow> pt_acquire t s; pid_wait_finish t a s }"

text \<open>The part of \<^verbatim>\<open>pid_exit\<close> that works on the table.\<close>

definition pid_exit_table :: "tid \<Rightarrow> int \<Rightarrow> int \<Rightarrow> pids \<Rightarrow> pids option" where
  "pid_exit_table t pid exit_status s =
     do { s \<leftarrow> pt_acquire t s;
          slot \<leftarrow> pt_slot pid s;
          a \<leftarrow> slot;
          pp \<leftarrow> pps s a;
          pid_cv pp;
          pt_release t (s\<lparr>pps := (pps s)(a \<mapsto> pp\<lparr>pid_exited := 1, pid_estatus := exit_status, pid_cv := Some []\<rparr>)\<rparr>) }"

end
