(* ===== verification/Pid_Props.thy ===== *)
theory Pid_Props
  imports Pid
begin

text \<open>
  Processes that fork, wait and exit in any order. The table of process identifiers follows the life of every
  process, and no call follows a stale pointer.
\<close>

section \<open>Finding a free identifier\<close>

lemma pid_next_from_spec:
  "(pid_next_from i s = -1 \<longrightarrow> (\<forall>j. i \<le> j \<and> j \<le> int PID_MAX \<longrightarrow> pid_table s j \<noteq> None)) \<and>
   (pid_next_from i s \<noteq> -1 \<longrightarrow> i \<le> pid_next_from i s \<and> pid_next_from i s \<le> int PID_MAX \<and> pid_table s (pid_next_from i s) = None \<and>
      (\<forall>j. i \<le> j \<and> j < pid_next_from i s \<longrightarrow> pid_table s j \<noteq> None))" if "0 \<le> i"
  using that
proof (induction i s rule: pid_next_from.induct)
  case (1 i s)
  show ?case
  proof (cases "i > int PID_MAX \<or> pid_table s i = None")
    case True
    with "1.prems" show ?thesis by (auto simp: pid_next_from.simps [of i s])
  next
    case False
    then have e: "pid_next_from i s = pid_next_from (i + 1) s" by (subst pid_next_from.simps) auto
    have up: "i \<le> j \<longleftrightarrow> j = i \<or> i + 1 \<le> j" for j by auto
    from False "1.IH" "1.prems" show ?thesis unfolding e up by auto
  qed
qed

lemma pid_next_free:
  assumes "pid_next s \<noteq> -1"
  shows "int PID_MIN \<le> pid_next s" "pid_next s \<le> int PID_MAX" "pid_table s (pid_next s) = None"
    "\<And>j. int PID_MIN \<le> j \<Longrightarrow> j < pid_next s \<Longrightarrow> pid_table s j \<noteq> None"
  using pid_next_from_spec [of "int PID_MIN" s] assms by (auto simp: pid_next_def)

lemma pid_next_full: "pid_next s = -1 \<Longrightarrow> int PID_MIN \<le> j \<Longrightarrow> j \<le> int PID_MAX \<Longrightarrow> pid_table s j \<noteq> None"
  using pid_next_from_spec [of "int PID_MIN" s] by (auto simp: pid_next_def)

section \<open>The machine\<close>

datatype pid_event = Forked int int | Exited int int | Waited int int int

record pmach =
  ps :: pids
  live :: "tid \<Rightarrow> int option"
  blk :: "tid \<Rightarrow> nat option"
  plog :: "pid_event list"

datatype pid_act = AFork tid tid nat | AWait tid int | AWake tid | AExit tid int

definition asleep :: "tid \<Rightarrow> pmach \<Rightarrow> bool" where
  "asleep t m = (case blk m t of None \<Rightarrow> False
     | Some a \<Rightarrow> (case pps (ps m) a of None \<Rightarrow> False | Some pp \<Rightarrow> (case pid_cv pp of None \<Rightarrow> False | Some q \<Rightarrow> t \<in> set q)))"

text \<open>
  A process, which is its one thread, forks when there is memory at a fresh address and an identifier is free; it
  waits for an identifier in the range that \<^verbatim>\<open>sys_waitpid\<close> lets through, goes on once it has been woken, and exits, but for the
  process of the kernel.
\<close>

fun pid_may :: "pid_act \<Rightarrow> pmach \<Rightarrow> bool" where
  "pid_may (AFork t u a) m \<longleftrightarrow> live m t \<noteq> None \<and> blk m t = None \<and> live m u = None \<and> pps (ps m) a = None \<and> pid_next (ps m) \<noteq> -1"
| "pid_may (AWait t pid) m \<longleftrightarrow> live m t \<noteq> None \<and> blk m t = None \<and> int PID_MIN \<le> pid \<and> pid \<le> int PID_MAX"
| "pid_may (AWake t) m \<longleftrightarrow> blk m t \<noteq> None \<and> \<not> asleep t m"
| "pid_may (AExit t st) m \<longleftrightarrow> live m t \<noteq> None \<and> live m t \<noteq> Some PID_BOOT \<and> blk m t = None"

fun pid_do :: "pid_act \<Rightarrow> pmach \<Rightarrow> pmach option" where
  "pid_do (AFork t u a) m =
     do { p \<leftarrow> live m t;
          (c, s) \<leftarrow> pid_create t (Some a) True p (ps m);
          Some (m\<lparr>ps := s, live := (live m)(u \<mapsto> c), plog := Forked p c # plog m\<rparr>) }"
| "pid_do (AWait t pid) m =
     do { p \<leftarrow> live m t;
          (r, s) \<leftarrow> pid_wait t pid p (ps m);
          case r of
            Blocked a \<Rightarrow> Some (m\<lparr>ps := s, blk := (blk m)(t \<mapsto> a)\<rparr>)
          | Done (Inl e) \<Rightarrow> Some (m\<lparr>ps := s\<rparr>)
          | Done (Inr st) \<Rightarrow> Some (m\<lparr>ps := s, plog := Waited p pid st # plog m\<rparr>) }"
| "pid_do (AWake t) m =
     do { a \<leftarrow> blk m t;
          p \<leftarrow> live m t;
          pp \<leftarrow> pps (ps m) a;
          (r, s) \<leftarrow> pid_wait_wakeup t a (ps m);
          case r of
            Done (Inr st) \<Rightarrow> Some (m\<lparr>ps := s, blk := (blk m)(t := None), plog := Waited p (pid_id pp) st # plog m\<rparr>)
          | _ \<Rightarrow> None }"
| "pid_do (AExit t st) m =
     do { p \<leftarrow> live m t;
          s \<leftarrow> pid_exit_table t p st (ps m);
          Some (m\<lparr>ps := s, live := (live m)(t := None), plog := Exited p st # plog m\<rparr>) }"

text \<open>At the start the table is initialised, its last slot happening to be empty, and thread \<open>t0\<close> runs the kernel's menu.\<close>

definition pid_start :: "tid \<Rightarrow> pmach option" where
  "pid_start t0 =
     do { s \<leftarrow> pidtable_init True None True \<lparr>pid_table = (\<lambda>_. None), pps = (\<lambda>_. None), pt_lock = None\<rparr>;
          Some \<lparr>ps = s, live = [t0 \<mapsto> PID_BOOT], blk = (\<lambda>_. None), plog = []\<rparr> }"

inductive pid_reach :: "tid \<Rightarrow> pmach \<Rightarrow> bool" for t0 :: tid where
  start: "pid_start t0 = Some m \<Longrightarrow> pid_reach t0 m"
| step: "pid_reach t0 m \<Longrightarrow> pid_may act m \<Longrightarrow> pid_do act m = Some m' \<Longrightarrow> pid_reach t0 m'"

fun pid_run :: "pid_act list \<Rightarrow> pmach \<Rightarrow> pmach option" where
  "pid_run [] m = Some m"
| "pid_run (act # acts) m = (if pid_may act m then do { m \<leftarrow> pid_do act m; pid_run acts m } else None)"

lemma pid_run_reach: "pid_run acts m = Some m' \<Longrightarrow> pid_reach t0 m \<Longrightarrow> pid_reach t0 m'"
proof (induction acts m rule: pid_run.induct)
  case (2 act acts m)
  then show ?case using pid_reach.step [of t0 m act] by (auto elim!: bindE split: if_splits)
qed simp

section \<open>The life of a process\<close>

datatype life = Free | Running int | Zombie int int

text \<open>
  The life that the events give the process with identifier \<open>p\<close>, last event first: it is born of a parent, exits with a
  status, and is free again when the parent has been told that status. Anything else is \<open>None\<close>.
\<close>

fun lifecycle :: "int \<Rightarrow> pid_event list \<Rightarrow> life option" where
  "lifecycle p [] = Some Free"
| "lifecycle p (Forked q c # log) =
     do { l \<leftarrow> lifecycle p log; if c \<noteq> p then Some l else if l = Free then Some (Running q) else None }"
| "lifecycle p (Exited c st # log) =
     do { l \<leftarrow> lifecycle p log; if c \<noteq> p then Some l else (case l of Running q \<Rightarrow> Some (Zombie q st) | _ \<Rightarrow> None) }"
| "lifecycle p (Waited w c st # log) =
     do { l \<leftarrow> lifecycle p log; if c \<noteq> p then Some l else if l = Zombie w st then Some Free else None }"

definition pid_view :: "pids \<Rightarrow> int \<Rightarrow> life" where
  "pid_view s p =
     (case do { a \<leftarrow> pid_table s p; pps s a } of
        None \<Rightarrow> Free
      | Some pp \<Rightarrow> if pid_exited pp = 0 then Running (ppid_id pp) else Zombie (ppid_id pp) (pid_estatus pp))"

section \<open>The invariant\<close>

definition table_inv :: "pids \<Rightarrow> bool" where
  "table_inv s \<longleftrightarrow> pt_lock s = Some None \<and>
     (\<forall>p a. pid_table s p = Some a \<longrightarrow> int PID_MIN \<le> p \<and> p \<le> int PID_MAX \<and> (\<exists>pp. pps s a = Some pp \<and> pid_id pp = p)) \<and>
     (\<forall>a pp. pps s a = Some pp \<longrightarrow> pid_table s (pid_id pp) = Some a)"

definition waiting_inv :: "pids \<Rightarrow> (tid \<Rightarrow> int option) \<Rightarrow> (tid \<Rightarrow> nat option) \<Rightarrow> bool" where
  "waiting_inv s lv bk \<longleftrightarrow>
     (\<forall>a pp. pps s a = Some pp \<longrightarrow> (\<exists>q. pid_cv pp = Some q \<and> (\<forall>t\<in>set q. bk t = Some a) \<and> (pid_exited pp \<noteq> 0 \<longrightarrow> q = []))) \<and>
     (\<forall>t a. bk t = Some a \<longrightarrow> (\<exists>pp q. pps s a = Some pp \<and> lv t = Some (ppid_id pp) \<and> pid_cv pp = Some q \<and> (pid_exited pp = 0 \<longrightarrow> t \<in> set q)))"

definition live_inv :: "pids \<Rightarrow> (tid \<Rightarrow> int option) \<Rightarrow> bool" where
  "live_inv s lv \<longleftrightarrow>
     (\<forall>t p. lv t = Some p \<longrightarrow> p = PID_BOOT \<or> (\<exists>a pp. pid_table s p = Some a \<and> pps s a = Some pp \<and> pid_exited pp = 0)) \<and>
     (\<forall>t u p. lv t = Some p \<longrightarrow> lv u = Some p \<longrightarrow> t = u) \<and>
     (\<forall>a pp. pps s a = Some pp \<longrightarrow> pid_exited pp = 0 \<longrightarrow> (\<exists>t. lv t = Some (pid_id pp)))"

definition life_inv :: "pids \<Rightarrow> pid_event list \<Rightarrow> bool" where
  "life_inv s log \<longleftrightarrow> (\<forall>p. lifecycle p log = Some (pid_view s p))"

definition p_inv :: "pmach \<Rightarrow> bool" where
  "p_inv m \<longleftrightarrow> table_inv (ps m) \<and> waiting_inv (ps m) (live m) (blk m) \<and> live_inv (ps m) (live m) \<and> life_inv (ps m) (plog m)"

section \<open>The operations in a well-formed state\<close>

lemma pid_next_lock [simp]: "pid_next (s\<lparr>pt_lock := x\<rparr>) = pid_next s"
proof -
  have "pid_next_from i (s\<lparr>pt_lock := x\<rparr>) = pid_next_from i s" for i
    by (induction i s rule: pid_next_from.induct) (subst (1 2) pid_next_from.simps, auto)
  then show ?thesis by (simp add: pid_next_def)
qed

definition new_pp :: "int \<Rightarrow> int \<Rightarrow> proc_pid" where
  "new_pp pid ppid = \<lparr>pid_id = pid, ppid_id = ppid, pid_estatus = 0, pid_exited = 0, pid_cv = Some []\<rparr>"

lemma lock_idem: "pt_lock s = Some None \<Longrightarrow> s\<lparr>pt_lock := Some None\<rparr> = s"
  by simp

lemma pid_create_eq:
  assumes "pt_lock s = Some None" "pid_next s \<noteq> -1"
  shows "pid_create t (Some a) True p s =
    Some (pid_next s, s\<lparr>pps := (pps s)(a \<mapsto> new_pp (pid_next s) p), pid_table := (pid_table s)(pid_next s \<mapsto> a)\<rparr>)"
  using assms by (simp add: pid_create_def pt_acquire_def pt_release_def new_pp_def Let_def)

lemma pid_finish_eq:
  assumes "pt_lock s = Some (Some t)" "pps s a = Some pp" "pid_cv pp = Some []" "0 \<le> pid_id pp" "pid_id pp \<le> int PID_MAX"
  shows "pid_wait_finish t a s =
    Some (Done (Inr (pid_estatus pp)), s\<lparr>pid_table := (pid_table s)(pid_id pp := None), pps := (pps s)(a := None), pt_lock := Some None\<rparr>)"
  using assms by (simp add: pid_wait_finish_def pid_destroy_def pt_slot_def pt_release_def Let_def)

lemma pid_wait_none:
  assumes "pt_lock s = Some None" "0 \<le> pid" "pid \<le> int PID_MAX" "pid_table s pid = None"
  shows "pid_wait t pid p s = Some (Done (Inl ESRCH), s)"
  using assms by (simp add: pid_wait_def pt_acquire_def pt_release_def pt_slot_def)

lemma pid_wait_some:
  assumes "pt_lock s = Some None" "0 \<le> pid" "pid \<le> int PID_MAX" "pid_table s pid = Some a" "pps s a = Some pp" "pid_cv pp = Some q" "pid_id pp = pid"
  shows "ppid_id pp \<noteq> p \<Longrightarrow> pid_wait t pid p s = Some (Done (Inl ECHILD), s)"
    "ppid_id pp = p \<Longrightarrow> pid_exited pp = 0 \<Longrightarrow> pid_wait t pid p s = Some (Blocked a, s\<lparr>pps := (pps s)(a \<mapsto> pp\<lparr>pid_cv := Some (q @ [t])\<rparr>)\<rparr>)"
    "ppid_id pp = p \<Longrightarrow> pid_exited pp \<noteq> 0 \<Longrightarrow> q = [] \<Longrightarrow>
       pid_wait t pid p s = Some (Done (Inr (pid_estatus pp)), s\<lparr>pid_table := (pid_table s)(pid := None), pps := (pps s)(a := None)\<rparr>)"
  using assms by (simp_all add: pid_wait_def pt_acquire_def pt_release_def pt_slot_def pid_finish_eq)

lemma pid_wakeup_eq:
  assumes "pt_lock s = Some None" "pps s a = Some pp" "pid_cv pp = Some []" "0 \<le> pid_id pp" "pid_id pp \<le> int PID_MAX"
  shows "pid_wait_wakeup t a s = Some (Done (Inr (pid_estatus pp)), s\<lparr>pid_table := (pid_table s)(pid_id pp := None), pps := (pps s)(a := None)\<rparr>)"
  using assms by (simp add: pid_wait_wakeup_def pt_acquire_def pid_finish_eq)

lemma pid_exit_eq:
  assumes "pt_lock s = Some None" "0 \<le> pid" "pid \<le> int PID_MAX" "pid_table s pid = Some a" "pps s a = Some pp" "pid_cv pp = Some q"
  shows "pid_exit_table t pid st s = Some (s\<lparr>pps := (pps s)(a \<mapsto> pp\<lparr>pid_exited := 1, pid_estatus := st, pid_cv := Some []\<rparr>)\<rparr>)"
  using assms by (simp add: pid_exit_table_def pt_acquire_def pt_release_def pt_slot_def)

lemma p_invD:
  assumes "p_inv m"
  shows "pt_lock (ps m) = Some None" "table_inv (ps m)" "waiting_inv (ps m) (live m) (blk m)" "live_inv (ps m) (live m)" "life_inv (ps m) (plog m)"
    and "pid_table (ps m) p = Some a \<Longrightarrow> int PID_MIN \<le> p \<and> p \<le> int PID_MAX \<and> (\<exists>pp. pps (ps m) a = Some pp \<and> pid_id pp = p)"
    and "pps (ps m) a = Some pp \<Longrightarrow> pid_table (ps m) (pid_id pp) = Some a"
    and "pps (ps m) a = Some pp \<Longrightarrow> \<exists>q. pid_cv pp = Some q \<and> (\<forall>t\<in>set q. blk m t = Some a) \<and> (pid_exited pp \<noteq> 0 \<longrightarrow> q = [])"
    and "blk m t = Some a \<Longrightarrow> \<exists>pp q. pps (ps m) a = Some pp \<and> live m t = Some (ppid_id pp) \<and> pid_cv pp = Some q \<and> (pid_exited pp = 0 \<longrightarrow> t \<in> set q)"
    and "live m t = Some p \<Longrightarrow> p = PID_BOOT \<or> (\<exists>a pp. pid_table (ps m) p = Some a \<and> pps (ps m) a = Some pp \<and> pid_exited pp = 0)"
    and "live m t = Some p \<Longrightarrow> live m u = Some p \<Longrightarrow> t = u"
    and "pps (ps m) a = Some pp \<Longrightarrow> pid_exited pp = 0 \<Longrightarrow> \<exists>t. live m t = Some (pid_id pp)"
    and "lifecycle p (plog m) = Some (pid_view (ps m) p)"
  using assms unfolding p_inv_def table_inv_def waiting_inv_def live_inv_def life_inv_def by blast+

lemma pid_range: "p_inv m \<Longrightarrow> pps (ps m) a = Some pp \<Longrightarrow> 0 \<le> pid_id pp \<and> pid_id pp \<le> int PID_MAX"
  using p_invD(6,7) [of m] by fastforce

text \<open>At most one thread waits for a process.\<close>

lemma one_waiter: "p_inv m \<Longrightarrow> blk m t = Some a \<Longrightarrow> blk m u = Some a \<Longrightarrow> t = u"
  using p_invD(9,11) [of m] by (metis option.inject)

section \<open>Preservation\<close>

lemma fork_keeps:
  assumes i: "p_inv m" and may: "pid_may (AFork t u a) m"
  shows "\<exists>m'. pid_do (AFork t u a) m = Some m' \<and> p_inv m'"
proof -
  let ?s = "ps m" and ?c = "pid_next (ps m)"
  obtain p where p: "live m t = Some p" "blk m t = None" "live m u = None" "pps ?s a = None" "?c \<noteq> -1" using may by auto
  note n = pid_next_free [OF p(5)] and D = p_invD [OF i]
  let ?s' = "?s\<lparr>pps := (pps ?s)(a \<mapsto> new_pp ?c p), pid_table := (pid_table ?s)(?c \<mapsto> a)\<rparr>"
  let ?m' = "m\<lparr>ps := ?s', live := (live m)(u \<mapsto> ?c), plog := Forked p ?c # plog m\<rparr>"
  have run: "pid_do (AFork t u a) m = Some ?m'" using p(1) pid_create_eq [OF D(1) p(5)] by simp
  have boot: "?c \<noteq> PID_BOOT" using n(1) by (simp add: PID_MIN_def PID_BOOT_def)
  have na: "pid_table ?s q \<noteq> Some a" for q using D(6) [of q a] p(4) by auto
  have nb: "blk m v \<noteq> Some a" for v using D(9) [of v a] p(4) by auto
  have nl: "live m v \<noteq> Some ?c" for v using D(10) [of v ?c] n(3) boot by auto
  have nid: "pid_id pp \<noteq> ?c" if "pps ?s b = Some pp" for b pp using D(7) [OF that] n(3) by auto
  have bu: "blk m u = None" using D(9) [of u] p(3) by (cases "blk m u") auto
  have "table_inv ?s'" unfolding table_inv_def using D(1) D(6) D(7) n(1,2) na nid p(4) by (auto simp: new_pp_def)
  moreover have "waiting_inv ?s' ((live m)(u \<mapsto> ?c)) (blk m)"
    unfolding waiting_inv_def using D(8,9) nb bu by (auto simp: new_pp_def)
  moreover have "live_inv ?s' ((live m)(u \<mapsto> ?c))"
    unfolding live_inv_def using D(10-12) nl p(3,4) n(3) by (auto simp: new_pp_def) (metis option.distinct(1))+
  moreover have "life_inv ?s' (Forked p ?c # plog m)"
    unfolding life_inv_def using D(13) n(3) na by (auto simp: pid_view_def new_pp_def split: bind_splits)
  ultimately show ?thesis using run by (simp add: p_inv_def)
qed

text \<open>The entry of a process that exited is taken out of the table.\<close>

lemma reap_keeps:
  assumes i: "p_inv m" and a: "pps (ps m) a = Some pp" "pid_exited pp \<noteq> 0" and b: "\<And>u. bk u \<noteq> Some a" "\<And>u b. bk u = Some b \<Longrightarrow> blk m u = Some b" "\<And>u b. blk m u = Some b \<Longrightarrow> b \<noteq> a \<Longrightarrow> bk u = Some b"
  shows "p_inv (m\<lparr>ps := (ps m)\<lparr>pid_table := (pid_table (ps m))(pid_id pp := None), pps := (pps (ps m))(a := None)\<rparr>, blk := bk,
    plog := Waited (ppid_id pp) (pid_id pp) (pid_estatus pp) # plog m\<rparr>)" (is "p_inv (m\<lparr>ps := ?s', blk := bk, plog := ?log\<rparr>)")
proof -
  note D = p_invD [OF i]
  let ?s = "ps m"
  have ta: "pid_table ?s (pid_id pp) = Some a" by (rule D(7) [OF a(1)])
  have other: "pid_id pp' \<noteq> pid_id pp" if "pps ?s b = Some pp'" "b \<noteq> a" for b pp' using D(7) [OF that(1)] ta that(2) by auto
  have na: "p = pid_id pp" if "pid_table ?s p = Some a" for p using D(6) [OF that] a(1) by auto
  have "table_inv ?s'" unfolding table_inv_def using D(1,6,7) other na by auto
  moreover have "waiting_inv ?s' (live m) bk"
    unfolding waiting_inv_def
  proof (intro conjI allI impI)
    fix b pp' assume "pps ?s' b = Some pp'"
    then have "pps ?s b = Some pp'" "b \<noteq> a" by (auto split: if_splits)
    with D(8) [of b pp'] b(3) show "\<exists>q. pid_cv pp' = Some q \<and> (\<forall>t\<in>set q. bk t = Some b) \<and> (pid_exited pp' \<noteq> 0 \<longrightarrow> q = [])" by blast
  next
    fix u b assume u: "bk u = Some b"
    then have "b \<noteq> a" "blk m u = Some b" using b(1,2) by auto
    with D(9) [of u b] show "\<exists>pp q. pps ?s' b = Some pp \<and> live m u = Some (ppid_id pp) \<and> pid_cv pp = Some q \<and> (pid_exited pp = 0 \<longrightarrow> u \<in> set q)" by auto
  qed
  moreover have "live_inv ?s' (live m)"
  proof -
    have nl: "live m v \<noteq> Some (pid_id pp)" for v
    proof
      assume v: "live m v = Some (pid_id pp)"
      have "pid_id pp \<noteq> PID_BOOT" using D(6) [OF ta] by (auto simp: PID_MIN_def PID_BOOT_def)
      with D(10) [OF v] ta a show False by auto
    qed
    show ?thesis
      unfolding live_inv_def
    proof (intro conjI allI impI)
      fix v p assume v: "live m v = Some p"
      with nl have "p \<noteq> pid_id pp" by auto
      with D(10) [OF v] na [of p] show "p = PID_BOOT \<or> (\<exists>b pp. pid_table ?s' p = Some b \<and> pps ?s' b = Some pp \<and> pid_exited pp = 0)" by fastforce
    next
      fix b pp' assume "pps ?s' b = Some pp'" "pid_exited pp' = 0"
      then show "\<exists>t. live m t = Some (pid_id pp')" using D(12) [of b pp'] by (auto split: if_splits)
    qed (use D(11) in blast)
  qed
  moreover have "life_inv ?s' ?log"
    unfolding life_inv_def
  proof
    fix p
    have "pid_view ?s (pid_id pp) = Zombie (ppid_id pp) (pid_estatus pp)" using ta a by (simp add: pid_view_def)
    moreover have "pid_view ?s' p = (if p = pid_id pp then Free else pid_view ?s p)"
      using na [of p] by (auto simp: pid_view_def split: bind_splits)
    ultimately show "lifecycle p ?log = Some (pid_view ?s' p)" using D(13) [of p] by (cases "p = pid_id pp") auto
  qed
  ultimately show ?thesis by (simp add: p_inv_def)
qed

text \<open>An entry changes its state but not its identifier.\<close>

lemma table_upd:
  assumes "table_inv s" "pps s a = Some pp" "pid_id pp' = pid_id pp"
  shows "table_inv (s\<lparr>pps := (pps s)(a \<mapsto> pp')\<rparr>)"
  unfolding table_inv_def
proof (intro conjI allI impI)
  fix p b assume b: "pid_table (s\<lparr>pps := (pps s)(a \<mapsto> pp')\<rparr>) p = Some b"
  then have "int PID_MIN \<le> p" "p \<le> int PID_MAX" "\<exists>pp. pps s b = Some pp \<and> pid_id pp = p" using assms(1) unfolding table_inv_def by auto
  with assms(2,3) show "int PID_MIN \<le> p" "p \<le> int PID_MAX" "\<exists>pp. pps (s\<lparr>pps := (pps s)(a \<mapsto> pp')\<rparr>) b = Some pp \<and> pid_id pp = p" by auto
qed (use assms in \<open>auto simp: table_inv_def split: if_splits\<close>)

lemma live_upd:
  assumes "live_inv s lv" "pps s a = Some pp" "pid_id pp' = pid_id pp" "pid_exited pp' = pid_exited pp"
  shows "live_inv (s\<lparr>pps := (pps s)(a \<mapsto> pp')\<rparr>) lv"
  unfolding live_inv_def
proof (intro conjI allI impI)
  fix t p assume "lv t = Some p"
  then have "p = PID_BOOT \<or> (\<exists>b pp. pid_table s p = Some b \<and> pps s b = Some pp \<and> pid_exited pp = 0)" using assms(1) unfolding live_inv_def by blast
  with assms(2,4) show "p = PID_BOOT \<or> (\<exists>b pp. pid_table (s\<lparr>pps := (pps s)(a \<mapsto> pp')\<rparr>) p = Some b \<and> pps (s\<lparr>pps := (pps s)(a \<mapsto> pp')\<rparr>) b = Some pp \<and> pid_exited pp = 0)"
    by auto
next
  fix b pq assume "pps (s\<lparr>pps := (pps s)(a \<mapsto> pp')\<rparr>) b = Some pq" "pid_exited pq = 0"
  then have "\<exists>pr. pps s b = Some pr \<and> pid_exited pr = 0 \<and> pid_id pr = pid_id pq" using assms(2-4) by (auto split: if_splits)
  then show "\<exists>t. lv t = Some (pid_id pq)" using assms(1) unfolding live_inv_def by metis
qed (use assms(1) in \<open>auto simp: live_inv_def\<close>)

lemma sleep_waiting:
  assumes i: "p_inv m" and a: "pps (ps m) a = Some pp" "pid_cv pp = Some q" "pid_exited pp = 0" and t: "blk m t = None" "live m t = Some (ppid_id pp)"
  shows "waiting_inv ((ps m)\<lparr>pps := (pps (ps m))(a \<mapsto> pp\<lparr>pid_cv := Some (q @ [t])\<rparr>)\<rparr>) (live m) ((blk m)(t \<mapsto> a))" (is "waiting_inv ?s' _ _")
  unfolding waiting_inv_def
proof (intro conjI allI impI)
  note D = p_invD [OF i]
  fix b pp' assume b: "pps ?s' b = Some pp'"
  show "\<exists>q. pid_cv pp' = Some q \<and> (\<forall>u\<in>set q. ((blk m)(t \<mapsto> a)) u = Some b) \<and> (pid_exited pp' \<noteq> 0 \<longrightarrow> q = [])"
  proof (cases "b = a")
    case True
    with b D(8) [OF a(1)] a t(1) show ?thesis by auto
  next
    case False
    with b D(8) [of b pp'] t(1) show ?thesis by fastforce
  qed
next
  fix u b assume "((blk m)(t \<mapsto> a)) u = Some b"
  then consider "u = t" "b = a" | "u \<noteq> t" "blk m u = Some b" by (auto split: if_splits)
  then show "\<exists>pp q. pps ?s' b = Some pp \<and> live m u = Some (ppid_id pp) \<and> pid_cv pp = Some q \<and> (pid_exited pp = 0 \<longrightarrow> u \<in> set q)"
    using p_invD(9) [OF i, of u b] a t(2) by cases auto
qed

lemma wait_keeps:
  assumes i: "p_inv m" and may: "pid_may (AWait t pid) m"
  shows "\<exists>m'. pid_do (AWait t pid) m = Some m' \<and> p_inv m'"
proof -
  note D = p_invD [OF i]
  let ?s = "ps m"
  obtain p where p: "live m t = Some p" "blk m t = None" "0 \<le> pid" "pid \<le> int PID_MAX" using may by auto
  show ?thesis
  proof (cases "pid_table ?s pid")
    case None
    with pid_wait_none [OF D(1) p(3,4)] p(1) i show ?thesis by simp
  next
    case (Some a)
    obtain pp where pp: "pps ?s a = Some pp" "pid_id pp = pid" using D(6) [OF Some] by blast
    obtain q where q: "pid_cv pp = Some q" "\<forall>t\<in>set q. blk m t = Some a" "pid_exited pp \<noteq> 0 \<longrightarrow> q = []" using D(8) [OF pp(1)] by blast
    note w = pid_wait_some [OF D(1) p(3,4) Some pp(1) q(1) pp(2)]
    consider "ppid_id pp \<noteq> p" | (sleep) "ppid_id pp = p" "pid_exited pp = 0" | (reap) "ppid_id pp = p" "pid_exited pp \<noteq> 0" by blast
    then show ?thesis
    proof cases
      case 1
      with w(1) p(1) i show ?thesis by simp
    next
      case sleep
      let ?s' = "?s\<lparr>pps := (pps ?s)(a \<mapsto> pp\<lparr>pid_cv := Some (q @ [t])\<rparr>)\<rparr>"
      have "table_inv ?s'" by (rule table_upd [OF D(2) pp(1)]) simp
      moreover have "waiting_inv ?s' (live m) ((blk m)(t \<mapsto> a))" by (rule sleep_waiting [OF i pp(1) q(1) sleep(2) p(2)]) (simp add: p(1) sleep(1))
      moreover have "live_inv ?s' (live m)" by (rule live_upd [OF D(4) pp(1)]) simp_all
      moreover have "life_inv ?s' (plog m)"
      proof -
        have "pid_view ?s' p = pid_view ?s p" for p using pp sleep by (auto simp: pid_view_def split: bind_splits)
        with D(5) show ?thesis by (simp add: life_inv_def)
      qed
      ultimately show ?thesis using w(2) [OF sleep, of t] p(1) by (simp add: p_inv_def)
    next
      case reap
      have "blk m u \<noteq> Some a" for u
      proof
        assume u: "blk m u = Some a"
        then have "live m u = Some p" using D(9) [OF u] pp(1) reap(1) by auto
        with D(11) [OF p(1)] u p(2) show False by auto
      qed
      with reap_keeps [OF i pp(1) reap(2), of "blk m"] w(3) [OF reap] q(3) reap p(1) pp(2) show ?thesis by simp
    qed
  qed
qed

lemma wake_keeps:
  assumes i: "p_inv m" and may: "pid_may (AWake t) m"
  shows "\<exists>m' a pp. blk m t = Some a \<and> pps (ps m) a = Some pp \<and> pid_exited pp \<noteq> 0 \<and> pid_wait_wakeup t a (ps m) = Some (Done (Inr (pid_estatus pp)), ps m') \<and>
    pid_do (AWake t) m = Some m' \<and> p_inv m'"
proof -
  note D = p_invD [OF i]
  obtain a where a: "blk m t = Some a" "\<not> asleep t m" using may by auto
  obtain pp q where pp: "pps (ps m) a = Some pp" "live m t = Some (ppid_id pp)" "pid_cv pp = Some q" "pid_exited pp = 0 \<longrightarrow> t \<in> set q" using D(9) [OF a(1)] by blast
  then have ex: "pid_exited pp \<noteq> 0" using a by (auto simp: asleep_def)
  with D(8) [OF pp(1)] pp(3) have "pid_cv pp = Some []" by auto
  note w = pid_wakeup_eq [OF D(1) pp(1) this, of t]
  have "((blk m)(t := None)) u \<noteq> Some a" for u using one_waiter [OF i a(1), of u] by auto
  then have k: "p_inv (m\<lparr>ps := (ps m)\<lparr>pid_table := (pid_table (ps m))(pid_id pp := None), pps := (pps (ps m))(a := None)\<rparr>, blk := (blk m)(t := None),
    plog := Waited (ppid_id pp) (pid_id pp) (pid_estatus pp) # plog m\<rparr>)"
    by (rule reap_keeps [OF i pp(1) ex]) (use a(1) in \<open>auto split: if_splits\<close>)
  have w': "pid_wait_wakeup t a (ps m) = Some (Done (Inr (pid_estatus pp)), (ps m)\<lparr>pid_table := (pid_table (ps m))(pid_id pp := None), pps := (pps (ps m))(a := None)\<rparr>)"
    using w pid_range [OF i pp(1)] by simp
  let ?m' = "m\<lparr>ps := (ps m)\<lparr>pid_table := (pid_table (ps m))(pid_id pp := None), pps := (pps (ps m))(a := None)\<rparr>, blk := (blk m)(t := None),
    plog := Waited (ppid_id pp) (pid_id pp) (pid_estatus pp) # plog m\<rparr>"
  have "pid_do (AWake t) m = Some ?m'" using a(1) pp(1,2) w' by simp
  moreover have "pid_wait_wakeup t a (ps m) = Some (Done (Inr (pid_estatus pp)), ps ?m')" using w' by simp
  ultimately show ?thesis using a(1) pp(1) ex k by blast
qed

lemma exit_waiting:
  assumes i: "p_inv m" and a: "pps (ps m) a = Some pp" and t: "blk m t = None"
  shows "waiting_inv ((ps m)\<lparr>pps := (pps (ps m))(a \<mapsto> pp\<lparr>pid_exited := 1, pid_estatus := st, pid_cv := Some []\<rparr>)\<rparr>) ((live m)(t := None)) (blk m)"
    (is "waiting_inv ?s' _ _")
  unfolding waiting_inv_def
proof (intro conjI allI impI)
  fix b pp' assume "pps ?s' b = Some pp'"
  then show "\<exists>q. pid_cv pp' = Some q \<and> (\<forall>u\<in>set q. blk m u = Some b) \<and> (pid_exited pp' \<noteq> 0 \<longrightarrow> q = [])"
    using p_invD(8) [OF i, of b pp'] by (auto split: if_splits)
next
  fix u b assume u: "blk m u = Some b"
  with t have "u \<noteq> t" by auto
  with p_invD(9) [OF i u] a show "\<exists>pp q. pps ?s' b = Some pp \<and> ((live m)(t := None)) u = Some (ppid_id pp) \<and> pid_cv pp = Some q \<and> (pid_exited pp = 0 \<longrightarrow> u \<in> set q)" by auto
qed

lemma exit_live:
  assumes i: "p_inv m" and a: "pps (ps m) a = Some pp" and t: "live m t = Some (pid_id pp)"
  shows "live_inv ((ps m)\<lparr>pps := (pps (ps m))(a \<mapsto> pp\<lparr>pid_exited := 1, pid_estatus := st, pid_cv := Some []\<rparr>)\<rparr>) ((live m)(t := None))"
    (is "live_inv ?s' _")
  unfolding live_inv_def
proof (intro conjI allI impI)
  note D = p_invD [OF i]
  fix u r assume u: "((live m)(t := None)) u = Some r"
  then have r: "r \<noteq> pid_id pp" using D(11) [OF t, of u] by (auto split: if_splits)
  from u D(10) [of u r] have "r = PID_BOOT \<or> (\<exists>b pp. pid_table (ps m) r = Some b \<and> pps (ps m) b = Some pp \<and> pid_exited pp = 0)" by (auto split: if_splits)
  moreover have "b \<noteq> a" if "pid_table (ps m) r = Some b" for b using D(6) [OF that] a r by auto
  ultimately show "r = PID_BOOT \<or> (\<exists>b pp. pid_table ?s' r = Some b \<and> pps ?s' b = Some pp \<and> pid_exited pp = 0)" by fastforce
next
  note D = p_invD [OF i]
  fix b pp' assume b: "pps ?s' b = Some pp'" "pid_exited pp' = 0"
  then have b': "b \<noteq> a" "pps (ps m) b = Some pp'" by (auto split: if_splits)
  then have "pid_id pp' \<noteq> pid_id pp" using D(7) [OF b'(2)] D(7) [OF a] by auto
  moreover obtain u where "live m u = Some (pid_id pp')" using D(12) [OF b'(2) b(2)] by blast
  ultimately show "\<exists>u. ((live m)(t := None)) u = Some (pid_id pp')" using t by (intro exI [of _ u]) auto
next
  fix v u r assume "((live m)(t := None)) v = Some r" "((live m)(t := None)) u = Some r"
  then show "v = u" using p_invD(11) [OF i, of v r u] by (simp split: if_splits)
qed

lemma exit_keeps:
  assumes i: "p_inv m" and may: "pid_may (AExit t st) m"
  shows "\<exists>m'. pid_do (AExit t st) m = Some m' \<and> p_inv m'"
proof -
  note D = p_invD [OF i]
  let ?s = "ps m"
  obtain p where p: "live m t = Some p" "p \<noteq> PID_BOOT" "blk m t = None" using may by auto
  obtain a pp where a: "pid_table ?s p = Some a" "pps ?s a = Some pp" "pid_exited pp = 0" using D(10) [OF p(1)] p(2) by blast
  have id: "pid_id pp = p" "0 \<le> p" "p \<le> int PID_MAX" using D(6) [OF a(1)] a(2) by auto
  obtain q where q: "pid_cv pp = Some q" using D(8) [OF a(2)] by blast
  let ?pp = "pp\<lparr>pid_exited := 1, pid_estatus := st, pid_cv := Some []\<rparr>"
  let ?s' = "?s\<lparr>pps := (pps ?s)(a \<mapsto> ?pp)\<rparr>"
  have "table_inv ?s'" by (rule table_upd [OF D(2) a(2)]) simp
  moreover have "waiting_inv ?s' ((live m)(t := None)) (blk m)" by (rule exit_waiting [OF i a(2) p(3)])
  moreover have "live_inv ?s' ((live m)(t := None))" by (rule exit_live [OF i a(2)]) (simp add: p(1) id(1))
  moreover have "life_inv ?s' (Exited p st # plog m)"
    unfolding life_inv_def
  proof
    fix r
    have "pid_view ?s p = Running (ppid_id pp)" using a by (simp add: pid_view_def)
    moreover have "pid_view ?s' r = (if r = p then Zombie (ppid_id pp) st else pid_view ?s r)"
    proof (cases "r = p")
      case True
      with a show ?thesis by (simp add: pid_view_def)
    next
      case False
      then have "pid_table ?s r \<noteq> Some a" using D(6) [of r a] a(2) id(1) by auto
      with False show ?thesis by (cases "pid_table ?s r") (auto simp: pid_view_def)
    qed
    ultimately show "lifecycle r (Exited p st # plog m) = Some (pid_view ?s' r)" using D(13) [of r] by auto
  qed
  ultimately show ?thesis using p(1) pid_exit_eq [OF D(1) id(2,3) a(1,2) q, of t st] by (simp add: p_inv_def)
qed

lemma pid_step_ok:
  assumes "p_inv m" "pid_may act m"
  shows "\<exists>m'. pid_do act m = Some m' \<and> p_inv m'"
  using assms fork_keeps wait_keeps wake_keeps exit_keeps by (cases act) blast+

lemma pid_reach_inv: "pid_reach t0 m \<Longrightarrow> p_inv m"
proof (induction rule: pid_reach.induct)
  case (start m)
  then show ?case
    by (auto simp: pid_start_def pidtable_init_def p_inv_def table_inv_def waiting_inv_def live_inv_def life_inv_def pid_view_def split: if_splits)
next
  case (step m act m')
  then show ?case using pid_step_ok [of m act] by auto
qed

section \<open>What the table promises\<close>

definition ex_pids :: "nat \<Rightarrow> pmach option" where
  "ex_pids n = do { m \<leftarrow> pid_start 16; pid_run (take n [AFork 16 32 100, AFork 32 48 101, AWait 32 3, AExit 48 7, AWake 32, AFork 32 64 102]) m }"

lemma ex_pids_reach: "ex_pids n = Some m \<Longrightarrow> pid_reach 16 m"
  using pid_run_reach pid_reach.start unfolding ex_pids_def by (blast elim: bindE)

text \<open>
  C34. However processes fork, wait and exit, the calls run through: no null or stale pointer is followed, and no condition
  variable is destroyed that a thread sleeps on. The table shows the life of every process: an identifier is given to a
  new process only when it is free, it is free again only when the process has exited and the process with the parent's identifier
  has waited for it, and what the wait reports is the status the process exited with.
\<close>

theorem pid_lifecycle:
  assumes "pid_reach t0 m"
  shows "(\<forall>act. pid_may act m \<longrightarrow> (\<exists>m'. pid_do act m = Some m')) \<and> (\<forall>p. lifecycle p (plog m) = Some (pid_view (ps m) p))"
  using pid_reach_inv [OF assms] pid_step_ok p_invD(13) by blast

lemma ex_pids_5: "case ex_pids 5 of None \<Rightarrow> False | Some m \<Rightarrow> plog m = [Waited 2 3 7, Exited 3 7, Forked 2 3, Forked 1 2] \<and> pid_may (AFork 32 64 102) m"
  by code_simp

theorem pid_lifecycle_witness:
  "\<exists>m m'. ex_pids 5 = Some m \<and> plog m = [Waited 2 3 7, Exited 3 7, Forked 2 3, Forked 1 2] \<and> pid_do (AFork 32 64 102) m = Some m' \<and>
     pid_view (ps m) 3 = Free \<and> pid_view (ps m) 2 = Running 1"
proof (cases "ex_pids 5")
  case (Some m)
  with ex_pids_5 have m: "plog m = [Waited 2 3 7, Exited 3 7, Forked 2 3, Forked 1 2]" "pid_may (AFork 32 64 102) m" by simp_all
  from pid_lifecycle [OF ex_pids_reach [OF Some]] m(2) obtain m' where "pid_do (AFork 32 64 102) m = Some m'" by blast
  moreover have "lifecycle 3 (plog m) = Some (pid_view (ps m) 3)" "lifecycle 2 (plog m) = Some (pid_view (ps m) 2)"
    using pid_lifecycle [OF ex_pids_reach [OF Some]] by blast+
  then have "pid_view (ps m) 3 = Free" "pid_view (ps m) 2 = Running 1" unfolding m(1) by simp_all
  ultimately show ?thesis using Some m(1) by blast
qed (use ex_pids_5 in simp)


lemma ex_pids_6: "case ex_pids 6 of None \<Rightarrow> False | Some m \<Rightarrow> live m 64 = Some 3 \<and> live m 32 = Some 2 \<and> live m 16 = Some 1"
  by code_simp


text \<open>
  C36. A wait ends. A thread that waits in \<^verbatim>\<open>pid_wait\<close> waits for a child of its process. While the child runs the thread
  sleeps; once the child has exited it is awake, and when it goes on the call returns the child's exit status.
\<close>

theorem waiter_returns:
  assumes "pid_reach t0 m" "blk m t = Some a"
  shows "\<exists>pp. pps (ps m) a = Some pp \<and> live m t = Some (ppid_id pp) \<and>
    (if pid_exited pp = 0 then asleep t m \<and> (\<exists>u. live m u = Some (pid_id pp))
     else \<not> asleep t m \<and> (\<exists>s'. pid_wait_wakeup t a (ps m) = Some (Done (Inr (pid_estatus pp)), s')))"
proof -
  note i = pid_reach_inv [OF assms(1)]
  note D = p_invD [OF i]
  obtain pp q where pp: "pps (ps m) a = Some pp" "live m t = Some (ppid_id pp)" "pid_cv pp = Some q" "pid_exited pp = 0 \<longrightarrow> t \<in> set q" using D(9) [OF assms(2)] by blast
  show ?thesis
  proof (cases "pid_exited pp = 0")
    case True
    with pp D(12) [OF pp(1)] assms(2) show ?thesis by (auto simp: asleep_def)
  next
    case False
    then have "pid_cv pp = Some []" using D(8) [OF pp(1)] pp(3) by auto
    then have "\<not> asleep t m" using pp(1) assms(2) by (auto simp: asleep_def)
    with wake_keeps [OF i, of t] assms(2) pp(1,2) False show ?thesis by auto
  qed
qed

lemma ex_pids_4: "case ex_pids 4 of None \<Rightarrow> False | Some m \<Rightarrow> blk m 32 = Some 101 \<and> map_option pid_exited (pps (ps m) 101) = Some 1 \<and> map_option pid_estatus (pps (ps m) 101) = Some 7"
  by code_simp

theorem waiter_returns_witness:
  "\<exists>m s'. ex_pids 4 = Some m \<and> \<not> asleep 32 m \<and> pid_wait_wakeup 32 101 (ps m) = Some (Done (Inr 7), s')"
proof (cases "ex_pids 4")
  case (Some m)
  with ex_pids_4 have m: "blk m 32 = Some 101" "map_option pid_exited (pps (ps m) 101) = Some 1" "map_option pid_estatus (pps (ps m) 101) = Some 7" by simp_all
  from waiter_returns [OF ex_pids_reach [OF Some] m(1)] m(2,3) show ?thesis using Some by auto
qed (use ex_pids_4 in simp)

end
