(* ===== verification/Proc.thy ===== *)
theory Proc
  imports File_Inv Dumbvm_Inv Pid_Props Sched_Machine
begin

text \<open>
  kern/proc/proc.c and kern/syscall/proc_syscalls.c: processes, and the system calls fork, getpid, waitpid and \<^verbatim>\<open>_exit\<close>,
  which tie the other parts of the kernel together. The state has the file side, the memory, the table of process identifiers and the thread
  system, each as its own theory has it. What the code finds through \<^verbatim>\<open>curthread\<close> and \<^verbatim>\<open>curproc\<close> is read from the thread
  system.
\<close>

section \<open>State\<close>

record trapframe =
  tf_vaddr :: u32
  tf_status :: u32
  tf_cause :: u32
  tf_lo :: u32
  tf_hi :: u32
  tf_ra :: u32
  tf_at :: u32
  tf_v0 :: u32
  tf_v1 :: u32
  tf_a0 :: u32
  tf_a1 :: u32
  tf_a2 :: u32
  tf_a3 :: u32
  tf_t0 :: u32
  tf_t1 :: u32
  tf_t2 :: u32
  tf_t3 :: u32
  tf_t4 :: u32
  tf_t5 :: u32
  tf_t6 :: u32
  tf_t7 :: u32
  tf_s0 :: u32
  tf_s1 :: u32
  tf_s2 :: u32
  tf_s3 :: u32
  tf_s4 :: u32
  tf_s5 :: u32
  tf_s6 :: u32
  tf_s7 :: u32
  tf_t8 :: u32
  tf_t9 :: u32
  tf_gp :: u32
  tf_sp :: u32
  tf_s8 :: u32
  tf_epc :: u32

text \<open>
  The fields of \<^verbatim>\<open>struct proc\<close> are where their users are: \<open>p_addrspace\<close> and \<open>p_cwd\<close> in \<open>u_fs\<close> with the descriptor tables,
  \<open>p_numthreads\<close> and the spinlock in \<open>u_ks\<close>. A structure is allocated when it has a name. \<open>u_tf\<close> has the trapframes
  that were allocated for children.
\<close>

record 'f ukern =
  u_fs :: "'f fstate"
  u_vm :: vm
  u_pids :: pids
  u_ks :: sched
  p_name :: "nat \<Rightarrow> string option"
  p_pid :: "nat \<Rightarrow> int"
  u_tf :: "u32 \<Rightarrow> trapframe option"
  kproc :: "nat option"

abbreviation u_w :: "'f ukern \<Rightarrow> 'f kern" where "u_w st \<equiv> fs_w (u_fs st)"

definition on_uw :: "('f kern \<Rightarrow> 'f kern) \<Rightarrow> 'f ukern \<Rightarrow> 'f ukern" where
  "on_uw f st = st\<lparr>u_fs := (u_fs st)\<lparr>fs_w := f (u_w st)\<rparr>\<rparr>"

definition u_curproc :: "nat \<Rightarrow> 'f ukern \<Rightarrow> nat option" where
  "u_curproc c st = do { t \<leftarrow> Spinlock.curthread c (u_ks st); th \<leftarrow> sched.thr (u_ks st) t; t_proc th }"

text \<open>The file side as the current thread sees it.\<close>

definition u_run :: "nat \<Rightarrow> 'f ukern \<Rightarrow> 'f fstate option" where
  "u_run c st =
     do { t \<leftarrow> Spinlock.curthread c (u_ks st); p \<leftarrow> u_curproc c st; Some (switch_to p (unat t) (u_fs st)) }"

section \<open>Processes (proc.c)\<close>

text \<open>\<open>addr\<close> is the address of the new structure and \<open>name_ok\<close> whether there is memory for its name.\<close>

definition proc_create :: "nat option \<Rightarrow> bool \<Rightarrow> string \<Rightarrow> 'f ukern \<Rightarrow> nat option \<times> 'f ukern" where
  "proc_create addr name_ok name st =
     (case addr of
        None \<Rightarrow> (None, st)
      | Some p \<Rightarrow>
          if \<not> name_ok then (None, st)
          else (Some p, on_uw (\<lambda>w. w\<lparr>p_addrspace := (p_addrspace w)(p := None), p_cwd := (p_cwd w)(p := None)\<rparr>)
                 (st\<lparr>p_name := (p_name st)(p \<mapsto> name),
                     u_ks := spinlock_init (PLock p) ((u_ks st)\<lparr>p_numthreads := (p_numthreads (u_ks st))(p \<mapsto> 0)\<rparr>)\<rparr>)))"

definition proc_bootstrap :: "nat option \<Rightarrow> bool \<Rightarrow> 'f ukern \<Rightarrow> 'f ukern option" where
  "proc_bootstrap addr name_ok st =
     (case proc_create addr name_ok ''[kernel]'' st of
        (None, st) \<Rightarrow> None
      | (Some p, st) \<Rightarrow> Some (st\<lparr>kproc := Some p, p_pid := (p_pid st)(p := 1)\<rparr>))"

definition proc_setas :: "nat \<Rightarrow> nat option \<Rightarrow> 'f ukern \<Rightarrow> (nat option \<times> 'f ukern) option" where
  "proc_setas c newas st =
     do { p \<leftarrow> u_curproc c st;
          ks \<leftarrow> spinlock_acquire c (PLock p) (u_ks st);
          let oldas = p_addrspace (u_w st) p;
          ks \<leftarrow> spinlock_release c (PLock p) ks;
          Some (oldas, on_uw (\<lambda>w. w\<lparr>p_addrspace := (p_addrspace w)(p := newas)\<rparr>) (st\<lparr>u_ks := ks\<rparr>)) }"

definition proc_drop_cwd :: "('f kern) kenv \<Rightarrow> nat \<Rightarrow> 'f kern \<Rightarrow> 'f kern option" where
  "proc_drop_cwd E p w =
     (case p_cwd w p of
        None \<Rightarrow> Some w
      | Some v \<Rightarrow> do { w \<leftarrow> vnode_decref E v w; Some (w\<lparr>p_cwd := (p_cwd w)(p := None)\<rparr>) })"

definition proc_drop_as :: "nat \<Rightarrow> nat \<Rightarrow> 'f ukern \<Rightarrow> 'f ukern option" where
  "proc_drop_as c p st =
     (case p_addrspace (u_w st) p of
        None \<Rightarrow> Some st
      | Some _ \<Rightarrow>
          if u_curproc c st = Some p
          then do { (old, st) \<leftarrow> proc_setas c None st;
                    a \<leftarrow> old;
                    Some (st\<lparr>u_vm := as_destroy a (as_deactivate (u_vm st))\<rparr>) }
          else do { a \<leftarrow> p_addrspace (u_w st) p;
                    Some (on_uw (\<lambda>w. w\<lparr>p_addrspace := (p_addrspace w)(p := None)\<rparr>) (st\<lparr>u_vm := as_destroy a (u_vm st)\<rparr>)) })"

text \<open>Freeing the structure takes its name, its counter and the pointer to its descriptor table with it.\<close>

definition proc_free :: "nat \<Rightarrow> 'f ukern \<Rightarrow> 'f ukern" where
  "proc_free p st = st\<lparr>p_name := (p_name st)(p := None),
     u_ks := (u_ks st)\<lparr>p_numthreads := (p_numthreads (u_ks st))(p := None)\<rparr>,
     u_fs := (u_fs st)\<lparr>fd_t := (fd_t (u_fs st))(p := None)\<rparr>\<rparr>"

definition proc_destroy :: "('f kern) kenv \<Rightarrow> nat \<Rightarrow> nat \<Rightarrow> 'f ukern \<Rightarrow> 'f ukern option" where
  "proc_destroy E c p st =
     do { kassert (kproc st \<noteq> Some p);
          w \<leftarrow> proc_drop_cwd E p (u_w st);
          st \<leftarrow> proc_drop_as c p (st\<lparr>u_fs := (u_fs st)\<lparr>fs_w := w\<rparr>\<rparr>);
          kassert (p_numthreads (u_ks st) p = Some 0);
          spinlock_cleanup (PLock p) (u_ks st);
          Some (proc_free p st) }"

text \<open>What the allocations of a fork return.\<close>

record fork_mem =
  fm_tf :: "u32 option"
  fm_as :: bool
  fm_proc :: "nat option"
  fm_name :: bool
  fm_pid :: "nat option"
  fm_cv :: bool
  fm_fd :: bool
  fm_thread :: "u32 option"
  fm_tname :: bool
  fm_stack :: "u32 list option"

definition proc_copy_cwd :: "nat \<Rightarrow> nat \<Rightarrow> 'f kern \<Rightarrow> 'f kern option" where
  "proc_copy_cwd p np w =
     (case p_cwd w p of
        None \<Rightarrow> Some w
      | Some v \<Rightarrow> do { w \<leftarrow> vnode_incref v w; Some (w\<lparr>p_cwd := (p_cwd w)(np \<mapsto> v)\<rparr>) })"

definition proc_create_runprogram :: "nat \<Rightarrow> fork_mem \<Rightarrow> string \<Rightarrow> 'f ukern \<Rightarrow> (nat option \<times> 'f ukern) option" where
  "proc_create_runprogram c fm name st =
     (case proc_create (fm_proc fm) (fm_name fm) name st of
        (None, st) \<Rightarrow> Some (None, st)
      | (Some np, st) \<Rightarrow>
          do { let st = on_uw (\<lambda>w. w\<lparr>p_addrspace := (p_addrspace w)(np := None)\<rparr>) st;
               t \<leftarrow> Spinlock.curthread c (u_ks st);
               p \<leftarrow> u_curproc c st;
               ks \<leftarrow> spinlock_acquire c (PLock p) (u_ks st);
               w \<leftarrow> proc_copy_cwd p np (u_w st);
               ks \<leftarrow> spinlock_release c (PLock p) ks;
               (pid, pds) \<leftarrow> pid_create (unat t) (fm_pid fm) (fm_cv fm) (p_pid st p) (u_pids st);
               Some (Some np, st\<lparr>u_ks := ks, u_fs := (u_fs st)\<lparr>fs_w := w\<rparr>, u_pids := pds, p_pid := (p_pid st)(np := pid)\<rparr>) })"

section \<open>fork\<close>

text \<open>Counting the descriptors of the child \<open>np\<close>; the loop visits the indices \<open>is\<close>.\<close>

fun fork_refs :: "nat \<Rightarrow> nat list \<Rightarrow> 'f fstate \<Rightarrow> 'f fstate option" where
  "fork_refs np [] s = Some s"
| "fork_refs np (i # is) s =
     do { tab \<leftarrow> fd_t s np;
          kassert (i < length tab);
          let ofd = tab ! i;
          s \<leftarrow> (if ofd \<noteq> FILE_CLOSED
                then do { s \<leftarrow> oft_acquire s;
                          f \<leftarrow> openfile ofd s;
                          f \<leftarrow> f;
                          s \<leftarrow> set_openfile ofd (Some (f\<lparr>of_rc := of_rc f + 1\<rparr>)) s;
                          oft_release s }
                else Some s);
          fork_refs np is s }"

text \<open>The new descriptor table; the code does not check its allocation.\<close>

definition fork_table :: "bool \<Rightarrow> nat \<Rightarrow> 'f fstate \<Rightarrow> 'f fstate option" where
  "fork_table fd_ok np s =
     do { kassert fd_ok;
          tab \<leftarrow> fd_t s (cur s);
          fork_refs np [0..<OPEN_MAX] (s\<lparr>fd_t := (fd_t s)(np \<mapsto> tab)\<rparr>) }"

text \<open>\<open>entry\<close> is the address of \<^verbatim>\<open>child_execute\<close>, with which the child starts.\<close>

definition sys_fork :: "nat \<Rightarrow> fork_mem \<Rightarrow> u32 \<Rightarrow> trapframe \<Rightarrow> 'f ukern \<Rightarrow> ((errno + int) \<times> 'f ukern) option" where
  "sys_fork c fm entry tf st =
     (case fm_tf fm of
        None \<Rightarrow> Some (Inl ENOMEM, st)
      | Some tfa \<Rightarrow>
          do { let st = st\<lparr>u_tf := (u_tf st)(tfa \<mapsto> tf)\<rparr>;
               p \<leftarrow> u_curproc c st;
               a \<leftarrow> p_addrspace (u_w st) p;
               (r, vm) \<leftarrow> as_copy (fm_as fm) a (u_vm st);
               let st = st\<lparr>u_vm := vm\<rparr>;
               case r of
                 Inl _ \<Rightarrow> Some (Inl ENOMEM, st)
               | Inr as_child \<Rightarrow>
                   do { name \<leftarrow> p_name st p;
                        (np, st) \<leftarrow> proc_create_runprogram c fm name st;
                        case np of
                          None \<Rightarrow> Some (Inl ENOMEM, st)
                        | Some np \<Rightarrow>
                            do { fs \<leftarrow> u_run c st;
                                 fs \<leftarrow> fork_table (fm_fd fm) np fs;
                                 let st = on_uw (\<lambda>w. w\<lparr>p_addrspace := (p_addrspace w)(np \<mapsto> as_child)\<rparr>) (st\<lparr>u_fs := fs\<rparr>);
                                 (r, ks) \<leftarrow> thread_fork c (fm_thread fm) (fm_tname fm) (fm_stack fm) ''new forked process'' (Some np)
                                   (entry, tfa, 0) (u_ks st);
                                 let st = st\<lparr>u_ks := ks\<rparr>;
                                 case r of
                                   Inl e \<Rightarrow> Some (Inl e, st)
                                 | Inr _ \<Rightarrow> Some (Inr (p_pid st np), st) } } })"

text \<open>
  The child starts in \<open>child_execute\<close> with the trapframe at \<open>tfa\<close>; the result is the trapframe it enters user mode with.
\<close>

definition enter_forked_process :: "nat \<Rightarrow> trapframe \<Rightarrow> 'f ukern \<Rightarrow> trapframe option" where
  "enter_forked_process c tf st =
     do { let tf = tf\<lparr>tf_epc := tf_epc tf + 4, tf_a3 := 0\<rparr>;
          t \<leftarrow> Spinlock.curthread c (u_ks st);
          th \<leftarrow> sched.thr (u_ks st) t;
          kassert (t_curspl th = 0);
          kassert (t_iplhigh_count th = 0);
          Some tf }"

definition child_execute :: "nat \<Rightarrow> u32 \<Rightarrow> u32 \<Rightarrow> 'f ukern \<Rightarrow> trapframe option" where
  "child_execute c tfa pid st =
     do { tf_new \<leftarrow> u_tf st tfa; enter_forked_process c (tf_new\<lparr>tf_v0 := pid\<rparr>) st }"

section \<open>getpid, exit and waitpid\<close>

definition sys_getpid :: "nat \<Rightarrow> 'f ukern \<Rightarrow> (errno + int) option" where
  "sys_getpid c st = do { p \<leftarrow> u_curproc c st; Some (Inr (p_pid st p)) }"

text \<open>The last step of an exit switches to another thread: the state is that of the processor after the switch.\<close>

definition pid_exit :: "('f kern) kenv \<Rightarrow> (nat \<Rightarrow> int) \<Rightarrow> nat \<Rightarrow> int \<Rightarrow> int \<Rightarrow> 'f ukern \<Rightarrow> 'f ukern option" where
  "pid_exit E oob c pid exit_status st =
     do { t \<leftarrow> Spinlock.curthread c (u_ks st);
          pds \<leftarrow> pid_exit_table (unat t) pid exit_status (u_pids st);
          p \<leftarrow> u_curproc c st;
          fs \<leftarrow> u_run c st;
          fs \<leftarrow> file_table_destroy E oob fs;
          ks \<leftarrow> proc_remthread c t (u_ks st);
          st \<leftarrow> proc_destroy E c p (st\<lparr>u_pids := pds, u_fs := fs, u_ks := ks\<rparr>);
          ks \<leftarrow> thread_exit c (u_ks st);
          Some (st\<lparr>u_ks := ks\<rparr>) }"

definition sys__exit :: "('f kern) kenv \<Rightarrow> (nat \<Rightarrow> int) \<Rightarrow> nat \<Rightarrow> int \<Rightarrow> 'f ukern \<Rightarrow> 'f ukern option" where
  "sys__exit E oob c exit_status st = do { p \<leftarrow> u_curproc c st; pid_exit E oob c (p_pid st p) exit_status st }"

definition WNOHANG :: int where "WNOHANG = 1"
definition WUNTRACED :: int where "WUNTRACED = 2"

text \<open>The bytes of an \<^verbatim>\<open>int\<close> in memory, most significant first.\<close>

definition int_bytes :: "int \<Rightarrow> byte list" where
  "int_bytes i = (let w = of_int i :: u32 in [ucast (drop_bit 24 w), ucast (drop_bit 16 w), ucast (drop_bit 8 w), ucast w])"

text \<open>After the wait: the status is in the local variable at the kernel address \<open>estatus\<close>.\<close>

definition waitpid_status :: "vaddr \<Rightarrow> vaddr \<Rightarrow> int \<Rightarrow> int \<Rightarrow> 'f ukern \<Rightarrow> ((errno + int) \<times> 'f ukern) option" where
  "waitpid_status estatus status pid val st =
     do { m \<leftarrow> write_bytes estatus (int_bytes val) (mem (k_mach (u_w st)));
          let km = (k_mach (u_w st))\<lparr>mem := m\<rparr>;
          if status \<noteq> 0
          then (case copyout estatus status 4 km of
                  (Inl e, km) \<Rightarrow> Some (Inl e, on_uw (\<lambda>w. w\<lparr>k_mach := km\<rparr>) st)
                | (Inr _, km) \<Rightarrow> Some (Inr pid, on_uw (\<lambda>w. w\<lparr>k_mach := km\<rparr>) st))
          else Some (Inr pid, on_uw (\<lambda>w. w\<lparr>k_mach := km\<rparr>) st) }"

text \<open>\<open>Inr a\<close> is a thread that has gone to sleep in \<^verbatim>\<open>pid_wait\<close>; it goes on with \<open>waitpid_wakeup\<close>.\<close>

definition waitpid_return :: "vaddr \<Rightarrow> vaddr \<Rightarrow> int \<Rightarrow> waited \<Rightarrow> 'f ukern \<Rightarrow> (((errno + int) + nat) \<times> 'f ukern) option" where
  "waitpid_return estatus status pid r st =
     (case r of
        Done (Inl e) \<Rightarrow> Some (Inl (Inl e), st)
      | Done (Inr val) \<Rightarrow> do { (r, st) \<leftarrow> waitpid_status estatus status pid val st; Some (Inl r, st) }
      | Blocked a \<Rightarrow> Some (Inr a, st))"

definition sys_waitpid :: "nat \<Rightarrow> vaddr \<Rightarrow> int \<Rightarrow> vaddr \<Rightarrow> int \<Rightarrow> 'f ukern \<Rightarrow> (((errno + int) + nat) \<times> 'f ukern) option" where
  "sys_waitpid c estatus pid status options st =
     (if pid < int PID_MIN \<or> pid > int PID_MAX then Some (Inl (Inl ESRCH), st)
      else if status \<ge> USERSPACETOP then Some (Inl (Inl EFAULT), st)
      else if options \<noteq> 0 \<and> options \<noteq> WUNTRACED \<and> options \<noteq> WNOHANG then Some (Inl (Inl EINVAL), st)
      else do { t \<leftarrow> Spinlock.curthread c (u_ks st);
                p \<leftarrow> u_curproc c st;
                (r, pds) \<leftarrow> pid_wait (unat t) pid (p_pid st p) (u_pids st);
                waitpid_return estatus status pid r (st\<lparr>u_pids := pds\<rparr>) })"

definition waitpid_wakeup :: "u32 \<Rightarrow> vaddr \<Rightarrow> int \<Rightarrow> vaddr \<Rightarrow> nat \<Rightarrow> 'f ukern \<Rightarrow> (((errno + int) + nat) \<times> 'f ukern) option" where
  "waitpid_wakeup t estatus pid status a st =
     do { (r, pds) \<leftarrow> pid_wait_wakeup (unat t) a (u_pids st);
          waitpid_return estatus status pid r (st\<lparr>u_pids := pds\<rparr>) }"

end
