(* ===== verification/Sched_Procs.thy ===== *)
theory Sched_Procs
  imports Sched_Machine
begin

text \<open>
  Which process a thread belongs to. Only forking a thread and taking the current one out of its process change it:
  every other operation of the thread system leaves the threads in their processes, whatever state it starts in.
\<close>

definition procs :: "sched \<Rightarrow> tid \<Rightarrow> procid option" where
  "procs s t = do { th \<leftarrow> thr s t; t_proc th }"

abbreviation same_procs :: "sched \<Rightarrow> sched \<Rightarrow> bool" where
  "same_procs s s' \<equiv> procs s' = procs s \<and> p_numthreads s' = p_numthreads s"

lemma procs_upd [simp]:
  "procs (s\<lparr>cpus := a\<rparr>) = procs s" "procs (s\<lparr>lk := b\<rparr>) = procs s" "procs (s\<lparr>nodes := h\<rparr>) = procs s" "procs (s\<lparr>wch := w\<rparr>) = procs s"
  "procs (s\<lparr>p_numthreads := n\<rparr>) = procs s"
  by (simp_all add: procs_def fun_eq_iff)

lemma on_thr_procs: "on_thr t f s = Some s' \<Longrightarrow> (\<And>th. t_proc (f th) = t_proc th) \<Longrightarrow> same_procs s s'"
  by (auto simp: on_thr_def procs_def fun_eq_iff elim!: bindE)

lemma on_cpu_procs: "on_cpu c f s = Some s' \<Longrightarrow> same_procs s s'"
  by (auto simp: on_cpu_def split: if_splits)

lemma splraise_procs: "splraise c a b s = Some s' \<Longrightarrow> same_procs s s'"
  by (auto simp: splraise_def elim!: bindE split: if_splits dest!: on_thr_procs on_cpu_procs)

lemma spllower_procs: "spllower c a b s = Some s' \<Longrightarrow> same_procs s s'"
  by (auto simp: spllower_def elim!: bindE split: if_splits dest!: on_thr_procs on_cpu_procs)

lemmas base_procs = on_thr_procs on_cpu_procs splraise_procs spllower_procs

lemma splx_procs: "splx c k s = Some (r, s') \<Longrightarrow> same_procs s s'"
  by (auto simp: splx_def elim!: bindE split: if_splits dest!: base_procs)

lemma acquire_procs: "spinlock_acquire c l s = Some s' \<Longrightarrow> same_procs s s'"
  by (auto simp: spinlock_acquire_def elim!: bindE split: if_splits dest!: base_procs)

lemma release_procs: "spinlock_release c l s = Some s' \<Longrightarrow> same_procs s s'"
  by (auto simp: spinlock_release_def elim!: bindE split: if_splits dest!: base_procs)

lemmas lock_procs = on_thr_procs on_cpu_procs splx_procs acquire_procs release_procs

lemma ipi_send_procs: "ipi_send c d code s = Some s' \<Longrightarrow> same_procs s s'"
  by (auto simp: ipi_send_def elim!: bindE dest!: lock_procs)

lemma interprocessor_interrupt_procs: "interprocessor_interrupt c s = Some s' \<Longrightarrow> same_procs s s'"
  by (auto simp: interprocessor_interrupt_def Let_def elim!: bindE split: if_splits dest!: lock_procs)

lemma make_runnable_procs: "thread_make_runnable c t b s = Some s' \<Longrightarrow> same_procs s s'"
  unfolding thread_make_runnable_def Let_def
  by (elim bindE) (auto elim!: bindE split: if_splits dest!: lock_procs ipi_send_procs)

lemma thread_destroy_procs: "thread_destroy c t s = Some s' \<Longrightarrow> same_procs s s'"
  by (auto simp: thread_destroy_def procs_def fun_eq_iff elim!: bindE)

lemma exorcise_procs: "exorcise c s = Some s' \<Longrightarrow> same_procs s s'"
  by (erule exorcise.raw_induct [where P = "\<lambda>c s s'. same_procs s s'", rotated])
    (fastforce simp: Let_def elim!: bindE split: option.splits dest!: thread_destroy_procs)

lemmas switch_procs = lock_procs ipi_send_procs make_runnable_procs exorcise_procs

lemma switch_leave_procs: "thread_switch_leave c st wc s = Some (go, s') \<Longrightarrow> same_procs s s'"
  unfolding thread_switch_leave_def splhigh_def
  by (elim bindE) (auto elim!: bindE split: if_splits threadstate.splits dest!: switch_procs)

lemma switch_pick_procs: "thread_switch_pick c s = Some (go, s') \<Longrightarrow> same_procs s s'"
  by (auto simp: thread_switch_pick_def Let_def elim!: bindE split: option.splits dest!: switch_procs)

lemma switch_arrive_procs: "thread_switch_arrive c s = Some s' \<Longrightarrow> same_procs s s'"
  by (auto simp: thread_switch_arrive_def spl0_def elim!: bindE split: option.splits dest!: switch_procs)

lemma switch_next_procs: "thread_switch_next c s = Some s' \<Longrightarrow> same_procs s s'"
  by (auto simp: thread_switch_next_def elim!: bindE split: if_splits dest!: switch_pick_procs switch_arrive_procs)

lemma thread_switch_procs: "thread_switch c st wc s = Some s' \<Longrightarrow> same_procs s s'"
  by (auto simp: thread_switch_def elim!: bindE split: if_splits dest!: switch_leave_procs switch_next_procs)

lemma thread_exit_procs: "thread_exit c s = Some s' \<Longrightarrow> same_procs s s'"
  by (auto simp: thread_exit_def splhigh_def elim!: bindE dest!: lock_procs thread_switch_procs)

lemma grab_procs: "wakeall_grab c w s = Some s' \<Longrightarrow> same_procs s s'"
  by (erule wakeall_grab.raw_induct [where P = "\<lambda>c w s s'. same_procs s s'", rotated])
    (fastforce elim!: bindE split: option.splits)

lemma mig_return_procs: "mig_return c s = Some s' \<Longrightarrow> same_procs s s'"
  by (erule mig_return.raw_induct [where P = "\<lambda>c s s'. same_procs s s'", rotated])
    (fastforce elim!: bindE split: option.splits)

lemma mig_take_procs: "mig_take c n s = Some s' \<Longrightarrow> same_procs s s'"
  by (induction n arbitrary: s) (fastforce elim!: bindE)+

lemma mig_give_procs: "mig_give c i share n s = Some (r, s') \<Longrightarrow> same_procs s s'"
proof (induction n arbitrary: s)
  case (Suc n)
  then show ?case by (auto simp: Let_def elim!: bindE split: if_splits dest!: lock_procs ipi_send_procs Suc.IH)
qed simp

lemma wchan_sleep_procs: "wchan_sleep c w l s = Some s' \<Longrightarrow> same_procs s s'"
  by (auto simp: wchan_sleep_def elim!: bindE dest!: thread_switch_procs)

lemma wchan_wakeone_procs: "wchan_wakeone c w l s = Some s' \<Longrightarrow> same_procs s s'"
  by (auto simp: wchan_wakeone_def Let_def elim!: bindE split: option.splits dest!: make_runnable_procs)

lemma irq_enter_procs: "irq_enter c s = Some (r, s') \<Longrightarrow> same_procs s s'"
  by (auto simp: irq_enter_def elim!: bindE split: if_splits dest!: lock_procs)

lemma irq_exit_procs: "irq_exit c a b s = Some s' \<Longrightarrow> same_procs s s'"
  by (auto simp: irq_exit_def elim!: bindE split: if_splits dest!: lock_procs)

lemma unidle_procs: "thread_switch_unidle c s = Some s' \<Longrightarrow> same_procs s s'"
  by (auto simp: thread_switch_unidle_def elim!: bindE dest!: lock_procs switch_next_procs)

lemmas op_procs = switch_procs thread_switch_procs thread_exit_procs grab_procs mig_return_procs mig_take_procs mig_give_procs
  wchan_sleep_procs wchan_wakeone_procs irq_enter_procs irq_exit_procs unidle_procs interprocessor_interrupt_procs

text \<open>The commands of the thread system that leave every thread in its process.\<close>

fun inner :: "sched_cmd \<Rightarrow> bool" where
  "inner (Fork mem name_ok stack name proc start) = False" | "inner RemThread = False" | "inner cmd = True"

lemma inner_procs:
  assumes "sched_exec c cmd (M, K, s) = Some (M', K', s')" "inner cmd"
  shows "same_procs s s'"
  using assms
  by (cases cmd) (auto simp: thread_yield_def wchan_create_def wchan_destroy_def Let_def elim!: bindE split: if_splits dest!: op_procs)

end
