(* ===== verification/Proc_Props.thy ===== *)
theory Proc_Props
  imports Proc File_Props Dumbvm_Props Sched_Procs
begin

text \<open>
  The calls of Proc.thy on a well-formed system: what fork gives the child on the file side, in memory, in the table of process
  identifiers and in the thread system, and that an exit gives all of it back.
\<close>

section \<open>The descriptors of the child\<close>

definition bumped :: "int list \<Rightarrow> nat list \<Rightarrow> open_file option list \<Rightarrow> open_file option list" where
  "bumped tab is fs =
     map (\<lambda>j. map_option (\<lambda>f. f\<lparr>of_rc := of_rc f + int (length (filter (\<lambda>i. tab ! i = int j) is))\<rparr>) (fs ! j)) [0..<length fs]"

lemma bumped_Nil [simp]: "bumped tab [] fs = fs"
  by (rule nth_equalityI) (auto simp: bumped_def map_option.identity [unfolded id_def])

lemma bumped_closed: "tab ! i = FILE_CLOSED \<Longrightarrow> bumped tab (i # is) fs = bumped tab is fs"
  by (simp add: bumped_def FILE_CLOSED_def)

lemma bumped_open:
  assumes "tab ! i = int j" "j < length fs" "fs ! j = Some f"
  shows "bumped tab is (fs[j := Some (f\<lparr>of_rc := of_rc f + 1\<rparr>)]) = bumped tab (i # is) fs"
  using assms by (intro nth_equalityI) (auto simp: bumped_def nth_list_update)

lemma file_refs_map:
  "(\<And>j f. of_vn (g j f) = of_vn f) \<Longrightarrow> file_refs (map (\<lambda>(j, x). map_option (g j) x) xs) = file_refs (map snd xs)"
proof (induction xs)
  case (Cons x xs)
  then show ?case by (cases x; cases "snd x") auto
qed simp

lemma bumped_refs: "file_refs (bumped tab is fs) = file_refs fs"
proof -
  let ?g = "\<lambda>j f. f\<lparr>of_rc := of_rc f + int (length (filter (\<lambda>i. tab ! i = int j) is))\<rparr>"
  have "bumped tab is fs = map (\<lambda>(j, x). map_option (?g j) x) (zip [0..<length fs] fs)"
    by (rule nth_equalityI) (simp_all add: bumped_def)
  with file_refs_map [of ?g "zip [0..<length fs] fs"] show ?thesis by simp
qed

lemma fork_refs_eq:
  assumes "of_t s = Some t" "oft_l t = Some None" "fd_t s np = Some tab" "set is \<subseteq> {..<length tab}"
    and "\<And>i. i \<in> set is \<Longrightarrow> tab ! i \<noteq> FILE_CLOSED \<Longrightarrow> 0 \<le> tab ! i \<and> nat (tab ! i) < length (openfiles t) \<and> openfiles t ! nat (tab ! i) \<noteq> None"
  shows "fork_refs np is s = Some (s\<lparr>of_t := Some (t\<lparr>openfiles := bumped tab is (openfiles t)\<rparr>)\<rparr>)"
  using assms
proof (induction "is" arbitrary: s t)
  case Nil
  then show ?case by simp
next
  case (Cons i "is")
  show ?case
  proof (cases "tab ! i = FILE_CLOSED")
    case True
    have "fork_refs np is s = Some (s\<lparr>of_t := Some (t\<lparr>openfiles := bumped tab is (openfiles t)\<rparr>)\<rparr>)"
      using Cons.prems by (intro Cons.IH) auto
    with True Cons.prems(3,4) show ?thesis by (simp add: bumped_closed Let_def)
  next
    case False
    define j where "j = nat (tab ! i)"
    obtain f where f: "tab ! i = int j" "j < length (openfiles t)" "openfiles t ! j = Some f"
      using Cons.prems(5) [of i] False by (auto simp: j_def)
    let ?t = "t\<lparr>openfiles := (openfiles t)[j := Some (f\<lparr>of_rc := of_rc f + 1\<rparr>)]\<rparr>"
    let ?s = "s\<lparr>of_t := Some ?t\<rparr>"
    have "fork_refs np is ?s = Some (?s\<lparr>of_t := Some (?t\<lparr>openfiles := bumped tab is (openfiles ?t)\<rparr>)\<rparr>)"
    proof (rule Cons.IH)
      fix k assume "k \<in> set is" "tab ! k \<noteq> FILE_CLOSED"
      then show "0 \<le> tab ! k \<and> nat (tab ! k) < length (openfiles ?t) \<and> openfiles ?t ! nat (tab ! k) \<noteq> None"
        using Cons.prems(5) [of k] by (cases "nat (tab ! k) = j") auto
    qed (use Cons.prems in auto)
    moreover have "t = \<lparr>oft_l = Some None, openfiles = openfiles t\<rparr>" using Cons.prems(2) by simp
    then obtain fs where "t = \<lparr>oft_l = Some None, openfiles = fs\<rparr>" by blast
    ultimately show ?thesis using f False Cons.prems(1,3,4) bumped_open [OF f, of "is"]
      by (simp add: Let_def oft_acquire_def oft_release_def openfile_def set_openfile_def)
  qed
qed

lemma count_filter: "count_list xs x = length (filter (\<lambda>i. xs ! i = x) [0..<length xs])"
proof (induction xs rule: rev_induct)
  case (snoc y ys)
  have "filter (\<lambda>i. (ys @ [y]) ! i = x) [0..<length ys] = filter (\<lambda>i. ys ! i = x) [0..<length ys]"
    by (rule filter_cong) (auto simp: nth_append)
  with snoc show ?case by simp
qed simp

lemma fork_table_ok:
  assumes "file_idle winv s" "fd_t s (cur s) = Some tab" "fd_t s np = None" "fd_ok"
  shows "\<exists>t. fork_table fd_ok np s = Some (s\<lparr>fd_t := (fd_t s)(np \<mapsto> tab), of_t := Some t\<rparr>) \<and>
    file_idle winv (s\<lparr>fd_t := (fd_t s)(np \<mapsto> tab), of_t := Some t\<rparr>)"
proof -
  obtain t where t: "of_t s = Some t" by (rule file_invE [OF assms(1)])
  note D = file_invD [OF assms(1) t]
  have ok: "tab_ok tab" using D(6) assms(2) by blast
  then have len: "length tab = OPEN_MAX" by (simp add: tab_ok_def)
  let ?s = "s\<lparr>fd_t := (fd_t s)(np \<mapsto> tab)\<rparr>"
  let ?t = "t\<lparr>openfiles := bumped tab [0..<OPEN_MAX] (openfiles t)\<rparr>"
  have "fork_refs np [0..<OPEN_MAX] ?s = Some (?s\<lparr>of_t := Some ?t\<rparr>)"
  proof (rule fork_refs_eq)
    fix i assume i: "i \<in> set [0..<OPEN_MAX]" "tab ! i \<noteq> FILE_CLOSED"
    then have "0 \<le> tab ! i" "nat (tab ! i) < OPEN_MAX" using tab_okD(2) [OF ok, of i] by auto
    moreover have "openfiles t ! nat (tab ! i) \<noteq> None"
      using openfile_inv [OF assms(1,2), of "int i"] i(2) t \<open>i \<in> set _\<close> by fastforce
    ultimately show "0 \<le> tab ! i \<and> nat (tab ! i) < length (openfiles t) \<and> openfiles t ! nat (tab ! i) \<noteq> None" using D(2) by simp
  qed (use t D(1) len in auto)
  then have run: "fork_table fd_ok np s = Some (s\<lparr>fd_t := (fd_t s)(np \<mapsto> tab), of_t := Some ?t\<rparr>)"
    using assms(2,4) by (simp add: fork_table_def)
  have z: "filter (\<lambda>i. tab ! i = int j) [0..<OPEN_MAX] = []" if "fd_refs (fd_t s) j = 0" for j
    using fd_refs_pos [OF D(5) assms(2), of _ j] that len by (auto simp: filter_empty_conv)
  have "slot_ok (fd_refs ((fd_t s)(np \<mapsto> tab)) j) (openfiles ?t ! j)" if "j < OPEN_MAX" for j
    using z [of j] D(3) [OF that] that D(2) fd_refs_new [OF D(5) assms(3), of tab j] count_filter [of tab "int j"] len
    by (cases "openfiles t ! j") (auto simp: bumped_def)
  then have "file_idle winv (s\<lparr>fd_t := (fd_t s)(np \<mapsto> tab), of_t := Some ?t\<rparr>)"
    using D ok by (simp add: file_inv_def bumped_refs) (simp add: bumped_def)
  with run show ?thesis by blast
qed

section \<open>Current directories and address spaces\<close>

lemma vfs_refs_cwd_new:
  assumes "finite (dom (p_cwd w))" "p_cwd w np = None"
  shows "vfs_refs (w\<lparr>p_cwd := (p_cwd w)(np \<mapsto> v)\<rparr>) = add_mset v (vfs_refs w)"
proof -
  have "np \<notin> dom (p_cwd w)" using assms(2) by (simp add: domIff)
  then have "image_mset (\<lambda>p. the (((p_cwd w)(np \<mapsto> v)) p)) (mset_set (dom (p_cwd w))) = image_mset (\<lambda>p. the (p_cwd w p)) (mset_set (dom (p_cwd w)))"
    using assms(1) by (intro image_mset_cong) auto
  with assms \<open>np \<notin> dom (p_cwd w)\<close> show ?thesis by (simp add: vfs_refs_def)
qed

lemma vfs_refs_cwd_drop:
  assumes "finite (dom (p_cwd w))" "p_cwd w p = Some v"
  shows "vfs_refs w = add_mset v (vfs_refs (w\<lparr>p_cwd := (p_cwd w)(p := None)\<rparr>))"
proof -
  let ?w = "w\<lparr>p_cwd := (p_cwd w)(p := None)\<rparr>"
  have "?w\<lparr>p_cwd := (p_cwd ?w)(p \<mapsto> v)\<rparr> = w" using assms(2) by (simp add: fun_upd_idem)
  moreover have "finite (dom (p_cwd ?w))" using assms(1) by simp
  moreover have "p_cwd ?w p = None" by simp
  ultimately show ?thesis using vfs_refs_cwd_new [of ?w p v] by metis
qed

context vnode_layer
begin

lemma file_idle_as: "file_idle winv s \<Longrightarrow> file_idle winv (s\<lparr>fs_w := (fs_w s)\<lparr>p_addrspace := x\<rparr>\<rparr>)"
  by (auto simp: file_inv_def vok_def winv_as holds_def vfs_refs_def big_ok_def)

lemma copy_cwd_ok:
  assumes "file_idle winv s" "p_cwd (fs_w s) np = None"
  shows "\<exists>w. proc_copy_cwd p np (fs_w s) = Some w \<and> file_idle winv (s\<lparr>fs_w := w\<rparr>) \<and> p_cwd w = (p_cwd (fs_w s))(np := p_cwd (fs_w s) p) \<and>
    p_addrspace w = p_addrspace (fs_w s) \<and> k_mach w = k_mach (fs_w s)"
proof (cases "p_cwd (fs_w s) p")
  case None
  then show ?thesis using assms by (simp add: proc_copy_cwd_def fun_upd_idem)
next
  case (Some v)
  obtain t where t: "of_t s = Some t" by (rule file_invE [OF assms(1)])
  note D = file_invD [OF assms(1) t]
  note V = vokD [OF D(4)]
  let ?R = "vfs_refs (fs_w s) + file_refs (openfiles t)"
  have "v \<in># vfs_refs (fs_w s)" by (subst vfs_refs_cwd_drop [OF V(5) Some]) simp
  then have "v \<in># ?R" by simp
  with incref_ok [OF V(1,2)] obtain w where w: "vnode_incref v (fs_w s) = Some w" "keeps winv (add_mset v ?R) (fs_w s) w" by blast
  have m: "k_mach w = k_mach (fs_w s)" using w(1) by (auto simp: vnode_incref_def elim!: bindE)
  have vs: "vfs_same (fs_w s) w" "winv w" "holds (add_mset v ?R) w" using w(2) by (simp_all add: keeps_def)
  let ?w = "w\<lparr>p_cwd := (p_cwd w)(np \<mapsto> v)\<rparr>"
  have cw: "p_cwd w = p_cwd (fs_w s)" "vfs_refs w = vfs_refs (fs_w s)" using vs(1) vfs_same_refs [OF vs(1)] by (simp_all add: vfs_same_def)
  have "vfs_refs ?w = add_mset v (vfs_refs (fs_w s))" using vfs_refs_cwd_new [of w np v] cw V(5) assms(2) by simp
  moreover have "big_ok ?w" using vs(1) V(4) by (simp add: big_ok_def vfs_same_def)
  ultimately have "vok winv (vfs_refs ?w + file_refs (openfiles t)) ?w" using vs winv_vfs(3) cw(1) V(5) by (simp add: vok_def)
  then have "file_idle winv (s\<lparr>fs_w := ?w\<rparr>)" using assms(1) t by (simp add: file_inv_def)
  with w(1) Some cw vs(1) m show ?thesis by (simp add: proc_copy_cwd_def vfs_same_def)
qed

lemma drop_cwd_ok:
  assumes "file_idle winv s"
  shows "\<exists>w. proc_drop_cwd E p (fs_w s) = Some w \<and> file_idle winv (s\<lparr>fs_w := w\<rparr>) \<and> p_cwd w = (p_cwd (fs_w s))(p := None) \<and>
    p_addrspace w = p_addrspace (fs_w s)"
proof (cases "p_cwd (fs_w s) p")
  case None
  then show ?thesis using assms by (simp add: proc_drop_cwd_def fun_upd_idem)
next
  case (Some v)
  obtain t where t: "of_t s = Some t" by (rule file_invE [OF assms(1)])
  note D = file_invD [OF assms(1) t]
  note V = vokD [OF D(4)]
  let ?d = "(fs_w s)\<lparr>p_cwd := (p_cwd (fs_w s))(p := None)\<rparr>"
  let ?R = "vfs_refs ?d + file_refs (openfiles t)"
  have "vfs_refs (fs_w s) + file_refs (openfiles t) = add_mset v ?R" by (subst vfs_refs_cwd_drop [OF V(5) Some]) simp
  then have "holds (add_mset v ?R) (fs_w s)" using V(2) by simp
  with decref_ok [OF V(1)] obtain w where w: "vnode_decref E v (fs_w s) = Some w" "keeps winv ?R (fs_w s) w" by blast
  have vs: "vfs_same (fs_w s) w" "winv w" "holds ?R w" using w(2) by (simp_all add: keeps_def)
  let ?w = "w\<lparr>p_cwd := (p_cwd w)(p := None)\<rparr>"
  have cw: "p_cwd w = p_cwd (fs_w s)" using vs(1) by (simp add: vfs_same_def)
  then have "vfs_refs ?w = vfs_refs ?d" using vs(1) by (simp add: vfs_refs_def vfs_same_def)
  moreover have "big_ok ?w" using vs(1) V(4) by (simp add: big_ok_def vfs_same_def)
  ultimately have "vok winv (vfs_refs ?w + file_refs (openfiles t)) ?w" using vs winv_vfs(3) cw V(5) by (simp add: vok_def)
  then have "file_idle winv (s\<lparr>fs_w := ?w\<rparr>)" using assms(1) t by (simp add: file_inv_def)
  with w(1) Some cw vs(1) show ?thesis by (simp add: proc_drop_cwd_def vfs_same_def)
qed

end

end
