(* ===== verification/Proc_Machine.thy ===== *)
theory Proc_Machine
  imports Proc_Props
begin

text \<open>
  The system as a whole: processors that run threads, the threads of user processes making system calls, and processes forking,
  exiting and waiting for each other. The invariant ties the components together: a thread of a user process finds its descriptors, its
  address space and its entry in the table of process identifiers, and no two processes share an address space or an identifier.
\<close>

section \<open>The invariant\<close>

definition user_pid :: "'f ukern \<Rightarrow> u32 \<Rightarrow> int option" where
  "user_pid st t = (case procs (u_ks st) t of None \<Rightarrow> None | Some p \<Rightarrow> if kproc st = Some p then None else Some (p_pid st p))"

text \<open>A function on threads for the theories that number them by \<open>nat\<close>.\<close>

definition word_map :: "(u32 \<Rightarrow> 'a option) \<Rightarrow> nat \<Rightarrow> 'a option" where
  "word_map f n = (if n < 2 ^ 32 then f (of_nat n) else None)"

lemma word_map_unat [simp]: "word_map f (unat t) = f t"
  using unat_u32_less [of t] by (simp add: word_map_def)

lemma word_map_upd: "word_map (f(u := y)) = (word_map f)(unat u := y)"
proof
  fix n
  have "unat (of_nat n :: u32) = n" if "n < 2 ^ 32" using that by (simp only: unat_of_nat) simp
  then have "of_nat n = u \<longleftrightarrow> n = unat u" if "n < 2 ^ 32" using that by auto
  then show "word_map (f(u := y)) n = ((word_map f)(unat u := y)) n" using unat_u32_less [of u] by (auto simp: word_map_def)
qed

text \<open>The table of process identifiers with the user processes that are alive, \<open>bk\<close> being the waits they are in and \<open>log\<close> their history.\<close>

definition u_pm :: "'f ukern \<Rightarrow> (nat \<Rightarrow> nat option) \<Rightarrow> pid_event list \<Rightarrow> pmach" where
  "u_pm st bk log = \<lparr>ps = u_pids st, live = word_map (user_pid st), blk = bk, plog = log\<rparr>"

definition user_ok :: "'f ukern \<Rightarrow> nat \<Rightarrow> bool" where
  "user_ok st p \<longleftrightarrow> p_numthreads (u_ks st) p = Some 1 \<and> fd_t (u_fs st) p \<noteq> None \<and>
     (\<exists>a as. p_addrspace (u_w st) p = Some a \<and> as_heap (u_vm st) a = Some as \<and> as_loaded as)"

definition unused_proc :: "'f ukern \<Rightarrow> nat \<Rightarrow> bool" where
  "unused_proc st p \<longleftrightarrow> fd_t (u_fs st) p = None \<and> p_cwd (u_w st) p = None \<and> p_addrspace (u_w st) p = None \<and>
     (\<forall>t. procs (u_ks st) t \<noteq> Some p) \<and> kproc st \<noteq> Some p"

definition spaces_ok :: "'f ukern \<Rightarrow> bool" where
  "spaces_ok st \<longleftrightarrow> (\<forall>p a. p_addrspace (u_w st) p = Some a \<longrightarrow> as_heap (u_vm st) a \<noteq> None) \<and>
     (\<forall>p q a. p_addrspace (u_w st) p = Some a \<longrightarrow> p_addrspace (u_w st) q = Some a \<longrightarrow> p = q)"

definition u_inv :: "('f kern \<Rightarrow> bool) \<Rightarrow> cpuid set \<Rightarrow> cpuid set \<Rightarrow> (nat \<Rightarrow> nat option) \<Rightarrow> pid_event list \<Rightarrow> 'f ukern \<Rightarrow> bool" where
  "u_inv winv M K bk log st \<longleftrightarrow>
     mach_inv (M, K, u_ks st) \<and> file_idle winv (u_fs st) \<and> vm_ok (u_vm st) \<and> p_inv (u_pm st bk log) \<and> spaces_ok st \<and>
     (\<forall>p. p_name st p = None \<longrightarrow> unused_proc st p) \<and>
     (\<forall>t p. procs (u_ks st) t = Some p \<longrightarrow> kproc st \<noteq> Some p \<longrightarrow> user_ok st p) \<and> (\<forall>t. user_pid st t \<noteq> Some PID_BOOT)"

lemma u_invD:
  assumes "u_inv winv M K bk log st"
  shows "mach_inv (M, K, u_ks st)" "file_idle winv (u_fs st)" "vm_ok (u_vm st)" "p_inv (u_pm st bk log)" "spaces_ok st"
    "p_name st p = None \<Longrightarrow> unused_proc st p" "procs (u_ks st) t = Some q \<Longrightarrow> kproc st \<noteq> Some q \<Longrightarrow> user_ok st q" "user_pid st t \<noteq> Some PID_BOOT"
  using assms unfolding u_inv_def by blast+

lemma u_pm_simps [simp]:
  "ps (u_pm st bk log) = u_pids st" "blk (u_pm st bk log) = bk" "plog (u_pm st bk log) = log"
  "live (u_pm st bk log) (unat t) = user_pid st t"
  by (simp_all add: u_pm_def)

text \<open>The user process that runs on a processor, and its thread.\<close>

definition runs_user :: "nat \<Rightarrow> u32 \<Rightarrow> nat \<Rightarrow> 'f ukern \<Rightarrow> bool" where
  "runs_user c t p st \<longleftrightarrow> c < length (cpus (u_ks st)) \<and> \<not> c_isidle (cpus (u_ks st) ! c) \<and> Spinlock.curthread c (u_ks st) = Some t \<and>
     procs (u_ks st) t = Some p \<and> kproc st \<noteq> Some p"

lemma runs_userD:
  assumes "runs_user c t p st"
  shows "c < length (cpus (u_ks st))" "\<not> c_isidle (cpus (u_ks st) ! c)" "Spinlock.curthread c (u_ks st) = Some t" "procs (u_ks st) t = Some p"
    "kproc st \<noteq> Some p" "u_curproc c st = Some p" "user_pid st t = Some (p_pid st p)"
  using assms by (auto simp: runs_user_def u_curproc_def procs_def user_pid_def)

text \<open>Updates of the composed state in the order of its fields.\<close>

lemma u_order:
  fixes st :: "'f ukern"
  shows
  "st\<lparr>u_vm := v_u_vm, u_fs := v_u_fs\<rparr> = st\<lparr>u_fs := v_u_fs, u_vm := v_u_vm\<rparr>" "st\<lparr>u_pids := v_u_pids, u_fs := v_u_fs\<rparr> = st\<lparr>u_fs := v_u_fs, u_pids := v_u_pids\<rparr>"
  "st\<lparr>u_pids := v_u_pids, u_vm := v_u_vm\<rparr> = st\<lparr>u_vm := v_u_vm, u_pids := v_u_pids\<rparr>" "st\<lparr>u_ks := v_u_ks, u_fs := v_u_fs\<rparr> = st\<lparr>u_fs := v_u_fs, u_ks := v_u_ks\<rparr>"
  "st\<lparr>u_ks := v_u_ks, u_vm := v_u_vm\<rparr> = st\<lparr>u_vm := v_u_vm, u_ks := v_u_ks\<rparr>" "st\<lparr>u_ks := v_u_ks, u_pids := v_u_pids\<rparr> = st\<lparr>u_pids := v_u_pids, u_ks := v_u_ks\<rparr>"
  "st\<lparr>p_name := v_p_name, u_fs := v_u_fs\<rparr> = st\<lparr>u_fs := v_u_fs, p_name := v_p_name\<rparr>" "st\<lparr>p_name := v_p_name, u_vm := v_u_vm\<rparr> = st\<lparr>u_vm := v_u_vm, p_name := v_p_name\<rparr>"
  "st\<lparr>p_name := v_p_name, u_pids := v_u_pids\<rparr> = st\<lparr>u_pids := v_u_pids, p_name := v_p_name\<rparr>" "st\<lparr>p_name := v_p_name, u_ks := v_u_ks\<rparr> = st\<lparr>u_ks := v_u_ks, p_name := v_p_name\<rparr>"
  "st\<lparr>p_pid := v_p_pid, u_fs := v_u_fs\<rparr> = st\<lparr>u_fs := v_u_fs, p_pid := v_p_pid\<rparr>" "st\<lparr>p_pid := v_p_pid, u_vm := v_u_vm\<rparr> = st\<lparr>u_vm := v_u_vm, p_pid := v_p_pid\<rparr>"
  "st\<lparr>p_pid := v_p_pid, u_pids := v_u_pids\<rparr> = st\<lparr>u_pids := v_u_pids, p_pid := v_p_pid\<rparr>" "st\<lparr>p_pid := v_p_pid, u_ks := v_u_ks\<rparr> = st\<lparr>u_ks := v_u_ks, p_pid := v_p_pid\<rparr>"
  "st\<lparr>p_pid := v_p_pid, p_name := v_p_name\<rparr> = st\<lparr>p_name := v_p_name, p_pid := v_p_pid\<rparr>" "st\<lparr>u_tf := v_u_tf, u_fs := v_u_fs\<rparr> = st\<lparr>u_fs := v_u_fs, u_tf := v_u_tf\<rparr>"
  "st\<lparr>u_tf := v_u_tf, u_vm := v_u_vm\<rparr> = st\<lparr>u_vm := v_u_vm, u_tf := v_u_tf\<rparr>" "st\<lparr>u_tf := v_u_tf, u_pids := v_u_pids\<rparr> = st\<lparr>u_pids := v_u_pids, u_tf := v_u_tf\<rparr>"
  "st\<lparr>u_tf := v_u_tf, u_ks := v_u_ks\<rparr> = st\<lparr>u_ks := v_u_ks, u_tf := v_u_tf\<rparr>" "st\<lparr>u_tf := v_u_tf, p_name := v_p_name\<rparr> = st\<lparr>p_name := v_p_name, u_tf := v_u_tf\<rparr>"
  "st\<lparr>u_tf := v_u_tf, p_pid := v_p_pid\<rparr> = st\<lparr>p_pid := v_p_pid, u_tf := v_u_tf\<rparr>" "st\<lparr>kproc := v_kproc, u_fs := v_u_fs\<rparr> = st\<lparr>u_fs := v_u_fs, kproc := v_kproc\<rparr>"
  "st\<lparr>kproc := v_kproc, u_vm := v_u_vm\<rparr> = st\<lparr>u_vm := v_u_vm, kproc := v_kproc\<rparr>" "st\<lparr>kproc := v_kproc, u_pids := v_u_pids\<rparr> = st\<lparr>u_pids := v_u_pids, kproc := v_kproc\<rparr>"
  "st\<lparr>kproc := v_kproc, u_ks := v_u_ks\<rparr> = st\<lparr>u_ks := v_u_ks, kproc := v_kproc\<rparr>" "st\<lparr>kproc := v_kproc, p_name := v_p_name\<rparr> = st\<lparr>p_name := v_p_name, kproc := v_kproc\<rparr>"
  "st\<lparr>kproc := v_kproc, p_pid := v_p_pid\<rparr> = st\<lparr>p_pid := v_p_pid, kproc := v_kproc\<rparr>" "st\<lparr>kproc := v_kproc, u_tf := v_u_tf\<rparr> = st\<lparr>u_tf := v_u_tf, kproc := v_kproc\<rparr>"
  by simp_all

lemma u_curproc_upd [simp]:
  "u_curproc c (st\<lparr>u_fs := v_u_fs\<rparr>) = u_curproc c st"
  "u_curproc c (st\<lparr>u_vm := v_u_vm\<rparr>) = u_curproc c st"
  "u_curproc c (st\<lparr>u_pids := v_u_pids\<rparr>) = u_curproc c st"
  "u_curproc c (st\<lparr>p_name := v_p_name\<rparr>) = u_curproc c st"
  "u_curproc c (st\<lparr>p_pid := v_p_pid\<rparr>) = u_curproc c st"
  "u_curproc c (st\<lparr>u_tf := v_u_tf\<rparr>) = u_curproc c st"
  "u_curproc c (st\<lparr>kproc := v_kproc\<rparr>) = u_curproc c st"
  by (simp_all add: u_curproc_def)

section \<open>A new process\<close>

lemma plock_pair:
  assumes "sched_inv M K s Q" "c < length (cpus s)"
  shows "\<exists>s1. spinlock_acquire c (PLock p) s = Some s1 \<and> spinlock_release c (PLock p) s1 = Some s"
proof -
  obtain t cs where "spl_at c t cs (card (held s c)) s" by (rule sched_cur [OF assms])
  from lock_bracket [OF this level_invD(6) [OF sched_invD(1) [OF assms(1)]] spl_free_id] show ?thesis by auto
qed

lemma sched_inv_numthreads [simp]: "sched_inv M K (s\<lparr>p_numthreads := x\<rparr>) Q = sched_inv M K s Q"
proof -
  have "sched_inv M K (s\<lparr>p_numthreads := x\<rparr>) Q" if "sched_inv M K s Q" for s :: sched and x
  proof -
    have "level_inv (s\<lparr>p_numthreads := x\<rparr>)" by (rule level_inv_cong [OF sched_invD(1) [OF that]]) (auto simp: option.rel_map intro: rel_option_reflI)
    moreover have "pt (s\<lparr>p_numthreads := x\<rparr>) = pt s" "ci (s\<lparr>p_numthreads := x\<rparr>) = ci s" by (simp_all add: pt_def ci_def fun_eq_iff)
    ultimately show ?thesis using sched_invD(2) [OF that] by (simp add: sched_inv_def)
  qed
  from this [of s x] this [of "s\<lparr>p_numthreads := x\<rparr>" "p_numthreads s"] show ?thesis by auto
qed

context vnode_layer
begin

lemma runprogram_ok:
  assumes inv: "file_idle winv (u_fs st)" "sched_inv M K (u_ks st) Q" "pt_lock (u_pids st) = Some None" "pid_next (u_pids st) \<noteq> -1"
    and run: "c < length (cpus (u_ks st))" "Spinlock.curthread c (u_ks st) = Some t" "u_curproc c st = Some p" "p \<noteq> np"
    and fm: "fm_proc fm = Some np" "fm_name fm" "fm_pid fm = Some a" "fm_cv fm" and un: "unused_proc st np"
  shows "\<exists>w. proc_create_runprogram c fm name st = Some (Some np, st\<lparr>u_ks := (u_ks st)\<lparr>p_numthreads := (p_numthreads (u_ks st))(np \<mapsto> 0)\<rparr>,
        u_fs := (u_fs st)\<lparr>fs_w := w\<rparr>, p_name := (p_name st)(np \<mapsto> name), p_pid := (p_pid st)(np := pid_next (u_pids st)),
        u_pids := (u_pids st)\<lparr>pps := (pps (u_pids st))(a \<mapsto> new_pp (pid_next (u_pids st)) (p_pid st p)),
          pid_table := (pid_table (u_pids st))(pid_next (u_pids st) \<mapsto> a)\<rparr>\<rparr>) \<and>
      file_idle winv ((u_fs st)\<lparr>fs_w := w\<rparr>) \<and> p_cwd w = (p_cwd (u_w st))(np := p_cwd (u_w st) p) \<and> p_addrspace w = p_addrspace (u_w st)"
proof -
  let ?ks = "(u_ks st)\<lparr>p_numthreads := (p_numthreads (u_ks st))(np \<mapsto> 0)\<rparr>"
  have free: "p_addrspace (u_w st) np = None" "p_cwd (u_w st) np = None" using un by (simp_all add: unused_proc_def)
  have lkn: "lk (u_ks st) (PLock np) = None" using level_invD(6) [OF sched_invD(1) [OF inv(2)]] .
  have init: "spinlock_init (PLock np) ?ks = ?ks" using lkn by (simp add: spinlock_init_def fun_upd_idem)
  have w0: "(u_w st)\<lparr>p_addrspace := (p_addrspace (u_w st))(np := None), p_cwd := (p_cwd (u_w st))(np := None)\<rparr> = u_w st"
    "(u_w st)\<lparr>p_addrspace := (p_addrspace (u_w st))(np := None)\<rparr> = u_w st" using free by (simp_all add: fun_upd_idem)
  let ?st = "st\<lparr>p_name := (p_name st)(np \<mapsto> name), u_ks := ?ks\<rparr>"
  have cr: "proc_create (fm_proc fm) (fm_name fm) name st = (Some np, ?st)"
    using fm w0 init by (simp add: proc_create_def on_uw_def)
  have "sched_inv M K ?ks Q" using inv(2) by simp
  from plock_pair [OF this, of c p] run(1) obtain ks1 where lk: "spinlock_acquire c (PLock p) ?ks = Some ks1" "spinlock_release c (PLock p) ks1 = Some ?ks" by auto
  obtain w where w: "proc_copy_cwd p np (u_w st) = Some w" "file_idle winv ((u_fs st)\<lparr>fs_w := w\<rparr>)" "p_cwd w = (p_cwd (u_w st))(np := p_cwd (u_w st) p)"
    "p_addrspace w = p_addrspace (u_w st)" using copy_cwd_ok [OF inv(1) free(2)] by blast
  have cur: "Spinlock.curthread c ?ks = Some t" "u_curproc c ?st = Some p" using run(1-3) by (simp_all add: Spinlock.curthread_def u_curproc_def)
  show ?thesis using cr lk w cur w0(2) pid_create_eq [OF inv(3,4)] fm(3,4)
    by (auto simp: proc_create_runprogram_def on_uw_def u_order)
qed

text \<open>
  What a fork that succeeds gives: \<open>np\<close> is the new process, \<open>u\<close> its thread, \<open>tfa\<close> the copy of the trapframe and \<open>n\<close> the
  new address space.
\<close>

lemma sys_fork_eq:
  assumes inv: "file_idle winv (u_fs st)" "sched_inv M K (u_ks st) Q" "pt_lock (u_pids st) = Some None" "pid_next (u_pids st) \<noteq> -1"
    and run: "c < length (cpus (u_ks st))" "Spinlock.curthread c (u_ks st) = Some t" "u_curproc c st = Some p"
    and un: "unused_proc st np" and tab: "fd_t (u_fs st) p = Some tab" and name: "p_name st p = Some name"
    and as: "p_addrspace (u_w st) p = Some a0" "as_copy (fm_as fm) a0 (u_vm st) = Some (Inr n, vm')"
    and fm: "fm_tf fm = Some tfa" "fm_proc fm = Some np" "fm_name fm" "fm_pid fm = Some a" "fm_cv fm" "fm_fd fm"
      "fm_thread fm = Some u" "fm_tname fm" "fm_stack fm = Some stk" "u \<noteq> 0" "sched.thr (u_ks st) u = None" "4 \<le> length stk"
  shows "\<exists>st' Q'. sys_fork c fm entry tf st = Some (Inr (pid_next (u_pids st)), st') \<and> file_idle winv (u_fs st') \<and> sched_inv M K (u_ks st') Q' \<and>
    Q' = Q(Runqueue c \<mapsto> the (Q (Runqueue c)) @ [u]) \<and>
    u_vm st' = vm' \<and> p_name st' = (p_name st)(np \<mapsto> name) \<and> p_pid st' = (p_pid st)(np := pid_next (u_pids st)) \<and> kproc st' = kproc st \<and>
    u_tf st' = (u_tf st)(tfa \<mapsto> tf) \<and> fd_t (u_fs st') = (fd_t (u_fs st))(np \<mapsto> tab) \<and> p_cwd (u_w st') = (p_cwd (u_w st))(np := p_cwd (u_w st) p) \<and>
    p_addrspace (u_w st') = (p_addrspace (u_w st))(np \<mapsto> n) \<and> cur (u_fs st') = p \<and> File.thr (u_fs st') = unat t \<and>
    u_pids st' = (u_pids st)\<lparr>pps := (pps (u_pids st))(a \<mapsto> new_pp (pid_next (u_pids st)) (p_pid st p)),
          pid_table := (pid_table (u_pids st))(pid_next (u_pids st) \<mapsto> a)\<rparr> \<and>
    sched.thr (u_ks st') = (sched.thr (u_ks st))(u \<mapsto> forked_thread ''new forked process'' stk c np (entry, tfa, 0)) \<and>
    p_numthreads (u_ks st') = (p_numthreads (u_ks st))(np \<mapsto> 1) \<and> ci (u_ks st') = ci (u_ks st) \<and> lk (u_ks st') = lk (u_ks st) \<and> wch (u_ks st') = wch (u_ks st)"
proof -
  have pn: "p \<noteq> np" using un run(2,3) by (auto simp: unused_proc_def u_curproc_def procs_def)
  let ?st1 = "st\<lparr>u_tf := (u_tf st)(tfa \<mapsto> tf), u_vm := vm'\<rparr>"
  have st1: "file_idle winv (u_fs ?st1)" "sched_inv M K (u_ks ?st1) Q" "pt_lock (u_pids ?st1) = Some None" "pid_next (u_pids ?st1) \<noteq> -1"
    "c < length (cpus (u_ks ?st1))" "Spinlock.curthread c (u_ks ?st1) = Some t" "u_curproc c ?st1 = Some p" "unused_proc ?st1 np"
    using inv run un by (simp_all add: u_curproc_def unused_proc_def)
  from runprogram_ok [OF st1(1-7) pn fm(2-5) st1(8), of name] obtain w where
    rp: "proc_create_runprogram c fm name ?st1 = Some (Some np, ?st1\<lparr>u_ks := (u_ks st)\<lparr>p_numthreads := (p_numthreads (u_ks st))(np \<mapsto> 0)\<rparr>,
        u_fs := (u_fs st)\<lparr>fs_w := w\<rparr>, p_name := (p_name st)(np \<mapsto> name), p_pid := (p_pid st)(np := pid_next (u_pids st)),
        u_pids := (u_pids st)\<lparr>pps := (pps (u_pids st))(a \<mapsto> new_pp (pid_next (u_pids st)) (p_pid st p)),
          pid_table := (pid_table (u_pids st))(pid_next (u_pids st) \<mapsto> a)\<rparr>\<rparr>)" (is "_ = Some (Some np, ?st2)")
    and w: "file_idle winv ((u_fs st)\<lparr>fs_w := w\<rparr>)" "p_cwd w = (p_cwd (u_w st))(np := p_cwd (u_w st) p)" "p_addrspace w = p_addrspace (u_w st)"
    by auto
  let ?fs = "switch_to p (unat t) ((u_fs st)\<lparr>fs_w := w\<rparr>)"
  have ur: "u_run c ?st2 = Some ?fs" using run by (simp add: u_run_def u_curproc_def Spinlock.curthread_def)
  have fs: "file_idle winv ?fs" "fd_t ?fs (cur ?fs) = Some tab" "fd_t ?fs np = None"
    using file_inv_switch [OF w(1), of p "unat t"] tab un by (simp_all add: switch_to_def unused_proc_def)
  from fork_table_ok [OF fs fm(6)] obtain ft where ft: "fork_table (fm_fd fm) np ?fs = Some (?fs\<lparr>fd_t := (fd_t ?fs)(np \<mapsto> tab), of_t := Some ft\<rparr>)"
    "file_idle winv (?fs\<lparr>fd_t := (fd_t ?fs)(np \<mapsto> tab), of_t := Some ft\<rparr>)" by blast
  let ?fs3 = "?fs\<lparr>fd_t := (fd_t ?fs)(np \<mapsto> tab), of_t := Some ft\<rparr>"
  let ?fs4 = "?fs3\<lparr>fs_w := (fs_w ?fs3)\<lparr>p_addrspace := (p_addrspace (fs_w ?fs3))(np \<mapsto> n)\<rparr>\<rparr>"
  have f4: "file_idle winv ?fs4" by (rule file_idle_as [OF ft(2)])
  let ?ks = "(u_ks st)\<lparr>p_numthreads := (p_numthreads (u_ks st))(np \<mapsto> 0)\<rparr>"
  obtain cth where cth: "sched.thr (u_ks st) t = Some cth" using run(2,3) by (auto simp: u_curproc_def elim!: bindE)
  obtain rq where rq: "Q (Runqueue c) = Some rq" by (rule sched_queue [OF inv(2) run(1)])
  have "sched_inv M K ?ks Q" "c < length (cpus ?ks)" "sched.thr ?ks u = None" "Spinlock.curthread c ?ks = Some t" "sched.thr ?ks t = Some cth" "p_numthreads ?ks np = Some 0"
    using inv(2) run(1,2) fm(11) cth by (simp_all add: Spinlock.curthread_def)
  from fork_ok [OF this(1,2) fm(10) this(3) fm(12) this(4,5) _ this(6) rq, of "Some np" "''new forked process''" "(entry, tfa, 0)"]
  obtain ks where ks: "thread_fork c (Some u) True (Some stk) ''new forked process'' (Some np) (entry, tfa, 0) ?ks = Some (Inr u, ks)"
    "sched_inv M K ks (Q(Runqueue c \<mapsto> rq @ [u]))" "sched.thr ks = (sched.thr (u_ks st))(u \<mapsto> forked_thread ''new forked process'' stk c np (entry, tfa, 0))"
    "p_numthreads ks = (p_numthreads (u_ks st))(np \<mapsto> 1)" "ci ks = ci ?ks" "lk ks = lk (u_ks st)" "wch ks = wch (u_ks st)" by auto
  have "ci ?ks = ci (u_ks st)" by (simp add: ci_def)
  show ?thesis
    unfolding sys_fork_def using fm as name run(3)
    by (simp add: Let_def rp ur ft(1) ks(1) on_uw_def) (use f4 w ks rq ft(1) \<open>ci ?ks = ci (u_ks st)\<close> in \<open>simp add: switch_to_def\<close>)
qed

end

section \<open>Fork keeps the invariant\<close>

text \<open>What the allocator promises of the memory of a fork, and that an identifier is free.\<close>

definition fork_mem_ok :: "fork_mem \<Rightarrow> 'f ukern \<Rightarrow> bool" where
  "fork_mem_ok fm st \<longleftrightarrow>
     (case fm_proc fm of None \<Rightarrow> True | Some np \<Rightarrow> p_name st np = None) \<and>
     (case fm_pid fm of None \<Rightarrow> False | Some a \<Rightarrow> pps (u_pids st) a = None) \<and> fm_cv fm \<and> fm_fd fm \<and>
     (case fm_thread fm of None \<Rightarrow> False | Some u \<Rightarrow> u \<noteq> 0 \<and> sched.thr (u_ks st) u = None) \<and> fm_tname fm \<and>
     (case fm_stack fm of None \<Rightarrow> False | Some stk \<Rightarrow> 4 \<le> length stk) \<and> pid_next (u_pids st) \<noteq> -1"

text \<open>There is memory for the trapframe, the address space and the process of the child.\<close>

definition fork_fits :: "fork_mem \<Rightarrow> nat \<Rightarrow> 'f ukern \<Rightarrow> bool" where
  "fork_fits fm p st \<longleftrightarrow> fm_tf fm \<noteq> None \<and> fm_as fm \<and> fm_proc fm \<noteq> None \<and> fm_name fm \<and>
     (case do { a \<leftarrow> p_addrspace (u_w st) p; as_heap (u_vm st) a } of
        None \<Rightarrow> False
      | Some os \<Rightarrow> unat (firstpaddr (u_vm st)) + as_size os 0 + as_size os 1 + as_size os 2 \<le> unat (lastpaddr (u_vm st)))"

text \<open>
  \<open>st'\<close> is \<open>st\<close> with a child of process \<open>p\<close>: the new process has the identifier \<open>pid\<close>, the descriptors and the working directory of \<open>p\<close> and
  an address space with the same pages; its thread starts at \<open>entry\<close> with the address of a copy of the trapframe \<open>tf\<close>.
\<close>

definition fork_result :: "nat \<Rightarrow> fork_mem \<Rightarrow> nat \<Rightarrow> u32 \<Rightarrow> trapframe \<Rightarrow> int \<Rightarrow> 'f ukern \<Rightarrow> 'f ukern \<Rightarrow> bool" where
  "fork_result c fm p entry tf pid st st' \<longleftrightarrow>
     (\<exists>np u stk tfa x a0 os n. fm_proc fm = Some np \<and> fm_thread fm = Some u \<and> fm_stack fm = Some stk \<and> fm_tf fm = Some tfa \<and>
     p_pid st' = (p_pid st)(np := pid) \<and> kproc st' = kproc st \<and> u_tf st' = (u_tf st)(tfa \<mapsto> tf) \<and>
     fd_t (u_fs st') = (fd_t (u_fs st))(np := fd_t (u_fs st) p) \<and> p_cwd (u_w st') = (p_cwd (u_w st))(np := p_cwd (u_w st) p) \<and>
     p_addrspace (u_w st') = (p_addrspace (u_w st))(np \<mapsto> x) \<and> p_addrspace (u_w st) p = Some a0 \<and> as_heap (u_vm st) a0 = Some os \<and>
     as_heap (u_vm st') = (as_heap (u_vm st))(x \<mapsto> n) \<and> as_same_pages os n (ram (u_vm st)) (ram (u_vm st')) \<and>
     sched.thr (u_ks st') = (sched.thr (u_ks st))(u \<mapsto> forked_thread ''new forked process'' stk c np (entry, tfa, 0)))"

lemma user_pid_cong: "procs (u_ks st') = procs (u_ks st) \<Longrightarrow> p_pid st' = p_pid st \<Longrightarrow> kproc st' = kproc st \<Longrightarrow> user_pid st' = user_pid st"
  by (rule ext) (simp add: user_pid_def split: option.split)

lemma u_pm_cong:
  assumes "u_pids st' = u_pids st" "procs (u_ks st') = procs (u_ks st)" "p_pid st' = p_pid st" "kproc st' = kproc st"
  shows "u_pm st' bk log = u_pm st bk log"
  using assms(1) user_pid_cong [OF assms(2-4)] by (simp add: u_pm_def)

lemma u_inv_vm:
  assumes "u_inv winv M K bk log st" "vm_ok vm'" "\<And>b bs. as_heap (u_vm st) b = Some bs \<Longrightarrow> as_heap vm' b = Some bs"
  shows "u_inv winv M K bk log (st\<lparr>u_tf := x, u_vm := vm'\<rparr>)"
proof -
  note D = u_invD [OF assms(1)]
  let ?st = "st\<lparr>u_tf := x, u_vm := vm'\<rparr>"
  have pm: "u_pm ?st bk log = u_pm st bk log" by (rule u_pm_cong) simp_all
  have un: "unused_proc ?st p = unused_proc st p" for p by (simp add: unused_proc_def)
  have "spaces_ok ?st" using D(5) assms(3) unfolding spaces_ok_def by fastforce
  moreover have "user_ok ?st p" if "user_ok st p" for p using that assms(3) by (fastforce simp: user_ok_def)
  moreover have "user_pid ?st = user_pid st" by (rule user_pid_cong) simp_all
  ultimately show ?thesis using D(1-4,6-8) assms(2) unfolding u_inv_def pm un by auto
qed

context vnode_layer
begin

lemma fork_success_inv:
  assumes inv: "u_inv winv M K bk log st" and run: "runs_user c t p st" "bk (unat t) = None" and fm: "fork_mem_ok fm st"
    and some: "fm_tf fm = Some tfa" "fm_proc fm = Some np" "fm_name fm" "fm_thread fm = Some u" "fm_stack fm = Some stk"
    and as: "p_addrspace (u_w st) p = Some a0" "as_heap (u_vm st) a0 = Some os"
    and cp: "as_copy (fm_as fm) a0 (u_vm st) = Some (Inr x, vm')" "vm_ok vm'" "as_heap (u_vm st) x = None" "as_heap vm' = (as_heap (u_vm st))(x \<mapsto> n)" "as_loaded n"
  shows "\<exists>st'. sys_fork c fm entry tf st = Some (Inr (pid_next (u_pids st)), st') \<and>
    u_inv winv M K bk (Forked (p_pid st p) (pid_next (u_pids st)) # log) st' \<and> u_vm st' = vm' \<and> u_tf st' = (u_tf st)(tfa \<mapsto> tf) \<and>
    kproc st' = kproc st \<and> p_pid st' = (p_pid st)(np := pid_next (u_pids st)) \<and> fd_t (u_fs st') = (fd_t (u_fs st))(np := fd_t (u_fs st) p) \<and>
    p_cwd (u_w st') = (p_cwd (u_w st))(np := p_cwd (u_w st) p) \<and> p_addrspace (u_w st') = (p_addrspace (u_w st))(np \<mapsto> x) \<and>
    sched.thr (u_ks st') = (sched.thr (u_ks st))(u \<mapsto> forked_thread ''new forked process'' stk c np (entry, tfa, 0))"
proof -
  note D = u_invD [OF inv] and R = runs_userD [OF run(1)]
  note P = p_invD [OF D(4)]
  obtain Q where Q: "sched_inv M K (u_ks st) Q" using D(1) by auto
  have uok: "user_ok st p" using D(7) [OF R(4,5)] .
  obtain a where fa: "fm_pid fm = Some a" "pps (u_pids st) a = None" "fm_cv fm" "fm_fd fm" "u \<noteq> 0" "sched.thr (u_ks st) u = None" "fm_tname fm" "4 \<le> length stk"
    "pid_next (u_pids st) \<noteq> -1" "p_name st np = None" using fm some by (auto simp: fork_mem_ok_def split: option.splits)
  have un: "unused_proc st np" using D(6) [OF fa(10)] .
  obtain name where name: "p_name st p = Some name" using D(6) [of p] R(4) by (cases "p_name st p") (auto simp: unused_proc_def)
  obtain tab where tab: "fd_t (u_fs st) p = Some tab" using uok by (auto simp: user_ok_def)
  have lock: "pt_lock (u_pids st) = Some None" using P(1) by simp
  from sys_fork_eq [OF D(2) Q lock fa(9) R(1,3,6) un tab name as(1) cp(1) some(1-3) fa(1,3,4) some(4) fa(7) some(5) fa(5,6,8), of entry tf]
  obtain st' Q' where st': "sys_fork c fm entry tf st = Some (Inr (pid_next (u_pids st)), st')" "file_idle winv (u_fs st')" "sched_inv M K (u_ks st') Q'"
    "u_vm st' = vm'" "p_name st' = (p_name st)(np \<mapsto> name)" "p_pid st' = (p_pid st)(np := pid_next (u_pids st))" "kproc st' = kproc st"
    "u_tf st' = (u_tf st)(tfa \<mapsto> tf)" "fd_t (u_fs st') = (fd_t (u_fs st))(np \<mapsto> tab)" "p_cwd (u_w st') = (p_cwd (u_w st))(np := p_cwd (u_w st) p)"
    "p_addrspace (u_w st') = (p_addrspace (u_w st))(np \<mapsto> x)"
    "u_pids st' = (u_pids st)\<lparr>pps := (pps (u_pids st))(a \<mapsto> new_pp (pid_next (u_pids st)) (p_pid st p)), pid_table := (pid_table (u_pids st))(pid_next (u_pids st) \<mapsto> a)\<rparr>"
    "sched.thr (u_ks st') = (sched.thr (u_ks st))(u \<mapsto> forked_thread ''new forked process'' stk c np (entry, tfa, 0))"
    "p_numthreads (u_ks st') = (p_numthreads (u_ks st))(np \<mapsto> 1)" by blast
  have pr: "procs (u_ks st') = (procs (u_ks st))(u \<mapsto> np)" using st'(13) by (auto simp: procs_def forked_thread_def)
  have nop: "procs (u_ks st) v \<noteq> Some np" for v using un by (simp add: unused_proc_def)
  have nk: "kproc st \<noteq> Some np" using un by (simp add: unused_proc_def)
  have nu: "procs (u_ks st) u = None" using fa(6) by (simp add: procs_def)
  let ?log = "Forked (p_pid st p) (pid_next (u_pids st)) # log"
  have up: "user_pid st' = (user_pid st)(u \<mapsto> pid_next (u_pids st))"
  proof
    fix v
    show "user_pid st' v = ((user_pid st)(u \<mapsto> pid_next (u_pids st))) v"
      using pr st'(6,7) nop [of v] nk by (auto simp: user_pid_def split: option.split)
  qed
  let ?m = "u_pm st bk log"
  have may: "pid_may (AFork (unat t) (unat u) a) ?m" using R(7) run(2) fa(2,9) nu by (simp add: user_pid_def)
  have "pid_do (AFork (unat t) (unat u) a) ?m = Some (u_pm st' bk ?log)"
    using R(7) pid_create_eq [OF lock fa(9)] st'(12) by (simp add: u_pm_def up word_map_upd)
  with fork_keeps [OF D(4) may] have pinv: "p_inv (u_pm st' bk ?log)" by auto
  have nx: "p_addrspace (u_w st) q \<noteq> Some x" for q using D(5) cp(3) by (fastforce simp: spaces_ok_def)
  then have sp: "spaces_ok st'" using D(5) cp(4) st'(4,11) unfolding spaces_ok_def by (auto split: if_splits)
  have unused: "unused_proc st' q" if "p_name st' q = None" for q
    using D(6) [of q] that st'(5,7,9-11) pr by (auto simp: unused_proc_def split: if_splits)
  have "user_ok st' q" if "procs (u_ks st') v = Some q" "kproc st' \<noteq> Some q" for v q
  proof (cases "q = np")
    case True
    then show ?thesis using st'(4,9,11,14) cp(4,5) by (simp add: user_ok_def)
  next
    case False
    then have "user_ok st q" using D(7) [of v q] that pr st'(7) by (auto split: if_splits)
    then show ?thesis using False st'(4,9,11,14) cp(3,4) by (auto simp: user_ok_def)
  qed
  moreover have "pid_next (u_pids st) \<noteq> PID_BOOT" using pid_next_free(1) [OF fa(9)] by (simp add: PID_MIN_def PID_BOOT_def)
  ultimately have "u_inv winv M K bk ?log st'" using st'(2-4) cp(2) pinv sp unused D(8) up by (auto simp: u_inv_def)
  with st' tab show ?thesis by auto
qed

text \<open>A fork always returns; without enough memory the caller gets ENOMEM and its world is as before.\<close>

lemma sys_fork_inv:
  assumes inv: "u_inv winv M K bk log st" and run: "runs_user c t p st" "bk (unat t) = None" and fm: "fork_mem_ok fm st"
  shows "\<exists>r st'. sys_fork c fm entry tf st = Some (r, st') \<and>
    u_inv winv M K bk (case r of Inl _ \<Rightarrow> log | Inr pid \<Rightarrow> Forked (p_pid st p) pid # log) st' \<and> isl r = (\<not> fork_fits fm p st) \<and>
    (case r of
       Inl e \<Rightarrow> e = ENOMEM \<and> u_fs st' = u_fs st \<and> u_ks st' = u_ks st \<and> u_pids st' = u_pids st \<and> p_name st' = p_name st
     | Inr pid \<Rightarrow> pid = pid_next (u_pids st) \<and>
         fork_result c fm p entry tf pid st st')"
proof (cases "fm_tf fm")
  case None
  then show ?thesis using inv by (simp add: sys_fork_def fork_fits_def)
next
  case (Some tfa)
  note D = u_invD [OF inv] and R = runs_userD [OF run(1)]
  obtain a0 os where as: "p_addrspace (u_w st) p = Some a0" "as_heap (u_vm st) a0 = Some os" "as_loaded os"
    using D(7) [OF R(4,5)] by (auto simp: user_ok_def)
  obtain u stk where us: "fm_thread fm = Some u" "fm_stack fm = Some stk" using fm by (auto simp: fork_mem_ok_def split: option.splits)
  obtain name where name: "p_name st p = Some name" using D(6) [of p] R(4) by (cases "p_name st p") (auto simp: unused_proc_def)
  let ?fit = "fm_as fm \<and> unat (firstpaddr (u_vm st)) + as_size os 0 + as_size os 1 + as_size os 2 \<le> unat (lastpaddr (u_vm st))"
  have ff: "fork_fits fm p st = (fm_proc fm \<noteq> None \<and> fm_name fm \<and> ?fit)" using Some as(1,2) by (auto simp: fork_fits_def)
  consider (nomem) vm' where "\<not> ?fit" "as_copy (fm_as fm) a0 (u_vm st) = Some (Inl ENOMEM, vm')" "vm_ok vm'" "\<And>b bs. as_heap (u_vm st) b = Some bs \<Longrightarrow> as_heap vm' b = Some bs"
    | (copied) n vm' where "?fit" "as_copy (fm_as fm) a0 (u_vm st) = Some (Inr (as_next (u_vm st)), vm')" "vm_ok vm'" "as_heap (u_vm st) (as_next (u_vm st)) = None"
      "as_heap vm' = (as_heap (u_vm st))(as_next (u_vm st) \<mapsto> n)" "as_loaded n" "as_same_pages os n (ram (u_vm st)) (ram vm')"
    using as_copy_pages [OF D(3) as(2,3), of "fm_as fm"] by (auto split: if_splits)
  then show ?thesis
  proof cases
    case nomem
    then show ?thesis using Some as(1) R(6) ff u_inv_vm [OF inv nomem(3,4), of "(u_tf st)(tfa \<mapsto> tf)"] by (simp add: sys_fork_def Let_def)
  next
    case copied
    have hp: "as_heap vm' b = Some bs" if "as_heap (u_vm st) b = Some bs" for b bs using that copied(4,5) by auto
    show ?thesis
    proof (cases "fm_proc fm = None \<or> \<not> fm_name fm")
      case True
      then have "proc_create_runprogram c fm name (st\<lparr>u_tf := (u_tf st)(tfa \<mapsto> tf), u_vm := vm'\<rparr>) = Some (None, st\<lparr>u_tf := (u_tf st)(tfa \<mapsto> tf), u_vm := vm'\<rparr>)"
        by (auto simp: proc_create_runprogram_def proc_create_def split: option.split)
      then show ?thesis using Some as(1) R(6) name True ff copied(2) u_inv_vm [OF inv copied(3) hp, of "(u_tf st)(tfa \<mapsto> tf)"] by (auto simp: sys_fork_def)
    next
      case False
      then obtain np where np: "fm_proc fm = Some np" "fm_name fm" by auto
      from fork_success_inv [OF inv run fm Some np us as(1,2) copied(2-6), of entry tf] copied(1,5,7) np us Some as(1,2) ff
      show ?thesis by (fastforce simp: fork_result_def)
    qed
  qed
qed

end

section \<open>Exit keeps the invariant\<close>

lemma file_idle_drop_table:
  assumes "file_idle winv s" "fd_t s p = Some tab" "set tab \<subseteq> {FILE_CLOSED}"
  shows "file_idle winv (s\<lparr>fd_t := (fd_t s)(p := None)\<rparr>)"
proof -
  obtain t where t: "of_t s = Some t" by (rule file_invE [OF assms(1)])
  note D = file_invD [OF assms(1) t]
  have "int j \<notin> set tab" for j using assms(3) by (auto simp: FILE_CLOSED_def)
  then have "count_list tab (int j) = 0" for j by (simp add: count_list_0_iff)
  moreover have "((fd_t s)(p := None))(p \<mapsto> tab) = fd_t s" using assms(2) by auto
  moreover have "finite (dom ((fd_t s)(p := None)))" using D(5) by simp
  ultimately have "fd_refs (fd_t s) j = fd_refs ((fd_t s)(p := None)) j" for j using fd_refs_new [of "(fd_t s)(p := None)" p tab j] by simp
  with D t show ?thesis by (simp add: file_inv_def)
qed

lemma same_user:
  assumes "u_inv winv M K bk log st" "procs (u_ks st) t = Some p" "procs (u_ks st) v = Some p" "kproc st \<noteq> Some p"
  shows "v = t"
proof -
  have "live (u_pm st bk log) (unat v) = Some (p_pid st p)" "live (u_pm st bk log) (unat t) = Some (p_pid st p)" using assms(2-4) by (simp_all add: user_pid_def)
  then have "unat v = unat t" using p_invD(11) [OF u_invD(4) [OF assms(1)]] by blast
  then show ?thesis by (simp add: word_unat_eq_iff)
qed

context vnode_layer
begin

lemma proc_destroy_ok:
  assumes "file_idle winv (u_fs st)" "fd_t (u_fs st) p = Some tab" "set tab \<subseteq> {FILE_CLOSED}" "kproc st \<noteq> Some p" "u_curproc c st \<noteq> Some p"
    and "p_addrspace (u_w st) p = Some a" "p_numthreads (u_ks st) p = Some 0" "lk (u_ks st) (PLock p) = None"
  shows "\<exists>st'. proc_destroy E c p st = Some st' \<and> file_idle winv (u_fs st') \<and> u_vm st' = as_destroy a (u_vm st) \<and> u_pids st' = u_pids st \<and>
    u_ks st' = (u_ks st)\<lparr>p_numthreads := (p_numthreads (u_ks st))(p := None)\<rparr> \<and> p_name st' = (p_name st)(p := None) \<and> p_pid st' = p_pid st \<and>
    kproc st' = kproc st \<and> fd_t (u_fs st') = (fd_t (u_fs st))(p := None) \<and> p_cwd (u_w st') = (p_cwd (u_w st))(p := None) \<and>
    p_addrspace (u_w st') = (p_addrspace (u_w st))(p := None) \<and> u_tf st' = u_tf st"
proof -
  obtain w where w: "proc_drop_cwd E p (u_w st) = Some w" "file_idle winv ((u_fs st)\<lparr>fs_w := w\<rparr>)" "p_cwd w = (p_cwd (u_w st))(p := None)"
    "p_addrspace w = p_addrspace (u_w st)" using drop_cwd_ok [OF assms(1)] by blast
  let ?fs = "(u_fs st)\<lparr>fs_w := w\<lparr>p_addrspace := (p_addrspace w)(p := None)\<rparr>\<rparr>"
  have "file_idle winv ?fs" using file_idle_as [OF w(2), of "(p_addrspace w)(p := None)"] by simp
  with file_idle_drop_table [of winv ?fs p tab] assms(2,3) have "file_idle winv (?fs\<lparr>fd_t := (fd_t ?fs)(p := None)\<rparr>)" by simp
  then show ?thesis using assms(4-8) w
    by (simp add: proc_destroy_def proc_drop_as_def proc_free_def on_uw_def spinlock_cleanup_def)
qed

lemma exit_files:
  assumes "file_idle winv (u_fs st)" "fd_t (u_fs st) p = Some tab"
  shows "\<exists>fs tab'. file_table_destroy E oob (switch_to p t (u_fs st)) = Some fs \<and> file_idle winv fs \<and> fd_t fs = (fd_t (u_fs st))(p \<mapsto> tab') \<and>
    set tab' \<subseteq> {FILE_CLOSED} \<and> p_cwd (fs_w fs) = p_cwd (u_w st) \<and> p_addrspace (fs_w fs) = p_addrspace (u_w st)"
proof -
  let ?fs = "switch_to p t (u_fs st)"
  have fs: "file_idle winv ?fs" "fd_t ?fs (cur ?fs) = Some tab" "cur ?fs = p" "fd_t ?fs = fd_t (u_fs st)"
    "p_cwd (fs_w ?fs) = p_cwd (u_w st)" "p_addrspace (fs_w ?fs) = p_addrspace (u_w st)"
    using file_inv_switch [OF assms(1), of p t] assms(2) by (simp_all add: switch_to_def)
  define tab' where "tab' = map (\<lambda>k. if k \<in> set [0..<PID_MAX] then FILE_CLOSED else tab ! k) [0..<OPEN_MAX]"
  have "set tab' \<subseteq> {FILE_CLOSED}" by (auto simp: tab'_def OPEN_MAX_def PID_MAX_def)
  moreover obtain fs1 where "file_table_destroy E oob ?fs = Some fs1" "file_idle winv fs1" "vfs_same (fs_w ?fs) (fs_w fs1)" "fd_t fs1 = (fd_t (u_fs st))(p \<mapsto> tab')"
    using table_destroy_loop_inv [OF fs(1,2), of oob "[0..<PID_MAX]"] unfolding tab'_def [symmetric] file_table_destroy_def fs(3,4) by blast
  ultimately show ?thesis using fs(5,6) by (auto simp: vfs_same_def)
qed

lemma sys_exit_eq:
  assumes inv: "u_inv winv M K bk log st" and run: "runs_user c t p st" "c_spinlocks (cpus (u_ks st) ! c) = 0"
    and pds: "pid_exit_table (unat t) (p_pid st p) status (u_pids st) = Some pds" and a: "p_addrspace (u_w st) p = Some a"
  shows "\<exists>st'. sys__exit E oob c status st = Some st' \<and> mach_inv (M, K, u_ks st') \<and> file_idle winv (u_fs st') \<and> u_vm st' = as_destroy a (u_vm st) \<and>
    u_pids st' = pds \<and> p_name st' = (p_name st)(p := None) \<and> p_pid st' = p_pid st \<and> kproc st' = kproc st \<and>
    fd_t (u_fs st') = (fd_t (u_fs st))(p := None) \<and> p_cwd (u_w st') = (p_cwd (u_w st))(p := None) \<and> p_addrspace (u_w st') = (p_addrspace (u_w st))(p := None) \<and>
    procs (u_ks st') = (procs (u_ks st))(t := None) \<and> p_numthreads (u_ks st') = (p_numthreads (u_ks st))(p := None)"
proof -
  note D = u_invD [OF inv] and R = runs_userD [OF run(1)]
  obtain Q where Q: "sched_inv M K (u_ks st) Q" using D(1) by auto
  obtain tab where uok: "p_numthreads (u_ks st) p = Some (Suc 0)" "fd_t (u_fs st) p = Some tab" using D(7) [OF R(4,5)] by (auto simp: user_ok_def)
  have ur: "u_run c st = Some (switch_to p (unat t) (u_fs st))" using R(3,6) by (simp add: u_run_def)
  obtain fs1 tab1 where fs1: "file_table_destroy E oob (switch_to p (unat t) (u_fs st)) = Some fs1" "file_idle winv fs1" "fd_t fs1 = (fd_t (u_fs st))(p \<mapsto> tab1)"
    "set tab1 \<subseteq> {FILE_CLOSED}" "p_cwd (fs_w fs1) = p_cwd (u_w st)" "p_addrspace (fs_w fs1) = p_addrspace (u_w st)"
    using exit_files [OF D(2) uok(2)] by blast
  obtain th where th: "sched.thr (u_ks st) t = Some th" "t_proc th = Some p" using R(4) by (auto simp: procs_def elim!: bindE)
  obtain ks1 where ks1: "proc_remthread c t (u_ks st) = Some ks1" "sched_inv M K ks1 Q" "sched.thr ks1 = (sched.thr (u_ks st))(t \<mapsto> th\<lparr>t_proc := None\<rparr>)"
    "p_numthreads ks1 = (p_numthreads (u_ks st))(p \<mapsto> 0)" "cpus ks1 = cpus (u_ks st)"
    using remthread_ok [OF Q R(1,2,3) th uok(1)] by blast
  have cur1: "Spinlock.curthread c ks1 = Some t" using ks1(5) R(1,3) by (simp add: Spinlock.curthread_def)
  let ?st1 = "st\<lparr>u_pids := pds, u_fs := fs1, u_ks := ks1\<rparr>"
  have pd: "file_idle winv (u_fs ?st1)" "fd_t (u_fs ?st1) p = Some tab1" "kproc ?st1 \<noteq> Some p" "u_curproc c ?st1 \<noteq> Some p"
    "p_addrspace (u_w ?st1) p = Some a" "p_numthreads (u_ks ?st1) p = Some 0" "lk (u_ks ?st1) (PLock p) = None"
    using fs1(2,3,6) R(5) a ks1(3,4) cur1 level_invD(6) [OF sched_invD(1) [OF ks1(2)]] by (simp_all add: u_curproc_def)
  from proc_destroy_ok [OF pd(1,2) fs1(4) pd(3-7)] obtain st2 where st2: "proc_destroy E c p ?st1 = Some st2" "file_idle winv (u_fs st2)" "u_vm st2 = as_destroy a (u_vm st)"
    "u_pids st2 = pds" "u_ks st2 = ks1\<lparr>p_numthreads := (p_numthreads ks1)(p := None)\<rparr>" "p_name st2 = (p_name st)(p := None)" "p_pid st2 = p_pid st"
    "kproc st2 = kproc st" "fd_t (u_fs st2) = (fd_t (u_fs st))(p := None)" "p_cwd (u_w st2) = (p_cwd (u_w st))(p := None)"
    "p_addrspace (u_w st2) = (p_addrspace (u_w st))(p := None)" using fs1(3,5,6) by auto
  have s2: "sched_inv M K (u_ks st2) Q" "c < length (cpus (u_ks st2))" "\<not> c_isidle (cpus (u_ks st2) ! c)" "Spinlock.curthread c (u_ks st2) = Some t"
    "sched.thr (u_ks st2) t = Some (th\<lparr>t_proc := None\<rparr>)" "c_spinlocks (cpus (u_ks st2) ! c) = 0"
    using st2(5) ks1(2,3,5) R(1,2) run(2) cur1 by (simp_all add: Spinlock.curthread_def)
  from exit_ok [OF s2(1,2) held_none [OF s2(1,2,6)] s2(3-5)] obtain ks3 Q3 where ks3: "thread_exit c (u_ks st2) = Some ks3" "sched_inv M K ks3 Q3" by auto
  have "procs ks3 = (procs (u_ks st))(t := None)" "p_numthreads ks3 = (p_numthreads (u_ks st))(p := None)"
    using thread_exit_procs [OF ks3(1)] st2(5) ks1(3,4) by (auto simp: procs_def fun_eq_iff)
  moreover have "sys__exit E oob c status st = Some (st2\<lparr>u_ks := ks3\<rparr>)"
    using R(3,6) pds ur fs1(1) ks1(1) st2(1) ks3(1) by (simp add: sys__exit_def pid_exit_def)
  ultimately show ?thesis using st2 ks3(2) by auto
qed

lemma sys_exit_inv:
  assumes inv: "u_inv winv M K bk log st" and run: "runs_user c t p st" "bk (unat t) = None" "c_spinlocks (cpus (u_ks st) ! c) = 0"
  shows "\<exists>st' a pp b. sys__exit E oob c status st = Some st' \<and> u_inv winv M K bk (Exited (p_pid st p) status # log) st' \<and>
    p_addrspace (u_w st) p = Some a \<and> as_heap (u_vm st') = (as_heap (u_vm st))(a := None) \<and> p_name st' = (p_name st)(p := None) \<and>
    fd_t (u_fs st') = (fd_t (u_fs st))(p := None) \<and> p_cwd (u_w st') = (p_cwd (u_w st))(p := None) \<and> p_addrspace (u_w st') = (p_addrspace (u_w st))(p := None) \<and>
    procs (u_ks st') = (procs (u_ks st))(t := None) \<and>
    pid_table (u_pids st') (p_pid st p) = Some b \<and> pps (u_pids st') b = Some pp \<and> pid_exited pp \<noteq> 0 \<and> pid_estatus pp = status"
proof -
  note D = u_invD [OF inv] and R = runs_userD [OF run(1)]
  note P = p_invD [OF D(4)]
  obtain a as where a: "p_addrspace (u_w st) p = Some a" "as_heap (u_vm st) a = Some as" using D(7) [OF R(4,5)] by (auto simp: user_ok_def)
  let ?m = "u_pm st bk log" and ?log = "Exited (p_pid st p) status # log"
  have live: "live ?m (unat t) = Some (p_pid st p)" "p_pid st p \<noteq> PID_BOOT" using R(7) D(8) [of t] by auto
  then obtain b pp where b: "pid_table (u_pids st) (p_pid st p) = Some b" "pps (u_pids st) b = Some pp" using P(10) by fastforce
  obtain q where q: "pid_cv pp = Some q" using P(8) b(2) by fastforce
  have rng: "0 \<le> p_pid st p" "p_pid st p \<le> int PID_MAX" using P(6) b(1) by fastforce+
  have lock: "pt_lock (u_pids st) = Some None" using P(1) by simp
  let ?pds = "(u_pids st)\<lparr>pps := (pps (u_pids st))(b \<mapsto> pp\<lparr>pid_exited := 1, pid_estatus := status, pid_cv := Some []\<rparr>)\<rparr>"
  have pds: "pid_exit_table (unat t) (p_pid st p) status (u_pids st) = Some ?pds" by (rule pid_exit_eq [OF lock rng b q])
  from sys_exit_eq [OF inv run(1,3) pds a(1)] obtain st' where st': "sys__exit E oob c status st = Some st'" "mach_inv (M, K, u_ks st')" "file_idle winv (u_fs st')"
    "u_vm st' = as_destroy a (u_vm st)" "u_pids st' = ?pds" "p_name st' = (p_name st)(p := None)" "p_pid st' = p_pid st" "kproc st' = kproc st"
    "fd_t (u_fs st') = (fd_t (u_fs st))(p := None)" "p_cwd (u_w st') = (p_cwd (u_w st))(p := None)" "p_addrspace (u_w st') = (p_addrspace (u_w st))(p := None)"
    "procs (u_ks st') = (procs (u_ks st))(t := None)" "p_numthreads (u_ks st') = (p_numthreads (u_ks st))(p := None)" by blast
  have only: "procs (u_ks st) v = Some p \<longleftrightarrow> v = t" for v using same_user [OF inv R(4) _ R(5), of v] R(4) by blast
  have up: "user_pid st' = (user_pid st)(t := None)"
    by (rule ext) (simp add: user_pid_def st'(7,8,12) split: option.split)
  have "pid_may (AExit (unat t) status) ?m" using live run(2) by simp
  from exit_keeps [OF D(4) this] live(1) pds have "p_inv (?m\<lparr>ps := ?pds, live := (live ?m)(unat t := None), plog := ?log\<rparr>)" by simp
  moreover have "?m\<lparr>ps := ?pds, live := (live ?m)(unat t := None), plog := ?log\<rparr> = u_pm st' bk ?log" by (simp add: u_pm_def st'(5) up word_map_upd)
  ultimately have "p_inv (u_pm st' bk ?log)" by simp
  moreover have "vm_ok (u_vm st')" using as_destroy_vm_ok [OF D(3)] st'(4) by simp
  moreover have only_a: "r = p" if "p_addrspace (u_w st) r = Some a" for r using D(5) a(1) that by (auto simp: spaces_ok_def)
  then have "spaces_ok st'" using D(5) unfolding spaces_ok_def st'(4,11) by (auto simp: as_destroy_def)
  moreover have "unused_proc st' r" if "p_name st' r = None" for r
  proof (cases "r = p")
    case True
    then show ?thesis using only R(5) by (auto simp: unused_proc_def st'(8-12))
  next
    case False
    then have "unused_proc st r" using D(6) that st'(6) by simp
    then show ?thesis by (auto simp: unused_proc_def st'(8-12))
  qed
  moreover have "user_ok st' r" if r: "procs (u_ks st') v = Some r" "kproc st' \<noteq> Some r" for v r
  proof -
    have "procs (u_ks st) v = Some r" "v \<noteq> t" using r(1) by (auto simp: st'(12) split: if_splits)
    moreover from this have rp: "r \<noteq> p" using only by auto
    ultimately have "user_ok st r" using D(7) r(2) st'(8) by simp
    moreover have "p_addrspace (u_w st) r \<noteq> Some a" using rp only_a [of r] by blast
    ultimately show ?thesis using rp unfolding user_ok_def st'(4,9,11,13) by (auto simp: as_destroy_def)
  qed
  moreover have "user_pid st' v \<noteq> Some PID_BOOT" for v using D(8) [of v] up by simp
  ultimately have "u_inv winv M K bk ?log st'" using st'(2,3) by (simp add: u_inv_def)
  with st' a(1) b(1) show ?thesis by (simp add: as_destroy_def)
qed

lemma u_inv_mach: "u_inv winv M K bk log st \<Longrightarrow> u_inv winv M K bk log (on_uw (\<lambda>w. w\<lparr>k_mach := km\<rparr>) st)"
proof -
  assume inv: "u_inv winv M K bk log st"
  note D = u_invD [OF inv]
  let ?st = "on_uw (\<lambda>w. w\<lparr>k_mach := km\<rparr>) st"
  have "u_pm ?st bk log = u_pm st bk log" "user_pid ?st = user_pid st" by (rule u_pm_cong user_pid_cong; simp add: on_uw_def)+
  moreover have "file_idle winv (u_fs ?st)" using file_inv_mach [OF D(2), of km] by (simp add: on_uw_def)
  moreover have "spaces_ok ?st" "\<And>p. unused_proc ?st p = unused_proc st p" "\<And>p. user_ok ?st p = user_ok st p"
    using D(5) by (simp_all add: spaces_ok_def unused_proc_def user_ok_def on_uw_def)
  moreover have "p_name ?st = p_name st" "u_ks ?st = u_ks st" "u_vm ?st = u_vm st" "kproc ?st = kproc st" by (simp_all add: on_uw_def)
  ultimately show ?thesis using D(1,3,4,6-8) unfolding u_inv_def by metis
qed

lemma u_inv_pids:
  assumes "u_inv winv M K bk log st" "p_inv (u_pm (st\<lparr>u_pids := pds\<rparr>) bk' log')"
  shows "u_inv winv M K bk' log' (st\<lparr>u_pids := pds\<rparr>)"
proof -
  note D = u_invD [OF assms(1)]
  let ?st = "st\<lparr>u_pids := pds\<rparr>"
  have "user_pid ?st = user_pid st" by (rule user_pid_cong) simp_all
  moreover have "spaces_ok ?st" "\<And>p. unused_proc ?st p = unused_proc st p" "\<And>p. user_ok ?st p = user_ok st p"
    using D(5) by (simp_all add: spaces_ok_def unused_proc_def user_ok_def)
  ultimately show ?thesis using D(1-3,6-8) assms(2) by (simp add: u_inv_def)
qed

end

section \<open>Waiting\<close>

lemma waitpid_status_mach:
  assumes "mapped estatus 4 (mem (k_mach (u_w st)))"
  shows "\<exists>r km. waitpid_status estatus status pid val st = Some (r, on_uw (\<lambda>w. w\<lparr>k_mach := km\<rparr>) st)"
proof -
  have "length (int_bytes val) = 4" by (simp add: int_bytes_def Let_def)
  with write_bytes_spec [of estatus "int_bytes val" "mem (k_mach (u_w st))"] assms obtain m where "write_bytes estatus (int_bytes val) (mem (k_mach (u_w st))) = Some m" by auto
  then show ?thesis by (auto simp: waitpid_status_def Let_def split: prod.split sum.split)
qed

text \<open>What the wait adds to the history: a child whose entry is gone has been waited for.\<close>

definition wait_log :: "nat \<Rightarrow> int \<Rightarrow> 'f ukern \<Rightarrow> 'f ukern \<Rightarrow> pid_event list \<Rightarrow> pid_event list" where
  "wait_log p pid st st' log =
     (case do { a \<leftarrow> pid_table (u_pids st) pid; pps (u_pids st) a } of
        None \<Rightarrow> log
      | Some pp \<Rightarrow> if pid_table (u_pids st') pid = None then Waited (p_pid st p) pid (pid_estatus pp) # log else log)"

lemma u_pm_upd: "u_pm (st\<lparr>u_pids := pds\<rparr>) bk' log' = (u_pm st bk log)\<lparr>ps := pds, blk := bk', plog := log'\<rparr>"
  using user_pid_cong [of "st\<lparr>u_pids := pds\<rparr>" st] by (simp add: u_pm_def)

lemma wait_ghost:
  assumes inv: "u_inv winv M K bk log st" and t: "user_pid st t = Some (p_pid st p)" and rng: "0 \<le> pid" "pid \<le> int PID_MAX"
    and w: "pid_wait (unat t) pid (p_pid st p) (u_pids st) = Some (r, pds)" and m': "pid_do (AWait (unat t) pid) (u_pm st bk log) = Some m'"
  shows "m' = u_pm (st\<lparr>u_pids := pds\<rparr>) (case r of Blocked a \<Rightarrow> bk(unat t \<mapsto> a) | Done _ \<Rightarrow> bk) (wait_log p pid st (st\<lparr>u_pids := pds\<rparr>) log)"
proof -
  note P = p_invD [OF u_invD(4) [OF inv], simplified]
  have d: "m' = u_pm (st\<lparr>u_pids := pds\<rparr>) (case r of Blocked a \<Rightarrow> bk(unat t \<mapsto> a) | Done _ \<Rightarrow> bk) (case r of Done (Inr v) \<Rightarrow> Waited (p_pid st p) pid v # log | _ \<Rightarrow> log)"
    unfolding u_pm_upd [where st = st and bk = bk and log = log] using m' t w by (auto simp: u_pm_def split: waited.splits sum.splits)
  have "(case r of Done (Inr v) \<Rightarrow> Waited (p_pid st p) pid v # log | _ \<Rightarrow> log) = wait_log p pid st (st\<lparr>u_pids := pds\<rparr>) log"
  proof (cases "pid_table (u_pids st) pid")
    case None
    with pid_wait_none [OF P(1) rng None, of "unat t" "p_pid st p"] w show ?thesis by (simp add: wait_log_def)
  next
    case (Some a)
    obtain pp where pp: "pps (u_pids st) a = Some pp" "pid_id pp = pid" using P(6) [OF Some] by blast
    obtain q where q: "pid_cv pp = Some q" "pid_exited pp \<noteq> 0 \<longrightarrow> q = []" using P(8) [OF pp(1)] by blast
    note ws = pid_wait_some [OF P(1) rng Some pp(1) q(1) pp(2), of "p_pid st p" "unat t"]
    consider "ppid_id pp \<noteq> p_pid st p" | "ppid_id pp = p_pid st p" "pid_exited pp = 0" | "ppid_id pp = p_pid st p" "pid_exited pp \<noteq> 0" by blast
    then show ?thesis using ws w q(2) Some pp(1) by cases (auto simp: wait_log_def)
  qed
  with d show ?thesis by simp
qed

context vnode_layer
begin

lemma waitpid_return_inv:
  assumes "u_inv winv M K bk log st" "mapped estatus 4 (mem (k_mach (u_w st)))"
  shows "\<exists>r' st'. waitpid_return estatus status pid r st = Some (r', st') \<and> u_inv winv M K bk log st' \<and> u_pids st' = u_pids st \<and>
    (case r of Blocked a \<Rightarrow> r' = Inr a | Done (Inl e) \<Rightarrow> r' = Inl (Inl e) | Done (Inr v) \<Rightarrow> \<exists>x. r' = Inl x)"
proof (cases r)
  case (Blocked a)
  with assms(1) show ?thesis by (simp add: waitpid_return_def)
next
  case (Done d)
  then show ?thesis
  proof (cases d)
    case (Inl e)
    with Done assms(1) show ?thesis by (simp add: waitpid_return_def)
  next
    case (Inr v)
    obtain x km where "waitpid_status estatus status pid v st = Some (x, on_uw (\<lambda>w. w\<lparr>k_mach := km\<rparr>) st)" using waitpid_status_mach [OF assms(2)] by blast
    with Done Inr u_inv_mach [OF assms(1), of km] show ?thesis by (simp add: waitpid_return_def on_uw_def)
  qed
qed

lemma sys_waitpid_inv:
  assumes inv: "u_inv winv M K bk log st" and run: "runs_user c t p st" "bk (unat t) = None" and es: "mapped estatus 4 (mem (k_mach (u_w st)))"
  shows "\<exists>r st'. sys_waitpid c estatus pid status options st = Some (r, st') \<and>
    u_inv winv M K (case r of Inr a \<Rightarrow> bk(unat t \<mapsto> a) | Inl _ \<Rightarrow> bk) (wait_log p pid st st' log) st'"
proof (cases "pid < int PID_MIN \<or> pid > int PID_MAX \<or> status \<ge> USERSPACETOP \<or> (options \<noteq> 0 \<and> options \<noteq> WUNTRACED \<and> options \<noteq> WNOHANG)")
  case True
  have "wait_log p pid st st log = log" by (auto simp: wait_log_def split: bind_splits option.split)
  with True inv show ?thesis by (auto simp: sys_waitpid_def)
next
  case False
  note D = u_invD [OF inv] and R = runs_userD [OF run(1)]
  note P = p_invD [OF D(4)]
  let ?m = "u_pm st bk log"
  have may: "pid_may (AWait (unat t) pid) ?m" using False R(7) run(2) by simp
  from wait_keeps [OF D(4) this] obtain m' where m': "pid_do (AWait (unat t) pid) ?m = Some m'" "p_inv m'" by blast
  then obtain r pds where w: "pid_wait (unat t) pid (p_pid st p) (u_pids st) = Some (r, pds)" using R(7) by (auto elim!: bindE)
  let ?st1 = "st\<lparr>u_pids := pds\<rparr>"
  have es1: "mapped estatus 4 (mem (k_mach (u_w ?st1)))" using es by simp
  have lg: "m' = u_pm ?st1 (case r of Blocked a \<Rightarrow> bk(unat t \<mapsto> a) | Done _ \<Rightarrow> bk) (wait_log p pid st ?st1 log)"
    using wait_ghost [OF inv R(7) _ _ w m'(1)] False by simp
  then have "u_inv winv M K (case r of Blocked a \<Rightarrow> bk(unat t \<mapsto> a) | Done _ \<Rightarrow> bk) (wait_log p pid st ?st1 log) ?st1"
    using u_inv_pids [OF inv] m'(2) by simp
  from waitpid_return_inv [OF this es1, of status pid r] obtain r' st' where st': "waitpid_return estatus status pid r ?st1 = Some (r', st')"
    "u_inv winv M K (case r of Blocked a \<Rightarrow> bk(unat t \<mapsto> a) | Done _ \<Rightarrow> bk) (wait_log p pid st ?st1 log) st'" "u_pids st' = pds"
    "case r of Blocked a \<Rightarrow> r' = Inr a | Done (Inl e) \<Rightarrow> r' = Inl (Inl e) | Done (Inr v) \<Rightarrow> \<exists>x. r' = Inl x" by auto
  have "wait_log p pid st ?st1 log = wait_log p pid st st' log" using st'(3) by (simp add: wait_log_def split: option.split)
  moreover have "(case r of Blocked a \<Rightarrow> bk(unat t \<mapsto> a) | Done _ \<Rightarrow> bk) = (case r' of Inr a \<Rightarrow> bk(unat t \<mapsto> a) | Inl _ \<Rightarrow> bk)"
    using st'(4) by (auto split: waited.splits sum.splits)
  ultimately show ?thesis using st'(1,2) False R(3,6) w by (auto simp: sys_waitpid_def)
qed

lemma waitpid_wakeup_inv:
  assumes inv: "u_inv winv M K bk log st" and run: "runs_user c t p st" "bk (unat t) = Some a" "\<not> asleep (unat t) (u_pm st bk log)"
    and pp: "pps (u_pids st) a = Some pp" and es: "mapped estatus 4 (mem (k_mach (u_w st)))"
  shows "\<exists>r st'. waitpid_wakeup t estatus (pid_id pp) status a st = Some (r, st') \<and> u_inv winv M K (bk(unat t := None)) (wait_log p (pid_id pp) st st' log) st'"
proof -
  note D = u_invD [OF inv] and R = runs_userD [OF run(1)]
  let ?m = "u_pm st bk log"
  have "pid_may (AWake (unat t)) ?m" using run(2,3) by simp
  from wake_keeps [OF D(4) this] obtain m' where m': "pid_wait_wakeup (unat t) a (u_pids st) = Some (Done (Inr (pid_estatus pp)), ps m')"
    "pid_do (AWake (unat t)) ?m = Some m'" "p_inv m'" using run(2) pp by auto
  have tb: "pid_table (u_pids st) (pid_id pp) = Some a" using p_invD(7) [OF D(4)] pp by simp
  obtain q where "pid_cv pp = Some q" "pid_exited pp \<noteq> 0 \<longrightarrow> q = []" using p_invD(8) [OF D(4)] pp by fastforce
  have "pid_table pds (pid_id pp) = None" if "pid_wait_wakeup (unat t) a (u_pids st) = Some (r, pds)" for r pds
    using that pp by (auto simp: pid_wait_wakeup_def pid_wait_finish_def pt_acquire_def pt_release_def pid_destroy_def Let_def elim!: bindE)
  then have gone: "pid_table (ps m') (pid_id pp) = None" using m'(1) by blast
  let ?st1 = "st\<lparr>u_pids := ps m'\<rparr>"
  have lg: "wait_log p (pid_id pp) st ?st1 log = Waited (p_pid st p) (pid_id pp) (pid_estatus pp) # log" using tb pp gone by (simp add: wait_log_def)
  have "m' = u_pm ?st1 (bk(unat t := None)) (wait_log p (pid_id pp) st ?st1 log)"
    unfolding lg u_pm_upd [where st = st and bk = bk and log = log] using m'(1,2) run(2) pp R(7) by (auto elim!: bindE)
  then have i1: "u_inv winv M K (bk(unat t := None)) (wait_log p (pid_id pp) st ?st1 log) ?st1" using u_inv_pids [OF inv] m'(3) by metis
  have es1: "mapped estatus 4 (mem (k_mach (u_w ?st1)))" using es by simp
  from waitpid_return_inv [OF i1 es1, of status "pid_id pp" "Done (Inr (pid_estatus pp))"] obtain r' st' where
    "waitpid_return estatus status (pid_id pp) (Done (Inr (pid_estatus pp))) ?st1 = Some (r', st')"
    "u_inv winv M K (bk(unat t := None)) (wait_log p (pid_id pp) st ?st1 log) st'" "u_pids st' = ps m'" by auto
  moreover from this(3) have "wait_log p (pid_id pp) st ?st1 log = wait_log p (pid_id pp) st st' log" by (simp add: wait_log_def split: option.split)
  ultimately show ?thesis using m'(1) by (simp add: waitpid_wakeup_def)
qed

end

section \<open>The machine\<close>

text \<open>
  A step of the system: a system call of the user process that runs on a processor, a waiter that has been woken going on, an operation of the
  thread system, or the process working on its memory. \<open>fn\<close>, \<open>oob\<close> and \<open>estatus\<close> are the kernel addresses and the memory contents
  the calls have as parameters.
\<close>

type_synonym 'f umach = "cpuid set \<times> cpuid set \<times> (nat \<Rightarrow> nat option) \<times> pid_event list \<times> 'f ukern"

inductive u_step :: "('f kern) kenv \<Rightarrow> vaddr \<Rightarrow> (nat \<Rightarrow> int) \<Rightarrow> vaddr \<Rightarrow> 'f umach \<Rightarrow> 'f umach \<Rightarrow> bool" for E fn oob estatus where
  u_fork: "runs_user c t p st \<Longrightarrow> bk (unat t) = None \<Longrightarrow> fork_mem_ok fm st \<Longrightarrow> sys_fork c fm entry tf st = Some (r, st') \<Longrightarrow>
    u_step E fn oob estatus (M, K, bk, log, st) (M, K, bk, case r of Inl _ \<Rightarrow> log | Inr pid \<Rightarrow> Forked (p_pid st p) pid # log, st')"
| u_exit: "runs_user c t p st \<Longrightarrow> bk (unat t) = None \<Longrightarrow> c_spinlocks (cpus (u_ks st) ! c) = 0 \<Longrightarrow> sys__exit E oob c status st = Some st' \<Longrightarrow>
    u_step E fn oob estatus (M, K, bk, log, st) (M, K, bk, Exited (p_pid st p) status # log, st')"
| u_wait: "runs_user c t p st \<Longrightarrow> bk (unat t) = None \<Longrightarrow> mapped estatus 4 (mem (k_mach (u_w st))) \<Longrightarrow>
    sys_waitpid c estatus pid status options st = Some (r, st') \<Longrightarrow>
    u_step E fn oob estatus (M, K, bk, log, st) (M, K, case r of Inr a \<Rightarrow> bk(unat t \<mapsto> a) | Inl _ \<Rightarrow> bk, wait_log p pid st st' log, st')"
| u_wake: "runs_user c t p st \<Longrightarrow> bk (unat t) = Some a \<Longrightarrow> \<not> asleep (unat t) (u_pm st bk log) \<Longrightarrow> pps (u_pids st) a = Some pp \<Longrightarrow>
    mapped estatus 4 (mem (k_mach (u_w st))) \<Longrightarrow> waitpid_wakeup t estatus (pid_id pp) status a st = Some (r, st') \<Longrightarrow>
    u_step E fn oob estatus (M, K, bk, log, st) (M, K, bk(unat t := None), wait_log p (pid_id pp) st st' log, st')"
| u_file: "runs_user c t p st \<Longrightarrow> bk (unat t) = None \<Longrightarrow> call \<noteq> CExit \<Longrightarrow> u_run c st = Some fs \<Longrightarrow> file_call_run E fn oob call fs = Some fs' \<Longrightarrow>
    u_step E fn oob estatus (M, K, bk, log, st) (M, K, bk, log, st\<lparr>u_fs := fs'\<rparr>)"
| u_sched: "c < length (cpus (u_ks st)) \<Longrightarrow> inner cmd \<Longrightarrow> sched_may c cmd (M, K, u_ks st) \<Longrightarrow> sched_exec c cmd (M, K, u_ks st) = Some (M', K', ks) \<Longrightarrow>
    u_step E fn oob estatus (M, K, bk, log, st) (M', K', bk, log, st\<lparr>u_ks := ks\<rparr>)"
| u_user: "u_step E fn oob estatus (M, K, bk, log, st) (M, K, bk, log, on_uw (\<lambda>w. w\<lparr>k_mach := km\<rparr>) st)"

inductive u_reach :: "('f kern) kenv \<Rightarrow> vaddr \<Rightarrow> (nat \<Rightarrow> int) \<Rightarrow> vaddr \<Rightarrow> 'f umach \<Rightarrow> 'f umach \<Rightarrow> bool" for E fn oob estatus m0 where
  u_start: "u_reach E fn oob estatus m0 m0"
| u_more: "u_reach E fn oob estatus m0 m \<Longrightarrow> u_step E fn oob estatus m m' \<Longrightarrow> u_reach E fn oob estatus m0 m'"

fun m_ok :: "('f kern \<Rightarrow> bool) \<Rightarrow> 'f umach \<Rightarrow> bool" where
  "m_ok winv (M, K, bk, log, st) \<longleftrightarrow> u_inv winv M K bk log st"

lemma u_inv_sched:
  assumes "u_inv winv M K bk log st" "mach_inv (M', K', ks)" "procs ks = procs (u_ks st) \<and> p_numthreads ks = p_numthreads (u_ks st)"
  shows "u_inv winv M' K' bk log (st\<lparr>u_ks := ks\<rparr>)"
proof -
  note D = u_invD [OF assms(1)]
  let ?st = "st\<lparr>u_ks := ks\<rparr>"
  have "u_pm ?st bk log = u_pm st bk log" "user_pid ?st = user_pid st" by (rule u_pm_cong user_pid_cong; simp add: assms(3))+
  moreover have "spaces_ok ?st" "\<And>p. unused_proc ?st p = unused_proc st p" "\<And>p. user_ok ?st p = user_ok st p"
    using D(5) assms(3) by (simp_all add: spaces_ok_def unused_proc_def user_ok_def)
  ultimately show ?thesis using D(2-4,6-8) assms(2,3) by (simp add: u_inv_def)
qed

context vnode_layer
begin

lemma u_inv_file:
  assumes "u_inv winv M K bk log st" "runs_user c t p st" "u_run c st = Some fs" "file_call_run E fn oob call fs = Some fs'"
  shows "u_inv winv M K bk log (st\<lparr>u_fs := fs'\<rparr>)"
proof -
  note D = u_invD [OF assms(1)] and R = runs_userD [OF assms(2)]
  have fs: "fs = switch_to p (unat t) (u_fs st)" using assms(3) R(3,6) by (simp add: u_run_def)
  obtain tab where "fd_t (u_fs st) p = Some tab" using D(7) [OF R(4,5)] by (auto simp: user_ok_def)
  then have i: "file_idle winv fs" "fd_t fs (cur fs) = Some tab" using file_inv_switch [OF D(2), of p "unat t"] by (simp_all add: fs switch_to_def)
  from file_call_inv [OF i assms(4)] have f: "file_idle winv fs'" "vfs_same (fs_w fs) (fs_w fs')" "dom (fd_t fs') = dom (fd_t (u_fs st))"
    by (simp_all add: fs switch_to_def)
  have w: "p_cwd (fs_w fs') = p_cwd (u_w st)" "p_addrspace (fs_w fs') = p_addrspace (u_w st)" using f(2) by (simp_all add: fs switch_to_def vfs_same_def)
  have n: "fd_t fs' q = None \<longleftrightarrow> fd_t (u_fs st) q = None" for q using f(3) by (metis domIff)
  let ?st = "st\<lparr>u_fs := fs'\<rparr>"
  have "u_pm ?st bk log = u_pm st bk log" "user_pid ?st = user_pid st" by (rule u_pm_cong user_pid_cong; simp)+
  moreover have "spaces_ok ?st" "\<And>p. unused_proc ?st p = unused_proc st p" "\<And>p. user_ok ?st p = user_ok st p"
    using D(5) w n by (simp_all add: spaces_ok_def unused_proc_def user_ok_def)
  ultimately show ?thesis using D(1,3,4,6-8) f(1) by (simp add: u_inv_def)
qed

lemma u_step_ok: "u_step E fn oob estatus m m' \<Longrightarrow> m_ok winv m \<Longrightarrow> m_ok winv m'"
proof (induction rule: u_step.induct)
  case (u_fork c t p st bk fm entry tf r st' M K log)
  then show ?case using sys_fork_inv [of M K bk log st c t p fm entry tf] by auto
next
  case (u_exit c t p st bk status st' M K log)
  then show ?case using sys_exit_inv [of M K bk log st c t p oob status] by auto
next
  case (u_wait c t p st bk pid status options r st' M K log)
  then show ?case using sys_waitpid_inv [of M K bk log st c t p estatus pid status options] by auto
next
  case (u_wake c t p st bk a log pp status r st' M K)
  then show ?case using waitpid_wakeup_inv [of M K bk log st c t p a pp estatus status] by auto
next
  case (u_file c t p st bk call fs fs' M K log)
  then show ?case using u_inv_file by auto
next
  case (u_sched c st cmd M K M' K' ks bk log)
  then have "mach_inv (M', K', ks)" using sched_step_ok [of "(M, K, u_ks st)" c cmd] u_invD(1) [of winv M K bk log st] by auto
  with u_sched show ?case using u_inv_sched [of winv M K bk log st M' K' ks] inner_procs [of c cmd M K "u_ks st" M' K' ks] by auto
next
  case (u_user M K bk log st km)
  then show ?case using u_inv_mach by simp
qed

lemma u_reach_ok: "u_reach E fn oob estatus m0 m \<Longrightarrow> m_ok winv m0 \<Longrightarrow> m_ok winv m"
  by (induction rule: u_reach.induct) (use u_step_ok in blast)+

end

end
