(* ===== verification/Proc_Claims.thy ===== *)
theory Proc_Claims
  imports Proc_Machine
begin

text \<open>The properties of the system calls on processes, and of the system as a whole.\<close>

section \<open>A system to run examples on\<close>

text \<open>
  One processor that runs thread 16 of process 1, whose identifier is 2; its child 3 has exited with status 7. The files
  and the memory are those of the examples of File_Props and Dumbvm_Props.
\<close>

definition ex_ks :: sched where
  "ex_ks = (case boot ex_nodes 1 16 [] of None \<Rightarrow> blank ex_nodes 1 | Some s \<Rightarrow> s)"

definition ex_table_pids :: pids where
  "ex_table_pids = \<lparr>pid_table = [2 \<mapsto> 100, 3 \<mapsto> 101],
     pps = [100 \<mapsto> new_pp 2 1, 101 \<mapsto> (new_pp 3 2)\<lparr>pid_exited := 1, pid_estatus := 7\<rparr>], pt_lock = Some None\<rparr>"

definition ex_sys :: "unit ukern" where
  "ex_sys = \<lparr>u_fs = ex_state\<lparr>fs_w := ex_kern\<lparr>p_addrspace := [1 \<mapsto> 0]\<rparr>\<rparr>, u_vm = ex_vm, u_pids = ex_table_pids, u_ks = ex_ks,
     p_name = [1 \<mapsto> ''sh''], p_pid = (\<lambda>_. 2), u_tf = Map.empty, kproc = None\<rparr>"

definition ex_log :: "pid_event list" where
  "ex_log = [Exited 3 7, Forked 2 3, Forked 1 2]"

lemma ex_ks_facts:
  "\<exists>Q. sched_inv {} {} ex_ks Q" "sched.thr ex_ks = [16 \<mapsto> boot_thread 0 (replicate 4 0) 1]" "length (cpus ex_ks) = 1" "Spinlock.curthread 0 ex_ks = Some 16"
  "\<not> c_isidle (cpus ex_ks ! 0)" "c_spinlocks (cpus ex_ks ! 0) = 0" "p_numthreads ex_ks = [1 \<mapsto> 1]"
proof -
  obtain s Q where s: "thread_bootstrap (Some 16) 1 (blank ex_nodes 1) = Some s" "sched_inv {} {} s Q" "length (cpus s) = 1"
    "Spinlock.curthread 0 s = Some 16" "sched.thr s = [16 \<mapsto> boot_thread 0 (replicate 4 0) 1]" "p_numthreads s = [1 \<mapsto> 1]"
    using bootstrap_ok [of 16 1 ex_nodes] by auto
  then have "ex_ks = s" by (simp add: ex_ks_def boot_def)
  with s show "\<exists>Q. sched_inv {} {} ex_ks Q" "sched.thr ex_ks = [16 \<mapsto> boot_thread 0 (replicate 4 0) 1]" "length (cpus ex_ks) = 1" "Spinlock.curthread 0 ex_ks = Some 16"
    "p_numthreads ex_ks = [1 \<mapsto> 1]" by auto
  show "\<not> c_isidle (cpus ex_ks ! 0)" "c_spinlocks (cpus ex_ks ! 0) = 0" by code_simp+
qed

lemma ex_procs: "procs ex_ks = [16 \<mapsto> 1]"
  by (auto simp: procs_def ex_ks_facts(2) boot_thread_def fun_eq_iff)

lemma ex_runs: "runs_user 0 16 1 ex_sys"
  by (simp add: runs_user_def ex_sys_def ex_ks_facts ex_procs)

lemma ex_p_inv: "p_inv (u_pm ex_sys (\<lambda>_. None) ex_log)"
proof -
  have up: "user_pid ex_sys = [16 \<mapsto> 2]" by (auto simp: user_pid_def ex_sys_def ex_procs fun_eq_iff)
  have "word_map (user_pid ex_sys) = [16 \<mapsto> 2]" unfolding up by (simp add: word_map_upd) (auto simp: word_map_def fun_eq_iff)
  then have m: "u_pm ex_sys (\<lambda>_. None) ex_log = \<lparr>ps = ex_table_pids, live = [16 \<mapsto> 2], blk = (\<lambda>_. None), plog = ex_log\<rparr>" by (simp add: u_pm_def ex_sys_def)
  show ?thesis unfolding m p_inv_def table_inv_def waiting_inv_def live_inv_def life_inv_def
    by (auto simp: ex_table_pids_def ex_log_def new_pp_def pid_view_def PID_MIN_def PID_MAX_def)
qed

lemma ex_inv: "u_inv dev_inv {} {} (\<lambda>_. None) ex_log ex_sys"
proof -
  have "file_idle dev_inv (u_fs ex_sys)" using devs.file_idle_as [OF ex_idle, of "[1 \<mapsto> 0]"] by (simp add: ex_sys_def ex_state_def)
  moreover have "spaces_ok ex_sys" by (auto simp: spaces_ok_def ex_sys_def ex_vm_def)
  moreover have "unused_proc ex_sys p" if "p_name ex_sys p = None" for p
    using that by (auto simp: unused_proc_def ex_sys_def ex_state_def ex_kern_def kern0_def ex_procs split: if_splits)
  moreover have "user_ok ex_sys 1" by (simp add: user_ok_def ex_sys_def ex_ks_facts ex_state_def ex_vm_def as_loaded_def ex_as_def)
  moreover have "procs (u_ks ex_sys) t = Some p \<Longrightarrow> p = 1" for t p by (auto simp: ex_sys_def ex_procs split: if_splits)
  moreover have "user_pid ex_sys t \<noteq> Some PID_BOOT" for t by (simp add: user_pid_def ex_sys_def PID_BOOT_def split: option.split)
  moreover have "mach_inv ({}, {}, u_ks ex_sys)" using ex_ks_facts(1) by (simp add: ex_sys_def)
  ultimately show ?thesis using ex_p_inv ex_vm_ok unfolding u_inv_def by (auto simp: ex_sys_def)
qed

text \<open>The memory for a fork: process 2, thread 32, a trapframe at 64.\<close>

definition ex_fm :: fork_mem where
  "ex_fm = \<lparr>fm_tf = Some 64, fm_as = True, fm_proc = Some 2, fm_name = True, fm_pid = Some 102, fm_cv = True, fm_fd = True,
     fm_thread = Some 32, fm_tname = True, fm_stack = Some (replicate 4 0)\<rparr>"

definition ex_tf :: trapframe where
  "ex_tf = \<lparr>tf_vaddr = 0, tf_status = 0xff0c, tf_cause = 0x20, tf_lo = 0, tf_hi = 0, tf_ra = 0x400a00, tf_at = 0, tf_v0 = 0, tf_v1 = 0,
     tf_a0 = 1, tf_a1 = 0x7ffffe00, tf_a2 = 0, tf_a3 = 7, tf_t0 = 0, tf_t1 = 0, tf_t2 = 0, tf_t3 = 0, tf_t4 = 0, tf_t5 = 0, tf_t6 = 0, tf_t7 = 0,
     tf_s0 = 0, tf_s1 = 0, tf_s2 = 0, tf_s3 = 0, tf_s4 = 0, tf_s5 = 0, tf_s6 = 0, tf_s7 = 0, tf_t8 = 0, tf_t9 = 0,
     tf_gp = 0x10008000, tf_sp = 0x7ffffd00, tf_s8 = 0, tf_epc = 0x400100\<rparr>"

lemma ex_pid_next: "pid_next (u_pids ex_sys) = 4"
  by code_simp

lemma ex_fork_mem: "fork_mem_ok ex_fm ex_sys"
  unfolding fork_mem_ok_def ex_pid_next by (simp add: ex_fm_def ex_sys_def ex_ks_facts ex_table_pids_def)

lemma as_size_stack: "as_size as 2 = 73728"
  by (simp add: numeral_2_eq_2)

lemma ex_fork_fits: "fork_fits ex_fm 1 ex_sys"
  by (simp add: fork_fits_def ex_fm_def ex_sys_def ex_state_def ex_vm_def ex_as_def as_size_stack)

section \<open>Fork\<close>

lemma child_execute_eq:
  assumes "u_tf st tfa = Some tf" "Spinlock.curthread c (u_ks st) = Some u" "sched.thr (u_ks st) u = Some th" "t_curspl th = 0" "t_iplhigh_count th = 0"
  shows "child_execute c tfa 0 st = Some (tf\<lparr>tf_v0 := 0, tf_a3 := 0, tf_epc := tf_epc tf + 4\<rparr>)"
  using assms by (simp add: child_execute_def enter_forked_process_def)



section \<open>Exit\<close>



section \<open>The system stays well-formed\<close>

text \<open>Two user processes are apart: they differ in identifier, and no byte of physical memory belongs to pages of both.\<close>

definition procs_apart :: "'f ukern \<Rightarrow> nat \<Rightarrow> nat \<Rightarrow> bool" where
  "procs_apart st p q \<longleftrightarrow> p_pid st p \<noteq> p_pid st q \<and>
     (\<forall>a b as bs va vb x y. p_addrspace (u_w st) p = Some a \<longrightarrow> p_addrspace (u_w st) q = Some b \<longrightarrow>
        as_heap (u_vm st) a = Some as \<longrightarrow> as_heap (u_vm st) b = Some bs \<longrightarrow> page_aligned va \<longrightarrow> page_aligned vb \<longrightarrow>
        fault_paddr as va = Some x \<longrightarrow> fault_paddr bs vb = Some y \<longrightarrow> page_bytes x \<inter> page_bytes y = {})"

lemma inv_apart:
  assumes inv: "u_inv winv M K bk log st" and p: "procs (u_ks st) t = Some p" "kproc st \<noteq> Some p" and q: "procs (u_ks st) u = Some q" "kproc st \<noteq> Some q" and "t \<noteq> u"
  shows "p \<noteq> q \<and> procs_apart st p q"
proof -
  note D = u_invD [OF inv]
  have pq: "p \<noteq> q" using same_user [OF inv q(1) _ q(2)] p(1) \<open>t \<noteq> u\<close> by blast
  have "live (u_pm st bk log) (unat t) = Some (p_pid st p)" "live (u_pm st bk log) (unat u) = Some (p_pid st q)" using p q by (simp_all add: user_pid_def)
  then have pid: "p_pid st p \<noteq> p_pid st q" using p_invD(11) [OF D(4)] \<open>t \<noteq> u\<close> by (metis word_unat_eq_iff)
  have ok: "user_ok st p" "user_ok st q" using D(7) p q by blast+
  have "page_bytes x \<inter> page_bytes y = {}"
    if "p_addrspace (u_w st) p = Some a" "p_addrspace (u_w st) q = Some b" "as_heap (u_vm st) a = Some as" "as_heap (u_vm st) b = Some bs" "page_aligned va" "page_aligned vb"
      "fault_paddr as va = Some x" "fault_paddr bs vb = Some y" for a b as bs va vb x y
  proof -
    have "a \<noteq> b" using D(5) that(1,2) pq by (auto simp: spaces_ok_def)
    moreover have "as_loaded as" "as_loaded bs" using ok that(1-4) by (auto simp: user_ok_def)
    ultimately show ?thesis using pages_disjoint [OF D(3) that(3,4) _ _ that(5-8)] by simp
  qed
  then show ?thesis using pq pid unfolding procs_apart_def by blast
qed


text \<open>After the fork of the example there are two processes.\<close>

lemma ex_forked:
  "\<exists>st'. u_step E fn oob estatus ({}, {}, \<lambda>_. None, ex_log, ex_sys) ({}, {}, \<lambda>_. None, Forked 2 4 # ex_log, st') \<and>
     procs (u_ks st') = [16 \<mapsto> 1, 32 \<mapsto> 2] \<and> kproc st' = None"
proof -
  obtain r st' where r: "sys_fork 0 ex_fm 0x8000 ex_tf ex_sys = Some (r, st')" "\<not> isl r" "u_inv dev_inv {} {} (\<lambda>_. None) (case r of Inl _ \<Rightarrow> ex_log | Inr pid \<Rightarrow> Forked (p_pid ex_sys 1) pid # ex_log) st'"
    "case r of Inl e \<Rightarrow> True | Inr pid \<Rightarrow> pid = pid_next (u_pids ex_sys) \<and> fork_result 0 ex_fm 1 0x8000 ex_tf pid ex_sys st'"
    using devs.sys_fork_inv [OF ex_inv ex_runs refl ex_fork_mem, where entry = "0x8000" and tf = ex_tf] ex_fork_fits
    by (elim exE conjE) (auto split: sum.splits)
  then have f: "r = Inr 4" "fork_result 0 ex_fm 1 0x8000 ex_tf 4 ex_sys st'" by (cases r; simp add: ex_pid_next)+
  have k: "kproc st' = None" using f(2) by (auto simp: fork_result_def ex_sys_def)
  have "procs (u_ks st') = [16 \<mapsto> 1, 32 \<mapsto> 2]"
    using f(2) ex_ks_facts(2) by (auto simp: fork_result_def procs_def ex_sys_def ex_fm_def forked_thread_def boot_thread_def fun_eq_iff)
  moreover have "p_pid ex_sys 1 = 2" by (simp add: ex_sys_def)
  ultimately show ?thesis using u_fork [OF ex_runs refl ex_fork_mem r(1), of E fn oob estatus "{}" "{}" ex_log] f(1) k by auto
qed


section \<open>Waiting for a child\<close>

text \<open>An \<^verbatim>\<open>int\<close> as a program reads it from memory.\<close>

definition bytes_int :: "byte list \<Rightarrow> int" where
  "bytes_int bs = sint (foldl (\<lambda>w b. push_bit 8 w OR ucast b) (0 :: u32) bs)"

lemma bytes_int_bytes:
  assumes "- (2 ^ 31) \<le> v" "v < 2 ^ 31"
  shows "bytes_int (int_bytes v) = v"
proof -
  have "foldl (\<lambda>w b. push_bit 8 w OR ucast b) (0 :: u32) (int_bytes v) = of_int v"
    by (rule bit_word_eqI) (auto simp: int_bytes_def Let_def bit_simps not_le not_less)
  then show ?thesis using assms by (simp add: bytes_int_def signed_of_int signed_take_bit_int_eq_self)
qed

lemma copyout_delivers:
  assumes "2 ^ 31 \<le> unat src" "unat src + unat len \<le> 2 ^ 32" "0 < unat len" "unat dst + unat len \<le> 2 ^ 31" "mapped src (unat len) (mem s)" "mapped dst (unat len) (mem s)"
  shows "\<exists>s'. copyout src dst len s = (Inr (), s') \<and> copied dst src (unat len) (mem s) (mem s')"
proof -
  have "copycheck dst len = Inr len" using assms(3,4) by (simp add: copycheck_full_iff)
  moreover have "region dst (unat len) \<inter> region src (unat len) = {}" using user_kernel_disjoint [OF assms(4,1,2)] by blast
  ultimately show ?thesis using guarded_memcpy_spec [of dst len src s] assms(5,6) by (auto simp: copyout_def)
qed

lemma waitpid_status_delivers:
  assumes "2 ^ 31 \<le> unat estatus" "unat estatus + 4 \<le> 2 ^ 32" "mapped estatus 4 (mem (k_mach (u_w st)))"
    and "status \<noteq> 0" "unat status + 4 \<le> 2 ^ 31" "mapped status 4 (mem (k_mach (u_w st)))"
  shows "\<exists>km. waitpid_status estatus status pid v st = Some (Inr pid, on_uw (\<lambda>w. w\<lparr>k_mach := km\<rparr>) st) \<and> read_bytes 4 status (mem km) = Some (int_bytes v)"
proof -
  let ?m = "mem (k_mach (u_w st))"
  have len: "length (int_bytes v) = 4" by (simp add: int_bytes_def Let_def)
  with write_bytes_spec [of estatus "int_bytes v" ?m] assms(3) obtain m where m: "write_bytes estatus (int_bytes v) ?m = Some m"
    "\<forall>i<4. m (estatus + of_nat i) = Some (int_bytes v ! i)" by auto
  let ?km = "(k_mach (u_w st))\<lparr>mem := m\<rparr>"
  have "mapped estatus 4 (mem ?km)" "mapped status 4 (mem ?km)" using assms(3,6) write_bytes_dom [OF m(1)] by (simp_all add: mapped_def)
  with copyout_delivers [of estatus 4 status ?km] assms(1,2,5) obtain km where km: "copyout estatus status 4 ?km = (Inr (), km)" "copied status estatus 4 m (mem km)" by auto
  have "read_bytes 4 status (mem km) = Some (int_bytes v)" using km(2) m(2) len by (simp add: read_bytes_Some_iff copied_def)
  with m(1) km(1) assms(4) show ?thesis by (auto simp: waitpid_status_def Let_def)
qed


definition ex_mach :: Copyinout.mach where
  "ex_mach = \<lparr>mem = [16 \<mapsto> 0, 17 \<mapsto> 0, 18 \<mapsto> 0, 19 \<mapsto> 0, 0x80000010 \<mapsto> 0, 0x80000011 \<mapsto> 0, 0x80000012 \<mapsto> 0, 0x80000013 \<mapsto> 0], tm_badfaultfunc = False\<rparr>"


end
