(* ===== verification/Spec2Isabelle.thy ===== *)
theory Spec2Isabelle
  imports File_Props Dumbvm_Props Sched_Claims Synch_Claims Proc_Claims
begin

text \<open>
  A verification development for the OS/161 kernel with the file and process system calls of this
  repository (\<^verbatim>\<open>src/kern\<close>, \<^verbatim>\<open>src/common/libc\<close>).

  \<^bold>\<open>The program.\<close> The kernel runs on a MIPS processor, or several, with a software-loaded TLB. User processes enter it
  through system calls: those on files (\<^verbatim>\<open>kern/syscall/file.c\<close>, \<^verbatim>\<open>file_syscalls.c\<close>) work on one table of open files and on a
  table of descriptors per process, and reach devices and file systems through vnodes (\<^verbatim>\<open>kern/vfs\<close>); those on processes
  work on the table of process identifiers (\<^verbatim>\<open>kern/thread/pid.c\<close>). User memory is read and written through
  \<^verbatim>\<open>copyin\<close>, \<^verbatim>\<open>copyout\<close> and \<^verbatim>\<open>uiomove\<close> (\<^verbatim>\<open>kern/vm\<close>, \<^verbatim>\<open>kern/lib/uio.c\<close>) and given out by dumbvm
  (\<^verbatim>\<open>kern/arch/mips/vm\<close>). Below all this are the threads, run queues, wait channels and spinlocks of
  \<^verbatim>\<open>kern/thread\<close>, and the semaphores, locks and condition variables of \<^verbatim>\<open>synch.c\<close> built on them.

  \<^bold>\<open>Conventions.\<close> A kernel function is a function on an explicit state that returns an \<open>option\<close>: \<open>None\<close> is a call that does
  not return, because an assertion fails, a null or stale pointer is followed or a fault has no handler. Error codes are \<open>Inl e\<close> of a
  sum type. Machine integers are words of their width; the descriptors, process
  identifiers and reference counts, which stay small, are \<open>int\<close>. Memory that may or may not be granted is an argument of the operation that
  asks for it, so every theorem holds whichever allocations fail.

  \<^bold>\<open>Theories.\<close>

  \<^item> \<^verbatim>\<open>Kern_Prelude\<close>: error codes, limits and shared types; the rules for \<open>option\<close> programs.
  \<^item> \<^verbatim>\<open>Kmem\<close>, \<^verbatim>\<open>Copyinout\<close>, \<^verbatim>\<open>Uio\<close>: the memory functions of libc by words and bytes, copying between user and kernel memory
    with its fault recovery, and \<^verbatim>\<open>struct uio\<close>. \<open>memmove\<close> is right for every overlap; \<open>copyout\<close> changes no
    kernel memory whatever address it is given; \<open>copyin\<close> and \<open>copyinstr\<close> give the user's bytes or the right error;
    \<open>uiomove\<close> accounts for exactly what it moves.
  \<^item> \<^verbatim>\<open>Array_Lib\<close>: \<^verbatim>\<open>kern/lib/array.c\<close> against lists.
  \<^item> \<^verbatim>\<open>Kernel_State\<close>, \<^verbatim>\<open>Console\<close>, \<^verbatim>\<open>Device\<close>, \<^verbatim>\<open>Vfslist\<close>, \<^verbatim>\<open>Vfs\<close>, \<^verbatim>\<open>Vfs_Refs\<close>: the state of the VFS side as the record
    \<open>kern\<close>, the console and null devices, the list of named devices, path lookup and the operations on path names. The locale
    \<open>vnode_layer\<close> is what the VFS layer relies on in the operations behind a vnode; it is interpreted on the
    operations of the devices.
  \<^item> \<^verbatim>\<open>File\<close>, \<^verbatim>\<open>File_Inv\<close>, \<^verbatim>\<open>File_Props\<close>: the open file table, the descriptor tables and the file system calls, proved against any
    vnode layer. Reference counts equal the number of descriptors over any sequence of calls; each call is
    characterised on every branch.
  \<^item> \<^verbatim>\<open>Dumbvm\<close>, \<^verbatim>\<open>Dumbvm_Inv\<close>, \<^verbatim>\<open>Dumbvm_Props\<close>: physical memory, address spaces and the TLB. Different user pages never share memory; copying an
    address space copies its contents; a fault enters the right translation; the bounds of the page allocator.
  \<^item> \<^verbatim>\<open>Threadlist\<close>: linked thread lists refined to lists.
  \<^item> \<^verbatim>\<open>Spinlock\<close>, \<^verbatim>\<open>Thread\<close>, \<^verbatim>\<open>Thread_Inv\<close>, \<^verbatim>\<open>Sched_Inv\<close>, \<^verbatim>\<open>Sched_Props\<close>, \<^verbatim>\<open>Migration\<close>, \<^verbatim>\<open>Sched_Machine\<close>, \<^verbatim>\<open>Sched_Claims\<close>:
    interrupt levels, spinlocks, threads, the context switch, wait channels, migration and interprocessor interrupts, on
    any number of processors. \<open>sched_exec\<close> executes one operation on one processor, \<open>sched_may\<close> says when the callers may make it, and
    \<open>sched_reach\<close> are the states from the boot on. Every operation of a reachable state runs through, a thread is in
    exactly one place, interrupts are off under spinlocks, and wakeups and migration lose no thread.
  \<^item> \<^verbatim>\<open>Synch\<close>, \<^verbatim>\<open>Synch_Props\<close>, \<^verbatim>\<open>Synch_Machine\<close>, \<^verbatim>\<open>Synch_Claims\<close>: \<^verbatim>\<open>synch.c\<close> on that thread system, cut into steps where a call gives up
    the processor, refined to counts, holders and queues; mutual exclusion, the conservation law of semaphores and
    that no wakeup is lost.
  \<^item> \<^verbatim>\<open>Pid\<close>, \<^verbatim>\<open>Pid_Props\<close>: \<^verbatim>\<open>pid.c\<close> and the life of every process identifier from fork through exit to wait.

  \<^bold>\<open>Bounds and termination.\<close> Loops over memory and tables are structural recursions over the indices the C loop visits, or \<open>function\<close>s with
  a measure. Where the C loop has no bound of its own the fuel is the length of a list that each round
  shortens (\<open>wchan_wakeall\<close>, migration), and the theorems show it suffices.

  \<^bold>\<open>Not modelled.\<close> Assembler (exception entry, register save and restore, atomic instructions) is the step it implements. User
  programs, the bus device drivers, \<^verbatim>\<open>emufs\<close>, \<^verbatim>\<open>sfs\<close> and \<^verbatim>\<open>semfs\<close> are not modelled: file systems are parameters behind the
  contract of \<open>vnode_layer\<close>. The deadlock detector is compiled out by default.
\<close>

end
